(* ===== verification/Hopr_Base.thy ===== *)
theory Hopr_Base
  imports Main "HOL-Library.Word" "HOL-Library.Multiset"
begin

text \<open>
  The prelude of the development: the widths of the machine integers the crates use, the
  saturating arithmetic of \<open>HoprBalance\<close> (a 256 bit amount), the result type
  (\<open>Inl\<close> an error, \<open>Inr\<close> a value) with its combinators, and the lemma collections that
  carry the component proofs:
  \<^item> \<open>sat_simps\<close>: saturating words read as natural numbers;
  \<^item> \<open>result_simps\<close>: results and their combinators.
\<close>

named_theorems sat_simps \<open>saturating word arithmetic read as natural numbers\<close>
named_theorems result_simps \<open>results and their combinators\<close>

section \<open>Machine integers\<close>

type_synonym u8 = "8 word"
type_synonym u16 = "16 word"
type_synonym u32 = "32 word"
type_synonym u64 = "64 word"
type_synonym u128 = "128 word"

text \<open>
  \<open>HoprBalance\<close> wraps a 256 bit unsigned integer. The ticket manager relies on its
  arithmetic being saturating (\<open>ticket-manager/src/backend/mod.rs:98\<close> and
  \<open>factory.rs:322\<close> say so).
\<close>

type_synonym balance = "256 word"

definition sat_add :: "'a::len word \<Rightarrow> 'a word \<Rightarrow> 'a word" where
  "sat_add a b = (if unat a + unat b < 2 ^ LENGTH('a) then a + b else - 1)"

definition sat_sub :: "'a::len word \<Rightarrow> 'a word \<Rightarrow> 'a word" where
  "sat_sub a b = (if b \<le> a then a - b else 0)"

definition sat_mul :: "'a::len word \<Rightarrow> 'a word \<Rightarrow> 'a word" where
  "sat_mul a b = (if unat a * unat b < 2 ^ LENGTH('a) then a * b else - 1)"

lemma unat_max_word: "unat (- 1 :: 'a::len word) = 2 ^ LENGTH('a) - 1"
  by (simp add: unsigned_minus_1_eq_mask mask_eq_exp_minus_1)

lemma unat_less_len: "unat (a :: 'a::len word) < 2 ^ LENGTH('a)"
  by (rule unsigned_less)

lemma unat_le_cap: "unat (a :: 'a::len word) \<le> 2 ^ LENGTH('a) - 1"
  using unat_less_len [of a] by linarith

lemma unat_sat_add [sat_simps]:
  fixes a b :: "'a::len word"
  shows "unat (sat_add a b) = min (unat a + unat b) (2 ^ LENGTH('a) - 1)"
  by (auto simp: sat_add_def unat_max_word unat_word_ariths)

lemma unat_sat_sub [sat_simps]: "unat (sat_sub a b) = unat a - unat b"
  by (auto simp: sat_sub_def unat_sub word_le_nat_alt)

lemma unat_sat_mul [sat_simps]:
  fixes a b :: "'a::len word"
  shows "unat (sat_mul a b) = min (unat a * unat b) (2 ^ LENGTH('a) - 1)"
  by (auto simp: sat_mul_def unat_max_word unat_word_ariths)

lemma sat_add_zero [simp]: "sat_add a 0 = a" "sat_add 0 a = a"
  by (auto simp: sat_add_def)

lemma sat_sub_zero [simp]: "sat_sub a 0 = a"
  by (simp add: sat_sub_def)

lemma sat_sub_self [simp]: "sat_sub a a = 0"
  by (simp add: sat_sub_def)

lemma sat_add_commute: "sat_add a b = sat_add b a"
  by (rule word_unat_eq_iff [THEN iffD2]) (simp add: sat_simps add.commute)

lemma min_add_cap: "min (min (a + b) m + c) m = min (a + min (b + c) m) (m :: nat)"
  by (simp add: min_def)

lemma sat_add_assoc: "sat_add (sat_add a b) c = sat_add a (sat_add b c)"
  by (rule word_unat_eq_iff [THEN iffD2]) (simp only: sat_simps min_add_cap)

lemma sat_add_mono: "a \<le> sat_add a b"
  using unat_le_cap [of a] by (simp add: word_le_nat_alt sat_simps)

lemma sat_sub_add_cancel:
  fixes a b :: "'a::len word"
  assumes "unat a + unat b < 2 ^ LENGTH('a)"
  shows "sat_sub (sat_add a b) b = a"
  using assms by (intro word_unat_eq_iff [THEN iffD2]) (simp add: sat_simps)

lemma sat_sub_le: "sat_sub a b \<le> a"
  by (simp add: word_le_nat_alt sat_simps)

text \<open>The saturating sum of a list: Rust's \<open>Iterator::sum\<close> over balances.\<close>

definition sat_sum :: "'a::len word list \<Rightarrow> 'a word" where
  "sat_sum xs = foldl sat_add 0 xs"

lemma foldl_sat_add: "foldl sat_add a xs = sat_add a (sat_sum xs)"
proof (induction xs arbitrary: a)
  case Nil
  then show ?case by (simp add: sat_sum_def)
next
  case (Cons x xs)
  have "foldl sat_add a (x # xs) = sat_add (sat_add a x) (sat_sum xs)"
    by (simp add: Cons.IH)
  also have "\<dots> = sat_add a (sat_add x (sat_sum xs))" by (rule sat_add_assoc)
  also have "sat_add x (sat_sum xs) = sat_sum (x # xs)"
    using Cons.IH [of x] by (simp add: sat_sum_def)
  finally show ?case .
qed

lemma sat_sum_Nil [simp]: "sat_sum [] = 0"
  by (simp add: sat_sum_def)

lemma sat_sum_Cons [simp]: "sat_sum (x # xs) = sat_add x (sat_sum xs)"
  using foldl_sat_add [of x xs] by (simp add: sat_sum_def)

lemma unat_sat_sum [sat_simps]:
  fixes xs :: "'a::len word list"
  shows "unat (sat_sum xs) = min (\<Sum>x\<leftarrow>xs. unat x) (2 ^ LENGTH('a) - 1)"
proof (induction xs)
  case (Cons x xs)
  have "\<And>u s m. u \<le> m \<Longrightarrow> min (u + min s m) m = min (u + s) (m :: nat)" by (simp add: min_def)
  from this [OF unat_le_cap [of x]] show ?case
    by (simp only: sat_sum_Cons unat_sat_add Cons.IH list.map sum_list.Cons)
qed simp

lemma sat_sum_mset:
  assumes "mset xs = mset ys"
  shows "sat_sum xs = sat_sum ys"
proof -
  have "mset (map unat xs) = mset (map unat ys)" using assms by simp
  then have "(\<Sum>x\<leftarrow>xs. unat x) = (\<Sum>x\<leftarrow>ys. unat x)"
    by (metis sum_mset_sum_list)
  then show ?thesis by (simp add: word_unat_eq_iff sat_simps)
qed

section \<open>Results\<close>

text \<open>A Rust \<open>Result<T, E>\<close> is a value of \<open>'e + 't\<close>.\<close>

type_synonym ('e, 'a) res = "'e + 'a"

definition map_err :: "('e \<Rightarrow> 'f) \<Rightarrow> 'e + 'a \<Rightarrow> 'f + 'a" where
  "map_err f r = (case r of Inl e \<Rightarrow> Inl (f e) | Inr x \<Rightarrow> Inr x)"

definition map_ok :: "('a \<Rightarrow> 'b) \<Rightarrow> 'e + 'a \<Rightarrow> 'e + 'b" where
  "map_ok f r = (case r of Inl e \<Rightarrow> Inl e | Inr x \<Rightarrow> Inr (f x))"

definition and_then :: "'e + 'a \<Rightarrow> ('a \<Rightarrow> 'e + 'b) \<Rightarrow> 'e + 'b" where
  "and_then r f = (case r of Inl e \<Rightarrow> Inl e | Inr x \<Rightarrow> f x)"

definition is_ok :: "'e + 'a \<Rightarrow> bool" where
  "is_ok r = (case r of Inl _ \<Rightarrow> False | Inr _ \<Rightarrow> True)"

text \<open>\<open>res.ok()\<close> drops the error.\<close>

definition res_ok :: "'e + 'a \<Rightarrow> 'a option" where
  "res_ok r = (case r of Inl _ \<Rightarrow> None | Inr x \<Rightarrow> Some x)"

text \<open>\<open>opt.ok_or(e)\<close>.\<close>

definition ok_or :: "'e \<Rightarrow> 'a option \<Rightarrow> 'e + 'a" where
  "ok_or e r = (case r of None \<Rightarrow> Inl e | Some x \<Rightarrow> Inr x)"

text \<open>\<open>opt.unwrap_or(d)\<close>.\<close>

definition unwrap_or :: "'a \<Rightarrow> 'a option \<Rightarrow> 'a" where
  "unwrap_or d r = (case r of None \<Rightarrow> d | Some x \<Rightarrow> x)"

lemma result_defs_simps [simp, result_simps]:
  "map_err f (Inl e) = Inl (f e)" "map_err f (Inr x) = Inr x"
  "map_ok g (Inl e') = Inl e'" "map_ok g (Inr y) = Inr (g y)"
  "and_then (Inl e'') h = Inl e''" "and_then (Inr z) h = h z"
  "is_ok (Inl e''') = False" "is_ok (Inr u) = True"
  "res_ok (Inl e4) = None" "res_ok (Inr v) = Some v"
  "ok_or d None = Inl d" "ok_or d (Some s) = Inr s"
  "unwrap_or k None = k" "unwrap_or k (Some l) = l"
  by (simp_all add: map_err_def map_ok_def and_then_def is_ok_def res_ok_def ok_or_def unwrap_or_def)

lemma map_err_Inr_iff [simp]: "map_err f r = Inr x \<longleftrightarrow> r = Inr x"
  by (cases r) auto

lemma and_then_Inr_iff: "and_then r f = Inr y \<longleftrightarrow> (\<exists>x. r = Inr x \<and> f x = Inr y)"
  by (cases r) auto

lemma is_ok_iff: "is_ok r \<longleftrightarrow> (\<exists>x. r = Inr x)"
  by (cases r) auto

lemma map_filter_res_ok_Inr [simp]: "List.map_filter res_ok (map Inr xs) = xs"
  by (induction xs) (simp_all add: List.map_filter_simps)

section \<open>Lists kept sorted by a natural-number key\<close>

definition strict_sorted_key :: "('a \<Rightarrow> nat) \<Rightarrow> 'a list \<Rightarrow> bool" where
  "strict_sorted_key k xs \<longleftrightarrow> sorted_wrt (\<lambda>a b. k a < k b) xs"

lemma strict_sorted_key_Nil [simp]: "strict_sorted_key k []"
  by (simp add: strict_sorted_key_def)

lemma strict_sorted_key_Cons:
  "strict_sorted_key k (x # xs) \<longleftrightarrow> (\<forall>y\<in>set xs. k x < k y) \<and> strict_sorted_key k xs"
  by (simp add: strict_sorted_key_def)

lemma strict_sorted_key_tl: "strict_sorted_key k xs \<Longrightarrow> strict_sorted_key k (tl xs)"
  by (cases xs) (auto simp: strict_sorted_key_Cons)

lemma strict_sorted_key_insort:
  "strict_sorted_key k xs \<Longrightarrow> k x \<notin> k ` set xs \<Longrightarrow> strict_sorted_key k (insort_key k x xs)"
  by (induction xs) (auto simp: strict_sorted_key_Cons set_insort_key)

lemma strict_sorted_key_distinct: "strict_sorted_key k xs \<Longrightarrow> distinct xs"
  by (induction xs) (auto simp: strict_sorted_key_Cons)

lemma strict_sorted_key_inj:
  "strict_sorted_key k xs \<Longrightarrow> a \<in> set xs \<Longrightarrow> b \<in> set xs \<Longrightarrow> k a = k b \<Longrightarrow> a = b"
  by (induction xs) (auto simp: strict_sorted_key_Cons)

lemma strict_sorted_key_sorted: "strict_sorted_key k xs \<Longrightarrow> sorted (map k xs) \<and> distinct (map k xs)"
  by (induction xs) (force simp: strict_sorted_key_Cons)+

lemma strict_sorted_key_unique:
  assumes "strict_sorted_key k xs" "strict_sorted_key k ys" "mset xs = mset ys"
  shows "xs = ys"
proof -
  have "mset (map k xs) = mset (map k ys)" using assms(3) by simp
  then have m: "map k xs = map k ys"
    using strict_sorted_key_sorted [OF assms(1)] strict_sorted_key_sorted [OF assms(2)]
    by (metis properties_for_sort)
  have "inj_on k (set xs \<union> set ys)"
    using mset_eq_setD [OF assms(3)] strict_sorted_key_inj [OF assms(1)] by (auto simp: inj_on_def)
  with m show ?thesis by (rule map_inj_on)
qed

end
