(* ===== verification/Ticket_Types.thy ===== *)
theory Ticket_Types
  imports Hopr_Base
begin

text \<open>
  The data the ticket manager works on. Tickets and channel entries are types of the
  \<open>hopr-api\<close> crate, which is not part of the repository: they are modelled by the fields
  \<open>ticket-manager\<close> reads (the accessors \<open>ticket_id().id\<close>, \<open>verified_ticket()\<close>,
  \<open>channel_epoch\<close>, \<open>index\<close>, \<open>amount\<close>, \<open>get_id()\<close>, \<dots>) and an opaque rest, so that two
  tickets that agree on every field read can still differ. The natural order of tickets is
  a parameter \<open>le\<close> constrained by the contract the crate documents (by epoch and index).
\<close>

section \<open>Identifiers\<close>

type_synonym channel_id = nat
type_synonym address = nat

section \<open>Tickets\<close>

record verified_ticket =
  vt_channel :: channel_id
  vt_epoch :: u32
  vt_index :: u64
  vt_amount :: balance
  vt_rest :: nat

record redeemable_ticket =
  rt_ticket :: verified_ticket
  rt_response :: nat

abbreviation epoch_of :: "redeemable_ticket \<Rightarrow> u32" where
  "epoch_of t \<equiv> vt_epoch (rt_ticket t)"

abbreviation index_of :: "redeemable_ticket \<Rightarrow> u64" where
  "index_of t \<equiv> vt_index (rt_ticket t)"

abbreviation amount_of :: "redeemable_ticket \<Rightarrow> balance" where
  "amount_of t \<equiv> vt_amount (rt_ticket t)"

abbreviation channel_of :: "redeemable_ticket \<Rightarrow> channel_id" where
  "channel_of t \<equiv> vt_channel (rt_ticket t)"

text \<open>
  Within one channel a ticket is identified by its epoch and index. The key puts the epoch
  first; it is the position of the ticket in the natural order.
\<close>

definition tkey :: "redeemable_ticket \<Rightarrow> nat" where
  "tkey t = unat (epoch_of t) * 2 ^ 64 + unat (index_of t)"

lemma unat_u64_less: "unat (x :: u64) < 18446744073709551616"
  using unat_less_len [of x] by simp

lemma tkey_less_iff:
  "tkey s < tkey t \<longleftrightarrow>
     epoch_of s < epoch_of t \<or> epoch_of s = epoch_of t \<and> index_of s < index_of t"
proof -
  have "unat (index_of s) < 2 ^ 64" "unat (index_of t) < 2 ^ 64"
    using unat_u64_less by simp_all
  then show ?thesis
    by (auto simp: tkey_def word_less_nat_alt word_unat_eq_iff)
qed

lemma tkey_eq_iff: "tkey s = tkey t \<longleftrightarrow> epoch_of s = epoch_of t \<and> index_of s = index_of t"
proof
  assume "tkey s = tkey t"
  then have "\<not> tkey s < tkey t" "\<not> tkey t < tkey s" by simp_all
  then show "epoch_of s = epoch_of t \<and> index_of s = index_of t"
    by (auto simp: tkey_less_iff)
qed (simp add: tkey_def)

lemma tkey_less_same_epoch:
  "epoch_of s = epoch_of t \<Longrightarrow> tkey s < tkey t \<longleftrightarrow> index_of s < index_of t"
  by (simp add: tkey_less_iff)

lemma tkey_less_epoch_le: "tkey s < tkey t \<Longrightarrow> epoch_of s \<le> epoch_of t"
  by (auto simp: tkey_less_iff)

text \<open>
  The contract of \<open>Ord\<close> for \<open>RedeemableTicket\<close>: a linear order that follows the key. On
  equal keys it is free.
\<close>

locale natural_order =
  fixes le :: "redeemable_ticket \<Rightarrow> redeemable_ticket \<Rightarrow> bool"
  assumes le_total: "le s t \<or> le t s"
    and le_trans: "le s t \<Longrightarrow> le t u \<Longrightarrow> le s u"
    and le_key: "tkey s < tkey t \<Longrightarrow> le s t \<and> \<not> le t s"
begin

lemma le_refl: "le t t"
  using le_total [of t t] by simp

lemma le_imp_key_le: "le s t \<Longrightarrow> tkey s \<le> tkey t"
  using le_key [of t s] by (metis leI)

lemma le_iff_key: "tkey s \<noteq> tkey t \<Longrightarrow> le s t \<longleftrightarrow> tkey s < tkey t"
  using le_key [of s t] le_key [of t s] by (metis nat_neq_iff)

end

text \<open>A concrete order of this kind: the key alone.\<close>

definition ticket_le :: "redeemable_ticket \<Rightarrow> redeemable_ticket \<Rightarrow> bool" where
  "ticket_le s t \<longleftrightarrow> tkey s \<le> tkey t"

interpretation ticket_le: natural_order ticket_le
  by unfold_locales (auto simp: ticket_le_def)

section \<open>Channels\<close>

datatype channel_status = Open | PendingToClose nat | Closed

record channel_entry =
  ch_id :: channel_id
  ch_destination :: address
  ch_balance :: balance
  ch_ticket_index :: u64
  ch_status :: channel_status
  ch_epoch :: u32

section \<open>Errors\<close>

text \<open>\<open>TicketManagerError\<close>; the payloads are the errors of the store and of the chain client.\<close>

datatype ('e, 'c) tm_error =
    ChannelQueueNotFound
  | AlreadyRedeeming
  | OutOfFunds channel_id balance
  | RedeemError 'c
  | StoreError 'e
  | OtherError string

end
