(* ===== verification/Ticket_Queue.thy ===== *)
theory Ticket_Queue
  imports Ticket_Types
begin

text \<open>
  The storage interfaces of the ticket manager (\<open>ticket-manager/src/traits.rs\<close>). A Rust
  trait is a record of its methods. A queue object is a handle \<open>'q\<close>; what it refers to
  (the shared heap of the memory store, the database file) is the world \<open>'w\<close>, so two
  handles on one queue see each other's changes, as they do in the code. A method takes
  the handle and the world and returns its result with the handle and the world after it.
  The locale \<open>ticket_queue\<close> states what a provider promises and derives what the clients use.
\<close>

section \<open>The traits\<close>

record ('q, 'w, 'e) queue_ops =
  q_len :: "'q \<Rightarrow> 'w \<Rightarrow> 'e + nat"
  q_is_empty :: "'q \<Rightarrow> 'w \<Rightarrow> 'e + bool"
  q_push :: "redeemable_ticket \<Rightarrow> 'q \<Rightarrow> 'w \<Rightarrow> ('e + unit) \<times> 'q \<times> 'w"
  q_pop :: "'q \<Rightarrow> 'w \<Rightarrow> ('e + redeemable_ticket option) \<times> 'q \<times> 'w"
  q_peek :: "'q \<Rightarrow> 'w \<Rightarrow> 'e + redeemable_ticket option"
  q_iter_unordered :: "'q \<Rightarrow> 'w \<Rightarrow> 'e + ('e + redeemable_ticket) list"

text \<open>
  \<open>default_total_value\<close>: the sum over the tickets that can be read, of the given epoch and
  from the given index on; unreadable tickets are skipped.
\<close>

definition counted :: "u32 \<Rightarrow> u64 option \<Rightarrow> redeemable_ticket \<Rightarrow> bool" where
  "counted epoch min_index t \<longleftrightarrow> epoch_of t = epoch \<and> index_of t \<ge> unwrap_or 0 min_index"

definition default_total_value ::
    "('q, 'w, 'e) queue_ops \<Rightarrow> u32 \<Rightarrow> u64 option \<Rightarrow> 'q \<Rightarrow> 'w \<Rightarrow> 'e + balance" where
  "default_total_value ops epoch min_index q w =
     map_ok (\<lambda>rs. sat_sum (map amount_of (filter (counted epoch min_index) (List.map_filter res_ok rs))))
       (q_iter_unordered ops q w)"

text \<open>
  \<open>TicketQueue::drain\<close>: pops until the queue is empty. Over an arbitrary provider the loop
  may run forever, which is the value \<open>None\<close>.
\<close>

partial_function (option) drain_loop ::
    "('q, 'w, 'e) queue_ops \<Rightarrow> verified_ticket list \<Rightarrow> 'q \<Rightarrow> 'w
      \<Rightarrow> (('e + verified_ticket list) \<times> 'q \<times> 'w) option" where
  "drain_loop ops tickets q w =
     (case q_pop ops q w of (r, q', w') \<Rightarrow>
       (case r of
          Inl e \<Rightarrow> Some (Inl e, q', w')
        | Inr None \<Rightarrow> Some (Inr tickets, q', w')
        | Inr (Some t) \<Rightarrow> drain_loop ops (tickets @ [rt_ticket t]) q' w'))"

definition drain ::
    "('q, 'w, 'e) queue_ops \<Rightarrow> 'q \<Rightarrow> 'w \<Rightarrow> (('e + verified_ticket list) \<times> 'q \<times> 'w) option" where
  "drain ops q w = drain_loop ops [] q w"

text \<open>
  A loop the manager and the inspector share: pop while the head of the queue satisfies a
  condition. Each caller's loop is an instance (the neglect loop, the clean-up loop of the
  synchronisation, the deletion loop of the inspector).
\<close>

partial_function (option) pop_while ::
    "('q, 'w, 'e) queue_ops \<Rightarrow> (redeemable_ticket \<Rightarrow> bool) \<Rightarrow> redeemable_ticket list \<Rightarrow> 'q \<Rightarrow> 'w
      \<Rightarrow> (('e + unit) \<times> redeemable_ticket list \<times> 'q \<times> 'w) option" where
  "pop_while ops P popped q w =
     (case q_peek ops q w of
        Inl e \<Rightarrow> Some (Inl e, popped, q, w)
      | Inr head \<Rightarrow>
          (if \<not> (case head of None \<Rightarrow> False | Some t \<Rightarrow> P t) then Some (Inr (), popped, q, w)
           else (case q_pop ops q w of (r, q', w') \<Rightarrow>
             (case r of
                Inl e \<Rightarrow> Some (Inl e, popped, q', w')
              | Inr ot \<Rightarrow> pop_while ops P (popped @ (case ot of None \<Rightarrow> [] | Some t \<Rightarrow> [t])) q' w'))))"

text \<open>The store traits: \<open>TicketQueueStore\<close> and \<open>OutgoingIndexStore\<close>.\<close>

record ('q, 'w, 'e) store_ops =
  s_queue :: "('q, 'w, 'e) queue_ops"
  s_open :: "channel_id \<Rightarrow> 'w \<Rightarrow> ('e + 'q) \<times> 'w"
  s_delete :: "channel_id \<Rightarrow> 'w \<Rightarrow> (('e + verified_ticket list) \<times> 'w) option"
  s_iter_queues :: "'w \<Rightarrow> 'e + channel_id list"

record ('w, 'e) index_ops =
  i_load :: "channel_id \<Rightarrow> u32 \<Rightarrow> 'w \<Rightarrow> 'e + u64 option"
  i_save :: "channel_id \<Rightarrow> u32 \<Rightarrow> u64 \<Rightarrow> 'w \<Rightarrow> ('e + unit) \<times> 'w"
  i_delete :: "channel_id \<Rightarrow> u32 \<Rightarrow> 'w \<Rightarrow> ('e + unit) \<times> 'w"
  i_iter :: "'w \<Rightarrow> 'e + (channel_id \<times> u32) list"

section \<open>The contract of a ticket queue\<close>

text \<open>
  A provider that does not fail behaves as a list of tickets in the natural order, with
  distinct keys. \<open>room\<close> is what a provider needs of a ticket pushed (a key that is not yet
  in the queue; the value cache needs more).
\<close>

locale ticket_queue =
  fixes ops :: "('q, 'w, 'e) queue_ops"
    and tickets :: "'q \<Rightarrow> 'w \<Rightarrow> redeemable_ticket list"
    and invar :: "'q \<Rightarrow> 'w \<Rightarrow> bool"
    and room :: "redeemable_ticket \<Rightarrow> 'q \<Rightarrow> 'w \<Rightarrow> bool"
  assumes tickets_sorted: "invar q w \<Longrightarrow> strict_sorted_key tkey (tickets q w)"
    and len: "invar q w \<Longrightarrow> q_len ops q w = Inr (length (tickets q w))"
    and is_empty: "invar q w \<Longrightarrow> q_is_empty ops q w = Inr (tickets q w = [])"
    and peek: "invar q w \<Longrightarrow> q_peek ops q w =
      Inr (case tickets q w of [] \<Rightarrow> None | t # ts \<Rightarrow> Some t)"
    and pop: "invar q w \<Longrightarrow> q_pop ops q w = (r, q', w') \<Longrightarrow>
      r = Inr (case tickets q w of [] \<Rightarrow> None | t # ts \<Rightarrow> Some t) \<and>
      tickets q' w' = tl (tickets q w) \<and> invar q' w'"
    and push: "invar q w \<Longrightarrow> room t q w \<Longrightarrow> q_push ops t q w = (pr, q', w') \<Longrightarrow>
      pr = Inr () \<and> tickets q' w' = insort_key tkey t (tickets q w) \<and> invar q' w'"
    and room_fresh: "invar q w \<Longrightarrow> room t q w \<Longrightarrow> tkey t \<notin> tkey ` set (tickets q w)"
    and room_empty: "invar q w \<Longrightarrow> tickets q w = [] \<Longrightarrow> room t q w"
    and iter: "invar q w \<Longrightarrow> \<exists>ts. q_iter_unordered ops q w = Inr (map Inr ts) \<and> mset ts = mset (tickets q w)"
begin

lemma drain_loop_correct:
  assumes "invar q w"
  shows "\<exists>q' w'. drain_loop ops acc q w = Some (Inr (acc @ map rt_ticket (tickets q w)), q', w')
           \<and> invar q' w' \<and> tickets q' w' = []"
  using assms
proof (induction "tickets q w" arbitrary: acc q w)
  case Nil
  obtain r q' w' where p: "q_pop ops q w = (r, q', w')" by (metis prod_cases3)
  from pop [OF Nil.prems p] Nil.hyps show ?case
    by (subst drain_loop.simps) (simp add: p flip: Nil.hyps)
next
  case (Cons t ts)
  obtain r q' w' where p: "q_pop ops q w = (r, q', w')" by (metis prod_cases3)
  note step = pop [OF Cons.prems p, folded Cons.hyps(2), simplified]
  from Cons.hyps(1) [of q' w' "acc @ [rt_ticket t]"] step obtain q'' w'' where
    "drain_loop ops (acc @ [rt_ticket t]) q' w' = Some (Inr ((acc @ [rt_ticket t]) @ map rt_ticket ts), q'', w'')"
    "invar q'' w''" "tickets q'' w'' = []"
    by auto
  with p step show ?case
    by (subst drain_loop.simps) (simp flip: Cons.hyps(2))
qed

text \<open>\<open>drain\<close> returns, with every ticket in the natural order, and leaves the queue empty.\<close>

lemma drain_correct:
  assumes "invar q w"
  shows "\<exists>q' w'. drain ops q w = Some (Inr (map rt_ticket (tickets q w)), q', w')
           \<and> invar q' w' \<and> tickets q' w' = []"
  using drain_loop_correct [OF assms, of "[]"] by (simp add: drain_def)

text \<open>\<open>pop_while\<close> returns and takes exactly the longest prefix that satisfies the condition.\<close>

lemma pop_while_correct:
  assumes "invar q w"
  shows "\<exists>q' w'. pop_while ops P acc q w = Some (Inr (), acc @ takeWhile P (tickets q w), q', w')
           \<and> invar q' w' \<and> tickets q' w' = dropWhile P (tickets q w)"
  using assms
proof (induction "tickets q w" arbitrary: acc q w)
  case Nil
  then show ?case
    by (subst pop_while.simps) (simp add: peek flip: Nil.hyps)
next
  case (Cons t ts)
  obtain r q' w' where p: "q_pop ops q w = (r, q', w')" by (metis prod_cases3)
  note step = pop [OF Cons.prems p, folded Cons.hyps(2), simplified]
  show ?case
  proof (cases "P t")
    case False
    with Cons.prems show ?thesis
      by (subst pop_while.simps) (simp add: peek flip: Cons.hyps(2))
  next
    case True
    from Cons.hyps(1) [of q' w' "acc @ [t]"] step obtain q'' w'' where
      "pop_while ops P (acc @ [t]) q' w' = Some (Inr (), (acc @ [t]) @ takeWhile P ts, q'', w'')"
      "invar q'' w''" "tickets q'' w'' = dropWhile P ts"
      by auto
    with p step True Cons.prems show ?thesis
      by (subst pop_while.simps) (simp add: peek flip: Cons.hyps(2))
  qed
qed

lemma default_total_value_correct:
  assumes "invar q w"
  shows "default_total_value ops e mi q w =
    Inr (sat_sum (map amount_of (filter (counted e mi) (tickets q w))))"
proof -
  from iter [OF assms] obtain ts where
    ts: "q_iter_unordered ops q w = Inr (map Inr ts)" "mset ts = mset (tickets q w)" by blast
  have "mset (map amount_of (filter (counted e mi) ts)) =
        mset (map amount_of (filter (counted e mi) (tickets q w)))"
    using ts(2) by (simp add: mset_filter)
  from sat_sum_mset [OF this] ts(1) show ?thesis
    by (simp add: default_total_value_def)
qed

lemma push_set:
  assumes "invar q w" "room t q w" "q_push ops t q w = (r, q', w')"
  shows "set (tickets q' w') = insert t (set (tickets q w))"
  using push [OF assms] by (simp add: set_insort_key)

end

end
