(* ===== verification/Value_Cache.thy ===== *)
theory Value_Cache
  imports Ticket_Queue
begin

text \<open>
  \<open>ValueCachedQueue\<close> (\<open>ticket-manager/src/backend/mod.rs\<close>): an adapter that is itself a
  ticket queue and keeps the total value per channel epoch, so that the unrealized value
  of a channel is read without touching the storage. The component's claim is that the
  cached value never drifts from the queue: the adapter of any provider that keeps the
  queue contract keeps it too (\<open>sublocale\<close>), with the cache exact.
\<close>

section \<open>State and operations\<close>

record 'q vcq =
  vc_queue :: 'q
  vc_cache :: "u32 \<rightharpoonup> balance"
  vc_epoch :: "u32 option"

definition cache_get :: "(u32 \<rightharpoonup> balance) \<Rightarrow> u32 \<Rightarrow> balance" where
  "cache_get c e = unwrap_or 0 (c e)"

text \<open>\<open>value_cache.entry(e).or_default().add_assign(a)\<close> and \<open>sub_assign\<close>.\<close>

definition cache_add :: "u32 \<Rightarrow> balance \<Rightarrow> (u32 \<rightharpoonup> balance) \<Rightarrow> (u32 \<rightharpoonup> balance)" where
  "cache_add e a c = c(e \<mapsto> sat_add (cache_get c e) a)"

definition cache_sub :: "u32 \<Rightarrow> balance \<Rightarrow> (u32 \<rightharpoonup> balance) \<Rightarrow> (u32 \<rightharpoonup> balance)" where
  "cache_sub e a c = c(e \<mapsto> sat_sub (cache_get c e) a)"

fun vc_load :: "redeemable_ticket list \<Rightarrow> (u32 \<rightharpoonup> balance) \<times> u32 option \<Rightarrow> (u32 \<rightharpoonup> balance) \<times> u32 option" where
  "vc_load [] st = st"
| "vc_load (t # ts) (cache, current) =
     vc_load ts (cache_add (epoch_of t) (amount_of t) cache, Some (epoch_of t))"

definition vc_new :: "('q, 'w, 'e) queue_ops \<Rightarrow> 'q \<Rightarrow> 'w \<Rightarrow> 'e + 'q vcq" where
  "vc_new ops q w =
     map_ok (\<lambda>rs. case vc_load (List.map_filter res_ok rs) (Map.empty, None) of
         (cache, current) \<Rightarrow> \<lparr>vc_queue = q, vc_cache = cache, vc_epoch = current\<rparr>)
       (q_iter_unordered ops q w)"

definition cached_unrealized_value :: "'q vcq \<Rightarrow> balance" where
  "cached_unrealized_value q = (case vc_epoch q of None \<Rightarrow> 0 | Some e \<Rightarrow> cache_get (vc_cache q) e)"

definition vc_push :: "('q, 'w, 'e) queue_ops \<Rightarrow> redeemable_ticket \<Rightarrow> 'q vcq \<Rightarrow> 'w
    \<Rightarrow> ('e + unit) \<times> 'q vcq \<times> 'w" where
  "vc_push ops t q w =
     (let epoch = epoch_of t;
          q1 = q\<lparr>vc_epoch := Some (max epoch (unwrap_or 0 (vc_epoch q))),
                 vc_cache := cache_add epoch (amount_of t) (vc_cache q)\<rparr>
      in case q_push ops t (vc_queue q1) w of (r, inner, w') \<Rightarrow> (r, q1\<lparr>vc_queue := inner\<rparr>, w'))"

definition vc_pop :: "('q, 'w, 'e) queue_ops \<Rightarrow> 'q vcq \<Rightarrow> 'w
    \<Rightarrow> ('e + redeemable_ticket option) \<times> 'q vcq \<times> 'w" where
  "vc_pop ops q w =
     (case q_pop ops (vc_queue q) w of (r, inner, w') \<Rightarrow>
       (let q1 = q\<lparr>vc_queue := inner\<rparr> in
        case r of
          Inl e \<Rightarrow> (Inl e, q1, w')
        | Inr None \<Rightarrow> (Inr None, q1, w')
        | Inr (Some t) \<Rightarrow>
            (let q2 = q1\<lparr>vc_cache := cache_sub (epoch_of t) (amount_of t) (vc_cache q1)\<rparr> in
             case q_peek ops (vc_queue q2) w' of
               Inl e \<Rightarrow> (Inl e, q2, w')
             | Inr next \<Rightarrow> (Inr (Some t), q2\<lparr>vc_epoch := map_option epoch_of next\<rparr>, w'))))"

definition vc_total_value :: "('q, 'w, 'e) queue_ops \<Rightarrow> u32 \<Rightarrow> u64 option \<Rightarrow> 'q vcq \<Rightarrow> 'w \<Rightarrow> 'e + balance" where
  "vc_total_value ops epoch min_index q w =
     (case (min_index, vc_cache q epoch) of
        (None, Some value) \<Rightarrow> Inr value
      | _ \<Rightarrow> default_total_value ops epoch min_index (vc_queue q) w)"

definition vc_ops :: "('q, 'w, 'e) queue_ops \<Rightarrow> ('q vcq, 'w, 'e) queue_ops" where
  "vc_ops ops =
     \<lparr>q_len = (\<lambda>q w. q_len ops (vc_queue q) w),
      q_is_empty = (\<lambda>q w. q_is_empty ops (vc_queue q) w),
      q_push = vc_push ops,
      q_pop = vc_pop ops,
      q_peek = (\<lambda>q w. q_peek ops (vc_queue q) w),
      q_iter_unordered = (\<lambda>q w. q_iter_unordered ops (vc_queue q) w)\<rparr>"

lemma vc_ops_simps [simp]:
  "q_len (vc_ops ops) q w = q_len ops (vc_queue q) w"
  "q_is_empty (vc_ops ops) q w = q_is_empty ops (vc_queue q) w"
  "q_push (vc_ops ops) = vc_push ops"
  "q_pop (vc_ops ops) = vc_pop ops"
  "q_peek (vc_ops ops) q w = q_peek ops (vc_queue q) w"
  "q_iter_unordered (vc_ops ops) q w = q_iter_unordered ops (vc_queue q) w"
  by (simp_all add: vc_ops_def)

section \<open>The value of a list of tickets\<close>

definition queue_value :: "redeemable_ticket list \<Rightarrow> nat" where
  "queue_value ts = (\<Sum>t\<leftarrow>ts. unat (amount_of t))"

definition epoch_value :: "u32 \<Rightarrow> redeemable_ticket list \<Rightarrow> nat" where
  "epoch_value e ts = queue_value (filter (\<lambda>t. epoch_of t = e) ts)"

fun single_epoch :: "redeemable_ticket list \<Rightarrow> bool" where
  "single_epoch [] = True"
| "single_epoch (t # ts) = (\<forall>s\<in>set ts. epoch_of s = epoch_of t)"

abbreviation cap :: nat where
  "cap \<equiv> 2 ^ 256 - 1"

lemma queue_value_simps [simp]:
  "queue_value [] = 0"
  "queue_value (t # ts) = unat (amount_of t) + queue_value ts"
  "queue_value (ts @ us) = queue_value ts + queue_value us"
  by (simp_all add: queue_value_def)

lemma epoch_value_simps [simp]:
  "epoch_value e [] = 0"
  "epoch_value e (t # ts) = (if epoch_of t = e then unat (amount_of t) else 0) + epoch_value e ts"
  by (simp_all add: epoch_value_def)

lemma queue_value_mset: "mset xs = mset ys \<Longrightarrow> queue_value xs = queue_value ys"
  by (simp add: queue_value_def flip: sum_mset_sum_list)

lemma epoch_value_mset: "mset xs = mset ys \<Longrightarrow> epoch_value e xs = epoch_value e ys"
  unfolding epoch_value_def by (rule queue_value_mset) (simp add: mset_filter)

lemma queue_value_insort [simp]:
  "queue_value (insort_key f t ts) = unat (amount_of t) + queue_value ts"
  using queue_value_mset [of "insort_key f t ts" "t # ts"] by simp

lemma epoch_value_insort [simp]:
  "epoch_value e (insort_key f t ts) = (if epoch_of t = e then unat (amount_of t) else 0) + epoch_value e ts"
  using epoch_value_mset [of "insort_key f t ts" "t # ts"] by simp

lemma epoch_value_le: "epoch_value e ts \<le> queue_value ts"
  by (induction ts) auto

lemma single_epoch_iff: "single_epoch ts \<longleftrightarrow> (\<exists>e. \<forall>t\<in>set ts. epoch_of t = e)"
  by (cases ts) auto

lemma single_epochI: "\<forall>t\<in>set ts. epoch_of t = e \<Longrightarrow> single_epoch ts"
  by (auto simp only: single_epoch_iff)

lemma epoch_value_all: "\<forall>t\<in>set ts. epoch_of t = e \<Longrightarrow> epoch_value e ts = queue_value ts"
  by (induction ts) auto

lemma epoch_value_single:
  assumes "single_epoch ts" "t \<in> set ts"
  shows "epoch_value (epoch_of t) ts = queue_value ts"
proof -
  from assms obtain e where "\<forall>t\<in>set ts. epoch_of t = e" by (auto simp: single_epoch_iff)
  with assms(2) epoch_value_all show ?thesis by auto
qed

lemma single_epoch_subset: "single_epoch ts \<Longrightarrow> set us \<subseteq> set ts \<Longrightarrow> single_epoch us"
  unfolding single_epoch_iff by blast

lemma single_epoch_tl: "single_epoch (t # ts) \<Longrightarrow> single_epoch ts"
  by (rule single_epochI [of _ "epoch_of t"]) simp

lemma single_epoch_insort:
  "\<forall>s\<in>set ts. epoch_of s = epoch_of t \<Longrightarrow> single_epoch (insort_key f t ts)"
  by (rule single_epochI [of _ "epoch_of t"]) (simp add: set_insort_key)

section \<open>The adapter keeps the contract, and its cache is exact\<close>

definition vc_tickets :: "('q \<Rightarrow> 'w \<Rightarrow> redeemable_ticket list) \<Rightarrow> 'q vcq \<Rightarrow> 'w \<Rightarrow> redeemable_ticket list" where
  "vc_tickets tickets q w = tickets (vc_queue q) w"

definition head_epoch :: "redeemable_ticket list \<Rightarrow> u32 option" where
  "head_epoch ts = (case ts of [] \<Rightarrow> None | t # _ \<Rightarrow> Some (epoch_of t))"

definition cache_exact :: "(u32 \<rightharpoonup> balance) \<Rightarrow> redeemable_ticket list \<Rightarrow> bool" where
  "cache_exact c ts \<longleftrightarrow> (\<forall>e. unat (cache_get c e) = epoch_value e ts)"

definition vc_inv :: "('q \<Rightarrow> 'w \<Rightarrow> redeemable_ticket list) \<Rightarrow> ('q \<Rightarrow> 'w \<Rightarrow> bool) \<Rightarrow> 'q vcq \<Rightarrow> 'w \<Rightarrow> bool" where
  "vc_inv tickets invar q w \<longleftrightarrow>
     invar (vc_queue q) w \<and>
     queue_value (tickets (vc_queue q) w) \<le> cap \<and>
     single_epoch (tickets (vc_queue q) w) \<and>
     cache_exact (vc_cache q) (tickets (vc_queue q) w) \<and>
     vc_epoch q = head_epoch (tickets (vc_queue q) w)"

definition vc_room :: "('q \<Rightarrow> 'w \<Rightarrow> redeemable_ticket list) \<Rightarrow> (redeemable_ticket \<Rightarrow> 'q \<Rightarrow> 'w \<Rightarrow> bool)
    \<Rightarrow> redeemable_ticket \<Rightarrow> 'q vcq \<Rightarrow> 'w \<Rightarrow> bool" where
  "vc_room tickets room t q w \<longleftrightarrow>
     room t (vc_queue q) w \<and>
     (\<forall>s\<in>set (tickets (vc_queue q) w). epoch_of s = epoch_of t) \<and>
     unat (amount_of t) + queue_value (tickets (vc_queue q) w) \<le> cap"

lemma cache_get_add:
  "cache_get (cache_add e a c) e' = (if e' = e then sat_add (cache_get c e) a else cache_get c e')"
  by (simp add: cache_get_def cache_add_def)

lemma cache_get_sub:
  "cache_get (cache_sub e a c) e' = (if e' = e then sat_sub (cache_get c e) a else cache_get c e')"
  by (simp add: cache_get_def cache_sub_def)

lemma cache_exact_empty [simp]: "cache_exact Map.empty []"
  by (simp add: cache_exact_def cache_get_def)

lemma cache_exact_add:
  assumes "cache_exact c ts" "unat (amount_of t) + queue_value ts \<le> cap"
  shows "cache_exact (cache_add (epoch_of t) (amount_of t) c) (t # ts)"
  using assms epoch_value_le [of "epoch_of t" ts]
  by (auto simp: cache_exact_def cache_get_add sat_simps)

lemma cache_exact_sub:
  assumes "cache_exact c (t # ts)"
  shows "cache_exact (cache_sub (epoch_of t) (amount_of t) c) ts"
  using assms by (auto simp: cache_exact_def cache_get_sub sat_simps)

lemma cache_exact_mset: "mset ts = mset us \<Longrightarrow> cache_exact c ts = cache_exact c us"
  unfolding cache_exact_def using epoch_value_mset [of ts us] by simp

lemma head_epoch_single:
  "single_epoch ts \<Longrightarrow> t \<in> set ts \<Longrightarrow> head_epoch ts = Some (epoch_of t)"
  by (cases ts) (auto simp: head_epoch_def)

lemma head_epoch_insort:
  "\<forall>s\<in>set ts. epoch_of s = epoch_of t \<Longrightarrow> head_epoch (insort_key f t ts) = Some (epoch_of t)"
  by (cases ts) (auto simp: head_epoch_def)

lemma vc_load_exact:
  assumes "cache_exact c us" "queue_value (ts @ us) \<le> cap"
  shows "cache_exact (fst (vc_load ts (c, cur))) (ts @ us)"
  using assms
proof (induction ts arbitrary: c us cur)
  case Nil
  then show ?case by simp
next
  case (Cons t ts)
  have v: "queue_value (ts @ t # us) \<le> cap" using Cons.prems(2) by simp
  have "cache_exact (cache_add (epoch_of t) (amount_of t) c) (t # us)"
    using Cons.prems by (intro cache_exact_add) auto
  from Cons.IH [OF this v, of "Some (epoch_of t)"] show ?case
    using cache_exact_mset [of "ts @ t # us" "(t # ts) @ us"] by simp
qed

lemma vc_load_epoch:
  "snd (vc_load ts (c, cur)) = (if ts = [] then cur else Some (epoch_of (last ts)))"
  by (induction ts arbitrary: c cur) auto

context ticket_queue
begin

lemma vc_inv_exact:
  assumes "vc_inv tickets invar q w"
  shows "unat (cached_unrealized_value q) = queue_value (vc_tickets tickets q w)"
proof (cases "tickets (vc_queue q) w")
  case Nil
  with assms show ?thesis
    by (simp add: vc_inv_def cached_unrealized_value_def head_epoch_def vc_tickets_def)
next
  case (Cons t ts)
  with assms epoch_value_single [of "t # ts" t] show ?thesis
    by (auto simp: vc_inv_def cached_unrealized_value_def head_epoch_def vc_tickets_def cache_exact_def)
qed

lemma vc_new_correct:
  assumes "invar q w" "queue_value (tickets q w) \<le> cap" "single_epoch (tickets q w)"
  shows "\<exists>v. vc_new ops q w = Inr v \<and> vc_queue v = q \<and> vc_inv tickets invar v w"
proof -
  from iter [OF assms(1)] obtain ts where
    ts: "q_iter_unordered ops q w = Inr (map Inr ts)" "mset ts = mset (tickets q w)" by blast
  have st: "set ts = set (tickets q w)" using ts(2) by (rule mset_eq_setD)
  have v: "queue_value (ts @ []) \<le> cap" using assms(2) queue_value_mset [OF ts(2)] by simp
  obtain c cur where l: "vc_load ts (Map.empty, None) = (c, cur)" by force
  have ex: "cache_exact c (tickets q w)"
    using vc_load_exact [OF cache_exact_empty v, of None] cache_exact_mset [OF ts(2)] l by simp
  have "cur = head_epoch (tickets q w)"
  proof (cases "ts = []")
    case True
    with ts(2) l show ?thesis by (simp add: head_epoch_def)
  next
    case False
    then have "last ts \<in> set (tickets q w)" using last_in_set [of ts] st by blast
    then have "head_epoch (tickets q w) = Some (epoch_of (last ts))"
      using assms(3) by (rule head_epoch_single [rotated])
    moreover have "cur = Some (epoch_of (last ts))"
      using False l vc_load_epoch [of ts Map.empty None] by simp
    ultimately show ?thesis by simp
  qed
  with ex assms l ts(1) show ?thesis
    by (simp add: vc_new_def vc_inv_def)
qed

end

text \<open>
  The adapter over a provider of the contract is a provider itself. (A locale of its own,
  since an adapter of the adapter is not meant.)
\<close>

locale cached_ticket_queue = ticket_queue ops tickets invar room
  for ops :: "('q, 'w, 'e) queue_ops" and tickets and invar and room

sublocale cached_ticket_queue \<subseteq> vc: ticket_queue "vc_ops ops" "vc_tickets tickets" "vc_inv tickets invar" "vc_room tickets room"
proof (unfold_locales, goal_cases)
  case (1 q w)
  then show ?case by (simp add: vc_inv_def vc_tickets_def tickets_sorted)
next
  case (2 q w)
  then show ?case by (simp add: vc_inv_def vc_tickets_def len)
next
  case (3 q w)
  then show ?case by (simp add: vc_inv_def vc_tickets_def is_empty)
next
  case (4 q w)
  then show ?case by (simp add: vc_inv_def vc_tickets_def peek)
next
  case (5 q w r q' w')
  obtain r0 i w0 where p: "q_pop ops (vc_queue q) w = (r0, i, w0)" by (metis prod_cases3)
  have invar: "invar (vc_queue q) w" using 5(1) by (simp add: vc_inv_def)
  note step = pop [OF invar p]
  show ?case
  proof (cases "tickets (vc_queue q) w")
    case Nil
    with 5 p step show ?thesis
      by (auto simp: vc_pop_def Let_def vc_inv_def vc_tickets_def)
  next
    case (Cons t ts)
    with 5 p step cache_exact_sub [of "vc_cache q" t ts] show ?thesis
      by (auto simp: vc_pop_def Let_def vc_inv_def vc_tickets_def peek head_epoch_def split: list.splits)
  qed
next
  case (6 q w t r q' w')
  obtain r0 i w0 where p: "q_push ops t (vc_queue q) w = (r0, i, w0)" by (metis prod_cases3)
  have invar: "invar (vc_queue q) w" and room: "room t (vc_queue q) w"
    using 6 by (simp_all add: vc_inv_def vc_room_def)
  note step = push [OF invar room p]
  let ?ts = "tickets (vc_queue q) w"
  have exact: "cache_exact (cache_add (epoch_of t) (amount_of t) (vc_cache q)) (insort_key tkey t ?ts)"
    using cache_exact_add [of "vc_cache q" ?ts t] cache_exact_mset [of "insort_key tkey t ?ts" "t # ?ts"] 6
    by (simp add: vc_inv_def vc_room_def)
  have "max (epoch_of t) (unwrap_or 0 (head_epoch ?ts)) = epoch_of t"
    using 6(2) by (cases ?ts) (auto simp: head_epoch_def vc_room_def)
  with 6 p step exact head_epoch_insort [of ?ts t tkey] single_epoch_insort [of ?ts t tkey]
  show ?case
    by (auto simp: vc_push_def Let_def vc_inv_def vc_tickets_def vc_room_def)
next
  case (7 q w t)
  then show ?case by (simp add: vc_inv_def vc_room_def vc_tickets_def room_fresh)
next
  case (8 q w t)
  then show ?case
    using unat_le_cap [of "amount_of t"] by (simp add: vc_inv_def vc_room_def vc_tickets_def room_empty)
next
  case (9 q w)
  then show ?case by (simp add: vc_inv_def vc_tickets_def iter)
qed

context ticket_queue
begin

text \<open>The two ways to compute a total agree: the cached value is the value a full scan finds.\<close>

lemma vc_total_value_correct:
  assumes "vc_inv tickets invar q w"
  shows "vc_total_value ops e mi q w =
    Inr (sat_sum (map amount_of (filter (counted e mi) (vc_tickets tickets q w))))"
proof (cases "mi = None \<and> vc_cache q e \<noteq> None")
  case True
  then obtain v where v: "mi = None" "vc_cache q e = Some v" by blast
  have f: "filter (counted e None) (tickets (vc_queue q) w) =
      filter (\<lambda>t. epoch_of t = e) (tickets (vc_queue q) w)"
    by (rule filter_cong) (simp_all add: counted_def)
  have "unat v = epoch_value e (tickets (vc_queue q) w)"
    using assms v by (auto simp: vc_inv_def cache_exact_def cache_get_def dest: spec [of _ e])
  then have "v = sat_sum (map amount_of (filter (counted e None) (tickets (vc_queue q) w)))"
    using unat_le_cap [of v]
    by (simp add: word_unat_eq_iff sat_simps f epoch_value_def queue_value_def comp_def)
  with v show ?thesis by (simp add: vc_total_value_def vc_tickets_def)
next
  case False
  then have "vc_total_value ops e mi q w = default_total_value ops e mi (vc_queue q) w"
    by (auto simp: vc_total_value_def split: option.splits)
  with assms default_total_value_correct show ?thesis by (simp add: vc_inv_def vc_tickets_def)
qed

end

end
