(* ===== verification/Memory_Store.thy ===== *)
theory Memory_Store
  imports Value_Cache "HOL-Library.AList"
begin

text \<open>
  The in-memory backend (\<open>ticket-manager/src/backend/memory.rs\<close>). \<open>MemoryTicketQueue\<close> is an
  \<open>Arc\<close> on a binary heap, so a queue handle is an address and the store's copy and every
  opened copy share the heap; a queue deleted and created again is a fresh address. The
  heap \<open>BinaryHeap<Reverse<RedeemableTicket>>\<close> pops a least ticket of the order \<open>le\<close>: it is
  modelled by the list of its tickets in that order. A hash map is an association list.
\<close>

section \<open>State and operations\<close>

record mem_store =
  ms_heaps :: "nat \<Rightarrow> redeemable_ticket list"
  ms_next :: nat
  ms_tickets :: "(channel_id \<times> nat) list"
  ms_out_indices :: "((channel_id \<times> u32) \<times> u64) list"

definition mem_empty :: mem_store where
  "mem_empty = \<lparr>ms_heaps = (\<lambda>_. []), ms_next = 0, ms_tickets = [], ms_out_indices = []\<rparr>"

fun heap_push :: "(redeemable_ticket \<Rightarrow> redeemable_ticket \<Rightarrow> bool) \<Rightarrow> redeemable_ticket
    \<Rightarrow> redeemable_ticket list \<Rightarrow> redeemable_ticket list" where
  "heap_push le t [] = [t]"
| "heap_push le t (u # us) = (if le t u then t # u # us else u # heap_push le t us)"

definition mem_push :: "(redeemable_ticket \<Rightarrow> redeemable_ticket \<Rightarrow> bool) \<Rightarrow> redeemable_ticket
    \<Rightarrow> nat \<Rightarrow> mem_store \<Rightarrow> ('e + unit) \<times> nat \<times> mem_store" where
  "mem_push le t q w = (Inr (), q, w\<lparr>ms_heaps := (ms_heaps w)(q := heap_push le t (ms_heaps w q))\<rparr>)"

definition mem_pop :: "nat \<Rightarrow> mem_store \<Rightarrow> ('e + redeemable_ticket option) \<times> nat \<times> mem_store" where
  "mem_pop q w =
     (case ms_heaps w q of
        [] \<Rightarrow> (Inr None, q, w)
      | t # ts \<Rightarrow> (Inr (Some t), q, w\<lparr>ms_heaps := (ms_heaps w)(q := ts)\<rparr>))"

definition mem_peek :: "nat \<Rightarrow> mem_store \<Rightarrow> 'e + redeemable_ticket option" where
  "mem_peek q w = Inr (case ms_heaps w q of [] \<Rightarrow> None | t # _ \<Rightarrow> Some t)"

definition mem_queue_ops :: "(redeemable_ticket \<Rightarrow> redeemable_ticket \<Rightarrow> bool)
    \<Rightarrow> (nat, mem_store, 'e) queue_ops" where
  "mem_queue_ops le =
     \<lparr>q_len = (\<lambda>q w. Inr (length (ms_heaps w q))),
      q_is_empty = (\<lambda>q w. Inr (ms_heaps w q = [])),
      q_push = mem_push le,
      q_pop = mem_pop,
      q_peek = mem_peek,
      q_iter_unordered = (\<lambda>q w. Inr (map Inr (ms_heaps w q)))\<rparr>"

text \<open>\<open>tickets.entry(channel_id).or_default().clone()\<close>: the address of the stored heap.\<close>

definition mem_open :: "channel_id \<Rightarrow> mem_store \<Rightarrow> ('e + nat) \<times> mem_store" where
  "mem_open ch w =
     (case map_of (ms_tickets w) ch of
        Some a \<Rightarrow> (Inr a, w)
      | None \<Rightarrow> (Inr (ms_next w),
          w\<lparr>ms_next := ms_next w + 1,
            ms_heaps := (ms_heaps w)(ms_next w := []),
            ms_tickets := AList.update ch (ms_next w) (ms_tickets w)\<rparr>))"

definition mem_delete :: "(redeemable_ticket \<Rightarrow> redeemable_ticket \<Rightarrow> bool) \<Rightarrow> channel_id \<Rightarrow> mem_store
    \<Rightarrow> (('e + verified_ticket list) \<times> mem_store) option" where
  "mem_delete le ch w =
     (case map_of (ms_tickets w) ch of
        None \<Rightarrow> Some (Inr [], w)
      | Some a \<Rightarrow>
          map_option (\<lambda>(r, _, w'). (r, w'))
            (drain (mem_queue_ops le) a (w\<lparr>ms_tickets := AList.delete ch (ms_tickets w)\<rparr>)))"

definition mem_store_ops :: "(redeemable_ticket \<Rightarrow> redeemable_ticket \<Rightarrow> bool)
    \<Rightarrow> (nat, mem_store, 'e) store_ops" where
  "mem_store_ops le =
     \<lparr>s_queue = mem_queue_ops le,
      s_open = mem_open,
      s_delete = mem_delete le,
      s_iter_queues = (\<lambda>w. Inr (map fst (ms_tickets w)))\<rparr>"

definition mem_index_ops :: "(mem_store, 'e) index_ops" where
  "mem_index_ops =
     \<lparr>i_load = (\<lambda>ch e w. Inr (map_of (ms_out_indices w) (ch, e))),
      i_save = (\<lambda>ch e i w. (Inr (), w\<lparr>ms_out_indices := AList.update (ch, e) i (ms_out_indices w)\<rparr>)),
      i_delete = (\<lambda>ch e w. (Inr (), w\<lparr>ms_out_indices := AList.delete (ch, e) (ms_out_indices w)\<rparr>)),
      i_iter = (\<lambda>w. Inr (map fst (ms_out_indices w)))\<rparr>"

lemmas mem_ops_defs = mem_queue_ops_def mem_push_def mem_pop_def mem_peek_def

section \<open>The heap keeps the queue contract\<close>

definition mem_tickets :: "nat \<Rightarrow> mem_store \<Rightarrow> redeemable_ticket list" where
  "mem_tickets q w = ms_heaps w q"

definition mem_inv :: "nat \<Rightarrow> mem_store \<Rightarrow> bool" where
  "mem_inv q w \<longleftrightarrow> strict_sorted_key tkey (ms_heaps w q)"

definition mem_room :: "redeemable_ticket \<Rightarrow> nat \<Rightarrow> mem_store \<Rightarrow> bool" where
  "mem_room t q w \<longleftrightarrow> tkey t \<notin> tkey ` set (ms_heaps w q)"

context natural_order
begin

lemma heap_push_insort:
  "strict_sorted_key tkey us \<Longrightarrow> tkey t \<notin> tkey ` set us \<Longrightarrow> heap_push le t us = insort_key tkey t us"
  by (induction us) (auto simp: strict_sorted_key_Cons le_iff_key)

text \<open>Every ticket pushed is in the heap, also when its key is taken: a heap keeps duplicates.\<close>

lemma mset_heap_push: "mset (heap_push le t us) = add_mset t (mset us)"
  by (induction us) auto

end

sublocale natural_order \<subseteq> mem: cached_ticket_queue "mem_queue_ops le" mem_tickets mem_inv mem_room
  by unfold_locales
    (auto simp: mem_ops_defs mem_tickets_def mem_inv_def mem_room_def heap_push_insort
        strict_sorted_key_insort strict_sorted_key_Cons split: list.splits)

section \<open>The index store is a map\<close>

text \<open>
  \<open>OutgoingIndexStore\<close> as the code relies on it: the last value saved and not deleted is
  what is loaded, per channel and epoch, and the iteration names exactly the keys present.
\<close>

locale index_store =
  fixes ops :: "('w, 'e) index_ops"
    and index :: "'w \<Rightarrow> channel_id \<times> u32 \<Rightarrow> u64 option"
    and invar :: "'w \<Rightarrow> bool"
  assumes load: "invar w \<Longrightarrow> i_load ops ch e w = Inr (index w (ch, e))"
    and save: "invar w \<Longrightarrow> i_save ops ch e i w = (r, w') \<Longrightarrow>
      r = Inr () \<and> index w' = (index w)((ch, e) \<mapsto> i) \<and> invar w'"
    and delete: "invar w \<Longrightarrow> i_delete ops ch e w = (dr, w') \<Longrightarrow>
      dr = Inr () \<and> index w' = (index w)((ch, e) := None) \<and> invar w'"
    and iter: "invar w \<Longrightarrow> \<exists>ks. i_iter ops w = Inr ks \<and> set ks = dom (index w)"

definition mem_index :: "mem_store \<Rightarrow> channel_id \<times> u32 \<Rightarrow> u64 option" where
  "mem_index w = map_of (ms_out_indices w)"

interpretation mem_index: index_store mem_index_ops mem_index "\<lambda>_. True"
  by unfold_locales
    (auto simp: mem_index_ops_def mem_index_def update_conv' delete_conv' dom_map_of_conv_image_fst)

section \<open>The store shares one heap per channel\<close>

lemma mem_open_shared:
  assumes "mem_open ch w = (r, w')"
  shows "\<exists>a. r = Inr a \<and> map_of (ms_tickets w') ch = Some a \<and> mem_open ch w' = (Inr a, w')"
  using assms by (auto simp: mem_open_def update_conv' split: option.splits)

context natural_order
begin

lemma mem_delete_correct:
  assumes "map_of (ms_tickets w) ch = Some a" "mem_inv a w"
  shows "\<exists>w'. mem_delete le ch w = Some (Inr (map rt_ticket (mem_tickets a w)), w')"
proof -
  let ?w = "w\<lparr>ms_tickets := AList.delete ch (ms_tickets w)\<rparr>"
  have "mem_inv a ?w" "mem_tickets a ?w = mem_tickets a w"
    using assms(2) by (simp_all add: mem_inv_def mem_tickets_def)
  with mem.drain_correct [of a ?w] assms(1) show ?thesis
    by (auto simp: mem_delete_def)
qed

end

end
