(* ===== verification/Ticket_Store.thy ===== *)
theory Ticket_Store
  imports Memory_Store
begin

text \<open>
  The contract of a ticket store (\<open>TicketQueueStore\<close> in \<open>ticket-manager/src/traits.rs\<close>): one
  queue per channel, reached through a handle that every opening of the channel returns
  again, and an operation on one queue leaves the queues of the other channels alone. The
  memory backend keeps it.
\<close>

locale ticket_store = cached_ticket_queue "s_queue sops" tickets invar room
  for sops :: "('q, 'w, 'e) store_ops"
    and tickets :: "'q \<Rightarrow> 'w \<Rightarrow> redeemable_ticket list"
    and invar :: "'q \<Rightarrow> 'w \<Rightarrow> bool"
    and room :: "redeemable_ticket \<Rightarrow> 'q \<Rightarrow> 'w \<Rightarrow> bool" +
  fixes handle :: "'w \<Rightarrow> channel_id \<Rightarrow> 'q option"
    and wfs :: "'w \<Rightarrow> bool"
  assumes handle_inj: "wfs w \<Longrightarrow> handle w c = Some q \<Longrightarrow> handle w c' = Some q \<Longrightarrow> c' = c"
    and handle_inv: "wfs w \<Longrightarrow> handle w c = Some q \<Longrightarrow> invar q w"
    and pop_frame: "wfs w \<Longrightarrow> handle w c = Some q \<Longrightarrow> q_pop (s_queue sops) q w = (r, q', w') \<Longrightarrow>
      q' = q \<and> wfs w' \<and> handle w' = handle w \<and> (\<forall>p. p \<noteq> q \<longrightarrow> tickets p w' = tickets p w)"
    and push_frame: "wfs w \<Longrightarrow> handle w c = Some q \<Longrightarrow> room t q w \<Longrightarrow>
      q_push (s_queue sops) t q w = (pr, q', w') \<Longrightarrow>
      q' = q \<and> wfs w' \<and> handle w' = handle w \<and> (\<forall>p. p \<noteq> q \<longrightarrow> tickets p w' = tickets p w)"
    and open_queue: "wfs w \<Longrightarrow> s_open sops c w = (oq, w') \<Longrightarrow>
      \<exists>q. oq = Inr q \<and> wfs w' \<and> handle w' = (handle w)(c \<mapsto> q) \<and>
        (case handle w c of None \<Rightarrow> tickets q w' = [] | Some q0 \<Rightarrow> q = q0) \<and>
        (\<forall>c0 q0. handle w c0 = Some q0 \<longrightarrow> tickets q0 w' = tickets q0 w)"
    and delete_queue: "wfs w \<Longrightarrow> \<exists>w'. s_delete sops c w = Some (Inr (case handle w c of
          None \<Rightarrow> [] | Some q \<Rightarrow> map rt_ticket (tickets q w)), w') \<and> wfs w' \<and>
        handle w' = (handle w)(c := None) \<and>
        (\<forall>c0 q0. c0 \<noteq> c \<longrightarrow> handle w c0 = Some q0 \<longrightarrow> tickets q0 w' = tickets q0 w)"
    and iter_queues: "wfs w \<Longrightarrow> \<exists>cs. s_iter_queues sops w = Inr cs \<and> set cs = dom (handle w)"

section \<open>The memory store\<close>

definition mem_handle :: "mem_store \<Rightarrow> channel_id \<Rightarrow> nat option" where
  "mem_handle w = map_of (ms_tickets w)"

definition mem_wf :: "mem_store \<Rightarrow> bool" where
  "mem_wf w \<longleftrightarrow>
     distinct (map fst (ms_tickets w)) \<and>
     (\<forall>ch a. mem_handle w ch = Some a \<longrightarrow> a < ms_next w \<and> strict_sorted_key tkey (ms_heaps w a)) \<and>
     (\<forall>ch ch' a. mem_handle w ch = Some a \<longrightarrow> mem_handle w ch' = Some a \<longrightarrow> ch' = ch)"

lemma mem_wf_empty: "mem_wf mem_empty"
  by (simp add: mem_wf_def mem_empty_def mem_handle_def)

lemma mem_wfD:
  assumes "mem_wf w" "mem_handle w ch = Some a"
  shows "a < ms_next w" "strict_sorted_key tkey (ms_heaps w a)"
    and "mem_handle w ch' = Some a \<Longrightarrow> ch' = ch"
  using assms unfolding mem_wf_def by blast+

lemma mem_wf_heap:
  "mem_wf w \<Longrightarrow> strict_sorted_key tkey ts \<Longrightarrow> mem_wf (w\<lparr>ms_heaps := (ms_heaps w)(a := ts)\<rparr>)"
  by (simp add: mem_wf_def mem_handle_def)

lemma mem_open_correct:
  assumes "mem_wf w" "mem_open c w = (r, w')"
  shows "\<exists>q. r = Inr q \<and> mem_wf w' \<and> mem_handle w' = (mem_handle w)(c \<mapsto> q) \<and>
    (case mem_handle w c of None \<Rightarrow> mem_tickets q w' = [] | Some q0 \<Rightarrow> q = q0) \<and>
    (\<forall>c0 q0. mem_handle w c0 = Some q0 \<longrightarrow> mem_tickets q0 w' = mem_tickets q0 w)"
proof (cases "mem_handle w c")
  case (Some a)
  with assms have "r = Inr a" "w' = w" by (simp_all add: mem_open_def mem_handle_def)
  moreover have "(mem_handle w)(c \<mapsto> a) = mem_handle w" using Some by (simp add: fun_upd_idem)
  ultimately show ?thesis using assms(1) Some by simp
next
  case None
  let ?a = "ms_next w"
  have w': "r = Inr ?a" "w' = w\<lparr>ms_next := ?a + 1, ms_heaps := (ms_heaps w)(?a := []),
      ms_tickets := AList.update c ?a (ms_tickets w)\<rparr>"
    using assms(2) None by (simp_all add: mem_open_def mem_handle_def)
  have h: "mem_handle w' = (mem_handle w)(c \<mapsto> ?a)"
    by (simp add: w' mem_handle_def update_conv' fun_eq_iff)
  have lt: "mem_handle w ch = Some a \<Longrightarrow> a < ?a" for ch a
    using mem_wfD(1) [OF assms(1)] .
  have "mem_wf w'"
    unfolding mem_wf_def
  proof (intro conjI allI impI)
    show "distinct (map fst (ms_tickets w'))"
      using assms(1) by (simp add: w' mem_wf_def distinct_update)
  next
    fix ch a assume "mem_handle w' ch = Some a"
    then have "ch = c \<and> a = ?a \<or> mem_handle w ch = Some a \<and> a \<noteq> ?a"
      using lt [of ch a] by (auto simp: h split: if_splits)
    then show "a < ms_next w'" "strict_sorted_key tkey (ms_heaps w' a)"
      using lt [of ch a] mem_wfD(2) [OF assms(1), of ch a] by (auto simp: w')
  next
    fix ch ch' a assume "mem_handle w' ch = Some a" "mem_handle w' ch' = Some a"
    then show "ch' = ch"
      using lt [of ch a] lt [of ch' a] mem_wfD(3) [OF assms(1), of ch a ch']
      by (auto simp: h split: if_splits)
  qed
  with h None lt show ?thesis by (auto simp: w' mem_tickets_def)
qed

lemma mem_handle_delete: "map_of (AList.delete c (ms_tickets w)) = (mem_handle w)(c := None)"
  by (simp add: mem_handle_def delete_conv' fun_eq_iff)

lemma mem_wf_delete: "mem_wf w \<Longrightarrow> mem_wf (w\<lparr>ms_tickets := AList.delete c (ms_tickets w)\<rparr>)"
  by (auto simp: mem_wf_def mem_handle_def delete_conv' distinct_delete split: if_splits)

context natural_order
begin

text \<open>Draining a heap touches nothing but that heap.\<close>

lemma mem_drain_loop:
  assumes "mem_wf w" "strict_sorted_key tkey (ms_heaps w a)"
  shows "\<exists>w'. drain_loop (mem_queue_ops le) acc a w = Some (Inr (acc @ map rt_ticket (ms_heaps w a)), a, w') \<and>
    mem_wf w' \<and> ms_tickets w' = ms_tickets w \<and> (\<forall>p. p \<noteq> a \<longrightarrow> ms_heaps w' p = ms_heaps w p)"
  using assms
proof (induction "ms_heaps w a" arbitrary: acc w)
  case Nil
  then show ?case by (subst drain_loop.simps) (auto simp: mem_ops_defs simp flip: Nil.hyps)
next
  case (Cons t ts)
  let ?w = "w\<lparr>ms_heaps := (ms_heaps w)(a := ts)\<rparr>"
  have s: "strict_sorted_key tkey ts"
    using strict_sorted_key_tl [OF Cons.prems(2)] by (simp flip: Cons.hyps(2))
  from Cons.hyps(1) [of ?w "acc @ [rt_ticket t]"] s mem_wf_heap [OF Cons.prems(1) s, of a]
  show ?case
    by (subst drain_loop.simps) (auto simp: mem_ops_defs simp flip: Cons.hyps(2))
qed

lemma mem_delete_queue:
  assumes "mem_wf w"
  shows "\<exists>w'. (mem_delete le c w :: (('e + verified_ticket list) \<times> mem_store) option) = Some (Inr (case mem_handle w c of
      None \<Rightarrow> [] | Some q \<Rightarrow> map rt_ticket (mem_tickets q w)), w') \<and> mem_wf w' \<and>
    mem_handle w' = (mem_handle w)(c := None) \<and>
    (\<forall>c0 q0. c0 \<noteq> c \<longrightarrow> mem_handle w c0 = Some q0 \<longrightarrow> mem_tickets q0 w' = mem_tickets q0 w)"
proof (cases "mem_handle w c")
  case None
  moreover have "(mem_handle w)(c := None) = mem_handle w" using None by (simp add: fun_upd_idem)
  ultimately show ?thesis using assms by (simp add: mem_delete_def mem_handle_def)
next
  case (Some a)
  let ?w = "w\<lparr>ms_tickets := AList.delete c (ms_tickets w)\<rparr>"
  have "strict_sorted_key tkey (ms_heaps ?w a)" using mem_wfD(2) [OF assms Some] by simp
  from mem_drain_loop [OF mem_wf_delete [OF assms] this, of "[]"] obtain w' where
    d: "(drain (mem_queue_ops le) a ?w :: (('e + verified_ticket list) \<times> nat \<times> mem_store) option) =
      Some (Inr (map rt_ticket (ms_heaps w a)), a, w')"
    "mem_wf w'" "ms_tickets w' = AList.delete c (ms_tickets w)" "\<forall>p. p \<noteq> a \<longrightarrow> ms_heaps w' p = ms_heaps w p"
    by (auto simp: drain_def)
  have "mem_handle w' = (mem_handle w)(c := None)"
    using d(3) mem_handle_delete [of c w] by (simp add: mem_handle_def)
  moreover have "\<forall>c0 q0. c0 \<noteq> c \<longrightarrow> mem_handle w c0 = Some q0 \<longrightarrow> mem_tickets q0 w' = mem_tickets q0 w"
    using d(4) mem_wfD(3) [OF assms Some] unfolding mem_tickets_def by metis
  ultimately show ?thesis
    using Some d(1,2) by (simp add: mem_delete_def mem_handle_def mem_tickets_def)
qed

end

lemma mem_store_ops_simps [simp]:
  "s_queue (mem_store_ops le) = mem_queue_ops le" "s_open (mem_store_ops le) = mem_open"
  "s_delete (mem_store_ops le) = mem_delete le" "s_iter_queues (mem_store_ops le) w = Inr (map fst (ms_tickets w))"
  by (simp_all add: mem_store_ops_def)

lemma mem_pop_frame:
  assumes "mem_wf w" "mem_handle w c = Some q" "mem_pop q w = (r, q', w')"
  shows "q' = q \<and> mem_wf w' \<and> mem_handle w' = mem_handle w \<and>
    (\<forall>p. p \<noteq> q \<longrightarrow> mem_tickets p w' = mem_tickets p w)"
proof -
  have "strict_sorted_key tkey (tl (ms_heaps w q))"
    using mem_wfD(2) [OF assms(1,2)] by (rule strict_sorted_key_tl)
  from mem_wf_heap [OF assms(1) this, of q] assms show ?thesis
    by (cases "ms_heaps w q") (auto simp: mem_pop_def mem_handle_def mem_tickets_def)
qed

sublocale natural_order \<subseteq> mem_st: ticket_store "mem_store_ops le" mem_tickets mem_inv mem_room mem_handle mem_wf
proof (intro ticket_store.intro ticket_store_axioms.intro, goal_cases)
  case 1
  then show ?case using mem.cached_ticket_queue_axioms by simp
next
  case (2 w c q c')
  then show ?case by (rule mem_wfD(3))
next
  case (3 w c q)
  then show ?case using mem_wfD(2) by (simp add: mem_inv_def)
next
  case (4 w c q r q' w')
  then show ?case by (intro mem_pop_frame) (simp_all add: mem_queue_ops_def)
next
  case (5 w c q t pr q' w')
  then have "strict_sorted_key tkey (heap_push le t (ms_heaps w q))"
    using mem_wfD(2) [OF 5(1,2)]
    by (simp add: mem_room_def heap_push_insort strict_sorted_key_insort)
  from mem_wf_heap [OF 5(1) this, of q] 5 show ?case
    by (auto simp: mem_ops_defs mem_handle_def mem_tickets_def)
next
  case (6 w c oq w')
  then show ?case by (intro mem_open_correct) simp_all
next
  case (7 w c)
  then show ?case using mem_delete_queue by simp
next
  case (8 w)
  then show ?case by (auto simp: mem_handle_def dom_map_of_conv_image_fst)
qed

context natural_order
begin

lemma mem_store_provider:
  "ticket_store (mem_store_ops le) mem_tickets mem_inv mem_room mem_handle mem_wf"
  by (rule mem_st.ticket_store_axioms)

end

end
