(* ===== verification/Index_Race.thy ===== *)
theory Index_Race
  imports Index_Tracker
begin

text \<open>
  The atomic steps of \<open>OutgoingIndexEntry\<close> (\<open>ticket-manager/src/utils.rs\<close>) interleaved:
  any number of callers inside \<open>increment_at_least\<close> and one thread inside the loop body of
  \<open>save\<close> share one entry. A schedule is the list of the actors in the order they move; an
  actor's program counter says which atomic access comes next. Relaxed atomics on one
  location have a single modification order, so sequences of steps are the behaviours of
  the counter.
\<close>

section \<open>The machine\<close>

text \<open>The program counter of a caller of \<open>increment_at_least(m)\<close>.\<close>

datatype caller = Start u64 | Lift u64 | Retake u64 | Took u64 u64 | Issued u64 u64

text \<open>The program counter of \<open>save\<close> for this entry.\<close>

datatype saver = CheckDirty | LoadIndex | WriteStore u64 | MarkClean | SaveDone

datatype actor = Caller nat | Saver

record race =
  rc_entry :: index_entry
  rc_stored :: "u64 option"
  rc_callers :: "nat \<Rightarrow> caller"
  rc_saver :: saver

fun caller_step :: "u64 \<Rightarrow> caller \<Rightarrow> index_entry \<Rightarrow> caller \<times> index_entry" where
  "caller_step mx (Start m) e =
     (let v = ie_index e; e' = e\<lparr>ie_index := v + 1\<rparr>
      in (if v < m then Lift m else Took m v, e'))"
| "caller_step mx (Lift m) e = (Retake m, e\<lparr>ie_index := max (ie_index e) m\<rparr>)"
| "caller_step mx (Retake m) e = (Took m (ie_index e), e\<lparr>ie_index := ie_index e + 1\<rparr>)"
| "caller_step mx (Took m v) e =
     (Issued m (min v mx), if v \<le> mx then e\<lparr>ie_dirty := True\<rparr> else e)"
| "caller_step mx (Issued m v) e = (Issued m v, e)"

fun saver_step :: "u64 \<Rightarrow> saver \<Rightarrow> index_entry \<Rightarrow> u64 option \<Rightarrow> saver \<times> index_entry \<times> u64 option" where
  "saver_step mx CheckDirty e st = (if ie_dirty e then LoadIndex else SaveDone, e, st)"
| "saver_step mx LoadIndex e st = (WriteStore (entry_get mx e), e, st)"
| "saver_step mx (WriteStore v) e st = (MarkClean, e, Some v)"
| "saver_step mx MarkClean e st = (SaveDone, mark_clean e, st)"
| "saver_step mx SaveDone e st = (SaveDone, e, st)"

fun race_step :: "u64 \<Rightarrow> actor \<Rightarrow> race \<Rightarrow> race" where
  "race_step mx (Caller i) s =
     (case caller_step mx (rc_callers s i) (rc_entry s) of
        (pc, e) \<Rightarrow> s\<lparr>rc_entry := e, rc_callers := (rc_callers s)(i := pc)\<rparr>)"
| "race_step mx Saver s =
     (case saver_step mx (rc_saver s) (rc_entry s) (rc_stored s) of
        (pc, e, st) \<Rightarrow> s\<lparr>rc_entry := e, rc_stored := st, rc_saver := pc\<rparr>)"

definition race_run :: "u64 \<Rightarrow> actor list \<Rightarrow> race \<Rightarrow> race" where
  "race_run mx sched s = fold (race_step mx) sched s"

text \<open>Every caller about to enter, with the minimum it asks for, and a save about to begin.\<close>

definition race_init :: "index_entry \<Rightarrow> u64 option \<Rightarrow> (nat \<Rightarrow> u64) \<Rightarrow> race" where
  "race_init e st mins =
     \<lparr>rc_entry = e, rc_stored = st, rc_callers = (\<lambda>i. Start (mins i)), rc_saver = CheckDirty\<rparr>"

text \<open>Running one caller without interruption is the one-step operation of the tracker.\<close>

lemma caller_alone:
  "fold (race_step mx) [Caller i, Caller i, Caller i, Caller i] (race_init e st mins) =
     (case increment_at_least mx (mins i) e of (v, e') \<Rightarrow>
       (race_init e' st mins)\<lparr>rc_callers := (\<lambda>j. Start (mins j))(i := Issued (mins i) v)\<rparr>)"
  by (simp add: race_init_def increment_at_least_def Let_def)

section \<open>Issued indices are distinct\<close>

fun requested :: "caller \<Rightarrow> u64" where
  "requested (Start m) = m"
| "requested (Lift m) = m"
| "requested (Retake m) = m"
| "requested (Took m v) = m"
| "requested (Issued m v) = m"

text \<open>The index a caller holds, when it is below the saturation point.\<close>

fun held :: "u64 \<Rightarrow> caller \<Rightarrow> u64 option" where
  "held mx (Took m v) = (if v < mx then Some v else None)"
| "held mx (Issued m v) = (if v < mx then Some v else None)"
| "held mx _ = None"

fun caller_ok :: "u64 \<Rightarrow> u64 \<Rightarrow> caller \<Rightarrow> bool" where
  "caller_ok mx idx (Start m) = (m \<le> mx)"
| "caller_ok mx idx (Lift m) = (m \<le> mx)"
| "caller_ok mx idx (Retake m) = (m \<le> mx \<and> m \<le> idx)"
| "caller_ok mx idx (Took m v) = (m \<le> v \<and> v < idx \<and> m \<le> mx)"
| "caller_ok mx idx (Issued m v) = (m \<le> v \<and> (v < idx \<or> v = mx) \<and> m \<le> mx \<and> v \<le> mx)"

definition race_inv :: "u64 \<Rightarrow> race \<Rightarrow> bool" where
  "race_inv mx s \<longleftrightarrow>
     (\<forall>i. caller_ok mx (ie_index (rc_entry s)) (rc_callers s i)) \<and>
     (\<forall>i j v. i \<noteq> j \<longrightarrow> held mx (rc_callers s i) = Some v \<longrightarrow> held mx (rc_callers s j) \<noteq> Some v)"

lemma caller_ok_mono: "caller_ok mx idx pc \<Longrightarrow> idx \<le> idx' \<Longrightarrow> caller_ok mx idx' pc"
  by (cases pc) auto

lemma held_below: "caller_ok mx idx pc \<Longrightarrow> held mx pc = Some v \<Longrightarrow> v < idx"
  by (cases pc) (auto split: if_splits)

lemma caller_step_ok:
  assumes "caller_step mx pc e = (pc', e')" "caller_ok mx (ie_index e) pc"
    and "unat (ie_index e) + 1 < 2 ^ 64"
  shows "caller_ok mx (ie_index e') pc'" "ie_index e \<le> ie_index e'"
    and "held mx pc' = held mx pc \<or> held mx pc = None \<and> (\<forall>v. held mx pc' = Some v \<longrightarrow> ie_index e \<le> v)"
    and "unat (ie_index e') \<le> max (unat (ie_index e) + 1) (unat mx)"
proof -
  have lt: "ie_index e < ie_index e + 1" and un: "unat (ie_index e + 1) = unat (ie_index e) + 1"
    using assms(3) by (rule less_Suc_u64, rule unat_Suc_u64)
  show "ie_index e \<le> ie_index e'"
    using assms(1) lt by (cases pc) (auto simp: Let_def)
  show "unat (ie_index e') \<le> max (unat (ie_index e) + 1) (unat mx)"
    using assms(1,2) un by (cases pc) (auto simp: Let_def word_le_nat_alt)
  show "caller_ok mx (ie_index e') pc'"
    using assms(1,2) lt
    by (cases pc) (auto simp: Let_def min_def not_le intro: order.strict_trans2 split: if_splits)
  show "held mx pc' = held mx pc \<or> held mx pc = None \<and> (\<forall>v. held mx pc' = Some v \<longrightarrow> ie_index e \<le> v)"
    using assms(1) by (cases pc) (auto simp: Let_def min_def split: if_splits)
qed

lemma race_step_inv:
  assumes "race_inv mx s" "unat (ie_index (rc_entry s)) + 1 < 2 ^ 64"
  shows "race_inv mx (race_step mx a s) \<and>
    unat (ie_index (rc_entry (race_step mx a s))) \<le> max (unat (ie_index (rc_entry s)) + 1) (unat mx)"
proof (cases a)
  case Saver
  then have "ie_index (rc_entry (race_step mx a s)) = ie_index (rc_entry s)"
    "rc_callers (race_step mx a s) = rc_callers s"
    by (cases "rc_saver s"; simp add: mark_clean_def)+
  with assms show ?thesis by (simp add: race_inv_def)
next
  case (Caller i)
  obtain pc e where p: "caller_step mx (rc_callers s i) (rc_entry s) = (pc, e)" by force
  have oki: "\<And>j. caller_ok mx (ie_index (rc_entry s)) (rc_callers s j)"
    using assms(1) by (simp add: race_inv_def)
  note st = caller_step_ok [OF p oki assms(2)]
  have below: "held mx (rc_callers s j) = Some v \<Longrightarrow> v < ie_index (rc_entry s)" for j v
    using held_below [OF oki] by blast
  have "caller_ok mx (ie_index e) (((rc_callers s)(i := pc)) j)" for j
    using st(1,2) oki [of j] by (auto intro: caller_ok_mono)
  moreover have "held mx (((rc_callers s)(i := pc)) j) \<noteq> Some v"
    if "k \<noteq> j" "held mx (((rc_callers s)(i := pc)) k) = Some v" for k j v
    using that st(3) below [of j v] below [of k v] assms(1)
    by (auto simp: race_inv_def split: if_splits) (metis leD)+
  ultimately show ?thesis
    using st(4) p Caller by (simp add: race_inv_def)
qed

lemma race_run_inv:
  assumes "race_inv mx s" "max (unat (ie_index (rc_entry s))) (unat mx) + length sched < 2 ^ 64"
  shows "race_inv mx (race_run mx sched s)"
  using assms
proof (induction sched arbitrary: s)
  case Nil
  then show ?case by (simp add: race_run_def)
next
  case (Cons a sched)
  have b: "unat (ie_index (rc_entry s)) + 1 < 2 ^ 64" using Cons.prems(2) by simp
  note st = race_step_inv [OF Cons.prems(1) b, of a]
  have "max (unat (ie_index (rc_entry (race_step mx a s)))) (unat mx) + length sched < 2 ^ 64"
    using st Cons.prems(2) by (auto simp: max_def split: if_splits)
  with Cons.IH st show ?case by (simp add: race_run_def)
qed

lemma race_init_inv: "(\<And>i. mins i \<le> mx) \<Longrightarrow> race_inv mx (race_init e st mins)"
  by (simp add: race_inv_def race_init_def)


text \<open>
  However the steps of the callers and of a save are interleaved, no two callers are given
  the same index below the saturation point, and no caller an index below the one it asked
  for (as long as the counter does not wrap, which takes \<open>2\<^sup>6\<^sup>4\<close> calls).
\<close>

lemma race_issued_distinct:
  assumes "\<And>i. mins i \<le> mx"
    and "max (unat (ie_index e)) (unat mx) + length sched < 2 ^ 64"
    and "rc_callers (race_run mx sched (race_init e st mins)) i = Issued m v"
    and "rc_callers (race_run mx sched (race_init e st mins)) j = Issued m' v'"
    and "i \<noteq> j" "v < mx"
  shows "v \<noteq> v'"
proof -
  have "race_inv mx (race_run mx sched (race_init e st mins))"
    using assms(1,2) by (intro race_run_inv race_init_inv) (auto simp: race_init_def)
  then have "held mx (rc_callers (race_run mx sched (race_init e st mins)) j) \<noteq> Some v"
    using assms(3,5,6) unfolding race_inv_def by force
  then show ?thesis using assms(4,6) by auto
qed

lemma caller_step_requested: "caller_step mx pc e = (pc', e') \<Longrightarrow> requested pc' = requested pc"
  by (cases pc) (auto simp: Let_def)

lemma race_run_requested: "requested (rc_callers (race_run mx sched s) i) = requested (rc_callers s i)"
proof (induction sched arbitrary: s)
  case (Cons a sched)
  have "requested (rc_callers (race_step mx a s) i) = requested (rc_callers s i)"
    by (cases a) (auto split: prod.splits dest: caller_step_requested)
  with Cons show ?case by (simp add: race_run_def)
qed (simp add: race_run_def)

lemma race_issued_at_least:
  assumes "\<And>i. mins i \<le> mx"
    and "max (unat (ie_index e)) (unat mx) + length sched < 2 ^ 64"
    and "rc_callers (race_run mx sched (race_init e st mins)) i = Issued m v"
  shows "mins i \<le> v \<and> v \<le> mx"
proof -
  have "race_inv mx (race_run mx sched (race_init e st mins))"
    using assms(1,2) by (intro race_run_inv race_init_inv) (auto simp: race_init_def)
  then have "caller_ok mx (ie_index (rc_entry (race_run mx sched (race_init e st mins)))) (Issued m v)"
    using assms(3) unfolding race_inv_def by metis
  moreover have "m = mins i"
    using race_run_requested [of mx sched "race_init e st mins" i] assms(3) by (simp add: race_init_def)
  ultimately show ?thesis by simp
qed

section \<open>A save that races with a caller\<close>

text \<open>
  A caller that takes its index after the save has loaded the counter and raises the flag
  before the save lowers it is lost: the entry is clean while the store is behind.
\<close>

definition save_race :: "actor list" where
  "save_race = [Saver, Saver, Caller 0, Caller 0, Saver, Saver]"

lemma save_race_state:
  assumes "ie_dirty e" "ie_index e < mx" "mins 0 = 0"
  shows "race_run mx save_race (race_init e st mins) =
    \<lparr>rc_entry = \<lparr>ie_index = ie_index e + 1, ie_dirty = False\<rparr>, rc_stored = Some (ie_index e),
     rc_callers = (\<lambda>j. Start (mins j))(0 := Issued 0 (ie_index e)), rc_saver = SaveDone\<rparr>"
  using assms order.strict_implies_order [OF assms(2)]
  by (cases e) (simp add: race_run_def save_race_def race_init_def Let_def entry_get_def mark_clean_def min_def)

text \<open>A save that is not interrupted leaves the entry clean and the store up to date.\<close>

lemma save_alone_state:
  "ie_dirty e \<Longrightarrow> race_run mx [Saver, Saver, Saver, Saver] (race_init e st mins) =
    (race_init (mark_clean e) (Some (entry_get mx e)) mins)\<lparr>rc_saver := SaveDone\<rparr>"
  by (simp add: race_run_def race_init_def)

section \<open>Properties\<close>

text \<open>
  C4. Concurrent callers that take an index never receive the same one. For every
  number of callers, every minimum they ask for and every interleaving of their atomic
  steps with a running save, two callers that are done hold different indices, each at
  least the minimum asked for (below the saturation point, and as long as the 64 bit
  counter does not wrap).
\<close>

theorem concurrent_indices_distinct:
  assumes "\<And>i. mins i \<le> mx"
    and "max (unat (ie_index e)) (unat mx) + length sched < 2 ^ 64"
    and "rc_callers (race_run mx sched (race_init e st mins)) i = Issued m v"
    and "rc_callers (race_run mx sched (race_init e st mins)) j = Issued m' v'"
    and "i \<noteq> j" "v < mx"
  shows "v \<noteq> v' \<and> mins i \<le> v \<and> mins j \<le> v'"
  using race_issued_distinct [OF assms] race_issued_at_least [OF assms(1-3)]
    race_issued_at_least [OF assms(1,2,4)] by blast

theorem concurrent_indices_distinct_witness:
  "\<exists>v v'. rc_callers (race_run 1000 [Caller 0, Caller 1, Caller 0, Saver, Caller 1, Caller 0, Saver, Caller 1,
      Caller 1, Caller 0] (race_init (entry_new 3) None (\<lambda>_. 5))) 0 = Issued 5 v \<and>
    rc_callers (race_run 1000 [Caller 0, Caller 1, Caller 0, Saver, Caller 1, Caller 0, Saver, Caller 1,
      Caller 1, Caller 0] (race_init (entry_new 3) None (\<lambda>_. 5))) 1 = Issued 5 v' \<and> v \<noteq> v' \<and> 5 \<le> v"
proof -
  let ?s = "race_run 1000 [Caller 0, Caller 1, Caller 0, Saver, Caller 1, Caller 0, Saver, Caller 1,
      Caller 1, Caller 0] (race_init (entry_new 3) None (\<lambda>_. 5))"
  have r: "rc_callers ?s 0 = Issued 5 5" "rc_callers ?s 1 = Issued 5 6"
    by (simp_all add: race_run_def race_init_def entry_new_def entry_get_def Let_def)
  have "(5 :: u64) \<noteq> 6 \<and> 5 \<le> (5 :: u64) \<and> 5 \<le> (6 :: u64)"
    by (rule concurrent_indices_distinct [OF _ _ r]) (simp_all add: entry_new_def)
  with r show ?thesis by blast
qed

text \<open>
  A save that races with a caller loses the caller's index. The save reads the counter,
  a caller takes the index and raises the flag, the save writes the value it read and
  lowers the flag: the entry is clean, a later save does not write it, and a process that
  resumes from the store issues the same index again.
\<close>

theorem save_race_reissues_index:
  assumes "i < mx"
  shows "\<exists>sched s. s = race_run mx sched (race_init (entry_new i) None (\<lambda>_. 0)) \<and>
    rc_saver s = SaveDone \<and> rc_callers s 0 = Issued 0 i \<and> \<not> ie_dirty (rc_entry s) \<and>
    rc_stored s = Some i \<and> fst (increment_at_least mx 0 (snd (entry_set mx i (entry_new i)))) = i"
proof (intro exI conjI)
  show "race_run mx save_race (race_init (entry_new i) None (\<lambda>_. 0)) =
      race_run mx save_race (race_init (entry_new i) None (\<lambda>_. 0))" ..
qed (use save_race_state [of "entry_new i" mx "\<lambda>_. 0" None] assms order.strict_implies_order [OF assms] in
      \<open>simp_all add: entry_new_def entry_set_eq increment_at_least_def Let_def min_def\<close>)

theorem save_race_reissues_index_witness:
  "\<exists>s :: race. rc_saver s = SaveDone \<and> rc_callers s 0 = Issued 0 7 \<and> \<not> ie_dirty (rc_entry s) \<and> rc_stored s = Some (7 :: u64)"
proof -
  have "(7 :: u64) < 1000" by simp
  from save_race_reissues_index [OF this] show ?thesis by blast
qed

end
