(* ===== verification/Ticket_Factory.thy ===== *)
theory Ticket_Factory
  imports Index_Race
begin

text \<open>
  \<open>HoprTicketFactory\<close> (\<open>ticket-manager/src/factory.rs\<close>): it hands out the indices of the
  outgoing tickets, builds multihop tickets, saves the indices, and resumes from the store
  and the channels on chain after a restart. The store is any provider of the index
  contract. The tracker is the component of theory \<open>Index_Tracker\<close>; the value of the
  incoming tickets is asked from the manager's queue map when there is one.
\<close>

section \<open>Operations\<close>

abbreviation channel_key :: "channel_entry \<Rightarrow> index_key" where
  "channel_key ch \<equiv> (ch_id ch, ch_epoch ch)"

definition next_outgoing_ticket_index :: "u64 \<Rightarrow> channel_entry \<Rightarrow> index_cache \<Rightarrow> u64 \<times> index_cache" where
  "next_outgoing_ticket_index mx ch tr =
     (case next_at_least mx (ch_id ch) (ch_epoch ch) (ch_ticket_index ch) tr of
        (next_index, tr1) \<Rightarrow>
          (next_index,
           if next_index = 0 \<and> ch_epoch ch > 1 then snd (ic_remove (ch_id ch) (ch_epoch ch - 1) tr1)
           else tr1))"

definition save_outgoing_indices :: "('w, 'e) index_ops \<Rightarrow> u64 \<Rightarrow> index_cache \<Rightarrow> 'w
    \<Rightarrow> ((nat, 'c) tm_error + unit) \<times> index_cache \<times> 'w" where
  "save_outgoing_indices ops mx tr w =
     (case ic_save ops mx tr w of (r, tr', w') \<Rightarrow> (map_err StoreError r, tr', w'))"

text \<open>\<open>sync_from_outgoing_channels\<close>: purge, then load, over the set of channels.\<close>

definition open_at :: "channel_entry list \<Rightarrow> index_key \<Rightarrow> bool" where
  "open_at chs k \<longleftrightarrow> list_ex (\<lambda>ch. ch_status ch = Open \<and> ch_id ch = fst k \<and> ch_epoch ch = snd k) chs"

fun purge_indices :: "('w, 'e) index_ops \<Rightarrow> channel_entry list \<Rightarrow> index_key list \<Rightarrow> 'w
    \<Rightarrow> ('e + unit) \<times> 'w" where
  "purge_indices ops chs [] w = (Inr (), w)"
| "purge_indices ops chs (k # ks) w =
     (if \<not> open_at chs k then
        (case i_delete ops (fst k) (snd k) w of
           (Inl err, w') \<Rightarrow> (Inl err, w')
         | (Inr _, w') \<Rightarrow> purge_indices ops chs ks w')
      else purge_indices ops chs ks w)"

fun load_indices :: "('w, 'e) index_ops \<Rightarrow> u64 \<Rightarrow> channel_entry list \<Rightarrow> 'w \<Rightarrow> index_cache
    \<Rightarrow> ('e + unit) \<times> index_cache" where
  "load_indices ops mx [] w tr = (Inr (), tr)"
| "load_indices ops mx (ch # chs) w tr =
     (if ch_status ch = Open then
        (case i_load ops (ch_id ch) (ch_epoch ch) w of
           Inl err \<Rightarrow> (Inl err, tr)
         | Inr stored \<Rightarrow>
             (let out_index = max (unwrap_or 0 stored) (ch_ticket_index ch)
              in load_indices ops mx chs w (snd (upsert mx (ch_id ch) (ch_epoch ch) out_index tr))))
      else load_indices ops mx chs w tr)"

definition sync_from_outgoing_channels :: "('w, 'e) index_ops \<Rightarrow> u64 \<Rightarrow> channel_entry list
    \<Rightarrow> index_cache \<Rightarrow> 'w \<Rightarrow> (('e, 'c) tm_error + unit) \<times> index_cache \<times> 'w" where
  "sync_from_outgoing_channels ops mx channels tr w =
     (let outgoing = remdups channels in
      case i_iter ops w of
        Inl err \<Rightarrow> (Inl (StoreError err), tr, w)
      | Inr stored_indices \<Rightarrow>
          (case purge_indices ops outgoing stored_indices w of
             (Inl err, w') \<Rightarrow> (Inl (StoreError err), tr, w')
           | (Inr _, w') \<Rightarrow>
               (case load_indices ops mx outgoing w' tr of (r, tr') \<Rightarrow> (map_err StoreError r, tr', w'))))"

text \<open>
  The builder \<open>TicketBuilder\<close> collects the fields of the ticket. \<open>div_prob\<close> is the division
  of an amount by a winning probability (\<open>div_f64\<close> of the \<open>hopr-api\<close> crate, which fails on
  a probability that is not positive).
\<close>

record 'p ticket_builder =
  tb_counterparty :: address
  tb_amount :: balance
  tb_index :: u64
  tb_win_prob :: 'p
  tb_channel_epoch :: u32

definition ticket_amount :: "(balance \<Rightarrow> 'p \<Rightarrow> balance option) \<Rightarrow> balance \<Rightarrow> u8 \<Rightarrow> 'p \<Rightarrow> balance option" where
  "ticket_amount div_prob price pos prob = div_prob (sat_mul price (ucast (pos - 1))) prob"

definition new_multihop_ticket :: "(balance \<Rightarrow> 'p \<Rightarrow> balance option) \<Rightarrow> u64 \<Rightarrow> channel_entry \<Rightarrow> u8
    \<Rightarrow> 'p \<Rightarrow> balance \<Rightarrow> index_cache \<Rightarrow> (('e, 'c) tm_error + 'p ticket_builder) \<times> index_cache" where
  "new_multihop_ticket div_prob mx ch pos prob price tr =
     (if pos = 1 then (Inl (OtherError ''current path position for multihop ticket must be greater than 1''), tr)
      else if ch_status ch \<noteq> Open then (Inl (OtherError ''channel must be open to create a multihop ticket''), tr)
      else case ticket_amount div_prob price pos prob of
        None \<Rightarrow> (Inl (OtherError ''invalid winning probability for outgoing ticket''), tr)
      | Some amount \<Rightarrow>
          (if ch_balance ch < amount then (Inl (OutOfFunds (ch_id ch) amount), tr)
           else (case next_outgoing_ticket_index mx ch tr of (index, tr') \<Rightarrow>
             (Inr \<lparr>tb_counterparty = ch_destination ch, tb_amount = amount, tb_index = index,
                   tb_win_prob = prob, tb_channel_epoch = ch_epoch ch\<rparr>, tr'))))"

text \<open>
  \<open>remaining_incoming_channel_stake\<close>: the weak reference to the queue map is \<open>None\<close> when the
  factory is standalone or its manager is gone, otherwise its \<open>unrealized_value\<close>.
\<close>

definition remaining_incoming_channel_stake ::
    "(channel_id \<Rightarrow> u64 option \<Rightarrow> ('e, 'c) tm_error + balance option) option \<Rightarrow> channel_entry
      \<Rightarrow> ('e, 'c) tm_error + balance" where
  "remaining_incoming_channel_stake queue_map ch =
     (case queue_map of
        Some unrealized \<Rightarrow>
          map_ok (\<lambda>uv. sat_sub (ch_balance ch) (unwrap_or 0 uv)) (unrealized (ch_id ch) None)
      | None \<Rightarrow> Inr (ch_balance ch))"

section \<open>The indices handed out\<close>

lemma counter_remove:
  "counter (snd (ic_remove ch ep c)) k = (if k = (ch, ep) then 0 else counter c k)"
  by (simp add: counter_def ic_lookup_remove)

lemma next_outgoing_eq:
  assumes "unat (max (counter tr (channel_key ch)) (ch_ticket_index ch)) + 1 < 2 ^ 64"
    and "next_outgoing_ticket_index mx ch tr = (v, tr')"
  shows "v = min (max (counter tr (channel_key ch)) (ch_ticket_index ch)) mx"
    and "counter tr' (channel_key ch) = max (counter tr (channel_key ch)) (ch_ticket_index ch) + 1"
    and "k \<noteq> channel_key ch \<Longrightarrow> counter tr' k =
      (if v = 0 \<and> ch_epoch ch > 1 \<and> k = (ch_id ch, ch_epoch ch - 1) then 0 else counter tr k)"
proof -
  obtain v1 tr1 where n: "next_at_least mx (ch_id ch) (ch_epoch ch) (ch_ticket_index ch) tr = (v1, tr1)"
    by force
  note eq = next_at_least_eq [OF assms(1) n]
  have c: "k \<noteq> channel_key ch \<Longrightarrow> counter tr1 k = counter tr k"
    using eq(3) [of k] by (simp add: counter_def)
  have ne: "channel_key ch \<noteq> (ch_id ch, ch_epoch ch - 1)" by simp
  show "v = min (max (counter tr (channel_key ch)) (ch_ticket_index ch)) mx"
    and "counter tr' (channel_key ch) = max (counter tr (channel_key ch)) (ch_ticket_index ch) + 1"
    and "k \<noteq> channel_key ch \<Longrightarrow> counter tr' k =
      (if v = 0 \<and> ch_epoch ch > 1 \<and> k = (ch_id ch, ch_epoch ch - 1) then 0 else counter tr k)"
    using assms(2) n eq(1,2) c ne
    by (auto simp: next_outgoing_ticket_index_def counter_remove)
qed

text \<open>A sequence of requests, each with the channel entry its caller sees.\<close>

fun outgoing_indices :: "u64 \<Rightarrow> channel_entry list \<Rightarrow> index_cache \<Rightarrow> u64 list \<times> index_cache" where
  "outgoing_indices mx [] tr = ([], tr)"
| "outgoing_indices mx (ch # chs) tr =
     (case next_outgoing_ticket_index mx ch tr of (v, tr1) \<Rightarrow>
       (case outgoing_indices mx chs tr1 of (vs, tr2) \<Rightarrow> (v # vs, tr2)))"


lemma outgoing_indices_length [simp]: "length (fst (outgoing_indices mx chs tr)) = length chs"
  by (induction chs arbitrary: tr) (simp_all add: case_prod_unfold)

lemma unat_counter_next:
  assumes "max (unat (counter tr (channel_key ch))) (unat (ch_ticket_index ch)) + 1 < 2 ^ 64"
    and "next_outgoing_ticket_index mx ch tr = (v, tr')"
  shows "unat (counter tr' k) \<le> max (unat (counter tr k)) (unat (ch_ticket_index ch)) + 1"
proof -
  have b: "unat (max (counter tr (channel_key ch)) (ch_ticket_index ch)) + 1 < 2 ^ 64"
    using assms(1) by simp
  note eq = next_outgoing_eq [OF b assms(2)]
  show ?thesis
  proof (cases "k = channel_key ch")
    case True
    with eq(2) unat_Suc_u64 [OF b] show ?thesis by simp
  next
    case False
    with eq(3) [OF False] show ?thesis by (simp add: max_def)
  qed
qed

text \<open>
  A later request is given an index of at least the counter: as long as no request of the
  next epoch came in between (it may drop the counter), nothing below is handed out again.
\<close>

lemma outgoing_indices_at_least:
  assumes "\<forall>k. unat (counter tr k) + length chs \<le> M" "\<forall>ch\<in>set chs. unat (ch_ticket_index ch) + length chs \<le> M"
    and "M < 2 ^ 64"
    and "j < length chs" "channel_key (chs ! j) = k"
    and "\<forall>i<j. \<not> (ch_id (chs ! i) = fst k \<and> ch_epoch (chs ! i) = snd k + 1)"
  shows "min (counter tr k) mx \<le> fst (outgoing_indices mx chs tr) ! j"
  using assms
proof (induction chs arbitrary: tr j M)
  case Nil
  then show ?case by simp
next
  case (Cons ch chs)
  obtain v tr1 where n: "next_outgoing_ticket_index mx ch tr = (v, tr1)" by force
  obtain vs tr2 where r: "outgoing_indices mx chs tr1 = (vs, tr2)" by force
  have b0: "max (unat (counter tr k')) (unat (ch_ticket_index ch)) + length (ch # chs) \<le> M" for k'
    using spec [OF Cons.prems(1), of k'] Cons.prems(2) by (auto simp: max_def)
  have b: "max (unat (counter tr (channel_key ch))) (unat (ch_ticket_index ch)) + 1 < 2 ^ 64"
    using b0 [of "channel_key ch"] Cons.prems(3) by (auto simp: max_def split: if_splits)
  then have b': "unat (max (counter tr (channel_key ch)) (ch_ticket_index ch)) + 1 < 2 ^ 64" by simp
  note eq = next_outgoing_eq [OF b' n]
  show ?case
  proof (cases j)
    case 0
    then have "k = channel_key ch" using Cons.prems(5) by simp
    then have "min (counter tr k) mx \<le> v" using eq(1) by (simp add: min_le_iff_disj)
    with 0 n r show ?thesis by simp
  next
    case (Suc i)
    have k1: "counter tr k \<le> counter tr1 k"
    proof (cases "k = channel_key ch")
      case True
      with eq(2) less_Suc_u64 [OF b'] show ?thesis by (simp add: max.coboundedI1 order.strict_implies_order)
    next
      case False
      moreover have "\<not> (1 < ch_epoch ch \<and> k = (ch_id ch, ch_epoch ch - 1))"
        using Cons.prems(6) Suc by (auto dest: spec [of _ 0])
      ultimately show ?thesis using eq(3) [OF False] by auto
    qed
    have "\<forall>k. unat (counter tr1 k) + length chs \<le> M"
    proof
      fix k' show "unat (counter tr1 k') + length chs \<le> M"
        using unat_counter_next [OF b n, of k'] b0 [of k'] by simp
    qed
    moreover have "\<forall>ch\<in>set chs. unat (ch_ticket_index ch) + length chs \<le> M"
      using Cons.prems(2) by fastforce
    moreover have "\<forall>i'<i. \<not> (ch_id (chs ! i') = fst k \<and> ch_epoch (chs ! i') = snd k + 1)"
      using Cons.prems(6) Suc by fastforce
    ultimately have "min (counter tr1 k) mx \<le> vs ! i"
      using Cons.IH [of tr1 M i] Cons.prems(3,4,5) Suc r by simp
    moreover have "min (counter tr k) mx \<le> min (counter tr1 k) mx"
      using k1 by (rule min.mono) (rule order_refl)
    ultimately have "min (counter tr k) mx \<le> vs ! i" by (rule order_trans [rotated])
    then show ?thesis using Suc n r by simp
  qed
qed

text \<open>
  Within one epoch of one channel the indices handed out are strictly increasing (below
  the saturation point), whatever is requested for other channels in between, as long as
  no request for the next epoch of the channel comes between the two.
\<close>

lemma outgoing_indices_increasing:
  assumes "\<forall>k. unat (counter tr k) + length chs \<le> M" "\<forall>ch\<in>set chs. unat (ch_ticket_index ch) + length chs \<le> M"
    and "M < 2 ^ 64"
    and "i < j" "j < length chs" "channel_key (chs ! i) = channel_key (chs ! j)"
    and "\<forall>l. i < l \<and> l < j \<longrightarrow> \<not> (ch_id (chs ! l) = ch_id (chs ! j) \<and> ch_epoch (chs ! l) = ch_epoch (chs ! j) + 1)"
    and "fst (outgoing_indices mx chs tr) ! i < mx"
  shows "fst (outgoing_indices mx chs tr) ! i < fst (outgoing_indices mx chs tr) ! j"
  using assms
proof (induction chs arbitrary: tr i j M)
  case Nil
  then show ?case by simp
next
  case (Cons ch chs)
  obtain v tr1 where n: "next_outgoing_ticket_index mx ch tr = (v, tr1)" by force
  obtain vs tr2 where r: "outgoing_indices mx chs tr1 = (vs, tr2)" by force
  have b0: "max (unat (counter tr k')) (unat (ch_ticket_index ch)) + length (ch # chs) \<le> M" for k'
    using spec [OF Cons.prems(1), of k'] Cons.prems(2) by (auto simp: max_def)
  have b: "max (unat (counter tr (channel_key ch))) (unat (ch_ticket_index ch)) + 1 < 2 ^ 64"
    using b0 [of "channel_key ch"] Cons.prems(3) by (auto simp: max_def split: if_splits)
  then have b': "unat (max (counter tr (channel_key ch)) (ch_ticket_index ch)) + 1 < 2 ^ 64" by simp
  note eq = next_outgoing_eq [OF b' n]
  obtain j' where j: "j = Suc j'" using Cons.prems(4) by (cases j) auto
  have c1: "\<forall>k. unat (counter tr1 k) + length chs \<le> M"
  proof
    fix k' show "unat (counter tr1 k') + length chs \<le> M"
      using unat_counter_next [OF b n, of k'] b0 [of k'] by simp
  qed
  have c2: "\<forall>ch\<in>set chs. unat (ch_ticket_index ch) + length chs \<le> M"
    using Cons.prems(2) by fastforce
  show ?case
  proof (cases i)
    case 0
    let ?k = "channel_key ch"
    have k: "channel_key (chs ! j') = ?k" using Cons.prems(6) 0 j by simp
    have free: "\<forall>l<j'. \<not> (ch_id (chs ! l) = fst ?k \<and> ch_epoch (chs ! l) = snd ?k + 1)"
    proof (intro allI impI)
      fix l assume "l < j'"
      with Cons.prems(7) [rule_format, of "Suc l"] 0 j k
      show "\<not> (ch_id (chs ! l) = fst ?k \<and> ch_epoch (chs ! l) = snd ?k + 1)" by auto
    qed
    have "min (counter tr1 ?k) mx \<le> vs ! j'"
      using outgoing_indices_at_least [OF c1 c2 Cons.prems(3) _ k free, of mx] Cons.prems(5) j r by simp
    moreover have "v < mx" using Cons.prems(8) 0 n r by simp
    then have "v = max (counter tr ?k) (ch_ticket_index ch)" using eq(1) by (auto simp: min_def)
    then have "v < counter tr1 ?k" using eq(2) less_Suc_u64 [OF b'] by simp
    ultimately have "v < vs ! j'"
      using \<open>v < mx\<close> order.strict_trans2 [of v "min (counter tr1 ?k) mx"] by (simp add: min_def)
    then show ?thesis using 0 j n r by simp
  next
    case (Suc i')
    have "\<forall>l. i' < l \<and> l < j' \<longrightarrow> \<not> (ch_id (chs ! l) = ch_id (chs ! j') \<and> ch_epoch (chs ! l) = ch_epoch (chs ! j') + 1)"
    proof (intro allI impI)
      fix l assume "i' < l \<and> l < j'"
      with Cons.prems(7) [rule_format, of "Suc l"] Suc j
      show "\<not> (ch_id (chs ! l) = ch_id (chs ! j') \<and> ch_epoch (chs ! l) = ch_epoch (chs ! j') + 1)" by simp
    qed
    with Cons.IH [OF c1 c2 Cons.prems(3), of i' j'] Cons.prems(4-6,8) Suc j n r show ?thesis by simp
  qed
qed


definition sample_channel :: "u32 \<Rightarrow> u64 \<Rightarrow> channel_entry" where
  "sample_channel epoch index =
     \<lparr>ch_id = 1, ch_destination = 2, ch_balance = 100, ch_ticket_index = index, ch_status = Open, ch_epoch = epoch\<rparr>"

lemma outgoing_indices_increasing_witness:
  "fst (outgoing_indices 1000 [sample_channel 1 4, sample_channel 3 0, sample_channel 1 0] ic_empty) ! 0
   < fst (outgoing_indices 1000 [sample_channel 1 4, sample_channel 3 0, sample_channel 1 0] ic_empty) ! 2"
proof (rule outgoing_indices_increasing [where M = 7])
  show "fst (outgoing_indices 1000 [sample_channel 1 4, sample_channel 3 0, sample_channel 1 0] ic_empty) ! 0 < 1000"
    by (simp add: sample_channel_def next_outgoing_ticket_index_def next_at_least_def increment_at_least_def
        ic_lookup_def ic_empty_def entry_new_def Let_def)
qed (auto simp: sample_channel_def counter_def ic_lookup_def ic_empty_def less_Suc_eq)

text \<open>
  A request with an entry of an earlier epoch reissues indices. The first index of a new
  epoch drops the counter of the previous one, and a caller that still holds the channel
  entry of the previous epoch then receives an index that was handed out before.
\<close>

theorem stale_epoch_reissues:
  "fst (outgoing_indices 1000 [sample_channel 1 0, sample_channel 2 0, sample_channel 1 0] ic_empty) = [0, 0, 0]"
  by (simp add: sample_channel_def next_outgoing_ticket_index_def next_at_least_def increment_at_least_def
      ic_lookup_def ic_put_def ic_remove_def ic_empty_def entry_new_def Let_def)

section \<open>Synchronisation and restart\<close>

text \<open>The counter of a key after the channels were loaded over a stored map.\<close>

definition synced :: "(index_key \<rightharpoonup> u64) \<Rightarrow> channel_entry list \<Rightarrow> index_key \<Rightarrow> u64 \<Rightarrow> u64" where
  "synced stored chs k c =
     fold (\<lambda>ch c. if ch_status ch = Open \<and> channel_key ch = k
         then max c (max (unwrap_or 0 (stored k)) (ch_ticket_index ch)) else c) chs c"

lemma synced_ge: "c \<le> synced stored chs k c"
proof (induction chs arbitrary: c)
  case (Cons ch chs)
  have "c \<le> (if ch_status ch = Open \<and> channel_key ch = k
         then max c (max (unwrap_or 0 (stored k)) (ch_ticket_index ch)) else c)" by simp
  with Cons [of "if ch_status ch = Open \<and> channel_key ch = k
         then max c (max (unwrap_or 0 (stored k)) (ch_ticket_index ch)) else c"]
  show ?case unfolding synced_def by (simp only: fold_simps comp_def order_trans)
qed (simp add: synced_def)

lemma synced_mem:
  assumes "ch \<in> set chs" "ch_status ch = Open" "channel_key ch = k"
  shows "max (unwrap_or 0 (stored k)) (ch_ticket_index ch) \<le> synced stored chs k c"
  using assms
proof (induction chs arbitrary: c)
  case (Cons ch' chs)
  show ?case
  proof (cases "ch = ch'")
    case True
    let ?c = "max c (max (unwrap_or 0 (stored k)) (ch_ticket_index ch))"
    have "synced stored (ch' # chs) k c = synced stored chs k ?c"
      using True Cons.prems(2,3) by (simp add: synced_def)
    moreover have "?c \<le> synced stored chs k ?c" by (rule synced_ge)
    ultimately show ?thesis by (simp add: max_def split: if_splits)
  next
    case False
    with Cons show ?thesis by (simp add: synced_def)
  qed
qed simp

context index_store
begin

lemma purge_indices_ok:
  assumes "invar w" "purge_indices ops chs ks w = (r, w')"
  shows "r = Inr () \<and> invar w' \<and>
    index w' = (\<lambda>k. if k \<in> set ks \<and> \<not> open_at chs k then None else index w k)"
  using assms
proof (induction ks arbitrary: w)
  case Nil
  then show ?case by simp
next
  case (Cons k ks)
  obtain ch ep where k: "k = (ch, ep)" by force
  show ?case
  proof (cases "open_at chs k")
    case True
    with Cons.IH [OF Cons.prems(1)] Cons.prems(2) show ?thesis by (auto simp: fun_eq_iff)
  next
    case False
    obtain r1 w1 where d: "i_delete ops ch ep w = (r1, w1)" by force
    note st = delete [OF Cons.prems(1) d]
    have "purge_indices ops chs ks w1 = (r, w')"
      using Cons.prems(2) k d st False by simp
    with Cons.IH [of w1] st False k show ?thesis by (auto simp: fun_eq_iff)
  qed
qed

lemma load_indices_ok:
  assumes "invar w" "load_indices ops mx chs w tr = (r, tr')"
  shows "r = Inr () \<and> counter tr' k = synced (index w) chs k (counter tr k)"
  using assms(2)
proof (induction chs arbitrary: tr)
  case Nil
  then show ?case by (simp add: synced_def)
next
  case (Cons ch chs)
  show ?case
  proof (cases "ch_status ch = Open")
    case False
    with Cons show ?thesis by (simp add: synced_def)
  next
    case True
    define i where "i = max (unwrap_or 0 (index w (channel_key ch))) (ch_ticket_index ch)"
    obtain v tr1 where u: "upsert mx (ch_id ch) (ch_epoch ch) i tr = (v, tr1)" by force
    have "load_indices ops mx chs w tr1 = (r, tr')"
      using Cons.prems True u load [OF assms(1)] by (simp add: Let_def i_def)
    note IH = Cons.IH [OF this]
    have "counter tr1 k = (if channel_key ch = k then max (counter tr k) i else counter tr k)"
      using upsert_eq(2) [OF u] upsert_eq(3) [OF u, of k] by (auto simp: counter_def)
    with IH True show ?thesis by (simp add: synced_def i_def)
  qed
qed

text \<open>
  Synchronisation over a store that does not fail succeeds: exactly the keys of open
  channels stay in the store, and every counter is the largest of what it was, what is
  stored and what the chain says.
\<close>

lemma sync_outgoing_ok:
  assumes "invar w" "sync_from_outgoing_channels ops mx chs tr w = (r, tr', w')"
  shows "r = Inr ()" "invar w'"
    and "index w' = (\<lambda>k. if open_at (remdups chs) k then index w k else None)"
    and "counter tr' k = synced (index w') (remdups chs) k (counter tr k)"
proof -
  from iter [OF assms(1)] obtain ks where ks: "i_iter ops w = Inr ks" "set ks = dom (index w)" by blast
  obtain r1 w1 where p: "purge_indices ops (remdups chs) ks w = (r1, w1)" by force
  note pg = purge_indices_ok [OF assms(1) p]
  obtain r2 tr2 where l: "load_indices ops mx (remdups chs) w1 tr = (r2, tr2)" by force
  have "r = map_err StoreError r2" "tr' = tr2" "w' = w1"
    using assms(2) ks p pg l by (auto simp: sync_from_outgoing_channels_def Let_def)
  then show "r = Inr ()" "invar w'"
    and "counter tr' k = synced (index w') (remdups chs) k (counter tr k)"
    using load_indices_ok [OF _ l] pg by auto
  show "index w' = (\<lambda>k. if open_at (remdups chs) k then index w k else None)"
    using pg ks \<open>w' = w1\<close> by (auto simp: fun_eq_iff dom_def)
qed

text \<open>
  A factory resumed over the store that another one saved to never issues an index below
  the counter that one had reached.
\<close>

lemma restart_no_reuse:
  assumes "invar w" "ic_wf tr" "clean_saved mx (index w) tr"
    and "\<forall>k\<in>set (ic_removed tr). ic_lookup tr k = None"
    and "save_outgoing_indices ops mx tr w = (rs, tr1, w1)"
    and "sync_from_outgoing_channels ops mx chs ic_empty w1 = (r2, tr2, w2)"
    and "ch \<in> set chs" "ch_status ch = Open"
  shows "min (counter tr (channel_key ch)) mx \<le> counter tr2 (channel_key ch)"
    and "ch_ticket_index ch \<le> counter tr2 (channel_key ch)"
proof -
  obtain r c' where s: "ic_save ops mx tr w = (r, c', w1)" "tr1 = c'"
    using assms(5) by (auto simp: save_outgoing_indices_def split: prod.splits)
  note ok = ic_save_ok [OF assms(1,2) s(1)]
  note clean = ic_save_clean [OF assms(1-4) s(1)]
  have iw: "invar w1" using ok by simp
  note sy = sync_outgoing_ok [OF iw assms(6)]
  let ?k = "channel_key ch"
  have op: "open_at (remdups chs) ?k"
    using assms(7,8) by (auto simp: open_at_def list_ex_iff)
  have m: "max (unwrap_or 0 (index w2 ?k)) (ch_ticket_index ch) \<le> counter tr2 ?k"
    unfolding sy(4) using assms(7,8) by (intro synced_mem) auto
  then show "ch_ticket_index ch \<le> counter tr2 ?k" by simp
  have "min (counter tr ?k) mx \<le> unwrap_or 0 (index w2 ?k)"
  proof (cases "ic_lookup tr ?k")
    case None
    then show ?thesis by (simp add: counter_def)
  next
    case (Some e)
    have lk: "ic_lookup c' ?k = Some (mark_clean e)" using ok Some by simp
    have "index w1 ?k = Some (entry_get mx (mark_clean e))"
      using clean_savedD [OF clean lk] by (simp add: mark_clean_def)
    with sy(3) op Some show ?thesis by (simp add: counter_def entry_get_def mark_clean_def)
  qed
  moreover have "unwrap_or 0 (index w2 ?k) \<le> counter tr2 ?k" using m by simp
  ultimately show "min (counter tr ?k) mx \<le> counter tr2 ?k" by (rule order_trans)
qed

end

section \<open>Building tickets\<close>

lemma new_multihop_ticket_ok:
  assumes "new_multihop_ticket div_prob mx ch pos prob price tr = (Inr b, tr')"
  shows "ch_status ch = Open" "pos \<noteq> 1"
    and "ticket_amount div_prob price pos prob = Some (tb_amount b)" "tb_amount b \<le> ch_balance ch"
    and "next_outgoing_ticket_index mx ch tr = (tb_index b, tr')"
    and "tb_counterparty b = ch_destination ch" "tb_channel_epoch b = ch_epoch ch" "tb_win_prob b = prob"
  using assms
  by (auto simp: new_multihop_ticket_def not_less split: if_splits option.splits prod.splits)

lemma new_multihop_ticket_err:
  "new_multihop_ticket div_prob mx ch pos prob price tr = (Inl err, tr') \<Longrightarrow> tr' = tr"
  by (auto simp: new_multihop_ticket_def split: if_splits option.splits prod.splits)

end
