(* ===== verification/Ticket_Manager.thy ===== *)
theory Ticket_Manager
  imports Ticket_Store Ticket_Factory
begin

text \<open>
  \<open>HoprTicketManager\<close> (\<open>ticket-manager/src/manager.rs\<close>) and the queue map it shares with the
  factory (\<open>ticket-manager/src/utils.rs\<close>). An entry of the map holds the value-cached queue
  with its statistics behind one lock, and the redemption flag; map and redemption streams
  share it through an \<open>Arc\<close>, so entries live at addresses (positions of an append-only
  list). The critical sections are single steps; the redemption stream is cut where it
  awaits the chain.
\<close>

section \<open>State\<close>

record channel_stats =
  st_winning :: u128
  st_redeemed :: balance
  st_neglected :: balance
  st_rejected :: balance

definition stats_zero :: channel_stats where
  "stats_zero = \<lparr>st_winning = 0, st_redeemed = 0, st_neglected = 0, st_rejected = 0\<rparr>"

record 'q tm_entry =
  te_queue :: "'q vcq"
  te_stats :: channel_stats
  te_lock :: bool

record ('q, 'w) manager =
  m_channels :: "(channel_id \<times> nat) list"
  m_entries :: "'q tm_entry list"
  m_world :: 'w

definition entry_of_queue :: "('q, 'w, 'e) queue_ops \<Rightarrow> 'q vcq \<Rightarrow> 'w \<Rightarrow> 'q tm_entry" where
  "entry_of_queue ops q w =
     \<lparr>te_queue = q,
      te_stats = stats_zero\<lparr>st_winning := of_nat (unwrap_or 0 (res_ok (q_len (vc_ops ops) q w)))\<rparr>,
      te_lock = False\<rparr>"

definition manager_new :: "'w \<Rightarrow> ('q, 'w) manager" where
  "manager_new w = \<lparr>m_channels = [], m_entries = [], m_world = w\<rparr>"

definition count_winning :: "'q tm_entry \<Rightarrow> 'q tm_entry" where
  "count_winning e = e\<lparr>te_stats := (te_stats e)\<lparr>st_winning := st_winning (te_stats e) + 1\<rparr>\<rparr>"

definition add_neglected :: "balance \<Rightarrow> 'q tm_entry \<Rightarrow> 'q tm_entry" where
  "add_neglected a e = e\<lparr>te_stats := (te_stats e)\<lparr>st_neglected := sat_add (st_neglected (te_stats e)) a\<rparr>\<rparr>"

section \<open>Insertion\<close>

definition entry_push :: "('q, 'w, 'e) queue_ops \<Rightarrow> redeemable_ticket \<Rightarrow> verified_ticket list
    \<Rightarrow> 'q tm_entry \<Rightarrow> 'w \<Rightarrow> (('e, 'c) tm_error + verified_ticket list) \<times> 'q tm_entry \<times> 'w" where
  "entry_push ops t neglected e w =
     (case q_push (vc_ops ops) t (te_queue e) w of
        (Inl err, q, w') \<Rightarrow> (Inl (StoreError err), e\<lparr>te_queue := q\<rparr>, w')
      | (Inr _, q, w') \<Rightarrow> (Inr neglected, count_winning (e\<lparr>te_queue := q\<rparr>), w'))"

text \<open>The occupied arm: \<open>None\<close> stands for a drain that does not end.\<close>

definition entry_insert :: "('q, 'w, 'e) queue_ops \<Rightarrow> redeemable_ticket \<Rightarrow> 'q tm_entry \<Rightarrow> 'w
    \<Rightarrow> ((('e, 'c) tm_error + verified_ticket list) \<times> 'q tm_entry \<times> 'w) option" where
  "entry_insert ops t e w =
     (case q_peek (vc_ops ops) (te_queue e) w of
        Inl err \<Rightarrow> Some (Inl (StoreError err), e, w)
      | Inr None \<Rightarrow> Some (entry_push ops t [] e w)
      | Inr (Some last_ticket) \<Rightarrow>
          (if epoch_of last_ticket < epoch_of t then
             (case drain (vc_ops ops) (te_queue e) w of
                None \<Rightarrow> None
              | Some (Inl err, q, w') \<Rightarrow> Some (Inl (StoreError err), e\<lparr>te_queue := q\<rparr>, w')
              | Some (Inr neg, q, w') \<Rightarrow>
                  Some (entry_push ops t neg
                    (add_neglected (sat_sum (map vt_amount neg)) (e\<lparr>te_queue := q\<rparr>)) w'))
           else if epoch_of last_ticket > epoch_of t then
             Some (Inr [rt_ticket t], add_neglected (amount_of t) (count_winning e), w)
           else Some (entry_push ops t [] e w)))"

definition insert_vacant :: "('q, 'w, 'e) store_ops \<Rightarrow> redeemable_ticket \<Rightarrow> ('q, 'w) manager
    \<Rightarrow> (('e, 'c) tm_error + verified_ticket list) \<times> ('q, 'w) manager" where
  "insert_vacant sops t m =
     (case s_open sops (channel_of t) (m_world m) of
        (Inl err, w1) \<Rightarrow> (Inl (StoreError err), m\<lparr>m_world := w1\<rparr>)
      | (Inr q, w1) \<Rightarrow>
          (case vc_new (s_queue sops) q w1 of
             Inl err \<Rightarrow> (Inl (StoreError err), m\<lparr>m_world := w1\<rparr>)
           | Inr vq \<Rightarrow>
               (case q_is_empty (vc_ops (s_queue sops)) vq w1 of
                  Inl err \<Rightarrow> (Inl (StoreError err), m\<lparr>m_world := w1\<rparr>)
                | Inr is_emp \<Rightarrow>
                    (if \<not> is_emp then (Inl (OtherError ''fatal error: queue not empty''), m\<lparr>m_world := w1\<rparr>)
                     else (case q_push (vc_ops (s_queue sops)) t vq w1 of
                        (Inl err, vq', w2) \<Rightarrow> (Inl (StoreError err), m\<lparr>m_world := w2\<rparr>)
                      | (Inr _, vq', w2) \<Rightarrow>
                          (Inr [], \<lparr>m_channels = (channel_of t, length (m_entries m)) # m_channels m,
                             m_entries = m_entries m @ [entry_of_queue (s_queue sops) vq' w2],
                             m_world = w2\<rparr>))))))"

text \<open>An operation on the entry at an address.\<close>

definition put_entry :: "nat \<Rightarrow> 'q tm_entry \<Rightarrow> 'w \<Rightarrow> ('q, 'w) manager \<Rightarrow> ('q, 'w) manager" where
  "put_entry a e w m = m\<lparr>m_entries := (m_entries m)[a := e], m_world := w\<rparr>"

definition insert_incoming_ticket :: "('q, 'w, 'e) store_ops \<Rightarrow> redeemable_ticket \<Rightarrow> ('q, 'w) manager
    \<Rightarrow> ((('e, 'c) tm_error + verified_ticket list) \<times> ('q, 'w) manager) option" where
  "insert_incoming_ticket sops t m =
     (case map_of (m_channels m) (channel_of t) of
        Some a \<Rightarrow>
          map_option (\<lambda>(r, e, w). (r, put_entry a e w m))
            (entry_insert (s_queue sops) t (m_entries m ! a) (m_world m))
      | None \<Rightarrow> Some (insert_vacant sops t m))"

section \<open>Neglection\<close>

text \<open>
  The loop pops while the next ticket is not above the index and adds each amount to the
  statistics; after an error the tickets popped so far stay popped and counted.
\<close>

definition entry_neglect :: "('q, 'w, 'e) queue_ops \<Rightarrow> u64 \<Rightarrow> u64 option \<Rightarrow> 'q tm_entry \<Rightarrow> 'w
    \<Rightarrow> ((('e, 'c) tm_error + verified_ticket list) \<times> 'q tm_entry \<times> 'w) option" where
  "entry_neglect ops mx up_to_index e w =
     (let max_index = unwrap_or mx up_to_index in
      map_option (\<lambda>(r, popped, q, w').
          (map_err StoreError (map_ok (\<lambda>_. map rt_ticket popped) r),
           fold (\<lambda>t. add_neglected (amount_of t)) popped (e\<lparr>te_queue := q\<rparr>), w'))
        (pop_while (vc_ops ops) (\<lambda>t. index_of t \<le> max_index) [] (te_queue e) w))"

definition neglect_tickets :: "('q, 'w, 'e) store_ops \<Rightarrow> u64 \<Rightarrow> channel_id \<Rightarrow> u64 option \<Rightarrow> ('q, 'w) manager
    \<Rightarrow> ((('e, 'c) tm_error + verified_ticket list) \<times> ('q, 'w) manager) option" where
  "neglect_tickets sops mx ch up_to_index m =
     (case map_of (m_channels m) ch of
        None \<Rightarrow> Some (Inl ChannelQueueNotFound, m)
      | Some a \<Rightarrow>
          map_option (\<lambda>(r, e, w). (r, put_entry a e w m))
            (entry_neglect (s_queue sops) mx up_to_index (m_entries m ! a) (m_world m)))"

section \<open>Reading\<close>

definition unrealized_value :: "('q, 'w, 'e) store_ops \<Rightarrow> ('q, 'w) manager \<Rightarrow> channel_id \<Rightarrow> u64 option
    \<Rightarrow> ('e, 'c) tm_error + balance option" where
  "unrealized_value sops m ch min_index =
     (case map_of (m_channels m) ch of
        None \<Rightarrow> Inr None
      | Some a \<Rightarrow>
          (let q = te_queue (m_entries m ! a) in
           if min_index = None then Inr (Some (cached_unrealized_value q))
           else (case q_peek (vc_ops (s_queue sops)) q (m_world m) of
              Inl err \<Rightarrow> Inl (StoreError err)
            | Inr None \<Rightarrow> Inr (Some 0)
            | Inr (Some t) \<Rightarrow>
                map_err StoreError (map_ok Some
                  (vc_total_value (s_queue sops) (epoch_of t) min_index q (m_world m))))))"

record channel_report =
  cr_winning :: u128
  cr_unredeemed :: balance
  cr_rejected :: balance
  cr_neglected :: balance

definition report_zero :: channel_report where
  "report_zero = \<lparr>cr_winning = 0, cr_unredeemed = 0, cr_rejected = 0, cr_neglected = 0\<rparr>"

definition entry_unredeemed :: "('q, 'w, 'e) queue_ops \<Rightarrow> 'q tm_entry \<Rightarrow> 'w \<Rightarrow> 'e + balance" where
  "entry_unredeemed ops e w =
     (case q_peek (vc_ops ops) (te_queue e) w of
        Inl err \<Rightarrow> Inl err
      | Inr None \<Rightarrow> Inr 0
      | Inr (Some t) \<Rightarrow> vc_total_value ops (epoch_of t) None (te_queue e) w)"

fun fold_stats :: "('q, 'w, 'e) queue_ops \<Rightarrow> 'q tm_entry list \<Rightarrow> 'w \<Rightarrow> channel_report
    \<Rightarrow> ('e, 'c) tm_error + channel_report" where
  "fold_stats ops [] w stats = Inr stats"
| "fold_stats ops (e # es) w stats =
     and_then (map_err StoreError (entry_unredeemed ops e w)) (\<lambda>u.
       fold_stats ops es w
         \<lparr>cr_winning = st_winning (te_stats e) + cr_winning stats,
          cr_unredeemed = sat_add u (cr_unredeemed stats),
          cr_rejected = sat_add (st_rejected (te_stats e)) (cr_rejected stats),
          cr_neglected = sat_add (st_neglected (te_stats e)) (cr_neglected stats)\<rparr>)"

definition ticket_stats :: "('q, 'w, 'e) store_ops \<Rightarrow> channel_id option \<Rightarrow> ('q, 'w) manager
    \<Rightarrow> ('e, 'c) tm_error + channel_report" where
  "ticket_stats sops channel m =
     fold_stats (s_queue sops)
       (map (\<lambda>(_, a). m_entries m ! a)
         (filter (\<lambda>(ch, _). channel = None \<or> channel = Some ch) (m_channels m)))
       (m_world m) report_zero"

section \<open>Redemption\<close>

text \<open>
  The reply of the chain client to \<open>redeem_ticket\<close> (the client's own error, flattened by
  \<open>and_then(identity)\<close>, is a processing error) and the result a stream yields.
\<close>

datatype 'c chain_reply =
    ChainRedeemed verified_ticket
  | ChainRejected verified_ticket string
  | ChainError 'c

datatype redemption_result =
    Redeemed verified_ticket
  | ValueTooLow verified_ticket
  | RejectedOnChain verified_ticket string

fun result_ticket :: "redemption_result \<Rightarrow> verified_ticket" where
  "result_ticket (Redeemed t) = t"
| "result_ticket (ValueTooLow t) = t"
| "result_ticket (RejectedOnChain t reason) = t"

text \<open>Where a stream stands: about to peek, awaiting the chain for a ticket, or ended.\<close>

datatype redeem_pc = Ready | Pending redeemable_ticket | Ended

record redeem_state =
  rs_channel :: channel_id
  rs_entry :: nat
  rs_min :: balance
  rs_pc :: redeem_pc

definition set_lock :: "bool \<Rightarrow> 'q tm_entry \<Rightarrow> 'q tm_entry" where
  "set_lock b e = e\<lparr>te_lock := b\<rparr>"

text \<open>\<open>redeem_stream\<close>: the compare-exchange on the flag, then the initial state.\<close>

definition redeem_stream :: "('q, 'w) manager \<Rightarrow> channel_id \<Rightarrow> balance option
    \<Rightarrow> (('e, 'c) tm_error + redeem_state) \<times> ('q, 'w) manager" where
  "redeem_stream m ch min_amount =
     (case map_of (m_channels m) ch of
        None \<Rightarrow> (Inl ChannelQueueNotFound, m)
      | Some a \<Rightarrow>
          (if te_lock (m_entries m ! a) then (Inl AlreadyRedeeming, m)
           else (Inr \<lparr>rs_channel = ch, rs_entry = a, rs_min = unwrap_or 0 min_amount, rs_pc = Ready\<rparr>,
                 put_entry a (set_lock True (m_entries m ! a)) (m_world m) m)))"

text \<open>The peek that begins an iteration: the next ticket, or the end of the stream.\<close>

definition redeem_peek :: "('q, 'w, 'e) queue_ops \<Rightarrow> 'q tm_entry \<Rightarrow> 'w
    \<Rightarrow> (('e, 'c) tm_error + redeemable_ticket option)" where
  "redeem_peek ops e w = map_err StoreError (q_peek (vc_ops ops) (te_queue e) w)"

definition redeem_attempt :: "balance \<Rightarrow> redeemable_ticket \<Rightarrow> 'c chain_reply
    \<Rightarrow> ('e, 'c) tm_error + redemption_result" where
  "redeem_attempt min_value t reply =
     (if amount_of t \<ge> min_value then
        (case reply of
           ChainRedeemed vt \<Rightarrow> Inr (Redeemed vt)
         | ChainRejected vt reason \<Rightarrow> Inr (RejectedOnChain vt reason)
         | ChainError err \<Rightarrow> Inl (RedeemError err))
      else Inr (ValueTooLow (rt_ticket t)))"

text \<open>The accounting of a result, and the correction when the ticket was not popped.\<close>

fun account :: "redemption_result \<Rightarrow> channel_stats \<Rightarrow> channel_stats" where
  "account (Redeemed t) s = s\<lparr>st_redeemed := sat_add (st_redeemed s) (vt_amount t)\<rparr>"
| "account (ValueTooLow t) s = s\<lparr>st_neglected := sat_add (st_neglected s) (vt_amount t)\<rparr>"
| "account (RejectedOnChain t reason) s = s\<lparr>st_rejected := sat_add (st_rejected s) (vt_amount t)\<rparr>"

definition correct_neglected :: "redemption_result \<Rightarrow> channel_stats \<Rightarrow> channel_stats" where
  "correct_neglected res s =
     s\<lparr>st_neglected := sat_sub (st_neglected s) (vt_amount (result_ticket res))\<rparr>"

definition redeem_complete :: "('q, 'w, 'e) queue_ops \<Rightarrow> redeemable_ticket \<Rightarrow> redemption_result
    \<Rightarrow> 'q tm_entry \<Rightarrow> 'w \<Rightarrow> (('e, 'c) tm_error + unit) \<times> 'q tm_entry \<times> 'w" where
  "redeem_complete ops t res e w =
     (case q_peek (vc_ops ops) (te_queue e) w of
        Inl err \<Rightarrow> (Inl (StoreError err), e, w)
      | Inr head \<Rightarrow>
          (let (pop_res, q, w') =
             (if head = Some t then q_pop (vc_ops ops) (te_queue e) w else (Inr None, te_queue e, w))
           in case pop_res of
                Inl err \<Rightarrow> (Inl (StoreError err), e\<lparr>te_queue := q\<rparr>, w')
              | Inr popped \<Rightarrow>
                  (Inr (),
                   e\<lparr>te_queue := q,
                     te_stats := (if popped = None then correct_neglected res (account res (te_stats e))
                                  else account res (te_stats e))\<rparr>, w')))"

text \<open>
  One poll of the stream up to the await, and the resumption with the chain's reply. When
  the stream ends, fails or is dropped, its state is dropped and the flag released.
\<close>

definition release :: "redeem_state \<Rightarrow> ('q, 'w) manager \<Rightarrow> redeem_state \<times> ('q, 'w) manager" where
  "release rs m =
     (rs\<lparr>rs_pc := Ended\<rparr>,
      put_entry (rs_entry rs) (set_lock False (m_entries m ! rs_entry rs)) (m_world m) m)"

definition stream_poll :: "('q, 'w, 'e) store_ops \<Rightarrow> redeem_state \<Rightarrow> ('q, 'w) manager
    \<Rightarrow> (('e, 'c) tm_error option) \<times> redeem_state \<times> ('q, 'w) manager" where
  "stream_poll sops rs m =
     (case redeem_peek (s_queue sops) (m_entries m ! rs_entry rs) (m_world m) of
        Inl err \<Rightarrow> (Some err, release rs m)
      | Inr None \<Rightarrow> (None, release rs m)
      | Inr (Some t) \<Rightarrow> (None, rs\<lparr>rs_pc := Pending t\<rparr>, m))"

definition stream_resume :: "('q, 'w, 'e) store_ops \<Rightarrow> redeemable_ticket \<Rightarrow> 'c chain_reply \<Rightarrow> redeem_state
    \<Rightarrow> ('q, 'w) manager \<Rightarrow> (('e, 'c) tm_error + redemption_result) \<times> redeem_state \<times> ('q, 'w) manager" where
  "stream_resume sops t reply rs m =
     (case redeem_attempt (rs_min rs) t reply of
        Inl err \<Rightarrow> (Inl err, release rs m)
      | Inr res \<Rightarrow>
          (case redeem_complete (s_queue sops) t res (m_entries m ! rs_entry rs) (m_world m) of
             (Inl err, e, w) \<Rightarrow> (Inl err, release rs (put_entry (rs_entry rs) e w m))
           | (Inr _, e, w) \<Rightarrow> (Inr res, rs\<lparr>rs_pc := Ready\<rparr>, put_entry (rs_entry rs) e w m)))"

section \<open>Synchronisation with the chain\<close>

text \<open>
  \<open>closure_time_passed(now)\<close> of a channel (a method of the \<open>hopr-api\<close> crate) is the
  parameter \<open>passed\<close>: true for a closed channel and for one whose closure time has elapsed.
\<close>

fun purge_queues :: "('q, 'w, 'e) store_ops \<Rightarrow> (channel_entry \<Rightarrow> bool) \<Rightarrow> channel_entry list
    \<Rightarrow> channel_id list \<Rightarrow> verified_ticket list \<Rightarrow> ('q, 'w) manager
    \<Rightarrow> (('e + verified_ticket list) \<times> ('q, 'w) manager) option" where
  "purge_queues sops passed chs [] neglected m = Some (Inr neglected, m)"
| "purge_queues sops passed chs (c # cs) neglected m =
     (if \<not> list_ex (\<lambda>ch. \<not> passed ch \<and> ch_id ch = c) chs then
        (case s_delete sops c (m_world m) of
           None \<Rightarrow> None
         | Some (Inl err, w) \<Rightarrow> Some (Inl err, m\<lparr>m_world := w\<rparr>)
         | Some (Inr ts, w) \<Rightarrow>
             purge_queues sops passed chs cs (neglected @ ts)
               (m\<lparr>m_world := w, m_channels := AList.delete c (m_channels m)\<rparr>))
      else purge_queues sops passed chs cs neglected m)"

definition unredeemable :: "channel_entry \<Rightarrow> redeemable_ticket \<Rightarrow> bool" where
  "unredeemable ch t \<longleftrightarrow> epoch_of t < ch_epoch ch \<or> index_of t < ch_ticket_index ch"

fun load_queues :: "('q, 'w, 'e) store_ops \<Rightarrow> (channel_entry \<Rightarrow> bool) \<Rightarrow> channel_entry list
    \<Rightarrow> verified_ticket list \<Rightarrow> ('q, 'w) manager
    \<Rightarrow> (('e + verified_ticket list) \<times> ('q, 'w) manager) option" where
  "load_queues sops passed [] neglected m = Some (Inr neglected, m)"
| "load_queues sops passed (ch # chs) neglected m =
     (if passed ch then load_queues sops passed chs neglected m
      else (case s_open sops (ch_id ch) (m_world m) of
        (Inl err, w) \<Rightarrow> Some (Inl err, m\<lparr>m_world := w\<rparr>)
      | (Inr q, w) \<Rightarrow>
          (case pop_while (s_queue sops) (unredeemable ch) [] q w of
             None \<Rightarrow> None
           | Some (Inl err, popped, q', w') \<Rightarrow> Some (Inl err, m\<lparr>m_world := w'\<rparr>)
           | Some (Inr _, popped, q', w') \<Rightarrow>
               (case vc_new (s_queue sops) q' w' of
                  Inl err \<Rightarrow> Some (Inl err, m\<lparr>m_world := w'\<rparr>)
                | Inr vq \<Rightarrow>
                    (case q_len (vc_ops (s_queue sops)) vq w' of
                       Inl err \<Rightarrow> Some (Inl err, m\<lparr>m_world := w'\<rparr>)
                     | Inr _ \<Rightarrow>
                         load_queues sops passed chs (neglected @ map rt_ticket popped)
                           \<lparr>m_channels = AList.update (ch_id ch) (length (m_entries m)) (m_channels m),
                            m_entries = m_entries m @ [entry_of_queue (s_queue sops) vq w'],
                            m_world = w'\<rparr>)))))"

definition sync_from_incoming_channels :: "('q, 'w, 'e) store_ops \<Rightarrow> (channel_entry \<Rightarrow> bool)
    \<Rightarrow> channel_entry list \<Rightarrow> ('q, 'w) manager
    \<Rightarrow> ((('e, 'c) tm_error + verified_ticket list) \<times> ('q, 'w) manager) option" where
  "sync_from_incoming_channels sops passed channels m =
     (let incoming = remdups channels in
      case s_iter_queues sops (m_world m) of
        Inl err \<Rightarrow> Some (Inl (StoreError err), m)
      | Inr stored \<Rightarrow>
          (case purge_queues sops passed incoming stored [] m of
             None \<Rightarrow> None
           | Some (Inl err, m') \<Rightarrow> Some (Inl (StoreError err), m')
           | Some (Inr neglected, m') \<Rightarrow>
               map_option (\<lambda>(r, m''). (map_err StoreError r, m''))
                 (load_queues sops passed incoming neglected m')))"

end
