(* ===== verification/Ticket_Entries.thy ===== *)
theory Ticket_Entries
  imports Ticket_Manager
begin

text \<open>
  The operations of the ticket manager on one entry over a queue that keeps its contract:
  what each returns, which tickets stay, and where the value of the others is accounted.
  \<open>entry_value\<close> is the value of the queue and of everything redeemed, neglected or rejected.
\<close>

definition settled :: "channel_stats \<Rightarrow> nat" where
  "settled s = unat (st_redeemed s) + unat (st_neglected s) + unat (st_rejected s)"

definition neglected_of :: "'q tm_entry \<Rightarrow> nat" where
  "neglected_of e = unat (st_neglected (te_stats e))"

definition entry_tickets :: "('q \<Rightarrow> 'w \<Rightarrow> redeemable_ticket list) \<Rightarrow> 'q tm_entry \<Rightarrow> 'w \<Rightarrow> redeemable_ticket list" where
  "entry_tickets tickets e w = vc_tickets tickets (te_queue e) w"

definition entry_value :: "('q \<Rightarrow> 'w \<Rightarrow> redeemable_ticket list) \<Rightarrow> 'q tm_entry \<Rightarrow> 'w \<Rightarrow> nat" where
  "entry_value tickets e w = settled (te_stats e) + queue_value (entry_tickets tickets e w)"

lemma count_winning_simps [simp]:
  "te_queue (count_winning e) = te_queue e" "te_lock (count_winning e) = te_lock e"
  "settled (te_stats (count_winning e)) = settled (te_stats e)"
  "neglected_of (count_winning e) = neglected_of e"
  by (simp_all add: count_winning_def settled_def neglected_of_def)

lemma add_neglected_simps [simp]:
  "te_queue (add_neglected a e) = te_queue e" "te_lock (add_neglected a e) = te_lock e"
  by (simp_all add: add_neglected_def)

lemma neglected_add_neglected:
  "neglected_of (add_neglected a e) = min (neglected_of e + unat a) cap"
  by (simp add: add_neglected_def neglected_of_def sat_simps)

lemma settled_add_neglected:
  "settled (te_stats e) + unat a \<le> cap \<Longrightarrow>
   settled (te_stats (add_neglected a e)) = settled (te_stats e) + unat a"
  by (simp add: add_neglected_def settled_def sat_simps min_def)

lemma settled_update [simp]: "settled (te_stats (e\<lparr>te_queue := q\<rparr>)) = settled (te_stats e)"
  by simp

lemma neglected_of_update [simp]: "neglected_of (e\<lparr>te_queue := q\<rparr>) = neglected_of e"
  by (simp add: neglected_of_def)

lemma neglected_le_settled: "neglected_of e \<le> settled (te_stats e)"
  by (simp add: neglected_of_def settled_def)

lemma fold_neglected:
  assumes "settled (te_stats e) + queue_value ts \<le> cap"
  shows "settled (te_stats (fold (\<lambda>t. add_neglected (amount_of t)) ts e)) = settled (te_stats e) + queue_value ts"
    and "neglected_of (fold (\<lambda>t. add_neglected (amount_of t)) ts e) = neglected_of e + queue_value ts"
    and "te_queue (fold (\<lambda>t. add_neglected (amount_of t)) ts e) = te_queue e"
    and "te_lock (fold (\<lambda>t. add_neglected (amount_of t)) ts e) = te_lock e"
  using assms
proof (induction ts arbitrary: e)
  case (Cons t ts)
  {
    case 1
    then show ?case using Cons.IH(1) [of "add_neglected (amount_of t) e"] settled_add_neglected [of e "amount_of t"]
      by simp
  next
    case 2
    then show ?case
      using Cons.IH(2) [of "add_neglected (amount_of t) e"] settled_add_neglected [of e "amount_of t"]
        neglected_add_neglected [of "amount_of t" e] neglected_le_settled [of e] by simp
  next
    case 3
    then show ?case using Cons.IH(3) [of "add_neglected (amount_of t) e"] settled_add_neglected [of e "amount_of t"]
      by simp
  next
    case 4
    then show ?case using Cons.IH(4) [of "add_neglected (amount_of t) e"] settled_add_neglected [of e "amount_of t"]
      by simp
  }
qed simp_all

lemma queue_value_member: "t \<in> set ts \<Longrightarrow> unat (amount_of t) \<le> queue_value ts"
  by (induction ts) auto

lemma queue_value_split: "queue_value (takeWhile P ts) + queue_value (dropWhile P ts) = queue_value ts"
  by (metis queue_value_simps(3) takeWhile_dropWhile_id)

lemma sat_sum_amounts:
  "queue_value ts \<le> cap \<Longrightarrow> unat (sat_sum (map vt_amount (map rt_ticket ts)) :: balance) = queue_value ts"
  by (simp add: sat_simps queue_value_def comp_def)

text \<open>
  What an insertion means: the tickets neglected by it, and the queue after it.
\<close>

definition ins_spec :: "redeemable_ticket \<Rightarrow> redeemable_ticket list \<Rightarrow> redeemable_ticket list \<times> redeemable_ticket list" where
  "ins_spec t ts =
     (case ts of
        [] \<Rightarrow> ([], [t])
      | s # _ \<Rightarrow>
          (if epoch_of s < epoch_of t then (ts, [t])
           else if epoch_of t < epoch_of s then ([t], ts)
           else ([], insort_key tkey t ts)))"

lemma ins_spec_value:
  "ins_spec t ts = (neg, ts') \<Longrightarrow> queue_value neg + queue_value ts' = unat (amount_of t) + queue_value ts"
  by (auto simp: ins_spec_def split: list.splits if_splits)

context cached_ticket_queue
begin

abbreviation (input) "tks \<equiv> entry_tickets tickets"
abbreviation (input) "val \<equiv> entry_value tickets"
abbreviation (input) "vinv \<equiv> vc_inv tickets invar"
abbreviation (input) "vroom \<equiv> vc_room tickets room"

lemma entry_push_ok:
  assumes "vinv (te_queue e) w" "vroom t (te_queue e) w" "entry_push ops t neg e w = (r, e', w')"
  shows "r = Inr neg" "vinv (te_queue e') w'" "tks e' w' = insort_key tkey t (tks e w)"
    and "settled (te_stats e') = settled (te_stats e)" "neglected_of e' = neglected_of e"
    and "te_lock e' = te_lock e"
    and "\<exists>pr q'. q_push (vc_ops ops) t (te_queue e) w = (pr, q', w') \<and> te_queue e' = q'"
proof -
  obtain pr q' w1 where p: "q_push (vc_ops ops) t (te_queue e) w = (pr, q', w1)" by (metis prod_cases3)
  note st = vc.push [OF assms(1,2) p]
  have "r = Inr neg" "e' = count_winning (e\<lparr>te_queue := q'\<rparr>)" "w' = w1"
    using assms(3) p st by (simp_all add: entry_push_def)
  with st p show "r = Inr neg" "vinv (te_queue e') w'" "tks e' w' = insort_key tkey t (tks e w)"
    and "settled (te_stats e') = settled (te_stats e)" "neglected_of e' = neglected_of e"
    and "te_lock e' = te_lock e"
    and "\<exists>pr q'. q_push (vc_ops ops) t (te_queue e) w = (pr, q', w') \<and> te_queue e' = q'"
    by (simp_all add: entry_tickets_def)
qed

text \<open>
  Insertion into an entry. A ticket of a newer epoch neglects everything queued, one of an
  older epoch is neglected itself, and one of the current epoch is queued.
\<close>

lemma entry_insert_same:
  assumes "vinv (te_queue e) w" "vroom t (te_queue e) w"
  shows "(entry_insert ops t e w :: ((('e, 'c) tm_error + _) \<times> _) option) = Some (entry_push ops t [] e w)"
proof (cases "tickets (vc_queue (te_queue e)) w")
  case Nil
  with assms(1) vc.peek [OF assms(1)] show ?thesis by (simp add: entry_insert_def vc_tickets_def)
next
  case (Cons s ss)
  with assms vc.peek [OF assms(1)] show ?thesis
    by (simp add: entry_insert_def vc_tickets_def vc_room_def)
qed

lemma entry_insert_older:
  assumes "vinv (te_queue e) w" "tks e w = s # ss" "epoch_of t < epoch_of s"
  shows "(entry_insert ops t e w :: ((('e, 'c) tm_error + _) \<times> _) option) = Some (Inr [rt_ticket t], add_neglected (amount_of t) (count_winning e), w)"
  using assms vc.peek [OF assms(1)] by (auto simp: entry_insert_def entry_tickets_def)

lemma entry_insert_newer:
  assumes "vinv (te_queue e) w" "tks e w = s # ss" "epoch_of s < epoch_of t"
  shows "\<exists>q w1. drain (vc_ops ops) (te_queue e) w = Some (Inr (map rt_ticket (tks e w)), q, w1) \<and>
    vinv q w1 \<and> vc_tickets tickets q w1 = [] \<and>
    (entry_insert ops t e w :: ((('e, 'c) tm_error + _) \<times> _) option) =
      Some (entry_push ops t (map rt_ticket (tks e w))
        (add_neglected (sat_sum (map vt_amount (map rt_ticket (tks e w)))) (e\<lparr>te_queue := q\<rparr>)) w1)"
  using assms vc.peek [OF assms(1)] vc.drain_correct [OF assms(1)]
  by (auto simp: entry_insert_def entry_tickets_def)


lemma entry_insert_spec:
  assumes inv: "vinv (te_queue e) w"
    and fresh: "\<And>s ss. tks e w = s # ss \<Longrightarrow> epoch_of s = epoch_of t \<Longrightarrow> room t (vc_queue (te_queue e)) w"
    and cap: "val e w + unat (amount_of t) \<le> cap"
    and spec: "ins_spec t (tks e w) = (neg, ts')"
  shows "\<exists>e' w'. (entry_insert ops t e w :: ((('e, 'c) tm_error + _) \<times> _) option) =
      Some (Inr (map rt_ticket neg), e', w') \<and>
    vinv (te_queue e') w' \<and> tks e' w' = ts' \<and> te_lock e' = te_lock e \<and>
    neglected_of e' = neglected_of e + queue_value neg \<and> val e' w' = val e w + unat (amount_of t)"
proof (cases "\<exists>s ss. tks e w = s # ss \<and> epoch_of s \<noteq> epoch_of t")
  case False
  have room: "vroom t (te_queue e) w"
  proof (cases "tks e w")
    case Nil
    then show ?thesis using vc.room_empty [OF inv] by (simp add: entry_tickets_def)
  next
    case (Cons s ss)
    then have "epoch_of s = epoch_of t" using False by auto
    moreover have "\<forall>u\<in>set (tks e w). epoch_of u = epoch_of s"
      using inv Cons by (auto simp: vc_inv_def entry_tickets_def vc_tickets_def)
    ultimately show ?thesis
      using fresh [OF Cons] cap by (simp add: vc_room_def entry_value_def entry_tickets_def vc_tickets_def)
  qed
  have "neg = []" "ts' = insort_key tkey t (tks e w)"
    using spec False by (auto simp: ins_spec_def split: list.splits)
  moreover obtain r e' w' where p: "(entry_push ops t [] e w :: (('e, 'c) tm_error + _) \<times> _) = (r, e', w')"
    by (metis prod_cases3)
  ultimately show ?thesis
    using entry_insert_same [OF inv room, where 'c = 'c] entry_push_ok [OF inv room p]
    by (simp add: p entry_value_def)
next
  case True
  then obtain s ss where ts: "tks e w = s # ss" "epoch_of s \<noteq> epoch_of t" by blast
  show ?thesis
  proof (cases "epoch_of s < epoch_of t")
    case True
    have "neg = tks e w" "ts' = [t]" using spec ts True by (auto simp: ins_spec_def)
    from entry_insert_newer [OF inv ts(1) True] obtain q w1 where
      d: "vinv q w1" "vc_tickets tickets q w1 = []"
      "(entry_insert ops t e w :: ((('e, 'c) tm_error + _) \<times> _) option) =
        Some (entry_push ops t (map rt_ticket (tks e w))
          (add_neglected (sat_sum (map vt_amount (map rt_ticket (tks e w)))) (e\<lparr>te_queue := q\<rparr>)) w1)"
      by blast
    define e1 where "e1 = add_neglected (sat_sum (map vt_amount (map rt_ticket (tks e w)))) (e\<lparr>te_queue := q\<rparr>)"
    have c: "settled (te_stats e) + queue_value (tks e w) \<le> cap" using cap by (simp add: entry_value_def)
    then have u: "unat (sat_sum (map vt_amount (map rt_ticket (tks e w))) :: balance) = queue_value (tks e w)"
      by (intro sat_sum_amounts) simp
    have e1: "te_queue e1 = q" "te_lock e1 = te_lock e"
      "settled (te_stats e1) = settled (te_stats e) + queue_value (tks e w)"
      "neglected_of e1 = neglected_of e + queue_value (tks e w)"
      unfolding e1_def
      using settled_add_neglected [of "e\<lparr>te_queue := q\<rparr>" "sat_sum (map vt_amount (map rt_ticket (tks e w)))"] u c
        neglected_le_settled [of e]
      by (simp_all add: neglected_add_neglected)
    have "tks e1 w1 = []" "vinv (te_queue e1) w1" using d e1 by (simp_all add: entry_tickets_def)
    moreover have "vroom t (te_queue e1) w1" using vc.room_empty d e1 by simp
    moreover obtain r e' w' where
      p: "(entry_push ops t (map rt_ticket (tks e w)) e1 w1 :: (('e, 'c) tm_error + _) \<times> _) = (r, e', w')"
      by (metis prod_cases3)
    ultimately show ?thesis
      using entry_push_ok [OF _ _ p] d(3) [folded e1_def] e1 \<open>neg = tks e w\<close> \<open>ts' = [t]\<close>
      by (simp add: p entry_value_def)
  next
    case False
    then have lt: "epoch_of t < epoch_of s" using ts(2) by simp
    then have "neg = [t]" "ts' = tks e w" using spec ts False by (auto simp: ins_spec_def)
    moreover have "settled (te_stats (count_winning e)) + unat (amount_of t) \<le> cap"
      using cap by (simp add: entry_value_def)
    ultimately show ?thesis
      using entry_insert_older [OF inv ts(1) lt, where 'c = 'c] inv settled_add_neglected [of "count_winning e" "amount_of t"]
        neglected_add_neglected [of "amount_of t" "count_winning e"] neglected_le_settled [of e]
      by (simp add: entry_value_def entry_tickets_def)
  qed
qed

text \<open>Neglection takes exactly the tickets at the front that are not above the index.\<close>

lemma entry_neglect_spec:
  fixes mx :: u64 and up_to :: "u64 option"
  assumes inv: "vinv (te_queue e) w" and cap: "val e w \<le> cap"
  defines "P \<equiv> \<lambda>t. index_of t \<le> unwrap_or mx up_to"
  shows "\<exists>e' w'. (entry_neglect ops mx up_to e w :: ((('e, 'c) tm_error + _) \<times> _) option) =
      Some (Inr (map rt_ticket (takeWhile P (tks e w))), e', w') \<and>
    vinv (te_queue e') w' \<and> tks e' w' = dropWhile P (tks e w) \<and> te_lock e' = te_lock e \<and>
    neglected_of e' = neglected_of e + queue_value (takeWhile P (tks e w)) \<and> val e' w' = val e w"
proof -
  from vc.pop_while_correct [OF inv, of P "[]"] obtain q w1 where
    p: "pop_while (vc_ops ops) P [] (te_queue e) w = Some (Inr (), takeWhile P (tks e w), q, w1)"
    "vinv q w1" "vc_tickets tickets q w1 = dropWhile P (tks e w)"
    by (auto simp: entry_tickets_def)
  have c: "settled (te_stats (e\<lparr>te_queue := q\<rparr>)) + queue_value (takeWhile P (tks e w)) \<le> cap"
    using cap queue_value_split [of P "tks e w"] by (simp add: entry_value_def)
  note f = fold_neglected [OF c]
  show ?thesis
    using p f queue_value_split [of P "tks e w"]
    by (simp add: entry_neglect_def P_def Let_def entry_tickets_def entry_value_def)
qed

text \<open>
  The completion of a redemption. When the ticket is still next it is popped and its value
  moves from the queue to one of the totals. When it is not in the queue any more it was
  neglected meanwhile, and its value moves from the neglected total.
\<close>

lemma account_settled:
  "settled s + unat (vt_amount (result_ticket res)) \<le> cap \<Longrightarrow>
   settled (account res s) = settled s + unat (vt_amount (result_ticket res))"
  by (cases res) (simp_all add: settled_def sat_simps min_def)

lemma account_neglected: "st_neglected s \<le> st_neglected (account res s)"
  by (cases res) (simp_all add: sat_add_mono)

lemma correct_neglected_settled:
  "vt_amount (result_ticket res) \<le> st_neglected s \<Longrightarrow>
   settled (correct_neglected res s) + unat (vt_amount (result_ticket res)) = settled s"
  by (simp add: settled_def correct_neglected_def sat_simps word_le_nat_alt)

lemma redeem_complete_head:
  assumes inv: "vinv (te_queue e) w" and cap: "val e w \<le> cap"
    and ts: "tks e w = t # ts" and res: "result_ticket res = rt_ticket t"
  shows "\<exists>e' w'. (redeem_complete ops t res e w :: (('e, 'c) tm_error + _) \<times> _) = (Inr (), e', w') \<and>
    vinv (te_queue e') w' \<and> tks e' w' = ts \<and> te_lock e' = te_lock e \<and>
    neglected_of e \<le> neglected_of e' \<and> val e' w' = val e w"
proof -
  obtain r q' w' where p: "q_pop (vc_ops ops) (te_queue e) w = (r, q', w')" by (metis prod_cases3)
  note st = vc.pop [OF inv p]
  have "q_peek (vc_ops ops) (te_queue e) w = Inr (Some t)"
    using vc.peek [OF inv] ts by (simp add: entry_tickets_def)
  moreover have "settled (te_stats e) + unat (vt_amount (result_ticket res)) \<le> cap"
    using cap ts res by (simp add: entry_value_def)
  ultimately show ?thesis
    using p st ts res account_settled [of "te_stats e" res] account_neglected [of "te_stats e" res]
    by (simp add: redeem_complete_def entry_tickets_def entry_value_def neglected_of_def word_le_nat_alt)
qed

lemma redeem_complete_gone:
  assumes inv: "vinv (te_queue e) w" and cap: "val e w \<le> cap"
    and ts: "t \<notin> set (tks e w)" and res: "result_ticket res = rt_ticket t"
    and neg: "unat (amount_of t) \<le> neglected_of e"
    and cap2: "settled (te_stats e) + unat (amount_of t) \<le> cap"
  shows "\<exists>e'. (redeem_complete ops t res e w :: (('e, 'c) tm_error + _) \<times> _) = (Inr (), e', w) \<and>
    te_queue e' = te_queue e \<and> te_lock e' = te_lock e \<and> val e' w = val e w"
proof -
  have "q_peek (vc_ops ops) (te_queue e) w \<noteq> Inr (Some t)"
    using vc.peek [OF inv] ts by (auto simp: entry_tickets_def split: list.splits)
  moreover obtain h where "q_peek (vc_ops ops) (te_queue e) w = Inr h"
    using vc.peek [OF inv] by simp
  moreover have "vt_amount (result_ticket res) \<le> st_neglected (account res (te_stats e))"
    using account_neglected [of "te_stats e" res] neg res
    by (simp add: neglected_of_def word_le_nat_alt)
  ultimately show ?thesis
    using res account_settled [of "te_stats e" res] cap2
      correct_neglected_settled [of res "account res (te_stats e)"]
    by (simp add: redeem_complete_def entry_value_def entry_tickets_def)
qed

end

end
