(* ===== verification/Ticket_System.thy ===== *)
theory Ticket_System
  imports Ticket_Entries
begin

text \<open>
  The ticket manager as a system: the manager with the redemption streams that are alive,
  and the actions of its callers in any order. The invariant ties the map, the entries and
  the store together, makes the redemption flag count the live streams, and says where the
  ticket of a stream awaiting the chain is. Over a store that keeps its contract every
  action keeps it and moves no value from one channel to another.
\<close>

section \<open>An operation on one entry leaves the other queues alone\<close>

definition others_same :: "('q \<Rightarrow> 'w \<Rightarrow> redeemable_ticket list) \<Rightarrow> ('w \<Rightarrow> channel_id \<Rightarrow> 'q option)
    \<Rightarrow> ('w \<Rightarrow> bool) \<Rightarrow> 'q \<Rightarrow> 'w \<Rightarrow> 'w \<Rightarrow> bool" where
  "others_same tickets handle wfs h w w' \<longleftrightarrow>
     wfs w' \<and> handle w' = handle w \<and> (\<forall>p. p \<noteq> h \<longrightarrow> tickets p w' = tickets p w)"

lemma others_same_refl: "wfs w \<Longrightarrow> others_same tickets handle wfs h w w"
  by (simp add: others_same_def)

lemma others_same_trans:
  "others_same tickets handle wfs h w w1 \<Longrightarrow> others_same tickets handle wfs h w1 w2 \<Longrightarrow>
   others_same tickets handle wfs h w w2"
  by (simp add: others_same_def)

context ticket_store
begin

abbreviation (input) "qops \<equiv> s_queue sops"
abbreviation (input) "same \<equiv> others_same tickets handle wfs"

lemma vc_push_frame:
  assumes "wfs w" "handle w c = Some (vc_queue q)" "room t (vc_queue q) w"
    and "vc_push qops t q w = (r, q', w')"
  shows "vc_queue q' = vc_queue q \<and> same (vc_queue q) w w'"
proof -
  obtain r1 i w1 where p: "q_push qops t (vc_queue q) w = (r1, i, w1)" by (metis prod_cases3)
  from push_frame [OF assms(1-3) p] assms(4) p show ?thesis
    by (auto simp: vc_push_def Let_def others_same_def)
qed

lemma vc_pop_frame:
  assumes "wfs w" "handle w c = Some (vc_queue q)" "vc_pop qops q w = (r, q', w')"
  shows "vc_queue q' = vc_queue q \<and> same (vc_queue q) w w'"
proof -
  obtain r1 i w1 where p: "q_pop qops (vc_queue q) w = (r1, i, w1)" by (metis prod_cases3)
  from pop_frame [OF assms(1,2) p] assms(3) p show ?thesis
    by (auto simp: vc_pop_def Let_def others_same_def split: sum.splits option.splits)
qed

lemma drain_frame:
  assumes "vc_inv tickets invar q w" "wfs w" "handle w c = Some (vc_queue q)"
    and "drain_loop (vc_ops qops) acc q w = Some (r, q', w')"
  shows "vc_queue q' = vc_queue q \<and> same (vc_queue q) w w'"
  using assms
proof (induction "tickets (vc_queue q) w" arbitrary: acc q w)
  case Nil
  obtain pr q1 w1 where p: "vc_pop qops q w = (pr, q1, w1)" by (metis prod_cases3)
  have "pr = Inr None" using vc.pop [OF Nil.prems(1), of pr q1 w1] p Nil.hyps by (simp add: vc_tickets_def)
  with vc_pop_frame [OF Nil.prems(2,3) p] Nil.prems(4) p show ?case
    by (subst (asm) drain_loop.simps) auto
next
  case (Cons t ts)
  obtain pr q1 w1 where p: "vc_pop qops q w = (pr, q1, w1)" by (metis prod_cases3)
  have st: "pr = Inr (Some t)" "tickets (vc_queue q1) w1 = ts" "vc_inv tickets invar q1 w1"
    using vc.pop [OF Cons.prems(1), of pr q1 w1] p by (simp_all add: vc_tickets_def flip: Cons.hyps(2))
  note fr = vc_pop_frame [OF Cons.prems(2,3) p]
  have "drain_loop (vc_ops qops) (acc @ [rt_ticket t]) q1 w1 = Some (r, q', w')"
    using Cons.prems(4) p st(1) by (subst (asm) drain_loop.simps) simp
  from Cons.hyps(1) [OF st(2) [symmetric] st(3) _ _ this] fr Cons.prems(3) show ?case
    by (auto simp: others_same_def)
qed

lemma pop_while_frame:
  assumes "vc_inv tickets invar q w" "wfs w" "handle w c = Some (vc_queue q)"
    and "pop_while (vc_ops qops) P acc q w = Some (r, popped, q', w')"
  shows "vc_queue q' = vc_queue q \<and> same (vc_queue q) w w'"
  using assms
proof (induction "tickets (vc_queue q) w" arbitrary: acc q w)
  case Nil
  have "q_peek qops (vc_queue q) w = Inr None"
    using vc.peek [OF Nil.prems(1)] Nil.hyps by (simp add: vc_tickets_def)
  with Nil.prems(2,4) show ?case
    by (subst (asm) pop_while.simps) (simp add: others_same_refl)
next
  case (Cons t ts)
  have pk: "q_peek qops (vc_queue q) w = Inr (Some t)"
    using vc.peek [OF Cons.prems(1)] by (simp add: vc_tickets_def flip: Cons.hyps(2))
  show ?case
  proof (cases "P t")
    case False
    with pk Cons.prems(2,4) show ?thesis
      by (subst (asm) pop_while.simps) (simp add: others_same_refl)
  next
    case True
    obtain pr q1 w1 where p: "vc_pop qops q w = (pr, q1, w1)" by (metis prod_cases3)
    have st: "pr = Inr (Some t)" "tickets (vc_queue q1) w1 = ts" "vc_inv tickets invar q1 w1"
      using vc.pop [OF Cons.prems(1), of pr q1 w1] p by (simp_all add: vc_tickets_def flip: Cons.hyps(2))
    note fr = vc_pop_frame [OF Cons.prems(2,3) p]
    have "pop_while (vc_ops qops) P (acc @ [t]) q1 w1 = Some (r, popped, q', w')"
      using Cons.prems(4) p pk st(1) True by (subst (asm) pop_while.simps) simp
    from Cons.hyps(1) [OF st(2) [symmetric] st(3) _ _ this] fr Cons.prems(3) show ?thesis
      by (auto simp: others_same_def)
  qed
qed

lemma entry_push_frame:
  assumes "wfs w" "handle w c = Some (vc_queue (te_queue e))" "room t (vc_queue (te_queue e)) w"
    and "entry_push qops t neg e w = (r, e', w')"
  shows "vc_queue (te_queue e') = vc_queue (te_queue e) \<and> same (vc_queue (te_queue e)) w w'"
  using assms(4) vc_push_frame [OF assms(1-3)]
  by (auto simp: entry_push_def split: prod.splits sum.splits)

lemma entry_insert_frame:
  assumes "vc_inv tickets invar (te_queue e) w" "wfs w" "handle w c = Some (vc_queue (te_queue e))"
    and "\<And>s ss. entry_tickets tickets e w = s # ss \<Longrightarrow> epoch_of s = epoch_of t \<Longrightarrow> room t (vc_queue (te_queue e)) w"
    and "entry_insert qops t e w = Some (r, e', w')"
  shows "vc_queue (te_queue e') = vc_queue (te_queue e) \<and> same (vc_queue (te_queue e)) w w'"
proof (cases "entry_tickets tickets e w")
  case Nil
  then have "room t (vc_queue (te_queue e)) w"
    using room_empty [of "vc_queue (te_queue e)" w] assms(1)
    by (simp add: vc_inv_def entry_tickets_def vc_tickets_def)
  with entry_push_frame [OF assms(2,3)] assms(5) vc.peek [OF assms(1)] Nil show ?thesis
    by (simp add: entry_insert_def entry_tickets_def)
next
  case (Cons s ss)
  then have pk: "q_peek qops (vc_queue (te_queue e)) w = Inr (Some s)"
    using vc.peek [OF assms(1)] by (simp add: entry_tickets_def)
  consider "epoch_of s < epoch_of t" | "epoch_of t < epoch_of s" | "epoch_of s = epoch_of t"
    by (metis linorder_less_linear)
  then show ?thesis
  proof cases
    case 1
    from vc.drain_correct [OF assms(1)] obtain q w1 where
      d: "drain (vc_ops qops) (te_queue e) w = Some (Inr (map rt_ticket (vc_tickets tickets (te_queue e) w)), q, w1)"
      "vc_inv tickets invar q w1" "vc_tickets tickets q w1 = []" by blast
    have fr: "vc_queue q = vc_queue (te_queue e)" "same (vc_queue (te_queue e)) w w1"
      using drain_frame [OF assms(1-3)] d(1) unfolding drain_def by blast+
    define e1 where "e1 = add_neglected (sat_sum (map vt_amount (map rt_ticket (vc_tickets tickets (te_queue e) w))))
      (e\<lparr>te_queue := q\<rparr>)"
    have q1: "te_queue e1 = q" by (simp add: e1_def)
    have "room t (vc_queue q) w1"
      using d(2,3) by (intro room_empty) (simp_all add: vc_inv_def vc_tickets_def)
    moreover have "entry_push qops t (map rt_ticket (vc_tickets tickets (te_queue e) w)) e1 w1 = (r, e', w')"
      using assms(5) pk d(1) 1 by (simp add: entry_insert_def e1_def)
    ultimately have "vc_queue (te_queue e') = vc_queue (te_queue e1) \<and> same (vc_queue (te_queue e1)) w1 w'"
      using fr assms(3) by (intro entry_push_frame [of _ c]) (auto simp: others_same_def q1)
    with fr q1 show ?thesis by (auto intro: others_same_trans)
  next
    case 2
    then have "\<not> epoch_of s < epoch_of t" by simp
    with 2 assms(2,5) pk show ?thesis by (auto simp: entry_insert_def others_same_refl)
  next
    case 3
    with entry_push_frame [OF assms(2,3)] assms(4) [OF Cons] assms(5) pk show ?thesis
      by (simp add: entry_insert_def)
  qed
qed

lemma te_queue_fold: "te_queue (fold (\<lambda>t. add_neglected (f t)) ts e) = te_queue e"
  by (induction ts arbitrary: e) simp_all

lemma entry_neglect_frame:
  assumes "vc_inv tickets invar (te_queue e) w" "wfs w" "handle w c = Some (vc_queue (te_queue e))"
    and "entry_neglect qops mx up_to e w = Some (r, e', w')"
  shows "vc_queue (te_queue e') = vc_queue (te_queue e) \<and> same (vc_queue (te_queue e)) w w'"
  using assms(4) pop_while_frame [OF assms(1-3)]
  by (fastforce simp: entry_neglect_def Let_def te_queue_fold)

lemma redeem_complete_frame:
  assumes "wfs w" "handle w c = Some (vc_queue (te_queue e))"
    and "redeem_complete qops t res e w = (r, e', w')"
  shows "vc_queue (te_queue e') = vc_queue (te_queue e) \<and> same (vc_queue (te_queue e)) w w'"
  using assms(3) vc_pop_frame [OF assms(1,2)] others_same_refl [of wfs w, OF assms(1)]
  by (auto simp: redeem_complete_def Let_def split: sum.splits if_splits prod.splits)

end

section \<open>The manager over its store\<close>

definition max_supply :: nat where
  "max_supply = 2 ^ 255 - 1"

lemma supply_cap: "2 * max_supply \<le> cap"
  by (simp add: max_supply_def)

lemma supply_le_cap: "n \<le> max_supply \<Longrightarrow> n \<le> cap"
  using supply_cap by linarith

definition entry_at :: "('q, 'w) manager \<Rightarrow> channel_id \<Rightarrow> 'q tm_entry option" where
  "entry_at m ch = map_option (\<lambda>a. m_entries m ! a) (map_of (m_channels m) ch)"

definition channel_queue :: "('q \<Rightarrow> 'w \<Rightarrow> redeemable_ticket list) \<Rightarrow> ('q, 'w) manager \<Rightarrow> channel_id
    \<Rightarrow> redeemable_ticket list" where
  "channel_queue tickets m ch = (case entry_at m ch of None \<Rightarrow> [] | Some e \<Rightarrow> entry_tickets tickets e (m_world m))"

definition channel_value :: "('q \<Rightarrow> 'w \<Rightarrow> redeemable_ticket list) \<Rightarrow> ('q, 'w) manager \<Rightarrow> channel_id \<Rightarrow> nat" where
  "channel_value tickets m ch = (case entry_at m ch of None \<Rightarrow> 0 | Some e \<Rightarrow> entry_value tickets e (m_world m))"

definition man_inv :: "('q \<Rightarrow> 'w \<Rightarrow> redeemable_ticket list) \<Rightarrow> ('q \<Rightarrow> 'w \<Rightarrow> bool)
    \<Rightarrow> ('w \<Rightarrow> channel_id \<Rightarrow> 'q option) \<Rightarrow> ('w \<Rightarrow> bool) \<Rightarrow> ('q, 'w) manager \<Rightarrow> bool" where
  "man_inv tickets invar handle wfs m \<longleftrightarrow>
     wfs (m_world m) \<and>
     (\<forall>ch a. map_of (m_channels m) ch = Some a \<longrightarrow>
        a < length (m_entries m) \<and>
        handle (m_world m) ch = Some (vc_queue (te_queue (m_entries m ! a))) \<and>
        vc_inv tickets invar (te_queue (m_entries m ! a)) (m_world m) \<and>
        entry_value tickets (m_entries m ! a) (m_world m) \<le> max_supply)"

lemma put_entry_simps [simp]:
  "m_channels (put_entry a e w m) = m_channels m" "m_world (put_entry a e w m) = w"
  "m_entries (put_entry a e w m) = (m_entries m)[a := e]"
  by (simp_all add: put_entry_def)

context ticket_store
begin

abbreviation (input) "minv \<equiv> man_inv tickets invar handle wfs"

lemma man_invD:
  assumes "minv m" "map_of (m_channels m) ch = Some a"
  shows "a < length (m_entries m)" "wfs (m_world m)"
    and "handle (m_world m) ch = Some (vc_queue (te_queue (m_entries m ! a)))"
    and "vc_inv tickets invar (te_queue (m_entries m ! a)) (m_world m)"
    and "entry_value tickets (m_entries m ! a) (m_world m) \<le> max_supply"
    and "map_of (m_channels m) ch' = Some a \<Longrightarrow> ch' = ch"
  using assms handle_inj unfolding man_inv_def by blast+

lemma same_entry:
  assumes "same h w w'" "wfs w" "handle w c = Some (vc_queue (te_queue e))" "vc_queue (te_queue e) \<noteq> h"
  shows "entry_tickets tickets e w' = entry_tickets tickets e w"
    and "entry_value tickets e w' = entry_value tickets e w"
    and "vc_inv tickets invar (te_queue e) w \<Longrightarrow> vc_inv tickets invar (te_queue e) w'"
proof -
  have w': "wfs w'" "handle w' c = Some (vc_queue (te_queue e))"
    and t: "tickets (vc_queue (te_queue e)) w' = tickets (vc_queue (te_queue e)) w"
    using assms by (simp_all add: others_same_def)
  show "entry_tickets tickets e w' = entry_tickets tickets e w"
    and "entry_value tickets e w' = entry_value tickets e w"
    using t by (simp_all add: entry_value_def entry_tickets_def vc_tickets_def)
  show "vc_inv tickets invar (te_queue e) w \<Longrightarrow> vc_inv tickets invar (te_queue e) w'"
    using t handle_inv [OF w'] by (simp add: vc_inv_def)
qed

text \<open>Changing one entry and its queue keeps the invariant and every other entry.\<close>

lemma put_entry_inv:
  assumes inv: "minv m" and ch: "map_of (m_channels m) ch = Some a"
    and e': "vc_queue (te_queue e') = vc_queue (te_queue (m_entries m ! a))"
    and same: "same (vc_queue (te_queue (m_entries m ! a))) (m_world m) w'"
    and ok: "vc_inv tickets invar (te_queue e') w'" "entry_value tickets e' w' \<le> max_supply"
  shows "minv (put_entry a e' w' m)" "entry_at (put_entry a e' w' m) ch = Some e'"
    and "\<And>c. c \<noteq> ch \<Longrightarrow> entry_at (put_entry a e' w' m) c = entry_at m c"
    and "\<And>c. c \<noteq> ch \<Longrightarrow> channel_queue tickets (put_entry a e' w' m) c = channel_queue tickets m c"
    and "\<And>c. c \<noteq> ch \<Longrightarrow> channel_value tickets (put_entry a e' w' m) c = channel_value tickets m c"
proof -
  note D = man_invD [OF inv]
  have ne: "a' \<noteq> a" if "map_of (m_channels m) c = Some a'" "c \<noteq> ch" for c a'
    using D(6) [OF ch, of c] that by blast
  have neh: "vc_queue (te_queue (m_entries m ! a')) \<noteq> vc_queue (te_queue (m_entries m ! a))"
    if "map_of (m_channels m) c = Some a'" "c \<noteq> ch" for c a'
    using D(3) [OF that(1)] D(3) [OF ch] handle_inj [OF D(2) [OF ch]] that(2) by metis
  have other: "entry_tickets tickets (m_entries m ! a') w' = entry_tickets tickets (m_entries m ! a') (m_world m)"
    "entry_value tickets (m_entries m ! a') w' = entry_value tickets (m_entries m ! a') (m_world m)"
    "vc_inv tickets invar (te_queue (m_entries m ! a')) w'"
    if "map_of (m_channels m) c = Some a'" "c \<noteq> ch" for c a'
    using same_entry [OF same D(2) [OF ch] D(3) [OF that(1)] neh [OF that]] D(4) [OF that(1)] by simp_all
  have la: "a < length (m_entries m)" using D(1) [OF ch] .
  show "entry_at (put_entry a e' w' m) ch = Some e'"
    using ch la by (simp add: entry_at_def)
  show ea: "entry_at (put_entry a e' w' m) c = entry_at m c" if "c \<noteq> ch" for c
    using ne [of c, OF _ that] by (cases "map_of (m_channels m) c") (auto simp: entry_at_def nth_list_update_neq)
  show "channel_queue tickets (put_entry a e' w' m) c = channel_queue tickets m c"
    "channel_value tickets (put_entry a e' w' m) c = channel_value tickets m c" if "c \<noteq> ch" for c
    using ea [OF that] other [of c] that
    by (cases "map_of (m_channels m) c"; simp add: channel_queue_def channel_value_def entry_at_def)+
  show "minv (put_entry a e' w' m)"
    unfolding man_inv_def
  proof (intro conjI allI impI)
    show "wfs (m_world (put_entry a e' w' m))" using same by (simp add: others_same_def)
  next
    fix c a' assume c: "map_of (m_channels (put_entry a e' w' m)) c = Some a'"
    have h: "handle w' = handle (m_world m)" using same by (simp add: others_same_def)
    have c': "map_of (m_channels m) c = Some a'" using c by simp
    show "a' < length (m_entries (put_entry a e' w' m))" using c' D(1) by simp
    have n: "m_entries (put_entry a e' w' m) ! a' = (if c = ch then e' else m_entries m ! a')"
      using c' ch la ne [OF c'] by (cases "c = ch") (auto simp: nth_list_update_neq)
    show "handle (m_world (put_entry a e' w' m)) c =
        Some (vc_queue (te_queue (m_entries (put_entry a e' w' m) ! a')))"
      using D(3) [OF c'] D(3) [OF ch] unfolding n by (auto simp: h e')
    show "vc_inv tickets invar (te_queue (m_entries (put_entry a e' w' m) ! a')) (m_world (put_entry a e' w' m))"
      using ok(1) other(3) [OF c'] unfolding n by simp
    show "entry_value tickets (m_entries (put_entry a e' w' m) ! a') (m_world (put_entry a e' w' m)) \<le> max_supply"
      using ok(2) other(2) [OF c'] D(5) [OF c'] unfolding n by simp
  qed
qed

end

text \<open>The flag and the neglected total of a channel.\<close>

definition lock_at :: "('q, 'w) manager \<Rightarrow> channel_id \<Rightarrow> bool" where
  "lock_at m ch = (case entry_at m ch of None \<Rightarrow> False | Some e \<Rightarrow> te_lock e)"

definition neglected_at :: "('q, 'w) manager \<Rightarrow> channel_id \<Rightarrow> nat" where
  "neglected_at m ch = (case entry_at m ch of None \<Rightarrow> 0 | Some e \<Rightarrow> neglected_of e)"

definition only_channel :: "('q \<Rightarrow> 'w \<Rightarrow> redeemable_ticket list) \<Rightarrow> channel_id
    \<Rightarrow> ('q, 'w) manager \<Rightarrow> ('q, 'w) manager \<Rightarrow> bool" where
  "only_channel tickets ch m m' \<longleftrightarrow>
     (\<forall>c. c \<noteq> ch \<longrightarrow> entry_at m' c = entry_at m c \<and> channel_queue tickets m' c = channel_queue tickets m c \<and>
        channel_value tickets m' c = channel_value tickets m c) \<and>
     (\<forall>c a. map_of (m_channels m) c = Some a \<longrightarrow> map_of (m_channels m') c = Some a)"

lemma only_channelD:
  assumes "only_channel tickets ch m m'" "c \<noteq> ch"
  shows "channel_queue tickets m' c = channel_queue tickets m c"
    and "channel_value tickets m' c = channel_value tickets m c"
    and "lock_at m' c = lock_at m c" "neglected_at m' c = neglected_at m c"
  using assms by (simp_all add: only_channel_def lock_at_def neglected_at_def)

lemma only_channel_map:
  "only_channel tickets ch m m' \<Longrightarrow> map_of (m_channels m) c = Some a \<Longrightarrow> map_of (m_channels m') c = Some a"
  by (simp add: only_channel_def)

lemma only_channel_refl [simp]: "only_channel tickets ch m m"
  by (simp add: only_channel_def)

text \<open>
  When a ticket can be inserted: there is room for its value and its key, and a channel not
  seen yet has nothing queued in the store (it was synchronised at startup).
\<close>

definition insertable :: "('q \<Rightarrow> 'w \<Rightarrow> redeemable_ticket list) \<Rightarrow> (redeemable_ticket \<Rightarrow> 'q \<Rightarrow> 'w \<Rightarrow> bool)
    \<Rightarrow> ('w \<Rightarrow> channel_id \<Rightarrow> 'q option) \<Rightarrow> ('q, 'w) manager \<Rightarrow> redeemable_ticket \<Rightarrow> bool" where
  "insertable tickets room handle m t \<longleftrightarrow>
     channel_value tickets m (channel_of t) + unat (amount_of t) \<le> max_supply \<and>
     (case entry_at m (channel_of t) of
        Some e \<Rightarrow> (case entry_tickets tickets e (m_world m) of
            [] \<Rightarrow> True
          | s # _ \<Rightarrow> epoch_of s = epoch_of t \<longrightarrow> room t (vc_queue (te_queue e)) (m_world m))
      | None \<Rightarrow> (case handle (m_world m) (channel_of t) of
            None \<Rightarrow> True | Some q \<Rightarrow> tickets q (m_world m) = []))"

context ticket_store
begin

lemma put_entry_only:
  assumes "minv m" "map_of (m_channels m) ch = Some a"
    and "vc_queue (te_queue e') = vc_queue (te_queue (m_entries m ! a))"
    and "same (vc_queue (te_queue (m_entries m ! a))) (m_world m) w'"
    and "vc_inv tickets invar (te_queue e') w'" "entry_value tickets e' w' \<le> max_supply"
  shows "minv (put_entry a e' w' m)" "only_channel tickets ch m (put_entry a e' w' m)"
    and "channel_queue tickets (put_entry a e' w' m) ch = entry_tickets tickets e' w'"
    and "channel_value tickets (put_entry a e' w' m) ch = entry_value tickets e' w'"
    and "lock_at (put_entry a e' w' m) ch = te_lock e'"
    and "neglected_at (put_entry a e' w' m) ch = neglected_of e'"
  using put_entry_inv [OF assms]
  by (simp_all add: only_channel_def channel_queue_def channel_value_def lock_at_def neglected_at_def)

lemma at_mapped:
  assumes "map_of (m_channels m) ch = Some a"
  shows "entry_at m ch = Some (m_entries m ! a)"
    and "channel_queue tickets m ch = entry_tickets tickets (m_entries m ! a) (m_world m)"
    and "channel_value tickets m ch = entry_value tickets (m_entries m ! a) (m_world m)"
    and "lock_at m ch = te_lock (m_entries m ! a)"
    and "neglected_at m ch = neglected_of (m_entries m ! a)"
  using assms
  by (simp_all add: entry_at_def channel_queue_def channel_value_def lock_at_def neglected_at_def)

lemma at_unmapped:
  assumes "map_of (m_channels m) ch = None"
  shows "entry_at m ch = None" "channel_queue tickets m ch = []" "channel_value tickets m ch = 0"
    and "\<not> lock_at m ch" "neglected_at m ch = 0"
  using assms
  by (simp_all add: entry_at_def channel_queue_def channel_value_def lock_at_def neglected_at_def)

text \<open>
  Insertion at the level of the manager implements \<open>ins_spec\<close> on the queue of the channel,
  and touches no other channel.
\<close>

lemma insert_occupied_spec:
  assumes inv: "minv m" and able: "insertable tickets room handle m t"
    and a: "map_of (m_channels m) (channel_of t) = Some a"
    and spec: "ins_spec t (channel_queue tickets m (channel_of t)) = (neg, ts')"
  shows "\<exists>m'. (insert_incoming_ticket sops t m :: ((('e, 'c) tm_error + _) \<times> _) option) =
      Some (Inr (map rt_ticket neg), m') \<and> minv m' \<and> only_channel tickets (channel_of t) m m' \<and>
    channel_queue tickets m' (channel_of t) = ts' \<and>
    channel_value tickets m' (channel_of t) = channel_value tickets m (channel_of t) + unat (amount_of t) \<and>
    lock_at m' (channel_of t) = lock_at m (channel_of t) \<and>
    neglected_at m' (channel_of t) = neglected_at m (channel_of t) + queue_value neg"
proof -
  let ?e = "m_entries m ! a"
  note D = man_invD [OF inv a] and at = at_mapped [OF a]
  have fresh: "room t (vc_queue (te_queue ?e)) (m_world m)"
    if "entry_tickets tickets ?e (m_world m) = s # ss" "epoch_of s = epoch_of t" for s ss
    using able that at by (simp add: insertable_def)
  have sup: "entry_value tickets ?e (m_world m) + unat (amount_of t) \<le> max_supply"
    using able at by (simp add: insertable_def)
  obtain e' w' where
    e': "(entry_insert qops t ?e (m_world m) :: ((('e, 'c) tm_error + _) \<times> _) option) =
      Some (Inr (map rt_ticket neg), e', w')"
    "vc_inv tickets invar (te_queue e') w'" "entry_tickets tickets e' w' = ts'" "te_lock e' = te_lock ?e"
    "neglected_of e' = neglected_of ?e + queue_value neg"
    "entry_value tickets e' w' = entry_value tickets ?e (m_world m) + unat (amount_of t)"
    using entry_insert_spec [OF D(4) _ supply_le_cap [OF sup] spec [unfolded at], where 'c = 'c] fresh
    by blast
  have fr: "vc_queue (te_queue e') = vc_queue (te_queue ?e) \<and> same (vc_queue (te_queue ?e)) (m_world m) w'"
    using entry_insert_frame [OF D(4,2,3) _ e'(1)] fresh by blast
  have "entry_value tickets e' w' \<le> max_supply" using e'(6) sup by simp
  note pe = put_entry_only [OF inv a conjunct1 [OF fr] conjunct2 [OF fr] e'(2) this]
  show ?thesis
    using pe e' at a by (auto simp: insert_incoming_ticket_def)
qed

lemma insert_vacant_spec:
  assumes inv: "minv m" and able: "insertable tickets room handle m t"
    and un: "map_of (m_channels m) (channel_of t) = None"
  shows "\<exists>m'. (insert_incoming_ticket sops t m :: ((('e, 'c) tm_error + _) \<times> _) option) =
      Some (Inr [], m') \<and> minv m' \<and> only_channel tickets (channel_of t) m m' \<and>
    channel_queue tickets m' (channel_of t) = [t] \<and>
    channel_value tickets m' (channel_of t) = unat (amount_of t) \<and>
    \<not> lock_at m' (channel_of t) \<and> neglected_at m' (channel_of t) = 0"
proof -
  let ?ch = "channel_of t" and ?w = "m_world m" and ?a = "length (m_entries m)"
  note D = man_invD [OF inv] and at = at_unmapped [OF un]
  have wfw: "wfs ?w" using inv by (simp add: man_inv_def)
  obtain oq w1 where o1: "s_open sops ?ch ?w = (oq, w1)" by force
  from open_queue [OF wfw o1] obtain q where
    q: "oq = Inr q" "wfs w1" "handle w1 = (handle ?w)(?ch \<mapsto> q)"
    "case handle ?w ?ch of None \<Rightarrow> tickets q w1 = [] | Some q0 \<Rightarrow> q = q0"
    "\<forall>c0 q0. handle ?w c0 = Some q0 \<longrightarrow> tickets q0 w1 = tickets q0 ?w" by blast
  have h1: "handle w1 ?ch = Some q" using q(3) by simp
  have emp: "tickets q w1 = []"
    using q(4,5) able at by (auto simp: insertable_def split: option.splits)
  have iq: "invar q w1" using handle_inv [OF q(2) h1] .
  obtain vq where vq: "vc_new qops q w1 = Inr vq" "vc_queue vq = q" "vc_inv tickets invar vq w1"
    using vc_new_correct [OF iq] emp by auto
  have emp': "vc_tickets tickets vq w1 = []" using vq(2) emp by (simp add: vc_tickets_def)
  have vr: "vc_room tickets room t vq w1" using vc.room_empty [OF vq(3) emp'] .
  obtain pr vq' w2 where p: "q_push (vc_ops qops) t vq w1 = (pr, vq', w2)" by (metis prod_cases3)
  note pu = vc.push [OF vq(3) vr p]
  have fr: "vc_queue vq' = q" "same q w1 w2"
    using vc_push_frame [of w1 ?ch vq t pr vq' w2] q(2) h1 vq(2) room_empty [OF iq emp] p by auto
  define e where "e = entry_of_queue qops vq' w2"
  define m' where "m' = \<lparr>m_channels = (?ch, ?a) # m_channels m, m_entries = m_entries m @ [e], m_world = w2\<rparr>"
  have e: "te_queue e = vq'" "settled (te_stats e) = 0" "neglected_of e = 0" "\<not> te_lock e"
    by (simp_all add: e_def entry_of_queue_def stats_zero_def settled_def neglected_of_def)
  have et: "entry_tickets tickets e w2 = [t]"
    using pu emp' e(1) by (simp add: entry_tickets_def)
  have run: "(insert_incoming_ticket sops t m :: ((('e, 'c) tm_error + _) \<times> _) option) = Some (Inr [], m')"
    using un o1 q(1) vq(1) vc.is_empty [OF vq(3)] emp' p pu
    by (simp add: insert_incoming_ticket_def insert_vacant_def m'_def e_def)
  have ne: "c \<noteq> ?ch" if "map_of (m_channels m) c = Some a" for c a using un that by auto
  have other: "handle w2 c = handle ?w c"
    "entry_tickets tickets (m_entries m ! a) w2 = entry_tickets tickets (m_entries m ! a) ?w"
    "entry_value tickets (m_entries m ! a) w2 = entry_value tickets (m_entries m ! a) ?w"
    "vc_inv tickets invar (te_queue (m_entries m ! a)) w2" if c: "map_of (m_channels m) c = Some a" for c a
  proof -
    let ?h = "vc_queue (te_queue (m_entries m ! a))"
    have h: "handle w1 c = Some ?h" using D(3) [OF c] q(3) ne [OF c] by simp
    have nq: "?h \<noteq> q" using handle_inj [OF q(2) h, of ?ch] h1 ne [OF c] by auto
    have t1: "tickets ?h w1 = tickets ?h ?w" using q(5) D(3) [OF c] by blast
    have "vc_inv tickets invar (te_queue (m_entries m ! a)) w1"
      using D(4) [OF c] t1 handle_inv [OF q(2) h] by (simp add: vc_inv_def)
    moreover have "entry_tickets tickets (m_entries m ! a) w1 = entry_tickets tickets (m_entries m ! a) ?w"
      "entry_value tickets (m_entries m ! a) w1 = entry_value tickets (m_entries m ! a) ?w"
      using t1 by (simp_all add: entry_value_def entry_tickets_def vc_tickets_def)
    moreover have "handle w2 = handle w1" using fr(2) by (simp add: others_same_def)
    ultimately show "handle w2 c = handle ?w c"
      "entry_tickets tickets (m_entries m ! a) w2 = entry_tickets tickets (m_entries m ! a) ?w"
      "entry_value tickets (m_entries m ! a) w2 = entry_value tickets (m_entries m ! a) ?w"
      "vc_inv tickets invar (te_queue (m_entries m ! a)) w2"
      using same_entry [OF fr(2) q(2) h nq] q(3) ne [OF c] by simp_all
  qed
  have la: "a < ?a" if "map_of (m_channels m) c = Some a" for c a using D(1) [OF that] .
  have "minv m'"
    unfolding man_inv_def
  proof (intro conjI allI impI)
    show "wfs (m_world m')" using fr(2) by (simp add: m'_def others_same_def)
  next
    fix c a assume ca: "map_of (m_channels m') c = Some a"
    have "handle w2 ?ch = Some q" using fr(2) h1 by (simp add: others_same_def)
    moreover have "entry_value tickets e w2 \<le> max_supply"
      using et e(2) able by (simp add: entry_value_def insertable_def)
    moreover have "vc_inv tickets invar vq' w2" using pu by simp
    moreover have "c = ?ch \<Longrightarrow> a = ?a" "c \<noteq> ?ch \<Longrightarrow> map_of (m_channels m) c = Some a"
      using ca by (simp_all add: m'_def)
    ultimately show "a < length (m_entries m')"
      "handle (m_world m') c = Some (vc_queue (te_queue (m_entries m' ! a)))"
      "vc_inv tickets invar (te_queue (m_entries m' ! a)) (m_world m')"
      "entry_value tickets (m_entries m' ! a) (m_world m') \<le> max_supply"
      using fr(1) e(1) other [of c a] la [of c a] D(3,5) [of c a]
      unfolding m'_def by (cases "c = ?ch"; force simp: nth_append)+
  qed
  moreover have "only_channel tickets ?ch m m'"
    unfolding only_channel_def
  proof (intro conjI allI impI)
    fix c assume c: "c \<noteq> ?ch"
    show "entry_at m' c = entry_at m c" "channel_queue tickets m' c = channel_queue tickets m c"
      "channel_value tickets m' c = channel_value tickets m c"
      using c other [of c] la [of c]
      by (cases "map_of (m_channels m) c";
          simp add: m'_def entry_at_def channel_queue_def channel_value_def nth_append)+
  next
    fix c a assume "map_of (m_channels m) c = Some a"
    with ne [OF this] show "map_of (m_channels m') c = Some a" by (simp add: m'_def)
  qed
  moreover have "entry_at m' ?ch = Some e" by (simp add: m'_def entry_at_def)
  moreover have "m_world m' = w2" by (simp add: m'_def)
  ultimately show ?thesis
    using run et e
    by (simp add: channel_queue_def channel_value_def lock_at_def neglected_at_def entry_value_def)
qed

lemma insert_spec:
  assumes inv: "minv m" and able: "insertable tickets room handle m t"
    and spec: "ins_spec t (channel_queue tickets m (channel_of t)) = (neg, ts')"
  shows "\<exists>m'. (insert_incoming_ticket sops t m :: ((('e, 'c) tm_error + _) \<times> _) option) =
      Some (Inr (map rt_ticket neg), m') \<and> minv m' \<and> only_channel tickets (channel_of t) m m' \<and>
    channel_queue tickets m' (channel_of t) = ts' \<and>
    channel_value tickets m' (channel_of t) = channel_value tickets m (channel_of t) + unat (amount_of t) \<and>
    lock_at m' (channel_of t) = lock_at m (channel_of t) \<and>
    neglected_at m' (channel_of t) = neglected_at m (channel_of t) + queue_value neg"
proof (cases "map_of (m_channels m) (channel_of t)")
  case (Some a)
  then show ?thesis using insert_occupied_spec [OF inv able Some spec] by simp
next
  case None
  have "neg = []" "ts' = [t]" using spec at_unmapped [OF None] by (simp_all add: ins_spec_def)
  then show ?thesis using insert_vacant_spec [OF inv able None, where 'c = 'c] at_unmapped [OF None] by simp
qed

lemma neglect_spec:
  fixes mx :: u64 and up_to :: "u64 option"
  assumes inv: "minv m" and a: "map_of (m_channels m) ch = Some a"
  defines "P \<equiv> \<lambda>t. index_of t \<le> unwrap_or mx up_to"
  shows "\<exists>m'. (neglect_tickets sops mx ch up_to m :: ((('e, 'c) tm_error + _) \<times> _) option) =
      Some (Inr (map rt_ticket (takeWhile P (channel_queue tickets m ch))), m') \<and> minv m' \<and>
    only_channel tickets ch m m' \<and>
    channel_queue tickets m' ch = dropWhile P (channel_queue tickets m ch) \<and>
    channel_value tickets m' ch = channel_value tickets m ch \<and> lock_at m' ch = lock_at m ch \<and>
    neglected_at m' ch = neglected_at m ch + queue_value (takeWhile P (channel_queue tickets m ch))"
proof -
  let ?e = "m_entries m ! a"
  note D = man_invD [OF inv a] and at = at_mapped [OF a]
  from entry_neglect_spec [OF D(4) supply_le_cap [OF D(5)], of mx up_to, folded P_def, where 'c = 'c]
  obtain e' w' where e':
    "(entry_neglect qops mx up_to ?e (m_world m) :: ((('e, 'c) tm_error + _) \<times> _) option) =
      Some (Inr (map rt_ticket (takeWhile P (entry_tickets tickets ?e (m_world m)))), e', w')"
    "vc_inv tickets invar (te_queue e') w'"
    "entry_tickets tickets e' w' = dropWhile P (entry_tickets tickets ?e (m_world m))"
    "te_lock e' = te_lock ?e"
    "neglected_of e' = neglected_of ?e + queue_value (takeWhile P (entry_tickets tickets ?e (m_world m)))"
    "entry_value tickets e' w' = entry_value tickets ?e (m_world m)" by blast
  note fr = entry_neglect_frame [OF D(4,2,3) e'(1)]
  have "entry_value tickets e' w' \<le> max_supply" using e'(6) D(5) by simp
  note pe = put_entry_only [OF inv a conjunct1 [OF fr] conjunct2 [OF fr] e'(2) this]
  show ?thesis
    using pe e' at a by (auto simp: neglect_tickets_def)
qed

text \<open>The flag of an entry: nothing else of the manager depends on it.\<close>

lemma set_lock_spec:
  fixes b :: bool
  assumes inv: "minv m" and a: "map_of (m_channels m) ch = Some a"
  defines "m' \<equiv> put_entry a (set_lock b (m_entries m ! a)) (m_world m) m"
  shows "minv m'" "only_channel tickets ch m m'" "channel_queue tickets m' ch = channel_queue tickets m ch"
    and "channel_value tickets m' ch = channel_value tickets m ch" "lock_at m' ch = b"
    and "neglected_at m' ch = neglected_at m ch"
proof -
  let ?e = "m_entries m ! a"
  note D = man_invD [OF inv a] and at = at_mapped [OF a]
  have e: "te_queue (set_lock b ?e) = te_queue ?e" "te_stats (set_lock b ?e) = te_stats ?e"
    "te_lock (set_lock b ?e) = b" by (simp_all add: set_lock_def)
  then have v: "entry_value tickets (set_lock b ?e) w = entry_value tickets ?e w"
    "entry_tickets tickets (set_lock b ?e) w = entry_tickets tickets ?e w"
    "neglected_of (set_lock b ?e) = neglected_of ?e" for w
    by (simp_all add: entry_value_def entry_tickets_def neglected_of_def)
  have "vc_inv tickets invar (te_queue (set_lock b ?e)) (m_world m)"
    "entry_value tickets (set_lock b ?e) (m_world m) \<le> max_supply"
    "vc_queue (te_queue (set_lock b ?e)) = vc_queue (te_queue ?e)"
    using D(4,5) e v by simp_all
  note pe = put_entry_only [OF inv a this(3) others_same_refl [of wfs, OF D(2)] this(1,2)]
  show "minv m'" "only_channel tickets ch m m'" "channel_queue tickets m' ch = channel_queue tickets m ch"
    and "channel_value tickets m' ch = channel_value tickets m ch" "lock_at m' ch = b"
    and "neglected_at m' ch = neglected_at m ch"
    using pe v e at by (simp_all add: m'_def)
qed

text \<open>
  Completing a redemption, for the ticket that is next and for one that has been neglected.
\<close>

lemma complete_spec:
  assumes inv: "minv m" and a: "map_of (m_channels m) ch = Some a"
    and res: "result_ticket res = rt_ticket t"
    and pend: "(\<exists>us. channel_queue tickets m ch = t # us) \<or>
      (\<forall>s\<in>set (channel_queue tickets m ch). tkey t < tkey s) \<and> unat (amount_of t) \<le> neglected_at m ch"
  shows "\<exists>e' w'. (redeem_complete qops t res (m_entries m ! a) (m_world m) :: (('e, 'c) tm_error + _) \<times> _)
      = (Inr (), e', w') \<and>
    minv (put_entry a e' w' m) \<and> only_channel tickets ch m (put_entry a e' w' m) \<and>
    channel_queue tickets (put_entry a e' w' m) ch = filter (\<lambda>s. s \<noteq> t) (channel_queue tickets m ch) \<and>
    channel_value tickets (put_entry a e' w' m) ch = channel_value tickets m ch \<and>
    lock_at (put_entry a e' w' m) ch = lock_at m ch"
proof -
  let ?e = "m_entries m ! a"
  note D = man_invD [OF inv a] and at = at_mapped [OF a]
  have finish: ?thesis
    if c: "(redeem_complete qops t res ?e (m_world m) :: (('e, 'c) tm_error + _) \<times> _) = (Inr (), e', w')"
      and ok: "vc_inv tickets invar (te_queue e') w'"
        "entry_tickets tickets e' w' = filter (\<lambda>s. s \<noteq> t) (channel_queue tickets m ch)"
        "te_lock e' = te_lock ?e" "entry_value tickets e' w' = entry_value tickets ?e (m_world m)" for e' w'
  proof -
    note fr = redeem_complete_frame [OF D(2,3) c]
    have "entry_value tickets e' w' \<le> max_supply" using ok(4) D(5) by simp
    note pe = put_entry_only [OF inv a conjunct1 [OF fr] conjunct2 [OF fr] ok(1) this]
    show ?thesis using c pe ok at by simp
  qed
  note cap = supply_le_cap [OF D(5)]
  from pend show ?thesis
  proof
    assume "\<exists>us. channel_queue tickets m ch = t # us"
    then obtain us where us: "entry_tickets tickets ?e (m_world m) = t # us" using at by auto
    have "strict_sorted_key tkey (t # us)"
      using vc.tickets_sorted [OF D(4)] us by (simp add: entry_tickets_def)
    then have "filter (\<lambda>s. s \<noteq> t) (t # us) = us"
      by (auto simp: strict_sorted_key_Cons intro: filter_True)
    with redeem_complete_head [OF D(4) cap us res, where 'c = 'c] us at finish show ?thesis by fastforce
  next
    assume g: "(\<forall>s\<in>set (channel_queue tickets m ch). tkey t < tkey s) \<and> unat (amount_of t) \<le> neglected_at m ch"
    then have "t \<notin> set (channel_queue tickets m ch)" by auto
    then have nin: "t \<notin> set (entry_tickets tickets ?e (m_world m))"
      "filter (\<lambda>s. s \<noteq> t) (channel_queue tickets m ch) = entry_tickets tickets ?e (m_world m)"
      using at by (auto intro: filter_True)
    have ng: "unat (amount_of t) \<le> neglected_of ?e" using g at by simp
    have "settled (te_stats ?e) + unat (amount_of t) \<le> cap"
      using ng neglected_le_settled [of ?e] D(5) supply_cap by (simp add: entry_value_def)
    from redeem_complete_gone [OF D(4) cap nin(1) res ng this, where 'c = 'c]
    obtain e' where e': "(redeem_complete qops t res ?e (m_world m) :: (('e, 'c) tm_error + _) \<times> _) =
        (Inr (), e', m_world m)" "te_queue e' = te_queue ?e" "te_lock e' = te_lock ?e"
      "entry_value tickets e' (m_world m) = entry_value tickets ?e (m_world m)" by blast
    show ?thesis
      by (rule finish [OF e'(1) _ _ e'(3,4)]) (use D(4) e'(2) nin(2) in \<open>simp_all add: entry_tickets_def\<close>)
  qed
qed

end

end
