(* ===== verification/Ticket_Runs.thy ===== *)
theory Ticket_Runs
  imports Ticket_System
begin

text \<open>
  Runs of the ticket manager: every interleaving of insertions, neglections and of the
  steps of redemption streams, over all channels. The invariant of runs, and what follows
  from it: redemption streams exclude each other, tickets are redeemed in their natural
  order and at most once, and no value is lost or counted twice.
\<close>

section \<open>The system\<close>

record ('q, 'w) sys =
  sy_man :: "('q, 'w) manager"
  sy_streams :: "redeem_state list"
  sy_log :: "(channel_id \<times> redemption_result) list"

text \<open>What the callers do; a stream is named by its position.\<close>

datatype 'c action =
    AInsert redeemable_ticket
  | ANeglect channel_id "u64 option"
  | AOpen channel_id "balance option"
  | APoll nat
  | AResume nat "'c chain_reply"
  | ADrop nat

definition sys_new :: "'w \<Rightarrow> ('q, 'w) sys" where
  "sys_new w = \<lparr>sy_man = manager_new w, sy_streams = [], sy_log = []\<rparr>"

definition live :: "redeem_state \<Rightarrow> bool" where
  "live rs \<longleftrightarrow> rs_pc rs \<noteq> Ended"

definition put_stream :: "nat \<Rightarrow> redeem_state \<Rightarrow> ('q, 'w) manager \<Rightarrow> ('q, 'w) sys \<Rightarrow> ('q, 'w) sys" where
  "put_stream i rs m s = s\<lparr>sy_man := m, sy_streams := (sy_streams s)[i := rs]\<rparr>"

fun sys_step :: "('q, 'w, 'e) store_ops \<Rightarrow> u64 \<Rightarrow> 'c action \<Rightarrow> ('q, 'w) sys \<Rightarrow> ('q, 'w) sys option" where
  "sys_step sops mx (AInsert t) s =
     map_option (\<lambda>(_ :: ('e, 'c) tm_error + verified_ticket list, m). s\<lparr>sy_man := m\<rparr>)
       (insert_incoming_ticket sops t (sy_man s))"
| "sys_step sops mx (ANeglect ch up_to) s =
     map_option (\<lambda>(_ :: ('e, 'c) tm_error + verified_ticket list, m). s\<lparr>sy_man := m\<rparr>)
       (neglect_tickets sops mx ch up_to (sy_man s))"
| "sys_step sops mx (AOpen ch min_amount) s =
     (case redeem_stream (sy_man s) ch min_amount of
        (Inl (err :: ('e, 'c) tm_error), m) \<Rightarrow> Some (s\<lparr>sy_man := m\<rparr>)
      | (Inr rs, m) \<Rightarrow> Some (s\<lparr>sy_man := m, sy_streams := sy_streams s @ [rs]\<rparr>))"
| "sys_step sops mx (APoll i) s =
     (if i < length (sy_streams s) \<and> rs_pc (sy_streams s ! i) = Ready then
        (case stream_poll sops (sy_streams s ! i) (sy_man s) of
           (_ :: ('e, 'c) tm_error option, rs, m) \<Rightarrow> Some (put_stream i rs m s))
      else Some s)"
| "sys_step sops mx (AResume i reply) s =
     (if i < length (sy_streams s) then
        (case rs_pc (sy_streams s ! i) of
           Pending t \<Rightarrow>
             (case stream_resume sops t reply (sy_streams s ! i) (sy_man s) of
                (Inl (err :: ('e, 'c) tm_error), rs, m) \<Rightarrow> Some (put_stream i rs m s)
              | (Inr res, rs, m) \<Rightarrow>
                  Some (put_stream i rs m s\<lparr>sy_log := sy_log s @ [(rs_channel rs, res)]\<rparr>))
         | _ \<Rightarrow> Some s)
      else Some s)"
| "sys_step sops mx (ADrop i) s =
     (if i < length (sy_streams s) \<and> live (sy_streams s ! i) then
        (case release (sy_streams s ! i) (sy_man s) of (rs, m) \<Rightarrow> Some (put_stream i rs m s))
      else Some s)"

text \<open>
  The environment's side: tickets arrive in order (above those in redemption or redeemed on
  their channel), there is room for them, and the chain client answers about the ticket it
  was asked to redeem.
\<close>

definition vkey :: "verified_ticket \<Rightarrow> nat" where
  "vkey v = unat (vt_epoch v) * 2 ^ 64 + unat (vt_index v)"

lemma vkey_rt [simp]: "vkey (rt_ticket t) = tkey t"
  by (simp add: vkey_def tkey_def)

fun reply_about :: "redeemable_ticket \<Rightarrow> 'c chain_reply \<Rightarrow> bool" where
  "reply_about t (ChainRedeemed v) = (v = rt_ticket t)"
| "reply_about t (ChainRejected v reason) = (v = rt_ticket t)"
| "reply_about t (ChainError err) = True"

definition in_order :: "redeemable_ticket \<Rightarrow> ('q, 'w) sys \<Rightarrow> bool" where
  "in_order t s \<longleftrightarrow>
     list_all (\<lambda>rs. case rs_pc rs of
         Pending t' \<Rightarrow> rs_channel rs = channel_of t \<longrightarrow> tkey t' < tkey t | _ \<Rightarrow> True) (sy_streams s) \<and>
     list_all (\<lambda>(c, res). c = channel_of t \<longrightarrow> vkey (result_ticket res) < tkey t) (sy_log s)"

fun enabled :: "('q \<Rightarrow> 'w \<Rightarrow> redeemable_ticket list) \<Rightarrow> (redeemable_ticket \<Rightarrow> 'q \<Rightarrow> 'w \<Rightarrow> bool)
    \<Rightarrow> ('w \<Rightarrow> channel_id \<Rightarrow> 'q option) \<Rightarrow> 'c action \<Rightarrow> ('q, 'w) sys \<Rightarrow> bool" where
  "enabled tickets room handle (AInsert t) s = (insertable tickets room handle (sy_man s) t \<and> in_order t s)"
| "enabled tickets room handle (AResume i reply) s =
     (i < length (sy_streams s) \<longrightarrow>
        (case rs_pc (sy_streams s ! i) of Pending t \<Rightarrow> reply_about t reply | _ \<Rightarrow> True))"
| "enabled tickets room handle _ s = True"

fun sys_run :: "('q, 'w, 'e) store_ops \<Rightarrow> u64 \<Rightarrow> 'c action list \<Rightarrow> ('q, 'w) sys \<Rightarrow> ('q, 'w) sys option" where
  "sys_run sops mx [] s = Some s"
| "sys_run sops mx (a # as) s = (case sys_step sops mx a s of None \<Rightarrow> None | Some s' \<Rightarrow> sys_run sops mx as s')"

fun all_enabled :: "('q, 'w, 'e) store_ops \<Rightarrow> u64 \<Rightarrow> ('q \<Rightarrow> 'w \<Rightarrow> redeemable_ticket list)
    \<Rightarrow> (redeemable_ticket \<Rightarrow> 'q \<Rightarrow> 'w \<Rightarrow> bool) \<Rightarrow> ('w \<Rightarrow> channel_id \<Rightarrow> 'q option)
    \<Rightarrow> 'c action list \<Rightarrow> ('q, 'w) sys \<Rightarrow> bool" where
  "all_enabled sops mx tickets room handle [] s = True"
| "all_enabled sops mx tickets room handle (a # as) s =
     (enabled tickets room handle a s \<and>
      (case sys_step sops mx a s of None \<Rightarrow> True | Some s' \<Rightarrow> all_enabled sops mx tickets room handle as s'))"

text \<open>The value an action brings into a channel.\<close>

fun brings :: "channel_id \<Rightarrow> 'c action \<Rightarrow> nat" where
  "brings ch (AInsert t) = (if channel_of t = ch then unat (amount_of t) else 0)"
| "brings ch _ = 0"

section \<open>The invariant\<close>

definition pend_ok :: "('q \<Rightarrow> 'w \<Rightarrow> redeemable_ticket list) \<Rightarrow> ('q, 'w) manager \<Rightarrow> channel_id
    \<Rightarrow> redeemable_ticket \<Rightarrow> bool" where
  "pend_ok tickets m ch t \<longleftrightarrow>
     (\<exists>us. channel_queue tickets m ch = t # us) \<or>
     (\<forall>s\<in>set (channel_queue tickets m ch). tkey t < tkey s) \<and> unat (amount_of t) \<le> neglected_at m ch"

definition stream_ok :: "('q \<Rightarrow> 'w \<Rightarrow> redeemable_ticket list) \<Rightarrow> ('q, 'w) manager
    \<Rightarrow> (channel_id \<times> redemption_result) list \<Rightarrow> redeem_state \<Rightarrow> bool" where
  "stream_ok tickets m log rs \<longleftrightarrow>
     (live rs \<longrightarrow> map_of (m_channels m) (rs_channel rs) = Some (rs_entry rs) \<and> lock_at m (rs_channel rs)) \<and>
     (\<forall>t. rs_pc rs = Pending t \<longrightarrow> pend_ok tickets m (rs_channel rs) t \<and>
        (\<forall>res. (rs_channel rs, res) \<in> set log \<longrightarrow> vkey (result_ticket res) < tkey t))"

definition keys_of :: "channel_id \<Rightarrow> (channel_id \<times> redemption_result) list \<Rightarrow> nat list" where
  "keys_of ch log = map (\<lambda>(_, res). vkey (result_ticket res)) (filter (\<lambda>(c, _). c = ch) log)"

definition sys_inv :: "('q \<Rightarrow> 'w \<Rightarrow> redeemable_ticket list) \<Rightarrow> ('q \<Rightarrow> 'w \<Rightarrow> bool)
    \<Rightarrow> ('w \<Rightarrow> channel_id \<Rightarrow> 'q option) \<Rightarrow> ('w \<Rightarrow> bool) \<Rightarrow> ('q, 'w) sys \<Rightarrow> bool" where
  "sys_inv tickets invar handle wfs s \<longleftrightarrow>
     man_inv tickets invar handle wfs (sy_man s) \<and>
     (\<forall>i<length (sy_streams s). stream_ok tickets (sy_man s) (sy_log s) (sy_streams s ! i)) \<and>
     (\<forall>i<length (sy_streams s). \<forall>j<length (sy_streams s). i \<noteq> j \<longrightarrow> live (sy_streams s ! i) \<longrightarrow>
        live (sy_streams s ! j) \<longrightarrow> rs_channel (sy_streams s ! i) \<noteq> rs_channel (sy_streams s ! j)) \<and>
     (\<forall>ch. lock_at (sy_man s) ch \<longrightarrow>
        (\<exists>i<length (sy_streams s). live (sy_streams s ! i) \<and> rs_channel (sy_streams s ! i) = ch)) \<and>
     (\<forall>ch res. (ch, res) \<in> set (sy_log s) \<longrightarrow>
        (\<forall>t\<in>set (channel_queue tickets (sy_man s) ch). vkey (result_ticket res) < tkey t)) \<and>
     (\<forall>ch. sorted_wrt (<) (keys_of ch (sy_log s)))"

lemma pend_ok_queue:
  assumes "pend_ok tickets m ch t" "s \<in> set (channel_queue tickets m ch)"
    and "strict_sorted_key tkey (channel_queue tickets m ch)"
  shows "s = t \<or> tkey t < tkey s"
  using assms by (auto simp: pend_ok_def strict_sorted_key_Cons)

lemma keys_of_append [simp]:
  "keys_of ch (log @ [(c, res)]) = keys_of ch log @ (if c = ch then [vkey (result_ticket res)] else [])"
  by (simp add: keys_of_def)

lemma set_keys_of: "set (keys_of ch log) = {vkey (result_ticket res) | res. (ch, res) \<in> set log}"
  by (force simp: keys_of_def)

context ticket_store
begin

abbreviation (input) "sinv \<equiv> sys_inv tickets invar handle wfs"

lemma sys_invD:
  assumes "sinv s"
  shows "minv (sy_man s)"
    and "i < length (sy_streams s) \<Longrightarrow> stream_ok tickets (sy_man s) (sy_log s) (sy_streams s ! i)"
    and "i < length (sy_streams s) \<Longrightarrow> j < length (sy_streams s) \<Longrightarrow> i \<noteq> j \<Longrightarrow> live (sy_streams s ! i) \<Longrightarrow>
      live (sy_streams s ! j) \<Longrightarrow> rs_channel (sy_streams s ! i) \<noteq> rs_channel (sy_streams s ! j)"
    and "lock_at (sy_man s) ch \<Longrightarrow>
      \<exists>i<length (sy_streams s). live (sy_streams s ! i) \<and> rs_channel (sy_streams s ! i) = ch"
    and "(ch, res) \<in> set (sy_log s) \<Longrightarrow> t \<in> set (channel_queue tickets (sy_man s) ch) \<Longrightarrow>
      vkey (result_ticket res) < tkey t"
    and "sorted_wrt (<) (keys_of ch (sy_log s))"
  using assms unfolding sys_inv_def by blast+

lemma channel_queue_sorted: "minv m \<Longrightarrow> strict_sorted_key tkey (channel_queue tickets m ch)"
proof (cases "map_of (m_channels m) ch")
  case (Some a)
  then show "minv m \<Longrightarrow> ?thesis"
    using vc.tickets_sorted [OF man_invD(4)] at_mapped(2) by (simp add: entry_tickets_def)
qed (simp add: at_unmapped)

text \<open>A step of the manager that leaves flags and streams alone.\<close>

lemma man_change_inv:
  assumes inv: "sinv s" and m': "minv m'" "only_channel tickets ch (sy_man s) m'"
    and lock: "lock_at m' ch = lock_at (sy_man s) ch"
    and pend: "\<And>i t. i < length (sy_streams s) \<Longrightarrow> rs_pc (sy_streams s ! i) = Pending t \<Longrightarrow>
      rs_channel (sy_streams s ! i) = ch \<Longrightarrow> pend_ok tickets (sy_man s) ch t \<Longrightarrow> pend_ok tickets m' ch t"
    and log: "\<And>res t. (ch, res) \<in> set (sy_log s) \<Longrightarrow> t \<in> set (channel_queue tickets m' ch) \<Longrightarrow>
      vkey (result_ticket res) < tkey t"
  shows "sinv (s\<lparr>sy_man := m'\<rparr>)"
proof -
  note D = sys_invD [OF inv]
  have lk: "lock_at m' c = lock_at (sy_man s) c" for c
    using lock only_channelD(3) [OF m'(2)] by (cases "c = ch") auto
  have po: "pend_ok tickets m' c t = pend_ok tickets (sy_man s) c t" if "c \<noteq> ch" for c t
    using only_channelD [OF m'(2) that] by (simp add: pend_ok_def)
  have st: "stream_ok tickets m' (sy_log s) (sy_streams s ! i)" if i: "i < length (sy_streams s)" for i
    using D(2) [OF i] pend [OF i] po only_channel_map [OF m'(2)]
    unfolding stream_ok_def lk by (cases "rs_channel (sy_streams s ! i) = ch") simp_all
  have lg: "vkey (result_ticket res) < tkey t"
    if "(c, res) \<in> set (sy_log s)" "t \<in> set (channel_queue tickets m' c)" for c res t
    using that log D(5) only_channelD(1) [OF m'(2), of c] by (cases "c = ch") auto
  show ?thesis
    unfolding sys_inv_def using m'(1) st D(3,4,6) lg by (simp add: lk)
qed

end

section \<open>Every enabled action keeps the invariant\<close>

definition step_ok :: "('q \<Rightarrow> 'w \<Rightarrow> redeemable_ticket list) \<Rightarrow> ('q \<Rightarrow> 'w \<Rightarrow> bool)
    \<Rightarrow> ('w \<Rightarrow> channel_id \<Rightarrow> 'q option) \<Rightarrow> ('w \<Rightarrow> bool) \<Rightarrow> 'c action \<Rightarrow> ('q, 'w) sys \<Rightarrow> ('q, 'w) sys \<Rightarrow> bool" where
  "step_ok tickets invar handle wfs a s s' \<longleftrightarrow>
     sys_inv tickets invar handle wfs s' \<and>
     (\<forall>ch. channel_value tickets (sy_man s') ch = channel_value tickets (sy_man s) ch + brings ch a)"

lemma ins_spec_pending:
  assumes "ins_spec t ts = (neg, ts')" "strict_sorted_key tkey ts" "tkey t' < tkey t"
    and "(\<exists>us. ts = t' # us) \<or> (\<forall>s\<in>set ts. tkey t' < tkey s) \<and> unat (amount_of t') \<le> n"
  shows "(\<exists>us. ts' = t' # us) \<or> (\<forall>s\<in>set ts'. tkey t' < tkey s) \<and> unat (amount_of t') \<le> n + queue_value neg"
proof (cases ts)
  case Nil
  with assms show ?thesis by (auto simp: ins_spec_def)
next
  case (Cons s ss)
  show ?thesis
  proof (cases "s = t'")
    case True
    have "\<not> epoch_of t < epoch_of t'" using tkey_less_epoch_le [OF assms(3)] by simp
    with True Cons assms(1,3) show ?thesis by (auto simp: ins_spec_def split: if_splits)
  next
    case False
    with Cons assms show ?thesis by (auto simp: ins_spec_def set_insort_key split: if_splits)
  qed
qed

lemma ins_spec_set: "ins_spec t ts = (neg, ts') \<Longrightarrow> set ts' \<subseteq> insert t (set ts)"
  by (auto simp: ins_spec_def set_insort_key split: list.splits if_splits)

lemma take_pending:
  assumes "(\<exists>us. ts = t' # us) \<or> (\<forall>s\<in>set ts. tkey t' < tkey s) \<and> unat (amount_of t') \<le> n"
    and "strict_sorted_key tkey ts"
  shows "(\<exists>us. dropWhile P ts = t' # us) \<or>
    (\<forall>s\<in>set (dropWhile P ts). tkey t' < tkey s) \<and> unat (amount_of t') \<le> n + queue_value (takeWhile P ts)"
  using assms(1)
proof
  assume "\<exists>us. ts = t' # us"
  then obtain us where us: "ts = t' # us" by blast
  show ?thesis
  proof (cases "P t'")
    case True
    have "\<forall>s\<in>set (dropWhile P us). tkey t' < tkey s"
      using assms(2) us set_dropWhileD [of _ P us] by (auto simp: strict_sorted_key_Cons)
    then show ?thesis using us True by simp
  next
    case False
    then show ?thesis using us by simp
  qed
next
  assume "(\<forall>s\<in>set ts. tkey t' < tkey s) \<and> unat (amount_of t') \<le> n"
  then show ?thesis using set_dropWhileD [of _ P ts] by auto
qed

context ticket_store
begin

lemma step_insert:
  assumes inv: "sinv s" and en: "enabled tickets room handle (AInsert t) s"
  shows "\<exists>s'. sys_step sops mx (AInsert t :: 'c action) s = Some s' \<and>
    step_ok tickets invar handle wfs (AInsert t :: 'c action) s s'"
proof -
  let ?m = "sy_man s" and ?ch = "channel_of t"
  have able: "insertable tickets room handle ?m t" and ord: "in_order t s" using en by simp_all
  note D = sys_invD [OF inv]
  obtain neg ts' where spec: "ins_spec t (channel_queue tickets ?m ?ch) = (neg, ts')" by force
  from insert_spec [OF D(1) able spec, where 'c = 'c] obtain m' where
    m': "(insert_incoming_ticket sops t ?m :: ((('e, 'c) tm_error + _) \<times> _) option) = Some (Inr (map rt_ticket neg), m')"
    "minv m'" "only_channel tickets ?ch ?m m'" "channel_queue tickets m' ?ch = ts'"
    "channel_value tickets m' ?ch = channel_value tickets ?m ?ch + unat (amount_of t)"
    "lock_at m' ?ch = lock_at ?m ?ch" "neglected_at m' ?ch = neglected_at ?m ?ch + queue_value neg" by blast
  have "sinv (s\<lparr>sy_man := m'\<rparr>)"
  proof (rule man_change_inv [OF inv m'(2,3,6)])
    fix i t' assume i: "i < length (sy_streams s)" "rs_pc (sy_streams s ! i) = Pending t'"
      "rs_channel (sy_streams s ! i) = ?ch" "pend_ok tickets ?m ?ch t'"
    have "tkey t' < tkey t"
      using ord i(2,3) nth_mem [OF i(1)] by (fastforce simp: in_order_def list_all_iff)
    from ins_spec_pending [OF spec channel_queue_sorted [OF D(1)] this] i(4)
    show "pend_ok tickets m' ?ch t'" by (simp add: pend_ok_def m'(4,7))
  next
    fix res u assume "(?ch, res) \<in> set (sy_log s)" "u \<in> set (channel_queue tickets m' ?ch)"
    then show "vkey (result_ticket res) < tkey u"
      using ins_spec_set [OF spec] m'(4) D(5) ord by (fastforce simp: in_order_def list_all_iff)
  qed
  moreover have "channel_value tickets m' c = channel_value tickets ?m c + brings c (AInsert t :: 'c action)" for c
    using m'(5) only_channelD(2) [OF m'(3), of c] by (cases "c = ?ch") auto
  ultimately show ?thesis using m'(1) by (simp add: step_ok_def)
qed

lemma step_neglect:
  assumes inv: "sinv s"
  shows "\<exists>s'. sys_step sops mx (ANeglect ch up_to :: 'c action) s = Some s' \<and>
    step_ok tickets invar handle wfs (ANeglect ch up_to :: 'c action) s s'"
proof (cases "map_of (m_channels (sy_man s)) ch")
  case None
  then show ?thesis using inv by (simp add: neglect_tickets_def step_ok_def)
next
  case (Some a)
  let ?m = "sy_man s"
  define P where "P = (\<lambda>t. index_of t \<le> unwrap_or mx up_to)"
  note D = sys_invD [OF inv]
  from neglect_spec [OF D(1) Some, of mx up_to, where 'c = 'c, folded P_def] obtain m' where
    m': "(neglect_tickets sops mx ch up_to ?m :: ((('e, 'c) tm_error + _) \<times> _) option) =
      Some (Inr (map rt_ticket (takeWhile P (channel_queue tickets ?m ch))), m')"
    "minv m'" "only_channel tickets ch ?m m'"
    "channel_queue tickets m' ch = dropWhile P (channel_queue tickets ?m ch)"
    "channel_value tickets m' ch = channel_value tickets ?m ch" "lock_at m' ch = lock_at ?m ch"
    "neglected_at m' ch = neglected_at ?m ch + queue_value (takeWhile P (channel_queue tickets ?m ch))" by blast
  have "sinv (s\<lparr>sy_man := m'\<rparr>)"
  proof (rule man_change_inv [OF inv m'(2,3,6)])
    fix i t' assume p: "pend_ok tickets ?m ch t'"
    have "strict_sorted_key tkey (channel_queue tickets ?m ch)" by (rule channel_queue_sorted [OF D(1)])
    from take_pending [OF p [unfolded pend_ok_def] this] show "pend_ok tickets m' ch t'"
      unfolding pend_ok_def m'(4,7) .
  next
    fix res u assume "(ch, res) \<in> set (sy_log s)" "u \<in> set (channel_queue tickets m' ch)"
    then show "vkey (result_ticket res) < tkey u"
      using m'(4) D(5) by (auto dest: set_dropWhileD)
  qed
  moreover have "channel_value tickets m' c = channel_value tickets ?m c" for c
    using m'(5) only_channelD(2) [OF m'(3), of c] by (cases "c = ch") auto
  ultimately show ?thesis using m'(1) by (simp add: step_ok_def)
qed

lemma step_open:
  assumes inv: "sinv s"
  shows "\<exists>s'. sys_step sops mx (AOpen ch mn :: 'c action) s = Some s' \<and>
    step_ok tickets invar handle wfs (AOpen ch mn :: 'c action) s s'"
proof (cases "map_of (m_channels (sy_man s)) ch")
  case None
  then show ?thesis using inv by (simp add: redeem_stream_def step_ok_def)
next
  case (Some a)
  let ?m = "sy_man s"
  note D = sys_invD [OF inv] and at = at_mapped [OF Some]
  show ?thesis
  proof (cases "te_lock (m_entries ?m ! a)")
    case True
    then show ?thesis using inv Some by (simp add: redeem_stream_def step_ok_def)
  next
    case False
    define m' where "m' = put_entry a (set_lock True (m_entries ?m ! a)) (m_world ?m) ?m"
    define rs where "rs = \<lparr>rs_channel = ch, rs_entry = a, rs_min = unwrap_or 0 mn, rs_pc = Ready\<rparr>"
    note L = set_lock_spec [OF D(1) Some, of True, folded m'_def]
    have nl: "\<not> lock_at ?m ch" using False at by simp
    have no: "rs_channel (sy_streams s ! i) \<noteq> ch" if "i < length (sy_streams s)" "live (sy_streams s ! i)" for i
      using D(2) [OF that(1)] that(2) nl by (auto simp: stream_ok_def)
    have lk: "lock_at m' c = (c = ch \<or> lock_at ?m c)" for c
      using L(5) only_channelD(3) [OF L(2), of c] by (cases "c = ch") auto
    have q: "channel_queue tickets m' c = channel_queue tickets ?m c" for c
      using L(3) only_channelD(1) [OF L(2), of c] by (cases "c = ch") auto
    have ng: "neglected_at m' c = neglected_at ?m c" for c
      using L(6) only_channelD(4) [OF L(2), of c] by (cases "c = ch") auto
    have mc: "m_channels m' = m_channels ?m" by (simp add: m'_def)
    let ?s' = "s\<lparr>sy_man := m', sy_streams := sy_streams s @ [rs]\<rparr>"
    have run: "sys_step sops mx (AOpen ch mn :: 'c action) s = Some ?s'"
      using Some False by (simp add: redeem_stream_def rs_def m'_def)
    have "sinv ?s'"
      unfolding sys_inv_def
    proof (intro conjI)
      show "minv (sy_man ?s')" using L(1) by simp
      show "\<forall>i<length (sy_streams ?s'). stream_ok tickets (sy_man ?s') (sy_log ?s') (sy_streams ?s' ! i)"
        using D(2) Some
        by (auto simp: nth_append stream_ok_def pend_ok_def lk q ng mc rs_def less_Suc_eq)
      show "\<forall>i<length (sy_streams ?s'). \<forall>j<length (sy_streams ?s'). i \<noteq> j \<longrightarrow> live (sy_streams ?s' ! i) \<longrightarrow>
        live (sy_streams ?s' ! j) \<longrightarrow> rs_channel (sy_streams ?s' ! i) \<noteq> rs_channel (sy_streams ?s' ! j)"
        using D(3) no by (auto simp: nth_append rs_def less_Suc_eq)
      show "\<forall>c. lock_at (sy_man ?s') c \<longrightarrow>
        (\<exists>i<length (sy_streams ?s'). live (sy_streams ?s' ! i) \<and> rs_channel (sy_streams ?s' ! i) = c)"
      proof (intro allI impI)
        fix c assume "lock_at (sy_man ?s') c"
        then consider "c = ch" | "lock_at ?m c" by (auto simp: lk)
        then show "\<exists>i<length (sy_streams ?s'). live (sy_streams ?s' ! i) \<and> rs_channel (sy_streams ?s' ! i) = c"
        proof cases
          case 1
          then show ?thesis by (intro exI [of _ "length (sy_streams s)"]) (simp add: rs_def live_def)
        next
          case 2
          from D(4) [OF this] obtain i where "i < length (sy_streams s)" "live (sy_streams s ! i)"
            "rs_channel (sy_streams s ! i) = c" by blast
          then show ?thesis by (intro exI [of _ i]) (simp add: nth_append)
        qed
      qed
      show "\<forall>c res. (c, res) \<in> set (sy_log ?s') \<longrightarrow>
        (\<forall>t\<in>set (channel_queue tickets (sy_man ?s') c). vkey (result_ticket res) < tkey t)"
        using D(5) by (simp add: q)
      show "\<forall>c. sorted_wrt (<) (keys_of c (sy_log ?s'))" using D(6) by simp
    qed
    moreover have "channel_value tickets m' c = channel_value tickets ?m c" for c
      using L(4) only_channelD(2) [OF L(2), of c] by (cases "c = ch") auto
    ultimately show ?thesis using run by (simp add: step_ok_def)
  qed
qed


text \<open>
  Replacing a live stream by itself in another position of its loop, with an entry put back
  for its channel.
\<close>

lemma stream_change_inv:
  assumes inv: "sinv s" and i: "i < length (sy_streams s)" "live (sy_streams s ! i)"
    and rs': "rs_channel rs' = rs_channel (sy_streams s ! i)" "rs_entry rs' = rs_entry (sy_streams s ! i)"
    and m': "minv m'" "only_channel tickets (rs_channel rs') (sy_man s) m'"
    and lock: "lock_at m' (rs_channel rs') = live rs'"
    and pend: "\<And>t. rs_pc rs' = Pending t \<Longrightarrow> pend_ok tickets m' (rs_channel rs') t \<and>
      (\<forall>res. (rs_channel rs', res) \<in> set log' \<longrightarrow> vkey (result_ticket res) < tkey t)"
    and log: "\<And>c res. c \<noteq> rs_channel rs' \<Longrightarrow> (c, res) \<in> set log' \<longleftrightarrow> (c, res) \<in> set (sy_log s)"
    and logq: "\<And>res t. (rs_channel rs', res) \<in> set log' \<Longrightarrow> t \<in> set (channel_queue tickets m' (rs_channel rs')) \<Longrightarrow>
      vkey (result_ticket res) < tkey t"
    and sorted: "\<And>c. sorted_wrt (<) (keys_of c log')"
  shows "sinv (put_stream i rs' m' s\<lparr>sy_log := log'\<rparr>)"
proof -
  let ?ch = "rs_channel rs'" and ?s' = "put_stream i rs' m' s\<lparr>sy_log := log'\<rparr>"
  note D = sys_invD [OF inv] and only = only_channelD [OF m'(2)]
  have other: "rs_channel (sy_streams s ! j) \<noteq> ?ch"
    if "j < length (sy_streams s)" "j \<noteq> i" "live (sy_streams s ! j)" for j
    using D(3) [OF i(1) that(1)] that i(2) rs'(1) by auto
  have so: "stream_ok tickets m' log' (sy_streams s ! j)" if j: "j < length (sy_streams s)" "j \<noteq> i" for j
  proof (cases "live (sy_streams s ! j)")
    case False
    then show ?thesis by (simp add: stream_ok_def live_def)
  next
    case True
    note ne = other [OF j True]
    show ?thesis
      using D(2) [OF j(1)] only [OF ne] log [OF ne] only_channel_map [OF m'(2)]
      unfolding stream_ok_def pend_ok_def by auto
  qed
  have "map_of (m_channels (sy_man s)) ?ch = Some (rs_entry rs')"
    using D(2) [OF i(1)] i(2) rs' by (simp add: stream_ok_def)
  then have si: "stream_ok tickets m' log' rs'"
    using lock pend only_channel_map [OF m'(2)] unfolding stream_ok_def by blast
  show ?thesis
    unfolding sys_inv_def
  proof (intro conjI)
    show "minv (sy_man ?s')" using m'(1) by (simp add: put_stream_def)
    show "\<forall>j<length (sy_streams ?s'). stream_ok tickets (sy_man ?s') (sy_log ?s') (sy_streams ?s' ! j)"
      using so si i(1) by (auto simp: put_stream_def nth_list_update)
    show "\<forall>j<length (sy_streams ?s'). \<forall>k<length (sy_streams ?s'). j \<noteq> k \<longrightarrow> live (sy_streams ?s' ! j) \<longrightarrow>
      live (sy_streams ?s' ! k) \<longrightarrow> rs_channel (sy_streams ?s' ! j) \<noteq> rs_channel (sy_streams ?s' ! k)"
    proof (intro allI impI)
      fix j k assume jk: "j < length (sy_streams ?s')" "k < length (sy_streams ?s')" "j \<noteq> k"
        "live (sy_streams ?s' ! j)" "live (sy_streams ?s' ! k)"
      consider "j = i" "k \<noteq> i" | "k = i" "j \<noteq> i" | "j \<noteq> i" "k \<noteq> i" using jk(3) by blast
      then show "rs_channel (sy_streams ?s' ! j) \<noteq> rs_channel (sy_streams ?s' ! k)"
        by cases (use jk other [of j] other [of k] D(3) [of j k] i(1) in \<open>simp_all add: put_stream_def\<close>)
    qed
    show "\<forall>c. lock_at (sy_man ?s') c \<longrightarrow>
      (\<exists>j<length (sy_streams ?s'). live (sy_streams ?s' ! j) \<and> rs_channel (sy_streams ?s' ! j) = c)"
    proof (intro allI impI)
      fix c assume l: "lock_at (sy_man ?s') c"
      show "\<exists>j<length (sy_streams ?s'). live (sy_streams ?s' ! j) \<and> rs_channel (sy_streams ?s' ! j) = c"
      proof (cases "c = ?ch")
        case True
        with l lock i show ?thesis by (intro exI [of _ i]) (simp add: put_stream_def)
      next
        case False
        then have "lock_at (sy_man s) c" using l only(3) [OF False] by (simp add: put_stream_def)
        from D(4) [OF this] obtain j where j: "j < length (sy_streams s)" "live (sy_streams s ! j)"
          "rs_channel (sy_streams s ! j) = c" by blast
        then have "j \<noteq> i" using False rs'(1) by auto
        with j show ?thesis by (intro exI [of _ j]) (simp add: put_stream_def)
      qed
    qed
    show "\<forall>c res. (c, res) \<in> set (sy_log ?s') \<longrightarrow>
      (\<forall>t\<in>set (channel_queue tickets (sy_man ?s') c). vkey (result_ticket res) < tkey t)"
    proof (intro allI impI ballI)
      fix c res t assume a: "(c, res) \<in> set (sy_log ?s')" "t \<in> set (channel_queue tickets (sy_man ?s') c)"
      show "vkey (result_ticket res) < tkey t"
      proof (cases "c = ?ch")
        case True
        with a logq show ?thesis by (simp add: put_stream_def)
      next
        case False
        with a log [OF False] only(1) [OF False] D(5) show ?thesis by (simp add: put_stream_def)
      qed
    qed
    show "\<forall>c. sorted_wrt (<) (keys_of c (sy_log ?s'))" using sorted by simp
  qed
qed


lemma release_inv:
  assumes inv: "sinv s" and i: "i < length (sy_streams s)" "live (sy_streams s ! i)"
    and r: "release (sy_streams s ! i) (sy_man s) = (rs', m')"
  shows "sinv (put_stream i rs' m' s)" "channel_value tickets m' c = channel_value tickets (sy_man s) c"
proof -
  let ?rs = "sy_streams s ! i" and ?m = "sy_man s"
  note D = sys_invD [OF inv]
  have mp: "map_of (m_channels ?m) (rs_channel ?rs) = Some (rs_entry ?rs)"
    using D(2) [OF i(1)] i(2) by (simp add: stream_ok_def)
  have rs': "rs' = ?rs\<lparr>rs_pc := Ended\<rparr>"
    and m': "m' = put_entry (rs_entry ?rs) (set_lock False (m_entries ?m ! rs_entry ?rs)) (m_world ?m) ?m"
    using r by (simp_all add: release_def)
  note L = set_lock_spec [OF D(1) mp, of False, folded m']
  have "sinv (put_stream i rs' m' s\<lparr>sy_log := sy_log s\<rparr>)"
    by (rule stream_change_inv [OF inv i]) (use L D(5,6) rs' in \<open>simp_all add: live_def\<close>)
  then show "sinv (put_stream i rs' m' s)" by (simp add: put_stream_def)
  show "channel_value tickets m' c = channel_value tickets ?m c"
    using L(4) only_channelD(2) [OF L(2), of c] by (cases "c = rs_channel ?rs") auto
qed

lemma step_drop:
  assumes inv: "sinv s"
  shows "\<exists>s'. sys_step sops mx (ADrop i :: 'c action) s = Some s' \<and>
    step_ok tickets invar handle wfs (ADrop i :: 'c action) s s'"
proof (cases "i < length (sy_streams s) \<and> live (sy_streams s ! i)")
  case False
  then show ?thesis using inv by (auto simp: step_ok_def)
next
  case True
  obtain rs' m' where r: "release (sy_streams s ! i) (sy_man s) = (rs', m')" by force
  from release_inv [OF inv _ _ r] True r show ?thesis
    by (simp add: step_ok_def put_stream_def)
qed

lemma step_poll:
  assumes inv: "sinv s"
  shows "\<exists>s'. sys_step sops mx (APoll i :: 'c action) s = Some s' \<and>
    step_ok tickets invar handle wfs (APoll i :: 'c action) s s'"
proof (cases "i < length (sy_streams s) \<and> rs_pc (sy_streams s ! i) = Ready")
  case False
  then show ?thesis using inv by (auto simp: step_ok_def)
next
  case True
  let ?rs = "sy_streams s ! i" and ?m = "sy_man s"
  have i: "i < length (sy_streams s)" "live ?rs" using True by (simp_all add: live_def)
  note D = sys_invD [OF inv]
  have st: "map_of (m_channels ?m) (rs_channel ?rs) = Some (rs_entry ?rs)" "lock_at ?m (rs_channel ?rs)"
    using D(2) [OF i(1)] i(2) by (simp_all add: stream_ok_def)
  note at = at_mapped [OF st(1)]
  have pk: "(redeem_peek qops (m_entries ?m ! rs_entry ?rs) (m_world ?m) :: ('e, 'c) tm_error + _) =
      Inr (case channel_queue tickets ?m (rs_channel ?rs) of [] \<Rightarrow> None | t # ts \<Rightarrow> Some t)"
    using vc.peek [OF man_invD(4) [OF D(1) st(1)]] at
    by (simp add: redeem_peek_def entry_tickets_def)
  show ?thesis
  proof (cases "channel_queue tickets ?m (rs_channel ?rs)")
    case Nil
    obtain rs' m' where r: "release ?rs ?m = (rs', m')" by force
    have "sys_step sops mx (APoll i :: 'c action) s = Some (put_stream i rs' m' s)"
      using True pk Nil r by (simp add: stream_poll_def)
    with release_inv [OF inv i r] show ?thesis by (simp add: step_ok_def put_stream_def)
  next
    case (Cons t ts)
    have run: "sys_step sops mx (APoll i :: 'c action) s = Some (put_stream i (?rs\<lparr>rs_pc := Pending t\<rparr>) ?m s)"
      using True pk Cons by (simp add: stream_poll_def)
    have "sinv (put_stream i (?rs\<lparr>rs_pc := Pending t\<rparr>) ?m s\<lparr>sy_log := sy_log s\<rparr>)"
      by (rule stream_change_inv [OF inv i])
        (use D(1,5,6) st Cons in \<open>auto simp: live_def pend_ok_def\<close>)
    then show ?thesis using run by (simp add: step_ok_def put_stream_def)
  qed
qed

lemma step_resume:
  assumes inv: "sinv s" and en: "enabled tickets room handle (AResume i reply :: 'c action) s"
  shows "\<exists>s'. sys_step sops mx (AResume i reply :: 'c action) s = Some s' \<and>
    step_ok tickets invar handle wfs (AResume i reply :: 'c action) s s'"
proof (cases "i < length (sy_streams s) \<and> (\<exists>t. rs_pc (sy_streams s ! i) = Pending t)")
  case False
  then show ?thesis using inv by (auto simp: step_ok_def split: redeem_pc.splits)
next
  case True
  then obtain t where t: "rs_pc (sy_streams s ! i) = Pending t" and i1: "i < length (sy_streams s)" by blast
  let ?rs = "sy_streams s ! i" and ?m = "sy_man s"
  have i: "i < length (sy_streams s)" "live ?rs" using i1 t by (simp_all add: live_def)
  note D = sys_invD [OF inv]
  let ?ch = "rs_channel ?rs" and ?a = "rs_entry ?rs"
  have st: "map_of (m_channels ?m) ?ch = Some ?a" "lock_at ?m ?ch" "pend_ok tickets ?m ?ch t"
    "\<And>res. (?ch, res) \<in> set (sy_log s) \<Longrightarrow> vkey (result_ticket res) < tkey t"
    using D(2) [OF i(1)] i(2) t by (simp_all add: stream_ok_def)
  have about: "reply_about t reply" using en i1 t by simp
  show ?thesis
  proof (cases "redeem_attempt (rs_min ?rs) t reply :: ('e, 'c) tm_error + redemption_result")
    case (Inl err)
    obtain rs' m' where r: "release ?rs ?m = (rs', m')" by force
    have "sys_step sops mx (AResume i reply :: 'c action) s = Some (put_stream i rs' m' s)"
      using i1 t Inl r by (simp add: stream_resume_def)
    with release_inv [OF inv i r] show ?thesis by (simp add: step_ok_def put_stream_def)
  next
    case (Inr res)
    have res: "result_ticket res = rt_ticket t"
      using Inr about by (cases reply) (auto simp: redeem_attempt_def split: if_splits)
    from complete_spec [OF D(1) st(1) res st(3) [unfolded pend_ok_def], where 'c = 'c] obtain e' w' where
      c: "(redeem_complete qops t res (m_entries ?m ! ?a) (m_world ?m) :: (('e, 'c) tm_error + _) \<times> _) = (Inr (), e', w')"
      "minv (put_entry ?a e' w' ?m)" "only_channel tickets ?ch ?m (put_entry ?a e' w' ?m)"
      "channel_queue tickets (put_entry ?a e' w' ?m) ?ch = filter (\<lambda>s. s \<noteq> t) (channel_queue tickets ?m ?ch)"
      "channel_value tickets (put_entry ?a e' w' ?m) ?ch = channel_value tickets ?m ?ch"
      "lock_at (put_entry ?a e' w' ?m) ?ch = lock_at ?m ?ch" by blast
    define m' where "m' = put_entry ?a e' w' ?m"
    let ?log' = "sy_log s @ [(?ch, res)]"
    have run: "sys_step sops mx (AResume i reply :: 'c action) s =
        Some (put_stream i (?rs\<lparr>rs_pc := Ready\<rparr>) m' s\<lparr>sy_log := ?log'\<rparr>)"
      using i1 t Inr c(1) by (simp add: stream_resume_def m'_def)
    have later: "tkey t < tkey u" if "u \<in> set (channel_queue tickets m' ?ch)" for u
      using that c(4) pend_ok_queue [OF st(3) _ channel_queue_sorted [OF D(1)], of u] by (auto simp: m'_def)
    have "sinv (put_stream i (?rs\<lparr>rs_pc := Ready\<rparr>) m' s\<lparr>sy_log := ?log'\<rparr>)"
    proof (rule stream_change_inv [OF inv i])
      show "lock_at m' (rs_channel (?rs\<lparr>rs_pc := Ready\<rparr>)) = live (?rs\<lparr>rs_pc := Ready\<rparr>)"
        using c(6) st(2) by (simp add: m'_def live_def)
    next
      fix r u assume "(rs_channel (?rs\<lparr>rs_pc := Ready\<rparr>), r) \<in> set ?log'"
        "u \<in> set (channel_queue tickets m' (rs_channel (?rs\<lparr>rs_pc := Ready\<rparr>)))"
      then show "vkey (result_ticket r) < tkey u"
        using later [of u] st(4) [of r] res by auto
    next
      fix c'
      have "\<forall>k\<in>set (keys_of ?ch (sy_log s)). k < tkey t" using st(4) by (auto simp: set_keys_of)
      then show "sorted_wrt (<) (keys_of c' ?log')"
        using D(6) [of c'] res by (auto simp: sorted_wrt_append)
    qed (use c in \<open>auto simp: m'_def\<close>)
    moreover have "channel_value tickets m' c' = channel_value tickets ?m c'" for c'
      using c(5) only_channelD(2) [OF c(3), of c'] by (cases "c' = ?ch") (auto simp: m'_def)
    ultimately show ?thesis using run by (simp add: step_ok_def put_stream_def)
  qed
qed


lemma sys_step_ok:
  assumes "sinv s" "enabled tickets room handle a s"
  shows "\<exists>s'. sys_step sops mx (a :: 'c action) s = Some s' \<and> step_ok tickets invar handle wfs a s s'"
  using assms step_insert step_neglect step_open step_poll step_resume step_drop
  by (cases a) (blast | simp only:)+

lemma sys_new_inv: "wfs w \<Longrightarrow> sinv (sys_new w)"
  by (simp add: sys_inv_def sys_new_def manager_new_def man_inv_def lock_at_def entry_at_def keys_of_def)

lemma sys_run_ok:
  assumes "sinv s" "all_enabled sops mx tickets room handle (as :: 'c action list) s"
  shows "\<exists>s'. sys_run sops mx as s = Some s' \<and> sinv s' \<and>
    (\<forall>ch. channel_value tickets (sy_man s') ch = channel_value tickets (sy_man s) ch + (\<Sum>a\<leftarrow>as. brings ch a))"
  using assms
proof (induction as arbitrary: s)
  case Nil
  then show ?case by simp
next
  case (Cons a as)
  have "enabled tickets room handle a s" using Cons.prems(2) by simp
  from sys_step_ok [OF Cons.prems(1) this, of mx] obtain s1 where
    s1: "sys_step sops mx a s = Some s1" "step_ok tickets invar handle wfs a s s1" by blast
  have "sinv s1" "all_enabled sops mx tickets room handle as s1"
    using s1 Cons.prems(2) by (simp_all add: step_ok_def)
  from Cons.IH [OF this] s1 show ?case by (auto simp: step_ok_def)
qed

lemma sys_run_from_new:
  assumes "wfs w" "all_enabled sops mx tickets room handle (as :: 'c action list) (sys_new w)"
  shows "\<exists>s'. sys_run sops mx as (sys_new w) = Some s' \<and> sinv s' \<and>
    (\<forall>ch. channel_value tickets (sy_man s') ch = (\<Sum>a\<leftarrow>as. brings ch a))"
proof -
  have "channel_value tickets (sy_man (sys_new w)) ch = 0" for ch
    by (simp add: sys_new_def manager_new_def channel_value_def entry_at_def)
  with sys_run_ok [OF sys_new_inv [OF assms(1)] assms(2)] show ?thesis by simp
qed

text \<open>What the manager reports about a channel is what its queue holds.\<close>

lemma unrealized_value_exact:
  assumes "minv m" "map_of (m_channels m) ch = Some a"
  shows "\<exists>v. (unrealized_value sops m ch None :: ('e, 'c) tm_error + _) = Inr (Some v) \<and>
    unat v = queue_value (channel_queue tickets m ch)"
  using vc_inv_exact [OF man_invD(4) [OF assms]] at_mapped(2) [OF assms(2)] assms(2)
  by (simp add: unrealized_value_def Let_def entry_tickets_def)

lemma unrealized_value_from_index:
  assumes "minv m" "map_of (m_channels m) ch = Some a"
  shows "(unrealized_value sops m ch (Some i) :: ('e, 'c) tm_error + _) =
    Inr (Some (sat_sum (map amount_of (filter (\<lambda>t. i \<le> index_of t) (channel_queue tickets m ch)))))"
proof -
  let ?q = "te_queue (m_entries m ! a)" and ?ts = "channel_queue tickets m ch"
  note D = man_invD [OF assms]
  have ts: "?ts = vc_tickets tickets ?q (m_world m)"
    using at_mapped(2) [OF assms(2)] by (simp add: entry_tickets_def)
  have pk: "q_peek (vc_ops qops) ?q (m_world m) = Inr (case ?ts of [] \<Rightarrow> None | t # us \<Rightarrow> Some t)"
    using vc.peek [OF D(4)] ts by simp
  show ?thesis
  proof (cases ?ts)
    case Nil
    with pk assms(2) show ?thesis by (simp add: unrealized_value_def Let_def)
  next
    case (Cons t us)
    have "\<forall>u\<in>set ?ts. epoch_of u = epoch_of t"
      using D(4) Cons ts by (auto simp: vc_inv_def vc_tickets_def)
    then have "filter (counted (epoch_of t) (Some i)) ?ts = filter (\<lambda>t. i \<le> index_of t) ?ts"
      by (intro filter_cong) (simp_all add: counted_def)
    moreover have "vc_total_value qops (epoch_of t) (Some i) ?q (m_world m) =
      Inr (sat_sum (map amount_of (filter (counted (epoch_of t) (Some i)) ?ts)))"
      unfolding ts by (rule vc_total_value_correct [OF D(4)])
    ultimately show ?thesis
      using pk Cons assms(2) by (simp add: unrealized_value_def Let_def)
  qed
qed

end

section \<open>The manager over the memory store\<close>

text \<open>A sample run: three tickets, a redemption, and a neglection that overtakes a redemption.\<close>

definition sample_ticket :: "u32 \<Rightarrow> u64 \<Rightarrow> balance \<Rightarrow> redeemable_ticket" where
  "sample_ticket epoch index amount =
     \<lparr>rt_ticket = \<lparr>vt_channel = 1, vt_epoch = epoch, vt_index = index, vt_amount = amount, vt_rest = 0\<rparr>,
      rt_response = 0\<rparr>"

definition sample_actions :: "nat action list" where
  "sample_actions =
     [AInsert (sample_ticket 1 3 10), AInsert (sample_ticket 1 5 7), AOpen 1 None, APoll 0,
      AInsert (sample_ticket 1 8 4), AResume 0 (ChainRedeemed (rt_ticket (sample_ticket 1 3 10))),
      APoll 0, ANeglect 1 (Some 5), AResume 0 (ChainRedeemed (rt_ticket (sample_ticket 1 5 7)))]"

type_synonym 'e mem_ops = "(nat, mem_store, 'e) store_ops"

lemmas mem_eval = mem_store_ops_def mem_ops_defs mem_open_def mem_empty_def mem_tickets_def mem_room_def
  mem_handle_def sys_new_def manager_new_def insertable_def channel_value_def channel_queue_def entry_at_def
  max_supply_def in_order_def insert_incoming_ticket_def insert_vacant_def vc_new_def vc_push_def vc_pop_def
  Let_def cache_add_def cache_sub_def cache_get_def entry_of_queue_def stats_zero_def sample_ticket_def
  sample_actions_def entry_insert_def entry_push_def count_winning_def put_entry_def entry_tickets_def
  vc_tickets_def entry_value_def settled_def ticket_le_def tkey_def redeem_stream_def set_lock_def
  put_stream_def stream_poll_def redeem_peek_def release_def stream_resume_def redeem_attempt_def
  redeem_complete_def correct_neglected_def live_def neglect_tickets_def entry_neglect_def pop_while.simps
  add_neglected_def sat_add_def sat_sub_def vkey_def keys_of_def

lemma sample_enabled:
  "all_enabled (mem_store_ops ticket_le :: nat mem_ops) 1000 mem_tickets mem_room mem_handle
     sample_actions (sys_new mem_empty)"
  by (simp add: mem_eval)





text \<open>
  C3. At most one redemption stream is alive per channel: in every run two live streams are
  on different channels, and the redemption flag of a channel is up exactly when a live
  stream is on it, so that a channel is never left locked.
\<close>

theorem mem_run_streams_exclusive:
  assumes "natural_order le" "mem_wf w"
    and "all_enabled (mem_store_ops le :: 'e mem_ops) mx mem_tickets mem_room mem_handle
      (as :: 'c action list) (sys_new w)"
    and "sys_run (mem_store_ops le :: 'e mem_ops) mx as (sys_new w) = Some s'"
  shows "(\<forall>i j. i < length (sy_streams s') \<longrightarrow> j < length (sy_streams s') \<longrightarrow> i \<noteq> j \<longrightarrow>
      live (sy_streams s' ! i) \<longrightarrow> live (sy_streams s' ! j) \<longrightarrow>
      rs_channel (sy_streams s' ! i) \<noteq> rs_channel (sy_streams s' ! j)) \<and>
    (\<forall>ch. lock_at (sy_man s') ch \<longleftrightarrow> (\<exists>rs\<in>set (sy_streams s'). live rs \<and> rs_channel rs = ch))"
proof -
  have inv: "sys_inv mem_tickets mem_inv mem_handle mem_wf s'"
    using ticket_store.sys_run_from_new [OF natural_order.mem_store_provider [OF assms(1)] assms(2,3)] assms(4) by fastforce
  note D = ticket_store.sys_invD [OF natural_order.mem_store_provider [OF assms(1)] inv]
  have "lock_at (sy_man s') ch \<longleftrightarrow> (\<exists>rs\<in>set (sy_streams s'). live rs \<and> rs_channel rs = ch)" for ch
    using D(2,4) by (fastforce simp: stream_ok_def in_set_conv_nth)
  then show ?thesis using D(3) by blast
qed

theorem mem_run_streams_exclusive_witness:
  "\<exists>s'. sys_run (mem_store_ops ticket_le :: nat mem_ops) 1000 sample_actions (sys_new mem_empty) = Some s' \<and>
    (lock_at (sy_man s') 1 \<longleftrightarrow> (\<exists>rs\<in>set (sy_streams s'). live rs \<and> rs_channel rs = 1))"
proof -
  obtain s' where "sys_run (mem_store_ops ticket_le :: nat mem_ops) 1000 sample_actions (sys_new mem_empty) = Some s'"
    using ticket_store.sys_run_from_new [OF ticket_le.mem_store_provider mem_wf_empty sample_enabled] by blast
  with mem_run_streams_exclusive [OF ticket_le.natural_order_axioms mem_wf_empty sample_enabled this]
  show ?thesis by blast
qed

text \<open>
  The unrealized value of a channel is exact at every moment of every run: the value
  read from the cache without touching the storage is the total of the tickets queued, and
  with a minimum index it is the total of the tickets from that index on.
\<close>

theorem mem_run_unrealized_exact:
  assumes "natural_order le" "mem_wf w"
    and "all_enabled (mem_store_ops le :: 'e mem_ops) mx mem_tickets mem_room mem_handle
      (as :: 'c action list) (sys_new w)"
    and "sys_run (mem_store_ops le :: 'e mem_ops) mx as (sys_new w) = Some s'"
    and "entry_at (sy_man s') ch \<noteq> None"
  shows "(\<exists>v. (unrealized_value (mem_store_ops le) (sy_man s') ch None :: ('e, 'c) tm_error + _) = Inr (Some v) \<and>
      unat v = queue_value (channel_queue mem_tickets (sy_man s') ch)) \<and>
    (unrealized_value (mem_store_ops le) (sy_man s') ch (Some i) :: ('e, 'c) tm_error + _) =
      Inr (Some (sat_sum (map amount_of (filter (\<lambda>t. i \<le> index_of t) (channel_queue mem_tickets (sy_man s') ch)))))"
proof (intro conjI)
  have inv: "sys_inv mem_tickets mem_inv mem_handle mem_wf s'"
    using ticket_store.sys_run_from_new [OF natural_order.mem_store_provider [OF assms(1)] assms(2,3)] assms(4) by fastforce
  note m = ticket_store.sys_invD(1) [OF natural_order.mem_store_provider [OF assms(1)] inv]
  obtain a where a: "map_of (m_channels (sy_man s')) ch = Some a"
    using assms(5) by (auto simp: entry_at_def)
  show "\<exists>v. (unrealized_value (mem_store_ops le) (sy_man s') ch None :: ('e, 'c) tm_error + _) = Inr (Some v) \<and>
      unat v = queue_value (channel_queue mem_tickets (sy_man s') ch)"
    by (rule ticket_store.unrealized_value_exact [OF natural_order.mem_store_provider [OF assms(1)] m a])
  show "(unrealized_value (mem_store_ops le) (sy_man s') ch (Some i) :: ('e, 'c) tm_error + _) =
      Inr (Some (sat_sum (map amount_of (filter (\<lambda>t. i \<le> index_of t) (channel_queue mem_tickets (sy_man s') ch)))))"
    by (rule ticket_store.unrealized_value_from_index [OF natural_order.mem_store_provider [OF assms(1)] m a])
qed

theorem mem_run_unrealized_exact_witness:
  "\<exists>s'. sys_run (mem_store_ops ticket_le :: nat mem_ops) 1000 (take 5 sample_actions) (sys_new mem_empty) = Some s' \<and>
    (\<exists>v. (unrealized_value (mem_store_ops ticket_le :: nat mem_ops) (sy_man s') 1 None :: (nat, nat) tm_error + _) =
      Inr (Some v) \<and> unat v = queue_value (channel_queue mem_tickets (sy_man s') 1))"
proof -
  have en: "all_enabled (mem_store_ops ticket_le :: nat mem_ops) 1000 mem_tickets mem_room mem_handle
     (take 5 sample_actions) (sys_new mem_empty)"
    by (simp add: mem_eval)
  define r where
    "r = sys_run (mem_store_ops ticket_le :: nat mem_ops) 1000 (take 5 sample_actions) (sys_new mem_empty)"
  have "entry_at (sy_man (the r)) 1 \<noteq> None \<and> r \<noteq> None"
    unfolding r_def by (simp add: mem_eval)
  then obtain s' where s': "r = Some s'" "entry_at (sy_man s') 1 \<noteq> None" by auto
  from mem_run_unrealized_exact
      [OF ticket_le.natural_order_axioms mem_wf_empty en s'(1) [unfolded r_def] s'(2)] s'(1)
  show ?thesis unfolding r_def by blast
qed

definition overtaken_actions :: "nat action list" where
  "overtaken_actions =
     [AInsert (sample_ticket 1 5 10), AOpen 1 None, APoll 0, AInsert (sample_ticket 1 3 7),
      AResume 0 (ChainRedeemed (rt_ticket (sample_ticket 1 5 10))),
      APoll 0, AResume 0 (ChainRedeemed (rt_ticket (sample_ticket 1 3 7))),
      APoll 0, AResume 0 (ChainRedeemed (rt_ticket (sample_ticket 1 5 10)))]"

text \<open>
  Without the order of arrival the accounting breaks. While the redemption of a ticket
  is in flight, a ticket of a lower index is inserted. The completion finds another ticket
  at the head, takes this for a neglection (there was none), leaves the redeemed ticket in
  the queue and submits it to the chain again: two tickets of value 10 and 7 come in, and
  27 is accounted as redeemed.
\<close>

theorem overtaken_redeemed_twice:
  "\<exists>s'. sys_run (mem_store_ops ticket_le :: nat mem_ops) 1000 overtaken_actions (sys_new mem_empty) = Some s' \<and>
    map (result_ticket \<circ> snd) (sy_log s') =
      [rt_ticket (sample_ticket 1 5 10), rt_ticket (sample_ticket 1 3 7), rt_ticket (sample_ticket 1 5 10)] \<and>
    map_option (st_redeemed \<circ> te_stats) (entry_at (sy_man s') 1) = Some 27"
  by (simp add: mem_eval overtaken_actions_def)

end
