(* ===== verification/Redb_Store.thy ===== *)
theory Redb_Store
  imports Ticket_Runs
begin

unbundle bit_operations_syntax

text \<open>
  The persistent backend (\<open>ticket-manager/src/backend/redb.rs\<close>). \<open>redb\<close> is an embedded
  database with ordered tables and atomic transactions: a table is the list of its entries
  in key order, and a transaction that fails (the flag \<open>rd_fault\<close>) leaves everything as it
  was. A queue holds a weak reference to the database, which fails once the store is gone
  (\<open>rd_open\<close>). \<open>ser\<close> and \<open>de\<close> are \<open>postcard\<close>'s serializer and deserializer. A table name
  is the prefix with the channel id, which is represented by the channel id.
\<close>

section \<open>Keys and tables\<close>

definition make_index :: "redeemable_ticket \<Rightarrow> u128" where
  "make_index t = push_bit 64 (ucast (epoch_of t)) OR ucast (index_of t)"

type_synonym 'b table = "(u128 \<times> 'b) list"

fun table_insert :: "u128 \<Rightarrow> 'b \<Rightarrow> 'b table \<Rightarrow> 'b table" where
  "table_insert k v [] = [(k, v)]"
| "table_insert k v ((k', v') # es) =
     (if k < k' then (k, v) # (k', v') # es
      else if k = k' then (k, v) # es
      else (k', v') # table_insert k v es)"

datatype redb_error = DatabaseClosed | DatabaseFault | TableMissing | Postcard

record 'b redb =
  rd_open :: bool
  rd_fault :: bool
  rd_tables :: "(channel_id \<times> 'b table) list"
  rd_out :: "(index_key \<times> u64) list"

definition redb_new :: "'b redb" where
  "redb_new = \<lparr>rd_open = True, rd_fault = False, rd_tables = [], rd_out = []\<rparr>"

text \<open>
  The guard of every queue operation: the weak reference is upgraded, then a transaction
  begins. A read transaction needs the table to exist, a write transaction creates it.
\<close>

definition read_table :: "channel_id \<Rightarrow> 'b redb \<Rightarrow> redb_error + 'b table" where
  "read_table c w =
     (if \<not> rd_open w then Inl DatabaseClosed
      else if rd_fault w then Inl DatabaseFault
      else ok_or TableMissing (map_of (rd_tables w) c))"

definition write_table :: "channel_id \<Rightarrow> 'b redb \<Rightarrow> redb_error + 'b table" where
  "write_table c w =
     (if \<not> rd_open w then Inl DatabaseClosed
      else if rd_fault w then Inl DatabaseFault
      else Inr (unwrap_or [] (map_of (rd_tables w) c)))"

definition commit_table :: "channel_id \<Rightarrow> 'b table \<Rightarrow> 'b redb \<Rightarrow> 'b redb" where
  "commit_table c tbl w = w\<lparr>rd_tables := AList.update c tbl (rd_tables w)\<rparr>"

section \<open>Queue operations\<close>

definition redb_len :: "channel_id \<Rightarrow> 'b redb \<Rightarrow> redb_error + nat" where
  "redb_len c w = map_ok length (read_table c w)"

definition redb_is_empty :: "channel_id \<Rightarrow> 'b redb \<Rightarrow> redb_error + bool" where
  "redb_is_empty c w = map_ok (\<lambda>tbl. tbl = []) (read_table c w)"

definition redb_push :: "(redeemable_ticket \<Rightarrow> 'b option) \<Rightarrow> redeemable_ticket \<Rightarrow> channel_id \<Rightarrow> 'b redb
    \<Rightarrow> (redb_error + unit) \<times> channel_id \<times> 'b redb" where
  "redb_push ser t c w =
     (case write_table c w of
        Inl err \<Rightarrow> (Inl err, c, w)
      | Inr tbl \<Rightarrow>
          (case ser t of
             None \<Rightarrow> (Inl Postcard, c, w)
           | Some b \<Rightarrow> (Inr (), c, commit_table c (table_insert (make_index t) b tbl) w)))"

definition redb_pop :: "('b \<Rightarrow> redeemable_ticket option) \<Rightarrow> channel_id \<Rightarrow> 'b redb
    \<Rightarrow> (redb_error + redeemable_ticket option) \<times> channel_id \<times> 'b redb" where
  "redb_pop de c w =
     (case write_table c w of
        Inl err \<Rightarrow> (Inl err, c, w)
      | Inr [] \<Rightarrow> (Inr None, c, commit_table c [] w)
      | Inr ((k, b) # es) \<Rightarrow> (map_ok Some (ok_or Postcard (de b)), c, commit_table c es w))"

definition redb_peek :: "('b \<Rightarrow> redeemable_ticket option) \<Rightarrow> channel_id \<Rightarrow> 'b redb
    \<Rightarrow> redb_error + redeemable_ticket option" where
  "redb_peek de c w =
     and_then (read_table c w) (\<lambda>tbl.
       case tbl of [] \<Rightarrow> Inr None | (k, b) # es \<Rightarrow> map_ok Some (ok_or Postcard (de b)))"

definition redb_iter_unordered :: "('b \<Rightarrow> redeemable_ticket option) \<Rightarrow> channel_id \<Rightarrow> 'b redb
    \<Rightarrow> redb_error + (redb_error + redeemable_ticket) list" where
  "redb_iter_unordered de c w =
     map_ok (map (\<lambda>(k, b). ok_or Postcard (de b))) (read_table c w)"

definition redb_queue_ops :: "(redeemable_ticket \<Rightarrow> 'b option) \<Rightarrow> ('b \<Rightarrow> redeemable_ticket option)
    \<Rightarrow> (channel_id, 'b redb, redb_error) queue_ops" where
  "redb_queue_ops ser de =
     \<lparr>q_len = redb_len, q_is_empty = redb_is_empty, q_push = redb_push ser, q_pop = redb_pop de,
      q_peek = redb_peek de, q_iter_unordered = redb_iter_unordered de\<rparr>"

section \<open>Store operations\<close>

definition redb_open_or_create :: "channel_id \<Rightarrow> 'b redb \<Rightarrow> (redb_error + channel_id) \<times> 'b redb" where
  "redb_open_or_create c w =
     (if rd_fault w then (Inl DatabaseFault, w)
      else (Inr c, commit_table c (unwrap_or [] (map_of (rd_tables w) c)) w))"

fun drain_table :: "('b \<Rightarrow> redeemable_ticket option) \<Rightarrow> 'b table \<Rightarrow> redb_error + verified_ticket list" where
  "drain_table de [] = Inr []"
| "drain_table de ((k, b) # es) =
     (case de b of
        None \<Rightarrow> Inl Postcard
      | Some t \<Rightarrow> map_ok (\<lambda>ts. rt_ticket t # ts) (drain_table de es))"

text \<open>A value that cannot be read aborts the transaction: nothing is deleted then.\<close>

definition redb_delete :: "('b \<Rightarrow> redeemable_ticket option) \<Rightarrow> channel_id \<Rightarrow> 'b redb
    \<Rightarrow> ((redb_error + verified_ticket list) \<times> 'b redb) option" where
  "redb_delete de c w = Some
     (if rd_fault w then (Inl DatabaseFault, w)
      else (case drain_table de (unwrap_or [] (map_of (rd_tables w) c)) of
         Inl err \<Rightarrow> (Inl err, w)
       | Inr ts \<Rightarrow> (Inr ts, w\<lparr>rd_tables := AList.delete c (rd_tables w)\<rparr>)))"

definition redb_iter_queues :: "'b redb \<Rightarrow> redb_error + channel_id list" where
  "redb_iter_queues w = (if rd_fault w then Inl DatabaseFault else Inr (map fst (rd_tables w)))"

definition redb_store_ops :: "(redeemable_ticket \<Rightarrow> 'b option) \<Rightarrow> ('b \<Rightarrow> redeemable_ticket option)
    \<Rightarrow> (channel_id, 'b redb, redb_error) store_ops" where
  "redb_store_ops ser de =
     \<lparr>s_queue = redb_queue_ops ser de, s_open = redb_open_or_create, s_delete = redb_delete de,
      s_iter_queues = redb_iter_queues\<rparr>"

definition redb_index_ops :: "('b redb, redb_error) index_ops" where
  "redb_index_ops =
     \<lparr>i_load = (\<lambda>c e w. if rd_fault w then Inl DatabaseFault else Inr (map_of (rd_out w) (c, e))),
      i_save = (\<lambda>c e i w. if rd_fault w then (Inl DatabaseFault, w)
         else (Inr (), w\<lparr>rd_out := AList.update (c, e) i (rd_out w)\<rparr>)),
      i_delete = (\<lambda>c e w. if rd_fault w then (Inl DatabaseFault, w)
         else (Inr (), w\<lparr>rd_out := AList.delete (c, e) (rd_out w)\<rparr>)),
      i_iter = (\<lambda>w. if rd_fault w then Inl DatabaseFault else Inr (map fst (rd_out w)))\<rparr>"

lemmas redb_ops_defs = redb_queue_ops_def redb_len_def redb_is_empty_def redb_push_def redb_pop_def
  redb_peek_def redb_iter_unordered_def read_table_def write_table_def commit_table_def

section \<open>The key of the table is the natural order\<close>

lemma unat_ucast_less: "unat (x :: 'a::len word) < 2 ^ LENGTH('b) \<Longrightarrow> unat (ucast x :: 'b::len word) = unat x"
  by (simp add: unsigned_ucast_eq take_bit_nat_eq_self)

lemma unat_make_index: "unat (make_index t) = tkey t"
proof -
  have le: "unat (epoch_of t) < 2 ^ 32" "unat (index_of t) < 2 ^ 64"
    using unat_less_len [of "epoch_of t"] unat_less_len [of "index_of t"] by simp_all
  have e: "unat (ucast (epoch_of t) :: u128) = unat (epoch_of t)"
    and i: "unat (ucast (index_of t) :: u128) = unat (index_of t)"
    using le by (simp_all add: unat_ucast_less)
  have "make_index t = push_bit 64 (ucast (epoch_of t)) + ucast (index_of t)"
    unfolding make_index_def by (rule disjunctive_add [symmetric]) (auto simp: bit_simps dest: bit_imp_le_length)
  moreover have "unat (push_bit 64 (ucast (epoch_of t)) :: u128) = unat (epoch_of t) * 2 ^ 64"
    using le e by (simp add: push_bit_eq_mult unat_word_ariths)
  ultimately show ?thesis
    using le i by (simp add: tkey_def unat_word_ariths)
qed

lemma make_index_less_iff: "make_index s < make_index t \<longleftrightarrow> tkey s < tkey t"
  by (simp add: word_less_nat_alt unat_make_index)

lemma make_index_eq_iff: "make_index s = make_index t \<longleftrightarrow> tkey s = tkey t"
  by (simp add: word_unat_eq_iff unat_make_index)

section \<open>The database keeps the queue contract\<close>

text \<open>What is required of the serializer: reading back what was written.\<close>

locale postcard =
  fixes ser :: "redeemable_ticket \<Rightarrow> 'b option"
    and de :: "'b \<Rightarrow> redeemable_ticket option"
  assumes round_trip: "\<exists>b. ser t = Some b \<and> de b = Some t"

text \<open>A serializer of this kind: the ticket itself.\<close>

interpretation self_postcard: postcard Some Some
  by unfold_locales simp

definition entry_ok :: "('b \<Rightarrow> redeemable_ticket option) \<Rightarrow> u128 \<times> 'b \<Rightarrow> bool" where
  "entry_ok de e \<longleftrightarrow> (case de (snd e) of None \<Rightarrow> False | Some t \<Rightarrow> fst e = make_index t)"

definition table_tickets :: "('b \<Rightarrow> redeemable_ticket option) \<Rightarrow> 'b table \<Rightarrow> redeemable_ticket list" where
  "table_tickets de tbl = List.map_filter (\<lambda>e. de (snd e)) tbl"

definition table_ok :: "('b \<Rightarrow> redeemable_ticket option) \<Rightarrow> 'b table \<Rightarrow> bool" where
  "table_ok de tbl \<longleftrightarrow> list_all (entry_ok de) tbl \<and> strict_sorted_key (\<lambda>e. unat (fst e)) tbl"

definition redb_tickets :: "('b \<Rightarrow> redeemable_ticket option) \<Rightarrow> channel_id \<Rightarrow> 'b redb \<Rightarrow> redeemable_ticket list" where
  "redb_tickets de c w = table_tickets de (unwrap_or [] (map_of (rd_tables w) c))"

definition redb_inv :: "('b \<Rightarrow> redeemable_ticket option) \<Rightarrow> channel_id \<Rightarrow> 'b redb \<Rightarrow> bool" where
  "redb_inv de c w \<longleftrightarrow> rd_open w \<and> \<not> rd_fault w \<and>
     (case map_of (rd_tables w) c of None \<Rightarrow> False | Some tbl \<Rightarrow> table_ok de tbl)"

definition redb_room :: "('b \<Rightarrow> redeemable_ticket option) \<Rightarrow> redeemable_ticket \<Rightarrow> channel_id \<Rightarrow> 'b redb \<Rightarrow> bool" where
  "redb_room de t c w \<longleftrightarrow> tkey t \<notin> tkey ` set (redb_tickets de c w)"

lemma table_tickets_simps [simp]:
  "table_tickets de [] = []"
  "entry_ok de e \<Longrightarrow> table_tickets de (e # es) = the (de (snd e)) # table_tickets de es"
  by (auto simp: table_tickets_def List.map_filter_simps entry_ok_def split: option.splits)

lemma table_ok_simps [simp]:
  "table_ok de []"
  "table_ok de (e # es) \<longleftrightarrow> entry_ok de e \<and> table_ok de es \<and> (\<forall>x\<in>set es. unat (fst e) < unat (fst x))"
  by (auto simp: table_ok_def strict_sorted_key_Cons)

lemma entry_ok_key: "entry_ok de e \<Longrightarrow> unat (fst e) = tkey (the (de (snd e)))"
  by (auto simp: entry_ok_def unat_make_index split: option.splits)

lemma table_tickets_map: "table_ok de tbl \<Longrightarrow> table_tickets de tbl = map (\<lambda>e. the (de (snd e))) tbl"
  by (induction tbl) auto

lemma table_ok_entry: "table_ok de tbl \<Longrightarrow> e \<in> set tbl \<Longrightarrow> entry_ok de e"
  by (auto simp: table_ok_def list_all_iff)

lemma table_tickets_sorted: "table_ok de tbl \<Longrightarrow> strict_sorted_key tkey (table_tickets de tbl)"
proof (induction tbl)
  case (Cons e es)
  have "\<forall>x\<in>set es. tkey (the (de (snd e))) < tkey (the (de (snd x)))"
  proof
    fix x assume x: "x \<in> set es"
    then have "entry_ok de x" using Cons.prems table_ok_entry [of de es x] by simp
    with Cons.prems x entry_ok_key [of de e] entry_ok_key [of de x]
    show "tkey (the (de (snd e))) < tkey (the (de (snd x)))" by auto
  qed
  with Cons show ?case by (simp add: strict_sorted_key_Cons table_tickets_map)
qed simp

lemma table_insert_ok:
  assumes "table_ok de tbl" "de b = Some t" "tkey t \<notin> tkey ` set (table_tickets de tbl)"
  shows "table_ok de (table_insert (make_index t) b tbl) \<and>
    table_tickets de (table_insert (make_index t) b tbl) = insort_key tkey t (table_tickets de tbl) \<and>
    fst ` set (table_insert (make_index t) b tbl) = insert (make_index t) (fst ` set tbl)"
  using assms
proof (induction tbl)
  case Nil
  then show ?case by (simp add: entry_ok_def)
next
  case (Cons e es)
  obtain k v where e: "e = (k, v)" by force
  have ok: "entry_ok de (k, v)" "table_ok de es" using Cons.prems(1) e by simp_all
  obtain s where s: "de v = Some s" "k = make_index s"
    using ok(1) by (auto simp: entry_ok_def split: option.splits)
  have new: "entry_ok de (make_index t, b)" using Cons.prems(2) by (simp add: entry_ok_def)
  have ne: "tkey t \<noteq> tkey s" using Cons.prems(3) ok(1) s e by auto
  have IH: "table_ok de (table_insert (make_index t) b es)"
    "table_tickets de (table_insert (make_index t) b es) = insort_key tkey t (table_tickets de es)"
    "fst ` set (table_insert (make_index t) b es) = insert (make_index t) (fst ` set es)"
    using Cons.IH [OF ok(2) Cons.prems(2)] Cons.prems(3) ok(1) e by auto
  show ?case
  proof (cases "tkey t < tkey s")
    case True
    then have "make_index t < k" using s by (simp add: make_index_less_iff)
    moreover have "\<forall>x\<in>set es. unat (make_index t) < unat (fst x)"
      using Cons.prems(1) e s True by (auto simp: unat_make_index intro: less_trans)
    moreover have "unat (make_index t) < unat k" using True s by (simp add: unat_make_index)
    ultimately show ?thesis
      using True e s ok new Cons.prems(1,2) by simp
  next
    case False
    then have "tkey s < tkey t" "\<not> make_index t < k" "make_index t \<noteq> k"
      using ne s by (simp_all add: make_index_less_iff make_index_eq_iff)
    moreover have "\<forall>x\<in>fst ` set (table_insert (make_index t) b es). unat k < unat x"
      unfolding IH(3) using Cons.prems(1) e s \<open>tkey s < tkey t\<close> by (simp add: unat_make_index)
    then have "\<forall>x\<in>set (table_insert (make_index t) b es). unat k < unat (fst x)" by blast
    ultimately show ?thesis
      using e s ok IH False by (simp add: insert_commute)
  qed
qed

lemma map_commit [simp]: "map_of (rd_tables (commit_table c tbl w)) = (map_of (rd_tables w))(c \<mapsto> tbl)"
  by (simp add: commit_table_def update_conv' fun_eq_iff)

lemma commit_simps [simp]:
  "rd_open (commit_table c tbl w) = rd_open w" "rd_fault (commit_table c tbl w) = rd_fault w"
  by (simp_all add: commit_table_def)

lemma redb_tickets_commit:
  "redb_tickets de c' (commit_table c tbl w) = (if c' = c then table_tickets de tbl else redb_tickets de c' w)"
  by (simp add: redb_tickets_def)

lemma redb_invD:
  assumes "redb_inv de c w"
  obtains tbl where "rd_open w" "\<not> rd_fault w" "map_of (rd_tables w) c = Some tbl" "table_ok de tbl"
    "redb_tickets de c w = table_tickets de tbl"
  using assms by (auto simp: redb_inv_def redb_tickets_def split: option.splits)

context postcard
begin

lemma redb_push_ok:
  assumes "redb_inv de c w" "redb_room de t c w" "redb_push ser t c w = (r, q', w')"
  shows "r = Inr () \<and> q' = c \<and> redb_tickets de c w' = insort_key tkey t (redb_tickets de c w) \<and>
    redb_inv de c w' \<and> (\<exists>tbl. w' = commit_table c tbl w \<and> table_ok de tbl)"
proof -
  obtain tbl where tbl: "rd_open w" "\<not> rd_fault w" "map_of (rd_tables w) c = Some tbl" "table_ok de tbl"
    "redb_tickets de c w = table_tickets de tbl" using redb_invD [OF assms(1)] .
  obtain b where b: "ser t = Some b" "de b = Some t" using round_trip by blast
  have "tkey t \<notin> tkey ` set (table_tickets de tbl)" using assms(2) tbl(5) by (simp add: redb_room_def)
  note ins = table_insert_ok [OF tbl(4) b(2) this]
  have "r = Inr ()" "q' = c" "w' = commit_table c (table_insert (make_index t) b tbl) w"
    using assms(3) tbl b by (auto simp: redb_push_def write_table_def)
  with ins tbl show ?thesis by (auto simp: redb_inv_def redb_tickets_commit)
qed

lemma redb_pop_ok:
  assumes "redb_inv de c w" "redb_pop de c w = (r, q', w')"
  shows "r = Inr (case redb_tickets de c w of [] \<Rightarrow> None | t # ts \<Rightarrow> Some t) \<and> q' = c \<and>
    redb_tickets de c w' = tl (redb_tickets de c w) \<and> redb_inv de c w' \<and>
    (\<exists>tbl. w' = commit_table c tbl w \<and> table_ok de tbl)"
proof -
  obtain tbl where tbl: "rd_open w" "\<not> rd_fault w" "map_of (rd_tables w) c = Some tbl" "table_ok de tbl"
    "redb_tickets de c w = table_tickets de tbl" using redb_invD [OF assms(1)] .
  show ?thesis
  proof (cases tbl)
    case Nil
    with assms(2) tbl show ?thesis
      by (auto simp: redb_pop_def write_table_def redb_inv_def redb_tickets_commit)
  next
    case (Cons e es)
    then obtain t where "de (snd e) = Some t"
      using tbl(4) by (auto simp: entry_ok_def split: option.splits)
    with Cons assms(2) tbl show ?thesis
      by (cases e) (auto simp: redb_pop_def write_table_def redb_inv_def redb_tickets_commit)
  qed
qed

end

sublocale postcard \<subseteq> rdb: cached_ticket_queue "redb_queue_ops ser de" "redb_tickets de" "redb_inv de" "redb_room de"
proof (unfold_locales, goal_cases)
  case (1 c w)
  then show ?case by (elim redb_invD) (simp add: table_tickets_sorted)
next
  case (2 c w)
  then show ?case
    by (elim redb_invD) (simp add: redb_queue_ops_def redb_len_def read_table_def table_tickets_map)
next
  case (3 c w)
  then show ?case
    by (elim redb_invD) (simp add: redb_queue_ops_def redb_is_empty_def read_table_def table_tickets_map)
next
  case (4 c w)
  then obtain tbl where tbl: "rd_open w" "\<not> rd_fault w" "map_of (rd_tables w) c = Some tbl" "table_ok de tbl"
    "redb_tickets de c w = table_tickets de tbl" by (rule redb_invD)
  then show ?case
    by (cases tbl) (auto simp: redb_queue_ops_def redb_peek_def read_table_def entry_ok_def split: option.splits)
next
  case (5 c w r q' w')
  then show ?case using redb_pop_ok [of c w r q' w'] by (simp add: redb_queue_ops_def)
next
  case (6 c w t pr q' w')
  then show ?case using redb_push_ok [of c w t pr q' w'] by (simp add: redb_queue_ops_def)
next
  case (7 c w t)
  then show ?case by (simp add: redb_room_def)
next
  case (8 c w t)
  then show ?case by (simp add: redb_room_def)
next
  case (9 c w)
  then obtain tbl where tbl: "rd_open w" "\<not> rd_fault w" "map_of (rd_tables w) c = Some tbl" "table_ok de tbl"
    "redb_tickets de c w = table_tickets de tbl" by (rule redb_invD)
  have "map (\<lambda>(k, b). ok_or Postcard (de b)) tbl = map Inr (map (\<lambda>e. the (de (snd e))) tbl)"
    using table_ok_entry [OF tbl(4)] by (fastforce simp: entry_ok_def split: option.splits)
  with tbl have "q_iter_unordered (redb_queue_ops ser de) c w = Inr (map Inr (map (\<lambda>e. the (de (snd e))) tbl))"
    by (simp add: redb_queue_ops_def redb_iter_unordered_def read_table_def del: map_map)
  with tbl show ?case by (metis table_tickets_map)
qed

definition redb_handle :: "'b redb \<Rightarrow> channel_id \<Rightarrow> channel_id option" where
  "redb_handle w = (\<lambda>c. map_option (\<lambda>_. c) (map_of (rd_tables w) c))"

definition redb_wf :: "('b \<Rightarrow> redeemable_ticket option) \<Rightarrow> 'b redb \<Rightarrow> bool" where
  "redb_wf de w \<longleftrightarrow> rd_open w \<and> \<not> rd_fault w \<and>
     (\<forall>c tbl. map_of (rd_tables w) c = Some tbl \<longrightarrow> table_ok de tbl)"

lemma redb_wf_new: "redb_wf de redb_new"
  by (simp add: redb_wf_def redb_new_def)

lemma redb_wf_commit: "redb_wf de w \<Longrightarrow> table_ok de tbl \<Longrightarrow> redb_wf de (commit_table c tbl w)"
  by (auto simp: redb_wf_def split: if_splits)

lemma redb_handle_iff: "redb_handle w c = Some q \<longleftrightarrow> q = c \<and> map_of (rd_tables w) c \<noteq> None"
  by (auto simp: redb_handle_def)

lemma redb_handle_commit:
  "redb_handle (commit_table c tbl w) = (redb_handle w)(c \<mapsto> c)"
  by (simp add: redb_handle_def fun_eq_iff)

lemma redb_wf_table: "redb_wf de w \<Longrightarrow> table_ok de (unwrap_or [] (map_of (rd_tables w) c))"
  by (cases "map_of (rd_tables w) c") (auto simp: redb_wf_def)

lemma drain_table_ok: "table_ok de tbl \<Longrightarrow> drain_table de tbl = Inr (map rt_ticket (table_tickets de tbl))"
  by (induction tbl) (auto simp: entry_ok_def split: option.splits)

context postcard
begin

lemma redb_store_provider:
  "ticket_store (redb_store_ops ser de) (redb_tickets de) (redb_inv de) (redb_room de) redb_handle (redb_wf de)"
proof (intro ticket_store.intro ticket_store_axioms.intro, goal_cases)
  case 1
  then show ?case using rdb.cached_ticket_queue_axioms by (simp add: redb_store_ops_def)
next
  case (2 w c q c')
  then show ?case by (simp add: redb_handle_iff)
next
  case (3 w c q)
  then show ?case by (auto simp: redb_handle_iff redb_inv_def redb_wf_def)
next
  case (4 w c q r q' w')
  then have h: "q = c" "map_of (rd_tables w) c \<noteq> None" by (simp_all add: redb_handle_iff)
  have "redb_inv de c w" using 4(1) h by (auto simp: redb_inv_def redb_wf_def)
  moreover have "redb_pop de c w = (r, q', w')" using 4(3) h by (simp add: redb_store_ops_def redb_queue_ops_def)
  ultimately obtain tbl where "q' = c" "w' = commit_table c tbl w" "table_ok de tbl"
    using redb_pop_ok by blast
  then show ?case
    using 4(1) h by (simp add: redb_wf_commit redb_handle_commit redb_tickets_commit fun_upd_idem_iff redb_handle_iff)
next
  case (5 w c q t pr q' w')
  then have h: "q = c" "map_of (rd_tables w) c \<noteq> None" by (simp_all add: redb_handle_iff)
  have "redb_inv de c w" using 5(1) h by (auto simp: redb_inv_def redb_wf_def)
  moreover have "redb_push ser t c w = (pr, q', w')"
    using 5(4) h by (simp add: redb_store_ops_def redb_queue_ops_def)
  moreover have "redb_room de t c w" using 5(3) h by simp
  ultimately obtain tbl where "q' = c" "w' = commit_table c tbl w" "table_ok de tbl"
    using redb_push_ok by blast
  then show ?case
    using 5(1) h by (simp add: redb_wf_commit redb_handle_commit redb_tickets_commit fun_upd_idem_iff redb_handle_iff)
next
  case (6 w c oq w')
  have tbl: "table_ok de (unwrap_or [] (map_of (rd_tables w) c))" by (rule redb_wf_table [OF 6(1)])
  have "oq = Inr c" "w' = commit_table c (unwrap_or [] (map_of (rd_tables w) c)) w"
    using 6 by (auto simp: redb_store_ops_def redb_open_or_create_def redb_wf_def)
  with tbl 6(1) show ?case
    by (auto simp: redb_wf_commit redb_handle_commit redb_tickets_commit redb_handle_iff redb_handle_def
        redb_tickets_def split: option.splits)
next
  case (7 w c)
  have tbl: "table_ok de (unwrap_or [] (map_of (rd_tables w) c))" by (rule redb_wf_table [OF 7])
  let ?w = "w\<lparr>rd_tables := AList.delete c (rd_tables w)\<rparr>"
  have "redb_wf de ?w" using 7 by (auto simp: redb_wf_def delete_conv' split: if_splits)
  moreover have "redb_handle ?w = (redb_handle w)(c := None)"
    by (simp add: redb_handle_def delete_conv' fun_eq_iff)
  moreover have "\<forall>c0 q0. c0 \<noteq> c \<longrightarrow> redb_handle w c0 = Some q0 \<longrightarrow> redb_tickets de q0 ?w = redb_tickets de q0 w"
    by (simp add: redb_handle_iff redb_tickets_def delete_conv')
  moreover have "(case redb_handle w c of None \<Rightarrow> [] | Some q \<Rightarrow> map rt_ticket (redb_tickets de q w)) =
      map rt_ticket (table_tickets de (unwrap_or [] (map_of (rd_tables w) c)))"
    by (cases "map_of (rd_tables w) c") (simp_all add: redb_handle_def redb_tickets_def)
  ultimately show ?case
    using drain_table_ok [OF tbl] 7 by (simp add: redb_store_ops_def redb_delete_def redb_wf_def)
next
  case (8 w)
  have "dom (redb_handle w) = dom (map_of (rd_tables w))" by (auto simp: redb_handle_def)
  then show ?case
    using 8 by (simp add: redb_store_ops_def redb_iter_queues_def redb_wf_def dom_map_of_conv_image_fst)
qed

end

end
