(* ===== verification/Backends.thy ===== *)
theory Backends
  imports Redb_Store
begin

text \<open>
  The two backends side by side: seen through the queue interface they give the same
  answers, the ticket manager runs the same way over the database, and the outgoing indices
  survive a restart on either. What the database adds is that its operations fail: a failed
  operation changes nothing, except that a ticket that cannot be read is dropped.
\<close>

section \<open>The queue interface as a whole\<close>

datatype queue_call = QPush redeemable_ticket | QPop | QPeek | QLen | QIsEmpty

datatype queue_answer = AUnit | ATicket "redeemable_ticket option" | ANat nat | ABool bool

fun queue_trace :: "('q, 'w, 'e) queue_ops \<Rightarrow> queue_call list \<Rightarrow> 'q \<Rightarrow> 'w \<Rightarrow> ('e + queue_answer) list" where
  "queue_trace ops [] q w = []"
| "queue_trace ops (QPush t # cs) q w =
     (case q_push ops t q w of (r, q', w') \<Rightarrow> map_ok (\<lambda>_. AUnit) r # queue_trace ops cs q' w')"
| "queue_trace ops (QPop # cs) q w =
     (case q_pop ops q w of (r, q', w') \<Rightarrow> map_ok ATicket r # queue_trace ops cs q' w')"
| "queue_trace ops (QPeek # cs) q w = map_ok ATicket (q_peek ops q w) # queue_trace ops cs q w"
| "queue_trace ops (QLen # cs) q w = map_ok ANat (q_len ops q w) # queue_trace ops cs q w"
| "queue_trace ops (QIsEmpty # cs) q w = map_ok ABool (q_is_empty ops q w) # queue_trace ops cs q w"

text \<open>The same calls on the list of tickets in their natural order.\<close>

fun abs_trace :: "queue_call list \<Rightarrow> redeemable_ticket list \<Rightarrow> queue_answer list" where
  "abs_trace [] ts = []"
| "abs_trace (QPush t # cs) ts = AUnit # abs_trace cs (insort_key tkey t ts)"
| "abs_trace (QPop # cs) ts =
     ATicket (case ts of [] \<Rightarrow> None | t # _ \<Rightarrow> Some t) # abs_trace cs (tl ts)"
| "abs_trace (QPeek # cs) ts = ATicket (case ts of [] \<Rightarrow> None | t # _ \<Rightarrow> Some t) # abs_trace cs ts"
| "abs_trace (QLen # cs) ts = ANat (length ts) # abs_trace cs ts"
| "abs_trace (QIsEmpty # cs) ts = ABool (ts = []) # abs_trace cs ts"

fun fresh_calls :: "queue_call list \<Rightarrow> redeemable_ticket list \<Rightarrow> bool" where
  "fresh_calls [] ts = True"
| "fresh_calls (QPush t # cs) ts = (tkey t \<notin> tkey ` set ts \<and> fresh_calls cs (insort_key tkey t ts))"
| "fresh_calls (QPop # cs) ts = fresh_calls cs (tl ts)"
| "fresh_calls (_ # cs) ts = fresh_calls cs ts"

text \<open>A queue that has room for every ticket with a new key.\<close>

locale keyed_queue = ticket_queue ops tickets invar room
  for ops :: "('q, 'w, 'e) queue_ops" and tickets and invar and room +
  assumes room_key: "invar q w \<Longrightarrow> tkey t \<notin> tkey ` set (tickets q w) \<Longrightarrow> room t q w"
begin

lemma trace_correct:
  assumes "invar q w" "fresh_calls cs (tickets q w)"
  shows "queue_trace ops cs q w = map Inr (abs_trace cs (tickets q w))"
  using assms
proof (induction cs arbitrary: q w)
  case Nil
  then show ?case by simp
next
  case (Cons c cs)
  show ?case
  proof (cases c)
    case (QPush t)
    obtain r q' w' where p: "q_push ops t q w = (r, q', w')" by (metis prod_cases3)
    have "room t q w" using Cons.prems QPush by (intro room_key) simp_all
    from push [OF Cons.prems(1) this p] Cons.IH [of q' w'] Cons.prems QPush p show ?thesis by simp
  next
    case QPop
    obtain r q' w' where p: "q_pop ops q w = (r, q', w')" by (metis prod_cases3)
    from pop [OF Cons.prems(1) p] Cons.IH [of q' w'] Cons.prems QPop p show ?thesis by simp
  qed (use Cons peek len is_empty in simp_all)
qed

end

sublocale natural_order \<subseteq> mem_keyed: keyed_queue "mem_queue_ops le" mem_tickets mem_inv mem_room
  by unfold_locales (simp add: mem_room_def mem_tickets_def)

sublocale postcard \<subseteq> rdb_keyed: keyed_queue "redb_queue_ops ser de" "redb_tickets de" "redb_inv de" "redb_room de"
  by unfold_locales (simp add: redb_room_def)

sublocale postcard \<subseteq> rdb_st: ticket_store "redb_store_ops ser de" "redb_tickets de" "redb_inv de" "redb_room de"
    redb_handle "redb_wf de"
  by (rule redb_store_provider)

interpretation redb_index: index_store redb_index_ops "\<lambda>w. map_of (rd_out w)" "\<lambda>w. \<not> rd_fault w"
  by unfold_locales
    (auto simp: redb_index_ops_def update_conv' delete_conv' dom_map_of_conv_image_fst)

context natural_order
begin

lemma mem_trace:
  "fresh_calls cs [] \<Longrightarrow> queue_trace (mem_queue_ops le) cs a mem_empty = map Inr (abs_trace cs [])"
  using mem_keyed.trace_correct [of a mem_empty cs]
  by (simp add: mem_inv_def mem_tickets_def mem_empty_def)

end

context postcard
begin

lemma redb_trace:
  "fresh_calls cs [] \<Longrightarrow>
   queue_trace (redb_queue_ops ser de) cs c (snd (redb_open_or_create c redb_new)) = map Inr (abs_trace cs [])"
  using rdb_keyed.trace_correct [of c "snd (redb_open_or_create c redb_new)" cs]
  by (simp add: redb_inv_def redb_tickets_def redb_open_or_create_def redb_new_def)

end



text \<open>
  The ticket manager over the database: every run from a store with well-formed tables
  ends, conserves the value of every channel and redeems in order, as over memory.
\<close>

theorem redb_run_conserves_value:
  assumes "postcard ser de" "redb_wf de w"
    and "all_enabled (redb_store_ops ser de) mx (redb_tickets de) (redb_room de) redb_handle
      (as :: 'c action list) (sys_new w)"
  shows "\<exists>s'. sys_run (redb_store_ops ser de) mx as (sys_new w) = Some s' \<and>
    (\<forall>ch. channel_value (redb_tickets de) (sy_man s') ch = (\<Sum>a\<leftarrow>as. brings ch a)) \<and>
    (\<forall>ch. sorted_wrt (<) (keys_of ch (sy_log s')))"
proof -
  note st = postcard.redb_store_provider [OF assms(1)]
  from ticket_store.sys_run_from_new [OF st assms(2,3)] ticket_store.sys_invD(6) [OF st]
  show ?thesis by blast
qed

theorem redb_run_conserves_value_witness:
  "\<exists>s'. sys_run (redb_store_ops Some Some) 1000
      ([AInsert (sample_ticket 1 3 10), AInsert (sample_ticket 2 0 7)] :: nat action list) (sys_new redb_new) = Some (s' :: (channel_id, redeemable_ticket redb) sys) \<and>
    channel_value (redb_tickets Some) (sy_man s') 1 = 17"
proof -
  let ?as = "[AInsert (sample_ticket 1 3 10), AInsert (sample_ticket 2 0 7)] :: nat action list"
  have en: "all_enabled (redb_store_ops Some Some) 1000 (redb_tickets Some) (redb_room Some) redb_handle
      ?as (sys_new redb_new)"
    by (simp add: mem_eval redb_store_ops_def redb_ops_defs redb_open_or_create_def redb_new_def redb_tickets_def
        redb_room_def redb_handle_def table_tickets_def List.map_filter_simps make_index_def ok_or_def
        split: option.splits)
  have "(\<Sum>a\<leftarrow>?as. brings 1 a) = 17" by (simp add: sample_ticket_def)
  with redb_run_conserves_value [OF self_postcard.postcard_axioms redb_wf_new en] show ?thesis by metis
qed



end
