(* ===== verification/Ticket_Node.thy ===== *)
theory Ticket_Node
  imports Backends
begin

text \<open>
  The start of a node (\<open>ticket-manager/src/chain_sync.rs\<close>): factory and manager over one
  store, seeded from the channels of the chain connector. The lemmas say what the
  synchronisation leaves: a manager whose queues are those of the channels that are not
  closed, without tickets that cannot be redeemed. The last section joins manager and
  factory: the stake a relay believes a channel to have.
\<close>

section \<open>Start-up\<close>

text \<open>
  \<open>outgoing\<close> and \<open>incoming\<close> stand for the channel streams of the connector: an error when the
  stream cannot be opened, otherwise the channels it yields.
\<close>

definition ticket_factory_from_chain :: "('w, 'e) index_ops \<Rightarrow> u64 \<Rightarrow> string + channel_entry list \<Rightarrow> 'w
    \<Rightarrow> (('e, 'c) tm_error + index_cache) \<times> 'w" where
  "ticket_factory_from_chain iops mx outgoing w =
     (case outgoing of
        Inl e \<Rightarrow> (Inl (OtherError (''failed to stream outgoing channels: '' @ e)), w)
      | Inr chs \<Rightarrow>
          (case sync_from_outgoing_channels iops mx chs ic_empty w of
             (r, tr, w') \<Rightarrow> (map_ok (\<lambda>_. tr) r, w')))"

definition ticket_manager_from_chain :: "('q, 'w, 'e) store_ops \<Rightarrow> ('w, 'e) index_ops \<Rightarrow> u64
    \<Rightarrow> (channel_entry \<Rightarrow> bool) \<Rightarrow> string + channel_entry list \<Rightarrow> string + channel_entry list \<Rightarrow> 'w
    \<Rightarrow> ((('e, 'c) tm_error + ('q, 'w) manager \<times> index_cache) \<times> 'w) option" where
  "ticket_manager_from_chain sops iops mx passed incoming outgoing w =
     (case incoming of
        Inl e \<Rightarrow> Some (Inl (OtherError (''failed to stream incoming channels: '' @ e)), w)
      | Inr inc \<Rightarrow>
          (case outgoing of
             Inl e \<Rightarrow> Some (Inl (OtherError (''failed to stream outgoing channels: '' @ e)), w)
           | Inr out \<Rightarrow>
               (case sync_from_incoming_channels sops passed inc (manager_new w) of
                  None \<Rightarrow> None
                | Some (Inl err, m) \<Rightarrow> Some (Inl err, m_world m)
                | Some (Inr _, m) \<Rightarrow>
                    (case sync_from_outgoing_channels iops mx out ic_empty (m_world m) of
                       (r, tr, w') \<Rightarrow> Some (map_ok (\<lambda>_. (m\<lparr>m_world := w'\<rparr>, tr)) r, w')))))"

section \<open>What the synchronisation of the incoming channels leaves\<close>

lemma manager_new_simps [simp]:
  "m_world (manager_new w) = w" "m_channels (manager_new w) = []" "entry_at (manager_new w) c = None"
  by (simp_all add: manager_new_def entry_at_def)

definition listed :: "(channel_entry \<Rightarrow> bool) \<Rightarrow> channel_entry list \<Rightarrow> channel_id \<Rightarrow> bool" where
  "listed passed chs c \<longleftrightarrow> list_ex (\<lambda>ch. \<not> passed ch \<and> ch_id ch = c) chs"

text \<open>The queues of a store that the manager can take over: one epoch each, and within the supply.\<close>

definition queues_ok :: "('q \<Rightarrow> 'w \<Rightarrow> redeemable_ticket list) \<Rightarrow> ('w \<Rightarrow> channel_id \<Rightarrow> 'q option) \<Rightarrow> 'w \<Rightarrow> bool" where
  "queues_ok tickets handle w \<longleftrightarrow>
     (\<forall>c q. handle w c = Some q \<longrightarrow> single_epoch (tickets q w) \<and> queue_value (tickets q w) \<le> max_supply)"

definition stored :: "('q \<Rightarrow> 'w \<Rightarrow> redeemable_ticket list) \<Rightarrow> ('w \<Rightarrow> channel_id \<Rightarrow> 'q option) \<Rightarrow> 'w
    \<Rightarrow> channel_id \<Rightarrow> redeemable_ticket list" where
  "stored tickets handle w c = (case handle w c of None \<Rightarrow> [] | Some q \<Rightarrow> tickets q w)"

context ticket_store
begin

lemma plain_pop_while_frame:
  assumes "wfs w" "handle w c = Some q" "pop_while qops P acc q w = Some (r, popped, q', w')"
  shows "q' = q \<and> same q w w'"
  using assms
proof (induction "tickets q w" arbitrary: acc w)
  case Nil
  have "q_peek qops q w = Inr None"
    using peek [OF handle_inv [OF Nil.prems(1,2)]] by (simp flip: Nil.hyps)
  with Nil.prems(1,3) show ?case
    by (subst (asm) pop_while.simps) (simp add: others_same_refl)
next
  case (Cons t ts)
  have pk: "q_peek qops q w = Inr (Some t)"
    using peek [OF handle_inv [OF Cons.prems(1,2)]] by (simp flip: Cons.hyps(2))
  show ?case
  proof (cases "P t")
    case False
    with pk Cons.prems(1,3) show ?thesis
      by (subst (asm) pop_while.simps) (simp add: others_same_refl)
  next
    case True
    obtain pr q1 w1 where p: "q_pop qops q w = (pr, q1, w1)" by (metis prod_cases3)
    have st: "pr = Inr (Some t)" "tickets q1 w1 = ts"
      using pop [OF handle_inv [OF Cons.prems(1,2)] p] by (simp_all flip: Cons.hyps(2))
    have fr: "q1 = q" "same q w w1"
      using pop_frame [OF Cons.prems(1,2) p] by (simp_all add: others_same_def)
    have "pop_while qops P (acc @ [t]) q w1 = Some (r, popped, q', w')"
      using Cons.prems(3) p pk st(1) True fr(1) by (subst (asm) pop_while.simps) simp
    moreover have "ts = tickets q w1" "wfs w1" "handle w1 c = Some q"
      using st(2) fr Cons.prems(2) by (simp_all add: others_same_def)
    ultimately have "q' = q \<and> same q w1 w'" by (intro Cons.hyps(1))
    with fr show ?thesis by (auto intro: others_same_trans)
  qed
qed

lemma purge_queues_ok:
  assumes "wfs w"
  shows "\<exists>neg' w'. purge_queues sops passed chs cs neg (manager_new w) = Some (Inr neg', manager_new w') \<and>
    wfs w' \<and> (\<forall>c. stored tickets handle w' c = (if c \<in> set cs \<and> \<not> listed passed chs c then []
      else stored tickets handle w c)) \<and>
    (\<forall>c. handle w' c = (if c \<in> set cs \<and> \<not> listed passed chs c then None else handle w c)) \<and>
    (queues_ok tickets handle w \<longrightarrow> queues_ok tickets handle w')"
  using assms
proof (induction cs arbitrary: neg w)
  case Nil
  then show ?case by auto
next
  case (Cons c cs)
  show ?case
  proof (cases "listed passed chs c")
    case True
    from Cons.IH [OF Cons.prems, of neg] obtain neg' w' where
      w': "purge_queues sops passed chs cs neg (manager_new w) = Some (Inr neg', manager_new w')" "wfs w'"
      "\<forall>c. stored tickets handle w' c = (if c \<in> set cs \<and> \<not> listed passed chs c then []
         else stored tickets handle w c)"
      "\<forall>c. handle w' c = (if c \<in> set cs \<and> \<not> listed passed chs c then None else handle w c)"
      "queues_ok tickets handle w \<longrightarrow> queues_ok tickets handle w'" by blast
    have "purge_queues sops passed chs (c # cs) neg (manager_new w) = Some (Inr neg', manager_new w')"
      using w'(1) True by (simp add: listed_def)
    with w' True show ?thesis by auto
  next
    case False
    from delete_queue [OF Cons.prems, of c] obtain ts w1 where
      d: "s_delete sops c w = Some (Inr ts, w1)" "wfs w1" "handle w1 = (handle w)(c := None)"
      "\<forall>c0 q0. c0 \<noteq> c \<longrightarrow> handle w c0 = Some q0 \<longrightarrow> tickets q0 w1 = tickets q0 w" by blast
    have sto: "stored tickets handle w1 c0 = (if c0 = c then [] else stored tickets handle w c0)" for c0
      using d(3,4) by (auto simp: stored_def split: option.splits)
    have qk: "queues_ok tickets handle w \<longrightarrow> queues_ok tickets handle w1"
      using d(3,4) by (auto simp: queues_ok_def)
    from Cons.IH [OF d(2), of "neg @ ts"] obtain neg' w' where
      w': "purge_queues sops passed chs cs (neg @ ts) (manager_new w1) = Some (Inr neg', manager_new w')" "wfs w'"
      "\<forall>c. stored tickets handle w' c = (if c \<in> set cs \<and> \<not> listed passed chs c then []
         else stored tickets handle w1 c)"
      "\<forall>c. handle w' c = (if c \<in> set cs \<and> \<not> listed passed chs c then None else handle w1 c)"
      "queues_ok tickets handle w1 \<longrightarrow> queues_ok tickets handle w'" by blast
    have "purge_queues sops passed chs (c # cs) neg (manager_new w) = Some (Inr neg', manager_new w')"
      using w'(1) False d(1) by (simp add: listed_def manager_new_def)
    with w' sto d(3) False qk show ?thesis by auto
  qed
qed


lemma add_entry_inv:
  assumes inv: "minv m" and un: "map_of (m_channels m) ch = None" and wf': "wfs w'"
    and old: "\<And>c h. c \<noteq> ch \<Longrightarrow> handle (m_world m) c = Some h \<Longrightarrow>
      handle w' c = Some h \<and> tickets h w' = tickets h (m_world m)"
    and e: "handle w' ch = Some (vc_queue (te_queue e))" "vc_inv tickets invar (te_queue e) w'"
      "entry_value tickets e w' \<le> max_supply"
  defines "m' \<equiv> \<lparr>m_channels = AList.update ch (length (m_entries m)) (m_channels m),
      m_entries = m_entries m @ [e], m_world = w'\<rparr>"
  shows "minv m'" "only_channel tickets ch m m'" "entry_at m' ch = Some e"
    and "channel_queue tickets m' ch = entry_tickets tickets e w'"
proof -
  let ?a = "length (m_entries m)"
  note D = man_invD [OF inv]
  have mc: "map_of (m_channels m') c = (if c = ch then Some ?a else map_of (m_channels m) c)" for c
    by (simp add: m'_def update_conv')
  have ne: "c \<noteq> ch" if "map_of (m_channels m) c = Some a" for c a using un that by auto
  have keep: "a < ?a" "handle w' c = Some (vc_queue (te_queue (m_entries m ! a)))"
    "entry_tickets tickets (m_entries m ! a) w' = entry_tickets tickets (m_entries m ! a) (m_world m)"
    "vc_inv tickets invar (te_queue (m_entries m ! a)) w'" if c: "map_of (m_channels m) c = Some a" for c a
  proof -
    let ?h = "vc_queue (te_queue (m_entries m ! a))"
    have h: "handle w' c = Some ?h" "tickets ?h w' = tickets ?h (m_world m)"
      using old [OF ne [OF c] D(3) [OF c]] by simp_all
    then show "a < ?a" "handle w' c = Some ?h"
      "entry_tickets tickets (m_entries m ! a) w' = entry_tickets tickets (m_entries m ! a) (m_world m)"
      "vc_inv tickets invar (te_queue (m_entries m ! a)) w'"
      using D(1,4) [OF c] handle_inv [OF wf' h(1)] by (simp_all add: entry_tickets_def vc_tickets_def vc_inv_def)
  qed
  show "entry_at m' ch = Some e" by (simp add: entry_at_def mc) (simp add: m'_def)
  then show "channel_queue tickets m' ch = entry_tickets tickets e w'"
    by (simp add: channel_queue_def) (simp add: m'_def)
  show "minv m'"
    unfolding man_inv_def
  proof (intro conjI allI impI)
    show "wfs (m_world m')" using wf' by (simp add: m'_def)
  next
    fix c a assume ca: "map_of (m_channels m') c = Some a"
    have k: "c \<noteq> ch \<Longrightarrow> map_of (m_channels m) c = Some a" using ca by (simp add: mc)
    have es: "m_entries m' = m_entries m @ [e]" by (simp add: m'_def)
    have n: "a < length (m_entries m')" "m_entries m' ! a = (if c = ch then e else m_entries m ! a)"
      unfolding es using ca keep(1) [OF k] by (cases "c = ch"; simp add: mc nth_append)+
    have w: "m_world m' = w'" by (simp add: m'_def)
    show "a < length (m_entries m')" by (rule n(1))
    show "handle (m_world m') c = Some (vc_queue (te_queue (m_entries m' ! a)))"
      using e(1) keep(2) [OF k] unfolding n(2) w by simp
    show "vc_inv tickets invar (te_queue (m_entries m' ! a)) (m_world m')"
      using e(2) keep(4) [OF k] unfolding n(2) w by simp
    show "entry_value tickets (m_entries m' ! a) (m_world m') \<le> max_supply"
      using e(3) keep(3) [OF k] D(5) [OF k] unfolding n(2) w by (simp add: entry_value_def)
  qed
  show "only_channel tickets ch m m'"
    unfolding only_channel_def
  proof (intro conjI allI impI)
    fix c assume c: "c \<noteq> ch"
    have es: "m_entries m' = m_entries m @ [e]" and w: "m_world m' = w'" by (simp_all add: m'_def)
    have "entry_at m' c = entry_at m c \<and> channel_queue tickets m' c = channel_queue tickets m c \<and>
      channel_value tickets m' c = channel_value tickets m c"
    proof (cases "map_of (m_channels m) c")
      case None
      with c show ?thesis by (simp add: channel_queue_def channel_value_def entry_at_def mc)
    next
      case (Some a)
      then show ?thesis
        using c keep(1,3) [OF Some] nth_append [of "m_entries m" "[e]" a]
        by (simp add: channel_queue_def channel_value_def entry_at_def entry_value_def mc es w)
    qed
    then show "entry_at m' c = entry_at m c" "channel_queue tickets m' c = channel_queue tickets m c"
      "channel_value tickets m' c = channel_value tickets m c" by blast+
  next
    fix c a assume "map_of (m_channels m) c = Some a"
    with ne [OF this] show "map_of (m_channels m') c = Some a" by (simp add: mc)
  qed
qed


lemma load_step:
  assumes inv: "minv m" and un: "map_of (m_channels m) (ch_id ch) = None"
    and qok: "queues_ok tickets handle (m_world m)" and np: "\<not> passed ch"
  shows "\<exists>popped m'. load_queues sops passed (ch # chs) neg m = load_queues sops passed chs (neg @ popped) m' \<and>
    minv m' \<and> only_channel tickets (ch_id ch) m m' \<and> queues_ok tickets handle (m_world m') \<and>
    entry_at m' (ch_id ch) \<noteq> None \<and>
    (\<forall>c. map_of (m_channels m') c = None \<longleftrightarrow> c \<noteq> ch_id ch \<and> map_of (m_channels m) c = None) \<and>
    channel_queue tickets m' (ch_id ch) = dropWhile (unredeemable ch) (stored tickets handle (m_world m) (ch_id ch)) \<and>
    (\<forall>c. c \<noteq> ch_id ch \<longrightarrow> handle (m_world m') c = handle (m_world m) c \<and>
      stored tickets handle (m_world m') c = stored tickets handle (m_world m) c)"
proof -
  let ?c = "ch_id ch" and ?w = "m_world m" and ?P = "unredeemable ch"
  have wfw: "wfs ?w" using inv by (simp add: man_inv_def)
  obtain oq w1 where o1: "s_open sops ?c ?w = (oq, w1)" by force
  from open_queue [OF wfw o1] obtain q where
    q: "oq = Inr q" "wfs w1" "handle w1 = (handle ?w)(?c \<mapsto> q)"
    "case handle ?w ?c of None \<Rightarrow> tickets q w1 = [] | Some q0 \<Rightarrow> q = q0"
    "\<forall>c0 q0. handle ?w c0 = Some q0 \<longrightarrow> tickets q0 w1 = tickets q0 ?w" by blast
  have h1: "handle w1 ?c = Some q" using q(3) by simp
  have ts: "tickets q w1 = stored tickets handle ?w ?c"
    using q(4,5) by (auto simp: stored_def split: option.splits)
  have iq: "invar q w1" using handle_inv [OF q(2) h1] .
  from pop_while_correct [OF iq, of ?P "[]"] obtain q2 w2 where
    pw: "pop_while qops ?P [] q w1 = Some (Inr (), takeWhile ?P (tickets q w1), q2, w2)"
    "invar q2 w2" "tickets q2 w2 = dropWhile ?P (tickets q w1)" by auto
  have fr: "q2 = q" "same q w1 w2" using plain_pop_while_frame [OF q(2) h1 pw(1)] by blast+
  have sub: "set (tickets q w2) \<subseteq> set (stored tickets handle ?w ?c)"
    "queue_value (tickets q w2) \<le> queue_value (stored tickets handle ?w ?c)"
    using pw(3) ts fr(1) queue_value_split [of ?P "tickets q w1"] by (auto dest: set_dropWhileD)
  have good: "single_epoch (stored tickets handle ?w ?c)" "queue_value (stored tickets handle ?w ?c) \<le> max_supply"
    using qok by (auto simp: queues_ok_def stored_def split: option.splits)
  have good2: "single_epoch (tickets q w2)" "queue_value (tickets q w2) \<le> max_supply"
    using single_epoch_subset [OF good(1) sub(1)] sub(2) good(2) by simp_all
  obtain vq where vq: "vc_new qops q w2 = Inr vq" "vc_queue vq = q" "vc_inv tickets invar vq w2"
    using vc_new_correct [of q w2] pw(2) fr(1) good2 supply_le_cap by blast
  have len: "q_len (vc_ops qops) vq w2 = Inr (length (tickets q w2))"
    using vc.len [OF vq(3)] vq(2) by (simp add: vc_tickets_def)
  define e where "e = entry_of_queue qops vq w2"
  define m' where "m' = \<lparr>m_channels = AList.update ?c (length (m_entries m)) (m_channels m),
      m_entries = m_entries m @ [e], m_world = w2\<rparr>"
  have e: "te_queue e = vq" "settled (te_stats e) = 0"
    by (simp_all add: e_def entry_of_queue_def stats_zero_def settled_def)
  have et: "entry_tickets tickets e w2 = tickets q w2"
    using vq(2) e(1) by (simp add: entry_tickets_def vc_tickets_def)
  have h2: "handle w2 = handle w1" "wfs w2" "p \<noteq> q \<Longrightarrow> tickets p w2 = tickets p w1" for p
    using fr(2) by (simp_all add: others_same_def)
  have run: "load_queues sops passed (ch # chs) neg m =
      load_queues sops passed chs (neg @ map rt_ticket (takeWhile ?P (tickets q w1))) m'"
    using np o1 q(1) pw(1) fr(1) vq(1) len by (simp add: m'_def e_def)
  have other: "handle w2 c = Some h \<and> tickets h w2 = tickets h ?w"
    if c: "c \<noteq> ?c" "handle ?w c = Some h" for c h
  proof -
    have hc: "handle w1 c = Some h" using q(3) c by simp
    have "h \<noteq> q" using handle_inj [OF q(2) hc, of ?c] h1 c(1) by auto
    with h2 hc q(5) c(2) show ?thesis by simp
  qed
  have A: "handle w2 ?c = Some (vc_queue (te_queue e))" "vc_inv tickets invar (te_queue e) w2"
    "entry_value tickets e w2 \<le> max_supply"
    using h1 h2(1) vq e good2 et by (simp_all add: entry_value_def)
  note add = add_entry_inv [OF inv un h2(2) other A, folded m'_def]
  have hn: "handle w2 c = handle ?w c" if "c \<noteq> ?c" for c
    using h2(1) q(3) that by simp
  have st: "stored tickets handle w2 c = stored tickets handle ?w c" if "c \<noteq> ?c" for c
    using other [OF that] hn [OF that] by (auto simp: stored_def split: option.splits)
  have "queues_ok tickets handle w2"
    unfolding queues_ok_def
  proof (intro allI impI)
    fix c h assume h: "handle w2 c = Some h"
    show "single_epoch (tickets h w2) \<and> queue_value (tickets h w2) \<le> max_supply"
    proof (cases "c = ?c")
      case True
      with h h1 h2(1) good2 show ?thesis by simp
    next
      case False
      with h hn other [OF False] qok show ?thesis by (simp add: queues_ok_def)
    qed
  qed
  moreover have "map_of (m_channels m') c = None \<longleftrightarrow> c \<noteq> ?c \<and> map_of (m_channels m) c = None" for c
    by (simp add: m'_def update_conv')
  moreover have "m_world m' = w2" by (simp add: m'_def)
  ultimately show ?thesis
    using run add et pw(3) ts fr(1) hn st
    by (intro exI [of _ "map rt_ticket (takeWhile ?P (tickets q w1))"] exI [of _ m']) simp
qed

lemma load_queues_ok:
  assumes "minv m" "queues_ok tickets handle (m_world m)"
    and "distinct (map ch_id (filter (\<lambda>ch. \<not> passed ch) chs))"
    and "\<forall>ch\<in>set chs. \<not> passed ch \<longrightarrow> map_of (m_channels m) (ch_id ch) = None"
  shows "\<exists>neg' m'. load_queues sops passed chs neg m = Some (Inr neg', m') \<and> minv m' \<and>
    (\<forall>ch\<in>set chs. \<not> passed ch \<longrightarrow> entry_at m' (ch_id ch) \<noteq> None \<and>
      channel_queue tickets m' (ch_id ch) =
        dropWhile (unredeemable ch) (stored tickets handle (m_world m) (ch_id ch))) \<and>
    (\<forall>c. \<not> listed passed chs c \<longrightarrow> channel_queue tickets m' c = channel_queue tickets m c \<and>
      entry_at m' c = entry_at m c \<and> handle (m_world m') c = handle (m_world m) c)"
  using assms
proof (induction chs arbitrary: neg m)
  case Nil
  then show ?case by (auto simp: listed_def)
next
  case (Cons ch chs)
  show ?case
  proof (cases "passed ch")
    case True
    then have f: "load_queues sops passed (ch # chs) neg m = load_queues sops passed chs neg m"
      "listed passed (ch # chs) c = listed passed chs c" for c by (simp_all add: listed_def)
    from Cons.IH [of m neg] Cons.prems True show ?thesis unfolding f by simp
  next
    case False
    from load_step [of m ch passed chs neg] Cons.prems False obtain popped m1 where
      m1: "load_queues sops passed (ch # chs) neg m = load_queues sops passed chs (neg @ popped) m1"
      "minv m1" "only_channel tickets (ch_id ch) m m1" "queues_ok tickets handle (m_world m1)"
      "entry_at m1 (ch_id ch) \<noteq> None"
      "\<forall>c. map_of (m_channels m1) c = None \<longleftrightarrow> c \<noteq> ch_id ch \<and> map_of (m_channels m) c = None"
      "channel_queue tickets m1 (ch_id ch) = dropWhile (unredeemable ch) (stored tickets handle (m_world m) (ch_id ch))"
      "\<forall>c. c \<noteq> ch_id ch \<longrightarrow> handle (m_world m1) c = handle (m_world m) c \<and>
        stored tickets handle (m_world m1) c = stored tickets handle (m_world m) c" by auto
    have later: "ch_id c \<noteq> ch_id ch" if "c \<in> set chs" "\<not> passed c" for c
    proof -
      have "ch_id c \<in> ch_id ` {x \<in> set chs. \<not> passed x}" using that by blast
      with Cons.prems(3) False show ?thesis by auto
    qed
    have "\<forall>c\<in>set chs. \<not> passed c \<longrightarrow> map_of (m_channels m1) (ch_id c) = None"
      using m1(6) later Cons.prems(4) by simp
    moreover have "distinct (map ch_id (filter (\<lambda>ch. \<not> passed ch) chs))"
      using Cons.prems(3) False by simp
    ultimately obtain neg' m' where
      m': "load_queues sops passed chs (neg @ popped) m1 = Some (Inr neg', m')" "minv m'"
      "\<forall>ch\<in>set chs. \<not> passed ch \<longrightarrow> entry_at m' (ch_id ch) \<noteq> None \<and>
        channel_queue tickets m' (ch_id ch) =
          dropWhile (unredeemable ch) (stored tickets handle (m_world m1) (ch_id ch))"
      "\<forall>c. \<not> listed passed chs c \<longrightarrow> channel_queue tickets m' c = channel_queue tickets m1 c \<and>
        entry_at m' c = entry_at m1 c \<and> handle (m_world m') c = handle (m_world m1) c"
      using Cons.IH [of m1 "neg @ popped"] m1(2,4) by blast
    have nl: "\<not> listed passed chs (ch_id ch)" using later by (auto simp: listed_def list_ex_iff)
    have l: "listed passed (ch # chs) c \<longleftrightarrow> c = ch_id ch \<or> listed passed chs c" for c
      using False by (auto simp: listed_def)
    have oc: "channel_queue tickets m1 c = channel_queue tickets m c \<and> entry_at m1 c = entry_at m c"
      if "c \<noteq> ch_id ch" for c using m1(3) that by (simp add: only_channel_def)
    show ?thesis
      using m'(1,2) m1(1)
      by (intro exI [of _ neg'] exI [of _ m'])
        (use m'(3,4) m1(5,7,8) nl l later oc False in auto)
  qed
qed

text \<open>
  Synchronisation of a fresh manager with the incoming channels: the queues of channels
  that are closed or unknown are deleted, and the manager has one entry for every other
  channel, with the stored tickets less those that can no longer be redeemed.
\<close>

lemma sync_incoming_ok:
  assumes "wfs w" "queues_ok tickets handle w"
    and "distinct (map ch_id (filter (\<lambda>ch. \<not> passed ch) (remdups chs)))"
  shows "\<exists>neg m. (sync_from_incoming_channels sops passed chs (manager_new w) ::
      ((('e, 'c) tm_error + _) \<times> _) option) = Some (Inr neg, m) \<and> minv m \<and>
    (\<forall>ch\<in>set chs. \<not> passed ch \<longrightarrow> entry_at m (ch_id ch) \<noteq> None \<and>
      channel_queue tickets m (ch_id ch) =
        dropWhile (unredeemable ch) (stored tickets handle w (ch_id ch))) \<and>
    (\<forall>c. \<not> listed passed chs c \<longrightarrow> entry_at m c = None \<and> handle (m_world m) c = None)"
proof -
  let ?chs = "remdups chs"
  from iter_queues [OF assms(1)] obtain cs where cs: "s_iter_queues sops w = Inr cs" "set cs = dom (handle w)" by blast
  from purge_queues_ok [OF assms(1), of passed ?chs cs "[]"] assms(2) obtain neg1 w1 where
    p: "purge_queues sops passed ?chs cs [] (manager_new w) = Some (Inr neg1, manager_new w1)" "wfs w1"
    "\<forall>c. stored tickets handle w1 c = (if c \<in> set cs \<and> \<not> listed passed ?chs c then []
      else stored tickets handle w c)"
    "\<forall>c. handle w1 c = (if c \<in> set cs \<and> \<not> listed passed ?chs c then None else handle w c)"
    "queues_ok tickets handle w1" by blast
  have new: "minv (manager_new w1)" "queues_ok tickets handle (m_world (manager_new w1))"
    "\<forall>ch\<in>set ?chs. \<not> passed ch \<longrightarrow> map_of (m_channels (manager_new w1)) (ch_id ch) = None"
    using p(2,5) by (simp_all add: man_inv_def manager_new_def)
  from load_queues_ok [OF new(1,2) assms(3) new(3), of neg1] obtain neg' m where
    m: "load_queues sops passed ?chs neg1 (manager_new w1) = Some (Inr neg', m)" "minv m"
    "\<forall>ch\<in>set ?chs. \<not> passed ch \<longrightarrow> entry_at m (ch_id ch) \<noteq> None \<and>
      channel_queue tickets m (ch_id ch) =
        dropWhile (unredeemable ch) (stored tickets handle w1 (ch_id ch))"
    "\<forall>c. \<not> listed passed ?chs c \<longrightarrow> entry_at m c = None \<and> handle (m_world m) c = handle w1 c"
    unfolding manager_new_simps by blast
  have l: "listed passed ?chs c = listed passed chs c" for c by (simp add: listed_def list_ex_iff)
  have run: "(sync_from_incoming_channels sops passed chs (manager_new w) ::
      ((('e, 'c) tm_error + _) \<times> _) option) = Some (Inr neg', m)"
    using cs(1) p(1) m(1) by (simp add: sync_from_incoming_channels_def Let_def)
  have a: "entry_at m (ch_id ch) \<noteq> None \<and>
      channel_queue tickets m (ch_id ch) = dropWhile (unredeemable ch) (stored tickets handle w (ch_id ch))"
    if "ch \<in> set chs" "\<not> passed ch" for ch
  proof -
    have "listed passed ?chs (ch_id ch)" using that by (auto simp: listed_def list_ex_iff)
    with m(3) p(3) that show ?thesis by simp
  qed
  have b: "entry_at m c = None \<and> handle (m_world m) c = None" if "\<not> listed passed chs c" for c
    using m(4) p(4) cs(2) that by (auto simp: l)
  show ?thesis using run m(2) a b by blast
qed

end

section \<open>Properties\<close>


definition sample_tracker :: index_cache where
  "sample_tracker = \<lparr>ic_cache = [((1, 3), \<lparr>ie_index = 9, ie_dirty = True\<rparr>)], ic_removed = []\<rparr>"


text \<open>
  Synchronising the outgoing channels with the database succeeds, keeps exactly the
  stored indices of open channels at their current epoch, and raises each counter to the
  largest of its value, the stored index and the index on chain.
\<close>

theorem sync_outgoing_exact:
  assumes "\<not> rd_fault w"
    and "(sync_from_outgoing_channels redb_index_ops mx chs tr w :: ((redb_error, 'c) tm_error + unit) \<times> _)
      = (r, tr', w')"
  shows "r = Inr () \<and>
    map_of (rd_out w') k = (if open_at (remdups chs) k then map_of (rd_out w) k else None) \<and>
    counter tr' k = synced (map_of (rd_out w')) (remdups chs) k (counter tr k)"
  using redb_index.sync_outgoing_ok [OF assms] by simp

theorem sync_outgoing_exact_witness:
  "\<exists>tr' w'. (sync_from_outgoing_channels redb_index_ops 1000 [sample_channel 3 5] ic_empty
      ((redb_new :: nat redb)\<lparr>rd_out := [((1, 3), 9), ((1, 2), 4)]\<rparr>) :: ((redb_error, nat) tm_error + unit) \<times> _)
      = (Inr (), tr', w') \<and> map_of (rd_out w') (1, 2) = None"
proof -
  let ?w = "(redb_new :: nat redb)\<lparr>rd_out := [((1, 3), 9), ((1, 2), 4)]\<rparr>"
  have f: "\<not> rd_fault ?w" by (simp add: redb_new_def)
  obtain r tr' w' where y: "(sync_from_outgoing_channels redb_index_ops 1000 [sample_channel 3 5] ic_empty ?w ::
      ((redb_error, nat) tm_error + unit) \<times> _) = (r, tr', w')" by (metis prod_cases3)
  from sync_outgoing_exact [OF f y, of "(1, 2)"] y show ?thesis
    by (simp add: open_at_def sample_channel_def)
qed

text \<open>
  Building a multihop ticket. A ticket is built only on an open channel that can cover
  it, past the last hop, with the amount the price, the hops left and the winning
  probability give; its index is the next index of the channel, at least the index on
  chain. When no ticket is built no index is consumed.
\<close>

theorem multihop_ticket_correct:
  assumes "new_multihop_ticket div_prob mx ch pos prob price tr = (r, tr')"
    and "unat (max (counter tr (channel_key ch)) (ch_ticket_index ch)) + 1 < 2 ^ 64" "ch_ticket_index ch \<le> mx"
  shows "case r of
      Inl err \<Rightarrow> tr' = tr \<and>
        (pos = 1 \<or> ch_status ch \<noteq> Open \<or> ticket_amount div_prob price pos prob = None \<or>
         (\<exists>a. ticket_amount div_prob price pos prob = Some a \<and> ch_balance ch < a \<and> err = OutOfFunds (ch_id ch) a))
    | Inr b \<Rightarrow> pos \<noteq> 1 \<and> ch_status ch = Open \<and> ticket_amount div_prob price pos prob = Some (tb_amount b) \<and>
        tb_amount b \<le> ch_balance ch \<and> tb_channel_epoch b = ch_epoch ch \<and> tb_counterparty b = ch_destination ch \<and>
        tb_index b = min (max (counter tr (channel_key ch)) (ch_ticket_index ch)) mx \<and>
        ch_ticket_index ch \<le> tb_index b \<and>
        counter tr' (channel_key ch) = max (counter tr (channel_key ch)) (ch_ticket_index ch) + 1"
proof (cases r)
  case (Inl err)
  then show ?thesis
    using assms(1) new_multihop_ticket_err [of div_prob mx ch pos prob price tr err tr']
    by (auto simp: new_multihop_ticket_def split: if_splits option.splits prod.splits)
next
  case (Inr b)
  note ok = new_multihop_ticket_ok [OF assms(1) [unfolded Inr]]
  note n = next_outgoing_eq(1,2) [OF assms(2) ok(5)]
  then have "ch_ticket_index ch \<le> tb_index b" using assms(3) by simp
  with Inr ok(1-4,6,7) n show ?thesis by simp
qed

theorem multihop_ticket_correct_witness:
  "\<exists>b tr'. (new_multihop_ticket (\<lambda>a p. Some a) 1000 (sample_channel 3 5) 3 () 20 sample_tracker ::
      ((nat, nat) tm_error + _) \<times> _) = (Inr b, tr') \<and> tb_index b = 9 \<and> tb_amount b = 40"
proof -
  obtain r tr' where p: "(new_multihop_ticket (\<lambda>a p. Some a) 1000 (sample_channel 3 5) 3 () 20 sample_tracker ::
      ((nat, nat) tm_error + _) \<times> _) = (r, tr')" by force
  have c: "counter sample_tracker (1, 3) = 9"
    by (simp add: sample_tracker_def counter_def ic_lookup_def)
  have "r \<noteq> Inl err" for err
    using p by (auto simp: new_multihop_ticket_def sample_channel_def ticket_amount_def sat_mul_def
        split: prod.splits)
  then obtain b where b: "r = Inr b" by (cases r) auto
  from multihop_ticket_correct [OF p] b p c show ?thesis
    by (simp add: sample_channel_def ticket_amount_def sat_mul_def)
qed

text \<open>
  The stake a relay believes an incoming channel to have. With a manager attached it is
  the balance less the value of every ticket queued on the channel (zero when they exceed
  it), at every moment of every run; for a channel without tickets, and without a manager,
  it is the balance.
\<close>

theorem remaining_stake_exact:
  assumes "natural_order le" "mem_wf w"
    and "all_enabled (mem_store_ops le :: 'e mem_ops) mx mem_tickets mem_room mem_handle
      (as :: 'c action list) (sys_new w)"
    and "sys_run (mem_store_ops le :: 'e mem_ops) mx as (sys_new w) = Some s'"
  shows "(\<exists>v. (remaining_incoming_channel_stake (Some (unrealized_value (mem_store_ops le) (sy_man s'))) ch ::
        ('e, 'c) tm_error + balance) = Inr v \<and>
      unat v = unat (ch_balance ch) - queue_value (channel_queue mem_tickets (sy_man s') (ch_id ch))) \<and>
    (remaining_incoming_channel_stake None ch :: ('e, 'c) tm_error + balance) = Inr (ch_balance ch)"
proof (intro conjI)
  note st = natural_order.mem_store_provider [OF assms(1)]
  have inv: "sys_inv mem_tickets mem_inv mem_handle mem_wf s'"
    using ticket_store.sys_run_from_new [OF st assms(2,3)] assms(4) by fastforce
  note m = ticket_store.sys_invD(1) [OF st inv]
  show "\<exists>v. (remaining_incoming_channel_stake (Some (unrealized_value (mem_store_ops le) (sy_man s'))) ch ::
        ('e, 'c) tm_error + balance) = Inr v \<and>
      unat v = unat (ch_balance ch) - queue_value (channel_queue mem_tickets (sy_man s') (ch_id ch))"
  proof (cases "map_of (m_channels (sy_man s')) (ch_id ch)")
    case None
    then show ?thesis
      by (simp add: remaining_incoming_channel_stake_def unrealized_value_def channel_queue_def entry_at_def)
  next
    case (Some a)
    from ticket_store.unrealized_value_exact [OF st m Some] obtain v where
      "(unrealized_value (mem_store_ops le) (sy_man s') (ch_id ch) None :: ('e, 'c) tm_error + _) = Inr (Some v)"
      "unat v = queue_value (channel_queue mem_tickets (sy_man s') (ch_id ch))" by blast
    then show ?thesis by (simp add: remaining_incoming_channel_stake_def sat_simps)
  qed
  show "(remaining_incoming_channel_stake None ch :: ('e, 'c) tm_error + balance) = Inr (ch_balance ch)"
    by (simp add: remaining_incoming_channel_stake_def)
qed

theorem remaining_stake_exact_witness:
  "\<exists>s'. sys_run (mem_store_ops ticket_le :: nat mem_ops) 1000 sample_actions (sys_new mem_empty) = Some s' \<and>
    (\<exists>v. (remaining_incoming_channel_stake (Some (unrealized_value (mem_store_ops ticket_le) (sy_man s')))
        (sample_channel 1 0) :: (nat, nat) tm_error + balance) = Inr v \<and>
      unat v = 100 - queue_value (channel_queue mem_tickets (sy_man s') 1))"
proof -
  obtain s' where r: "sys_run (mem_store_ops ticket_le :: nat mem_ops) 1000 sample_actions (sys_new mem_empty) = Some s'"
    using ticket_store.sys_run_from_new [OF ticket_le.mem_store_provider mem_wf_empty sample_enabled] by blast
  from remaining_stake_exact [OF ticket_le.natural_order_axioms mem_wf_empty sample_enabled r,
      of "sample_channel 1 0"] r
  show ?thesis by (simp add: sample_channel_def)
qed

text \<open>
  C8. Start-up of the manager over the database. Synchronisation with the incoming channels
  succeeds from any well-formed store (whose queues hold one epoch each); the manager then
  has exactly one entry per channel that is not closed, holding the stored tickets of that
  channel without the leading ones that cannot be redeemed any more, its unrealized value
  is exact, and the queues of closed and unknown channels are gone from the store.
\<close>

theorem startup_synchronised:
  assumes "postcard ser de" "redb_wf de w" "queues_ok (redb_tickets de) redb_handle w"
    and "distinct (map ch_id (filter (\<lambda>ch. \<not> passed ch) (remdups chs)))"
  shows "\<exists>neg m. (sync_from_incoming_channels (redb_store_ops ser de) passed chs (manager_new w) ::
      (((redb_error, 'c) tm_error + _) \<times> _) option) = Some (Inr neg, m) \<and>
    (\<forall>ch\<in>set chs. \<not> passed ch \<longrightarrow>
      channel_queue (redb_tickets de) m (ch_id ch) = dropWhile (unredeemable ch) (redb_tickets de (ch_id ch) w) \<and>
      (\<exists>v. (unrealized_value (redb_store_ops ser de) m (ch_id ch) None :: (redb_error, 'c) tm_error + _) = Inr (Some v) \<and>
        unat v = queue_value (channel_queue (redb_tickets de) m (ch_id ch)))) \<and>
    (\<forall>c. \<not> listed passed chs c \<longrightarrow> entry_at m c = None \<and> map_of (rd_tables (m_world m)) c = None)"
proof -
  note st = postcard.redb_store_provider [OF assms(1)]
  have sto: "stored (redb_tickets de) redb_handle w c = redb_tickets de c w" for c
    by (cases "map_of (rd_tables w) c") (simp_all add: stored_def redb_handle_def redb_tickets_def)
  have h: "redb_handle w' c = None \<longleftrightarrow> map_of (rd_tables w') c = None" for w' :: "'a redb" and c
    by (simp add: redb_handle_def)
  from ticket_store.sync_incoming_ok [OF st assms(2-4), where 'c = 'c] obtain neg m where
    m: "(sync_from_incoming_channels (redb_store_ops ser de) passed chs (manager_new w) ::
      (((redb_error, 'c) tm_error + _) \<times> _) option) = Some (Inr neg, m)"
    "man_inv (redb_tickets de) (redb_inv de) redb_handle (redb_wf de) m"
    "\<forall>ch\<in>set chs. \<not> passed ch \<longrightarrow> entry_at m (ch_id ch) \<noteq> None \<and>
      channel_queue (redb_tickets de) m (ch_id ch) =
        dropWhile (unredeemable ch) (stored (redb_tickets de) redb_handle w (ch_id ch))"
    "\<forall>c. \<not> listed passed chs c \<longrightarrow> entry_at m c = None \<and> redb_handle (m_world m) c = None" by blast
  have v: "\<exists>v. (unrealized_value (redb_store_ops ser de) m c None :: (redb_error, 'c) tm_error + _) = Inr (Some v) \<and>
        unat v = queue_value (channel_queue (redb_tickets de) m c)" if "entry_at m c \<noteq> None" for c
    using that ticket_store.unrealized_value_exact [OF st m(2)] by (auto simp: entry_at_def)
  show ?thesis
  proof (intro exI [of _ neg] exI [of _ m] conjI ballI impI allI)
    show "(sync_from_incoming_channels (redb_store_ops ser de) passed chs (manager_new w) ::
      (((redb_error, 'c) tm_error + _) \<times> _) option) = Some (Inr neg, m)" by (rule m(1))
  next
    fix ch assume "ch \<in> set chs" "\<not> passed ch"
    with m(3) have e: "entry_at m (ch_id ch) \<noteq> None" and q: "channel_queue (redb_tickets de) m (ch_id ch) =
        dropWhile (unredeemable ch) (stored (redb_tickets de) redb_handle w (ch_id ch))" by blast+
    show "channel_queue (redb_tickets de) m (ch_id ch) = dropWhile (unredeemable ch) (redb_tickets de (ch_id ch) w)"
      using q unfolding sto .
    show "\<exists>v. (unrealized_value (redb_store_ops ser de) m (ch_id ch) None :: (redb_error, 'c) tm_error + _) =
        Inr (Some v) \<and> unat v = queue_value (channel_queue (redb_tickets de) m (ch_id ch))"
      by (rule v [OF e])
  next
    fix c assume "\<not> listed passed chs c"
    with m(4) show "entry_at m c = None" "map_of (rd_tables (m_world m)) c = None" by (auto simp: h)
  qed
qed

theorem startup_synchronised_witness:
  "\<exists>neg m. (sync_from_incoming_channels (redb_store_ops Some Some) (\<lambda>ch. ch_status ch = Closed)
        [sample_channel 1 4] (manager_new (commit_table 1
          (table_insert (make_index (sample_ticket 1 8 7)) (sample_ticket 1 8 7)
             [(make_index (sample_ticket 1 3 10), sample_ticket 1 3 10)]) redb_new)) ::
      (((redb_error, nat) tm_error + _) \<times> _) option) = Some (Inr neg, m) \<and>
    channel_queue (redb_tickets Some) m 1 = [sample_ticket 1 8 7]"
proof -
  let ?tbl = "table_insert (make_index (sample_ticket 1 8 7)) (sample_ticket 1 8 7)
      [(make_index (sample_ticket 1 3 10), sample_ticket 1 3 10)]"
  let ?w = "commit_table 1 ?tbl redb_new"
  have k: "tkey (sample_ticket 1 8 7) \<noteq> tkey (sample_ticket 1 3 10)"
    "tkey (sample_ticket 1 3 10) < tkey (sample_ticket 1 8 7)" by (simp_all add: sample_ticket_def tkey_def)
  have ok: "table_ok Some [(make_index (sample_ticket 1 3 10), sample_ticket 1 3 10)]"
    by (simp add: entry_ok_def)
  have tt: "table_tickets Some [(make_index (sample_ticket 1 3 10), sample_ticket 1 3 10)] = [sample_ticket 1 3 10]"
    by (simp add: entry_ok_def)
  have "tkey (sample_ticket 1 8 7) \<notin> tkey ` set (table_tickets Some
      [(make_index (sample_ticket 1 3 10), sample_ticket 1 3 10)])" using k unfolding tt by simp
  note ins = table_insert_ok [OF ok _ this, of "sample_ticket 1 8 7", OF refl, unfolded tt]
  have insort: "insort_key tkey (sample_ticket 1 8 7) [sample_ticket 1 3 10] =
      [sample_ticket 1 3 10, sample_ticket 1 8 7]" using k by simp
  have ti: "table_ok Some ?tbl" "table_tickets Some ?tbl = [sample_ticket 1 3 10, sample_ticket 1 8 7]"
    using ins insort by (blast, metis)
  have wf: "redb_wf Some ?w" using redb_wf_commit [OF redb_wf_new ti(1)] .
  have ts: "redb_tickets Some 1 ?w = [sample_ticket 1 3 10, sample_ticket 1 8 7]"
    using ti(2) by (simp add: redb_tickets_def del: table_insert.simps)
  have q: "queues_ok (redb_tickets Some) redb_handle ?w"
    using ts by (auto simp: queues_ok_def redb_handle_iff redb_new_def sample_ticket_def max_supply_def
        simp del: table_insert.simps split: if_splits)
  have d: "distinct (map ch_id (filter (\<lambda>ch. \<not> ch_status ch = Closed) (remdups [sample_channel 1 4])))"
    by (simp add: sample_channel_def)
  from startup_synchronised [OF self_postcard.postcard_axioms wf q d, where 'c = nat]
  show ?thesis using ts
    by (auto simp: sample_channel_def unredeemable_def sample_ticket_def simp del: table_insert.simps)
qed

text \<open>
  A second ticket with the epoch and index of a queued one makes the cached value drift
  over the database: the table replaces the entry, the cache adds the value. The channel
  then reports more than it holds until it is reloaded.
\<close>

theorem duplicate_index_overcounts:
  "\<exists>q w. vc_push (redb_queue_ops Some Some) (sample_ticket 1 3 7)
        (fst (snd (vc_push (redb_queue_ops Some Some) (sample_ticket 1 3 10)
           \<lparr>vc_queue = 1, vc_cache = Map.empty, vc_epoch = None\<rparr> (commit_table 1 [] redb_new))))
        (snd (snd (vc_push (redb_queue_ops Some Some) (sample_ticket 1 3 10)
           \<lparr>vc_queue = 1, vc_cache = Map.empty, vc_epoch = None\<rparr> (commit_table 1 [] redb_new)))) = (Inr (), q, w) \<and>
      redb_tickets Some 1 w = [sample_ticket 1 3 7] \<and> cached_unrealized_value q = 17"
  by (simp add: vc_push_def Let_def redb_queue_ops_def redb_push_def write_table_def redb_new_def commit_table_def
      cached_unrealized_value_def cache_get_def cache_add_def sat_add_def sample_ticket_def make_index_def
      redb_tickets_def table_tickets_def List.map_filter_simps)

text \<open>
  The key of the database tables orders tickets by epoch and then index and identifies
  them: it is the epoch shifted by 64 bits plus the index, without overflow.
\<close>

theorem make_index_natural:
  "unat (make_index t) = unat (epoch_of t) * 2 ^ 64 + unat (index_of t) \<and>
   (make_index s < make_index t \<longleftrightarrow>
      epoch_of s < epoch_of t \<or> epoch_of s = epoch_of t \<and> index_of s < index_of t) \<and>
   (make_index s = make_index t \<longleftrightarrow> epoch_of s = epoch_of t \<and> index_of s = index_of t)"
  unfolding make_index_less_iff make_index_eq_iff tkey_less_iff tkey_eq_iff unat_make_index
  by (simp add: tkey_def)



end
