(* ===== verification/Rust_Text.thy ===== *)
theory Rust_Text
  imports Hopr_Base "HOL-Library.Sublist"
begin

text \<open>
  The part of Rust's string library the crates use, over byte strings: a \<open>str\<close> is the list
  of its UTF-8 bytes. ASCII case folding, trimming, splitting at a character, the decimal
  form of an integer and its parser (\<open>str::parse\<close> of an unsigned type, with its three
  errors), and dotted IPv4 literals. \<open>text_simps\<close> collects the round trips.
\<close>

named_theorems text_simps \<open>text helpers and their inverses\<close>

section \<open>Characters\<close>

definition is_digit :: "char \<Rightarrow> bool" where
  "is_digit c \<longleftrightarrow> 48 \<le> (of_char c :: nat) \<and> (of_char c :: nat) \<le> 57"

definition is_alpha :: "char \<Rightarrow> bool" where
  "is_alpha c \<longleftrightarrow> 65 \<le> (of_char c :: nat) \<and> (of_char c :: nat) \<le> 90
      \<or> 97 \<le> (of_char c :: nat) \<and> (of_char c :: nat) \<le> 122"

definition to_lower :: "char \<Rightarrow> char" where
  "to_lower c = (if 65 \<le> (of_char c :: nat) \<and> (of_char c :: nat) \<le> 90
                 then char_of ((of_char c :: nat) + 32) else c)"

definition lower :: "string \<Rightarrow> string" where
  "lower s = map to_lower s"

definition eq_ignore_case :: "string \<Rightarrow> string \<Rightarrow> bool" where
  "eq_ignore_case s t \<longleftrightarrow> lower s = lower t"

lemma of_char_less: "(of_char c :: nat) < 256"
  using of_char_mod_256 [of c, where 'a = nat] by (metis mod_less_divisor zero_less_numeral)

lemma of_char_char_of_small: "n < 256 \<Longrightarrow> (of_char (char_of n) :: nat) = n"
  by simp

lemma to_lower_idem [simp]: "to_lower (to_lower c) = to_lower c"
  by (auto simp: to_lower_def)

lemma lower_idem [simp]: "lower (lower s) = lower s"
  by (simp add: lower_def comp_def)

lemma lower_Nil [simp]: "lower [] = []" and lower_Cons [simp]: "lower (c # s) = to_lower c # lower s"
  and lower_append [simp]: "lower (s @ t) = lower s @ lower t" and length_lower [simp]: "length (lower s) = length s"
  and lower_eq_Nil [simp]: "lower s = [] \<longleftrightarrow> s = []"
  by (simp_all add: lower_def)

lemma to_lower_eq_iff:
  assumes "\<not> is_alpha d"
  shows "to_lower c = d \<longleftrightarrow> c = d"
proof
  assume h: "to_lower c = d"
  show "c = d"
  proof (cases "65 \<le> (of_char c :: nat) \<and> (of_char c :: nat) \<le> 90")
    case True
    then have "(of_char d :: nat) = of_char c + 32"
      using h by (auto simp: to_lower_def)
    with True assms show ?thesis by (simp add: is_alpha_def)
  next
    case False
    with h show ?thesis by (auto simp: to_lower_def)
  qed
next
  assume "c = d"
  with assms show "to_lower c = d" by (auto simp: to_lower_def is_alpha_def)
qed

lemma to_lower_dot [simp]: "to_lower c = CHR ''.'' \<longleftrightarrow> c = CHR ''.''"
  by (rule to_lower_eq_iff) (simp add: is_alpha_def)

lemma is_alpha_to_lower [simp]: "is_alpha (to_lower c) \<longleftrightarrow> is_alpha c"
  by (auto simp: to_lower_def is_alpha_def)

lemma is_digit_to_lower [simp]: "is_digit (to_lower c) \<longleftrightarrow> is_digit c"
  by (auto simp: to_lower_def is_digit_def)

section \<open>Slicing\<close>

text \<open>\<open>strip_prefix\<close> and \<open>strip_suffix\<close>.\<close>

definition strip_pre :: "string \<Rightarrow> string \<Rightarrow> string option" where
  "strip_pre p s = (if prefix p s then Some (drop (length p) s) else None)"

definition strip_suf :: "char \<Rightarrow> string \<Rightarrow> string option" where
  "strip_suf c s = (if s \<noteq> [] \<and> last s = c then Some (butlast s) else None)"

text \<open>\<open>split_once\<close> at the first and \<open>rsplit_once\<close> at the last occurrence.\<close>

fun split_once :: "char \<Rightarrow> string \<Rightarrow> (string \<times> string) option" where
  "split_once c [] = None"
| "split_once c (d # s) = (if d = c then Some ([], s)
     else map_option (\<lambda>(a, b). (d # a, b)) (split_once c s))"

definition rsplit_once :: "char \<Rightarrow> string \<Rightarrow> (string \<times> string) option" where
  "rsplit_once c s = map_option (\<lambda>(a, b). (rev b, rev a)) (split_once c (rev s))"

text \<open>\<open>split(c)\<close>: never empty.\<close>

fun split_on :: "char \<Rightarrow> string \<Rightarrow> string list" where
  "split_on c [] = [[]]"
| "split_on c (d # s) = (if d = c then [] # split_on c s
     else (case split_on c s of w # ws \<Rightarrow> (d # w) # ws | [] \<Rightarrow> [[d]]))"

fun join_with :: "char \<Rightarrow> string list \<Rightarrow> string" where
  "join_with c [] = []"
| "join_with c [w] = w"
| "join_with c (w # v # ws) = w @ c # join_with c (v # ws)"

lemma split_once_append [text_simps]: "c \<notin> set a \<Longrightarrow> split_once c (a @ c # b) = Some (a, b)"
  by (induction a) auto

lemma split_once_Some: "split_once c s = Some (a, b) \<Longrightarrow> s = a @ c # b \<and> c \<notin> set a"
  by (induction s arbitrary: a) (auto split: if_splits)

lemma rsplit_once_append [text_simps]: "c \<notin> set b \<Longrightarrow> rsplit_once c (a @ c # b) = Some (a, b)"
  by (simp add: rsplit_once_def split_once_append)

lemma rsplit_once_Some: "rsplit_once c s = Some (a, b) \<Longrightarrow> s = a @ c # b \<and> c \<notin> set b"
  by (auto simp: rsplit_once_def dest!: split_once_Some) (metis append.assoc append_Cons append_Nil rev_append rev.simps(2) rev_rev_ident)

lemma split_on_not_Nil [simp]: "split_on c s \<noteq> []"
  by (cases s) (auto split: list.splits)

lemma split_on_no_sep: "w \<in> set (split_on c s) \<Longrightarrow> c \<notin> set w"
proof (induction s arbitrary: w)
  case (Cons d s)
  then show ?case by (cases "split_on c s") (auto split: if_splits)
qed simp

lemma split_on_append [text_simps]: "c \<notin> set w \<Longrightarrow> split_on c (w @ c # s) = w # split_on c s"
  by (induction w) auto

lemma split_on_single [text_simps]: "c \<notin> set w \<Longrightarrow> split_on c w = [w]"
  by (induction w) auto

lemma join_split_on [simp]: "join_with c (split_on c s) = s"
proof (induction s)
  case (Cons d s)
  obtain w ws where "split_on c s = w # ws" by (cases "split_on c s") auto
  with Cons show ?case by (cases ws) auto
qed simp

lemma split_join [text_simps]:
  "ws \<noteq> [] \<Longrightarrow> (\<And>w. w \<in> set ws \<Longrightarrow> c \<notin> set w) \<Longrightarrow> split_on c (join_with c ws) = ws"
  by (induction c ws rule: join_with.induct) (auto simp: text_simps)

lemma strip_pre_append [simp]: "strip_pre p (p @ s) = Some s"
  by (simp add: strip_pre_def)

lemma strip_suf_snoc [simp]: "strip_suf c (s @ [d]) = (if d = c then Some s else None)"
  by (simp add: strip_suf_def)

section \<open>Trimming\<close>

text \<open>
  \<open>str::trim\<close> drops the characters with the Unicode property \<open>White_Space\<close>; \<open>spaces\<close>
  lists their UTF-8 forms. On valid UTF-8 no form is a proper prefix or suffix of another
  character, so dropping forms byte-wise is dropping characters.
\<close>

definition bytes :: "nat list \<Rightarrow> string" where
  "bytes ns = map char_of ns"

definition spaces :: "string list" where
  "spaces = map (\<lambda>n. bytes [n]) [9, 10, 11, 12, 13, 32]
     @ [bytes [194, 133], bytes [194, 160], bytes [225, 154, 128]]
     @ map (\<lambda>n. bytes [226, 128, n]) [128, 129, 130, 131, 132, 133, 134, 135, 136, 137, 138, 168, 169, 175]
     @ [bytes [226, 129, 159], bytes [227, 128, 128]]"

function drop_forms :: "string list \<Rightarrow> string \<Rightarrow> string" where
  "drop_forms fs s = (case List.find (\<lambda>f. f \<noteq> [] \<and> prefix f s) fs of
     Some f \<Rightarrow> drop_forms fs (drop (length f) s) | None \<Rightarrow> s)"
  by pat_completeness auto
termination
proof (relation "measure (\<lambda>(fs, s). length s)")
  fix fs s f
  assume "List.find (\<lambda>f. f \<noteq> [] \<and> prefix f s) fs = Some f"
  then have "f \<noteq> [] \<and> prefix f s" by (auto simp: find_Some_iff)
  then show "((fs, drop (length f) s), fs, s) \<in> measure (\<lambda>(fs, s). length s)"
    by (cases f) (auto simp: prefix_def)
qed simp

declare drop_forms.simps [simp del]

definition trim :: "string \<Rightarrow> string" where
  "trim s = rev (drop_forms (map rev spaces) (rev (drop_forms spaces s)))"

text \<open>A character no white space form begins or ends with.\<close>

definition plain :: "char \<Rightarrow> bool" where
  "plain c \<longleftrightarrow> 33 \<le> (of_char c :: nat) \<and> (of_char c :: nat) < 127"

lemma drop_forms_plain:
  assumes "s \<noteq> []" "\<And>f. f \<in> set fs \<Longrightarrow> f \<noteq> [] \<Longrightarrow> hd f \<noteq> hd s"
  shows "drop_forms fs s = s"
proof -
  have "\<not> (f \<noteq> [] \<and> prefix f s)" if "f \<in> set fs" for f
    using assms(1) assms(2) [OF that] by (cases f; cases s) auto
  then have "List.find (\<lambda>f. f \<noteq> [] \<and> prefix f s) fs = None" by (auto simp: find_None_iff)
  then show ?thesis by (subst drop_forms.simps) simp
qed

lemma spaces_not_plain: "f \<in> set spaces \<Longrightarrow> f \<noteq> [] \<and> \<not> plain (hd f) \<and> \<not> plain (last f)"
  by (auto simp: spaces_def bytes_def plain_def)

lemma trim_plain [text_simps]:
  assumes "s \<noteq> []" "plain (hd s)" "plain (last s)"
  shows "trim s = s"
proof -
  have 1: "drop_forms spaces s = s"
    using assms spaces_not_plain by (intro drop_forms_plain) metis+
  have "drop_forms (map rev spaces) (rev s) = rev s"
  proof (rule drop_forms_plain)
    show "rev s \<noteq> []" using assms by simp
    fix f assume "f \<in> set (map rev spaces)"
    then obtain g where "g \<in> set spaces" "f = rev g" by auto
    with spaces_not_plain [of g] assms show "hd f \<noteq> hd (rev s)" by (auto simp: hd_rev)
  qed
  with 1 show ?thesis by (simp add: trim_def)
qed

section \<open>Unsigned integers\<close>

fun digits :: "nat \<Rightarrow> string" where
  "digits n = (if n < 10 then [char_of (48 + n)] else digits (n div 10) @ [char_of (48 + n mod 10)])"

declare digits.simps [simp del]

datatype int_error = IntEmpty | InvalidDigit | PosOverflow

text \<open>One character of the checked loop: the digit is checked before the overflow.\<close>

definition digit_val :: "char \<Rightarrow> nat" where
  "digit_val c = of_char c - 48"

fun parse_digits :: "nat \<Rightarrow> nat \<Rightarrow> string \<Rightarrow> int_error + nat" where
  "parse_digits cap acc [] = Inr acc"
| "parse_digits cap acc (c # s) =
     (if \<not> is_digit c then Inl InvalidDigit
      else if cap < acc * 10 + digit_val c then Inl PosOverflow
      else parse_digits cap (acc * 10 + digit_val c) s)"

text \<open>\<open>str::parse\<close> of an unsigned integer with largest value \<open>cap\<close>: one leading plus sign is accepted.\<close>

definition parse_unsigned :: "nat \<Rightarrow> string \<Rightarrow> int_error + nat" where
  "parse_unsigned cap s =
     (case s of
        [] \<Rightarrow> Inl IntEmpty
      | [c] \<Rightarrow> if c = CHR ''+'' \<or> c = CHR ''-'' then Inl InvalidDigit else parse_digits cap 0 [c]
      | c # t \<Rightarrow> if c = CHR ''+'' then parse_digits cap 0 t else parse_digits cap 0 (c # t))"

definition int_error_text :: "int_error \<Rightarrow> string" where
  "int_error_text e = (case e of IntEmpty \<Rightarrow> ''cannot parse integer from empty string''
     | InvalidDigit \<Rightarrow> ''invalid digit found in string''
     | PosOverflow \<Rightarrow> ''number too large to fit in target type'')"

lemma is_digit_char_of: "n < 10 \<Longrightarrow> is_digit (char_of (48 + n)) \<and> digit_val (char_of (48 + n)) = n"
  by (simp add: is_digit_def digit_val_def)

lemma digits_not_Nil [simp]: "digits n \<noteq> []"
  by (subst digits.simps) simp

lemma digits_are_digits: "c \<in> set (digits n) \<Longrightarrow> is_digit c"
proof (induction n rule: digits.induct)
  case (1 n)
  show ?case
  proof (cases "n < 10")
    case True
    with 1 show ?thesis by (subst (asm) digits.simps) (simp add: is_digit_char_of)
  next
    case False
    with 1(2) have "c \<in> set (digits (n div 10)) \<or> c = char_of (48 + n mod 10)"
      by (subst (asm) digits.simps) auto
    then show ?thesis using 1(1) [OF False] is_digit_char_of [of "n mod 10"] by auto
  qed
qed

lemma parse_digits_append:
  "parse_digits cap acc (s @ t) = and_then (parse_digits cap acc s) (\<lambda>a. parse_digits cap a t)"
  by (induction s arbitrary: acc) auto

lemma parse_digits_digits [text_simps]: "n \<le> cap \<Longrightarrow> parse_digits cap 0 (digits n) = Inr n"
proof (induction n rule: digits.induct)
  case (1 n)
  show ?case
  proof (cases "n < 10")
    case True
    then show ?thesis using 1(2) is_digit_char_of [of n] by (subst digits.simps) simp
  next
    case False
    have "parse_digits cap 0 (digits (n div 10)) = Inr (n div 10)" using 1 False by simp
    moreover have "digits n = digits (n div 10) @ [char_of (48 + n mod 10)]"
      using False by (subst digits.simps) simp
    ultimately show ?thesis
      using is_digit_char_of [of "n mod 10"] 1(2) by (simp add: parse_digits_append)
  qed
qed

lemma not_sign_digit: "is_digit c \<Longrightarrow> c \<noteq> CHR ''+'' \<and> c \<noteq> CHR ''-''"
  by (auto simp: is_digit_def)

lemma parse_unsigned_digits [text_simps]:
  assumes "n \<le> cap"
  shows "parse_unsigned cap (digits n) = Inr n"
proof (cases "digits n")
  case (Cons c s)
  then have "is_digit c" using digits_are_digits [of c n] by simp
  then have "parse_unsigned cap (digits n) = parse_digits cap 0 (digits n)"
    using not_sign_digit [of c] Cons by (cases s) (auto simp: parse_unsigned_def)
  with assms show ?thesis by (simp add: text_simps)
qed simp

lemma parse_digits_le: "parse_digits cap acc s = Inr n \<Longrightarrow> acc \<le> cap \<Longrightarrow> n \<le> cap"
  by (induction s arbitrary: acc) (auto split: if_splits)

lemma parse_unsigned_le: "parse_unsigned cap s = Inr n \<Longrightarrow> n \<le> cap"
  by (auto simp: parse_unsigned_def split: list.splits if_splits intro: parse_digits_le)

lemma is_digit_plain: "is_digit c \<Longrightarrow> plain c"
  by (simp add: is_digit_def plain_def)

lemma digits_not_mem [simp]:
  "CHR '':'' \<notin> set (digits n)" "CHR ''.'' \<notin> set (digits n)" "CHR ''/'' \<notin> set (digits n)"
  "CHR ''*'' \<notin> set (digits n)" "CHR ''['' \<notin> set (digits n)"
  using digits_are_digits [of _ n] by (force simp: is_digit_def)+

lemma plain_hd_last_digits: "plain (hd (digits n)) \<and> plain (last (digits n))"
  using digits_are_digits [of "hd (digits n)" n] digits_are_digits [of "last (digits n)" n]
  by (simp add: is_digit_plain)

section \<open>Dotted IPv4 literals\<close>

type_synonym ipv4 = "u8 \<times> u8 \<times> u8 \<times> u8"

text \<open>An octet: one to three digits, no leading zero, at most 255.\<close>

definition parse_octet :: "string \<Rightarrow> u8 option" where
  "parse_octet s = (if s = [] \<or> 3 < length s \<or> \<not> list_all is_digit s \<or> (1 < length s \<and> hd s = CHR ''0'')
     then None else map_option (\<lambda>n. word_of_nat n) (res_ok (parse_digits 255 0 s)))"

definition parse_ipv4 :: "string \<Rightarrow> ipv4 option" where
  "parse_ipv4 s = (case split_on CHR ''.'' s of
     [a, b, c, d] \<Rightarrow>
       (case (parse_octet a, parse_octet b, parse_octet c, parse_octet d) of
          (Some i, Some j, Some k, Some l) \<Rightarrow> Some (i, j, k, l) | _ \<Rightarrow> None)
   | _ \<Rightarrow> None)"

fun show_ipv4 :: "ipv4 \<Rightarrow> string" where
  "show_ipv4 (a, b, c, d) = join_with CHR ''.'' (map (\<lambda>o'. digits (unat o')) [a, b, c, d])"

lemma parse_octet_digits [text_simps]: "parse_octet (digits (unat (b :: u8))) = Some b"
proof -
  have le: "unat b \<le> 255" using unat_le_cap [of b] by simp
  have all: "list_all is_digit (digits n)" for n
    using digits_are_digits by (auto simp: list_all_iff)
  have one: "n < 10 \<Longrightarrow> digits n = [char_of (48 + n)]" for n by (subst digits.simps) simp
  have two: "10 \<le> n \<Longrightarrow> n < 100 \<Longrightarrow> digits n = [char_of (48 + n div 10), char_of (48 + n mod 10)]" for n
    by (subst digits.simps) (simp add: one)
  have three: "100 \<le> n \<Longrightarrow> n < 1000 \<Longrightarrow>
      digits n = [char_of (48 + n div 100), char_of (48 + n div 10 mod 10), char_of (48 + n mod 10)]" for n
    by (subst digits.simps) (simp add: two div_mult2_eq [symmetric])
  have nz: "0 < n \<Longrightarrow> n < 10 \<Longrightarrow> char_of (48 + n) \<noteq> CHR ''0''" for n :: nat
  proof
    assume "0 < n" "n < 10" "char_of (48 + n) = CHR ''0''"
    then have "(of_char (char_of (48 + n)) :: nat) = of_char (CHR ''0'')" by simp
    with \<open>0 < n\<close> \<open>n < 10\<close> show False by simp
  qed
  have "\<not> (3 < length (digits (unat b)) \<or> (1 < length (digits (unat b)) \<and> hd (digits (unat b)) = CHR ''0''))"
  proof (cases "unat b < 10")
    case True then show ?thesis by (simp add: one)
  next
    case False
    show ?thesis
    proof (cases "unat b < 100")
      case True
      with False nz [of "unat b div 10"] show ?thesis by (simp add: two)
    next
      case False
      with le nz [of "unat b div 100"] show ?thesis by (simp add: three)
    qed
  qed
  with all le show ?thesis by (simp add: parse_octet_def text_simps)
qed

lemma parse_show_ipv4 [text_simps]: "parse_ipv4 (show_ipv4 a) = Some a"
proof (cases a)
  case (fields i j k l)
  have "split_on CHR ''.'' (show_ipv4 a) = map (\<lambda>o'. digits (unat o')) [i, j, k, l]"
    unfolding fields show_ipv4.simps by (rule split_join) auto
  with fields show ?thesis by (simp add: parse_ipv4_def text_simps)
qed

lemma show_ipv4_chars:
  "c \<in> set (show_ipv4 a) \<Longrightarrow> is_digit c \<or> c = CHR ''.''" "show_ipv4 a \<noteq> []"
  by (cases a; auto dest: digits_are_digits)+

end
