(* ===== verification/Ticket_Inspector.thy ===== *)
theory Ticket_Inspector
  imports Ticket_Node Rust_Text "HOL-Library.List_Lexorder" "HOL-Library.Char_ord"
begin

text \<open>
  The command line inspector of the ticket database (\<open>ticket-manager/src/bin/
  ticket_inspector.rs\<close>): \<open>run_command\<close> over any ticket store, and the plain text of its
  results. The argument parser and the JSON output are libraries. \<open>show_id\<close>, \<open>show_ticket\<close>
  and \<open>show_balance\<close> are the \<open>Display\<close> and \<open>Debug\<close> forms of the types of \<open>hopr-api\<close>.
\<close>

section \<open>Commands\<close>

datatype command =
    ListChannels
  | DeleteQueue channel_id
  | ListTickets channel_id
  | DeleteTicket channel_id u64
  | TotalValue channel_id

datatype command_result =
    RListChannels "string list"
  | RDeleteQueue channel_id nat
  | RListTickets channel_id "redeemable_ticket list"
  | RDeleteTicket channel_id u64 nat
  | RTotalValue channel_id balance

definition sort_tickets :: "(redeemable_ticket \<Rightarrow> redeemable_ticket \<Rightarrow> bool) \<Rightarrow> redeemable_ticket list
    \<Rightarrow> redeemable_ticket list" where
  "sort_tickets le ts = foldr (heap_push le) ts []"

fun collect_results :: "('e + 'a) list \<Rightarrow> 'e + 'a list" where
  "collect_results [] = Inr []"
| "collect_results (r # rs) = and_then r (\<lambda>x. map_ok (\<lambda>xs. x # xs) (collect_results rs))"

fun fold_amounts :: "balance \<Rightarrow> ('e + redeemable_ticket) list \<Rightarrow> 'e + balance" where
  "fold_amounts acc [] = Inr acc"
| "fold_amounts acc (r # rs) = and_then r (\<lambda>t. fold_amounts (sat_add acc (amount_of t)) rs)"

text \<open>The guard three of the commands begin with: is there a queue of that channel?\<close>

definition with_queue :: "('q, 'w, 'e) store_ops \<Rightarrow> channel_id \<Rightarrow> command_result
    \<Rightarrow> ('q \<Rightarrow> 'w \<Rightarrow> (('e + command_result) \<times> 'w) option) \<Rightarrow> 'w \<Rightarrow> (('e + command_result) \<times> 'w) option" where
  "with_queue sops c absent f w =
     (case s_iter_queues sops w of
        Inl e \<Rightarrow> Some (Inl e, w)
      | Inr cs \<Rightarrow>
          (if \<not> list_ex (\<lambda>c'. c' = c) cs then Some (Inr absent, w)
           else (case s_open sops c w of
              (Inl e, w') \<Rightarrow> Some (Inl e, w')
            | (Inr q, w') \<Rightarrow> f q w')))"

definition run_command :: "('q, 'w, 'e) store_ops \<Rightarrow> (redeemable_ticket \<Rightarrow> redeemable_ticket \<Rightarrow> bool)
    \<Rightarrow> (channel_id \<Rightarrow> string) \<Rightarrow> command \<Rightarrow> 'w \<Rightarrow> (('e + command_result) \<times> 'w) option" where
  "run_command sops le show_id cmd w =
     (case cmd of
        ListChannels \<Rightarrow>
          Some (map_ok (\<lambda>cs. RListChannels (sort (map show_id cs))) (s_iter_queues sops w), w)
      | DeleteQueue c \<Rightarrow>
          map_option (\<lambda>(r, w'). (map_ok (\<lambda>ts. RDeleteQueue c (length ts)) r, w')) (s_delete sops c w)
      | ListTickets c \<Rightarrow>
          with_queue sops c (RListTickets c []) (\<lambda>q w'.
            Some (map_ok (\<lambda>ts. RListTickets c (sort_tickets le ts))
              (and_then (q_iter_unordered (s_queue sops) q w') collect_results), w')) w
      | DeleteTicket c i \<Rightarrow>
          with_queue sops c (RDeleteTicket c i 0) (\<lambda>q w'.
            map_option (\<lambda>(r, popped, q', w''). (map_ok (\<lambda>_. RDeleteTicket c i (length popped)) r, w''))
              (pop_while (s_queue sops) (\<lambda>t. index_of t \<le> i) [] q w')) w
      | TotalValue c \<Rightarrow>
          with_queue sops c (RTotalValue c 0) (\<lambda>q w'.
            Some (map_ok (RTotalValue c)
              (and_then (q_iter_unordered (s_queue sops) q w') (fold_amounts 0)), w')) w)"

section \<open>The plain text of a result\<close>

fun tickets_text :: "(redeemable_ticket \<Rightarrow> string) \<Rightarrow> nat \<Rightarrow> redeemable_ticket list \<Rightarrow> string" where
  "tickets_text show_ticket i [] = ''''"
| "tickets_text show_ticket i (t # ts) =
     (if i > 0 then [CHR 10] else '''') @ show_ticket t @ tickets_text show_ticket (i + 1) ts"

fun result_text :: "(channel_id \<Rightarrow> string) \<Rightarrow> (redeemable_ticket \<Rightarrow> string) \<Rightarrow> (balance \<Rightarrow> string)
    \<Rightarrow> command_result \<Rightarrow> string" where
  "result_text show_id show_ticket show_balance (RListChannels cs) =
     ''Queues found in DB:'' @ [CHR 10] @ concat (map (\<lambda>c. ''  '' @ c @ [CHR 10]) cs)"
| "result_text show_id show_ticket show_balance (RDeleteQueue c n) =
     ''Deleted queue for channel '' @ show_id c @ '' with '' @ digits n @ '' tickets.''"
| "result_text show_id show_ticket show_balance (RListTickets c ts) =
     (if ts = [] then ''No queue found for channel '' @ show_id c
      else ''Tickets in queue for channel '' @ show_id c @ '':'' @ [CHR 10] @ tickets_text show_ticket 0 ts)"
| "result_text show_id show_ticket show_balance (RDeleteTicket c i n) =
     ''Deleted '' @ digits n @ '' tickets up to index '' @ digits (unat i) @ '' for channel '' @ show_id c"
| "result_text show_id show_ticket show_balance (RTotalValue c v) =
     ''Total ticket value for channel '' @ show_id c @ '': '' @ show_balance v"

section \<open>What the commands do to a store that keeps its contract\<close>

lemma collect_results_Inr [simp]: "collect_results (map Inr xs) = Inr xs"
  by (induction xs) simp_all

lemma fold_amounts_Inr [simp]: "fold_amounts acc (map Inr ts) = Inr (sat_add acc (sat_sum (map amount_of ts)))"
proof (induction ts arbitrary: acc)
  case (Cons t ts)
  show ?case by (simp add: Cons sat_add_assoc)
qed simp

context natural_order
begin

lemma mset_sort_tickets: "mset (sort_tickets le ts) = mset ts"
  by (induction ts) (simp_all add: sort_tickets_def mset_heap_push)

lemma sort_tickets_sorted:
  assumes "strict_sorted_key tkey us" "mset ts = mset us"
  shows "sort_tickets le ts = us"
proof -
  have d: "distinct (map tkey us)"
    using assms(1) by (induction us) (auto simp: strict_sorted_key_Cons)
  have dt: "distinct (map tkey ts)"
    using d assms(2) by (metis mset_map mset_eq_imp_distinct_iff)
  have "strict_sorted_key tkey (sort_tickets le ts)" using dt
  proof (induction ts)
    case (Cons t ts)
    have "set (sort_tickets le ts) = set ts" using mset_sort_tickets mset_eq_setD by blast
    with Cons show ?case
      by (simp add: sort_tickets_def heap_push_insort strict_sorted_key_insort)
  qed (simp add: sort_tickets_def)
  moreover have "mset (sort_tickets le ts) = mset us" using mset_sort_tickets assms(2) by simp
  ultimately show ?thesis
    using assms(1) strict_sorted_key_unique by blast
qed

end

context ticket_store
begin

lemma with_queue_absent:
  "wfs w \<Longrightarrow> handle w c = None \<Longrightarrow> with_queue sops c absent f w = Some (Inr absent, w)"
  using iter_queues [of w] by (auto simp: with_queue_def list_ex_iff)

lemma with_queue_present:
  assumes "wfs w" "handle w c = Some q"
  shows "\<exists>w'. (\<forall>absent f. with_queue sops c absent f w = f q w') \<and> wfs w' \<and> handle w' = handle w \<and>
    (\<forall>c0 q0. handle w c0 = Some q0 \<longrightarrow> tickets q0 w' = tickets q0 w)"
proof -
  obtain oq w' where o1: "s_open sops c w = (oq, w')" by force
  from open_queue [OF assms(1) o1] assms(2) have
    o2: "oq = Inr q" "wfs w'" "handle w' = (handle w)(c \<mapsto> q)"
    "\<forall>c0 q0. handle w c0 = Some q0 \<longrightarrow> tickets q0 w' = tickets q0 w" by auto
  from iter_queues [OF assms(1)] obtain cs where "s_iter_queues sops w = Inr cs" "set cs = dom (handle w)" by blast
  with assms(2) o1 o2 show ?thesis
    by (intro exI [of _ w']) (auto simp: with_queue_def list_ex_iff fun_upd_idem_iff)
qed

text \<open>The tickets of a channel after a command, and its result.\<close>

lemma run_list_tickets:
  assumes "natural_order le" "wfs w"
  shows "\<exists>w'. run_command sops le show_id (ListTickets c) w =
      Some (Inr (RListTickets c (stored tickets handle w c)), w') \<and>
    (\<forall>c. stored tickets handle w' c = stored tickets handle w c)"
proof (cases "handle w c")
  case None
  with with_queue_absent [OF assms(2) None] show ?thesis
    by (simp add: run_command_def stored_def)
next
  case (Some q)
  from with_queue_present [OF assms(2) Some] obtain w' where
    w': "\<And>absent f. with_queue sops c absent f w = f q w'" "wfs w'" "handle w' = handle w"
    "\<forall>c0 q0. handle w c0 = Some q0 \<longrightarrow> tickets q0 w' = tickets q0 w"
    by blast
  have iq: "invar q w'" using handle_inv w'(2,3) Some by simp
  from iter [OF iq] obtain ts where ts: "q_iter_unordered qops q w' = Inr (map Inr ts)" "mset ts = mset (tickets q w')"
    by blast
  have "sort_tickets le ts = tickets q w'"
    by (rule natural_order.sort_tickets_sorted [OF assms(1) tickets_sorted [OF iq] ts(2)])
  with w' ts Some show ?thesis
    by (auto simp: run_command_def stored_def split: option.splits)
qed

lemma run_delete_ticket:
  assumes "wfs w"
  shows "\<exists>w'. run_command sops le show_id (DeleteTicket c i) w =
      Some (Inr (RDeleteTicket c i (length (takeWhile (\<lambda>t. index_of t \<le> i) (stored tickets handle w c)))), w') \<and>
    (\<forall>c'. stored tickets handle w' c' =
      (if c' = c then dropWhile (\<lambda>t. index_of t \<le> i) (stored tickets handle w c) else stored tickets handle w c'))"
proof (cases "handle w c")
  case None
  with with_queue_absent [OF assms None] show ?thesis
    by (simp add: run_command_def stored_def)
next
  case (Some q)
  let ?P = "\<lambda>t. index_of t \<le> i"
  from with_queue_present [OF assms Some] obtain w' where
    w': "\<And>absent f. with_queue sops c absent f w = f q w'" "wfs w'" "handle w' = handle w"
    "\<forall>c0 q0. handle w c0 = Some q0 \<longrightarrow> tickets q0 w' = tickets q0 w"
    by blast
  have h: "handle w' c = Some q" using w'(3) Some by simp
  have iq: "invar q w'" using handle_inv [OF w'(2) h] .
  from pop_while_correct [OF iq, of ?P "[]"] obtain q2 w2 where
    p: "pop_while qops ?P [] q w' = Some (Inr (), takeWhile ?P (tickets q w'), q2, w2)"
    "tickets q2 w2 = dropWhile ?P (tickets q w')" by auto
  from plain_pop_while_frame [OF w'(2) h p(1)] have fr: "q2 = q" "same q w' w2" by blast+
  have ne: "q0 \<noteq> q" if "handle w c' = Some q0" "c' \<noteq> c" for c' q0
    using handle_inj [OF assms Some] that by blast
  have "stored tickets handle w2 c' =
      (if c' = c then dropWhile ?P (stored tickets handle w c) else stored tickets handle w c')" for c'
    using fr p(2) w'(3,4) Some ne [of c']
    by (auto simp: stored_def others_same_def split: option.splits)
  with w'(1,4) p(1) Some show ?thesis by (auto simp: run_command_def stored_def)
qed

lemma run_total_value:
  assumes "wfs w"
  shows "\<exists>w'. run_command sops le show_id (TotalValue c) w =
      Some (Inr (RTotalValue c (sat_sum (map amount_of (stored tickets handle w c)))), w') \<and>
    (\<forall>c. stored tickets handle w' c = stored tickets handle w c)"
proof (cases "handle w c")
  case None
  with with_queue_absent [OF assms None] show ?thesis
    by (simp add: run_command_def stored_def)
next
  case (Some q)
  from with_queue_present [OF assms Some] obtain w' where
    w': "\<And>absent f. with_queue sops c absent f w = f q w'" "wfs w'" "handle w' = handle w"
    "\<forall>c0 q0. handle w c0 = Some q0 \<longrightarrow> tickets q0 w' = tickets q0 w"
    by blast
  have iq: "invar q w'" using handle_inv w'(2,3) Some by simp
  from iter [OF iq] obtain ts where ts: "q_iter_unordered qops q w' = Inr (map Inr ts)" "mset ts = mset (tickets q w')"
    by blast
  have "sat_sum (map amount_of ts) = sat_sum (map amount_of (tickets q w'))"
    by (rule sat_sum_mset) (simp add: ts(2))
  with w' ts Some show ?thesis
    by (auto simp: run_command_def stored_def split: option.splits)
qed

end

section \<open>Properties\<close>

text \<open>
  The inspector reads and edits the database as its help says: listing shows the tickets
  of a channel in order, the total is their sum, neither changes any queue; deleting up to
  an index removes the leading tickets of that channel whose index is not above it, reports
  their number and leaves every other queue alone; none of them fails on a well-formed
  database or creates a queue that was not there.
\<close>

theorem inspector_correct:
  assumes "natural_order le" "postcard ser de" "redb_wf de w"
  shows "\<exists>w1 w2 w3.
    run_command (redb_store_ops ser de) le show_id (ListTickets c) w =
      Some (Inr (RListTickets c (redb_tickets de c w)), w1) \<and> (\<forall>c. redb_tickets de c w1 = redb_tickets de c w) \<and>
    run_command (redb_store_ops ser de) le show_id (TotalValue c) w =
      Some (Inr (RTotalValue c (sat_sum (map amount_of (redb_tickets de c w)))), w2) \<and>
      (\<forall>c. redb_tickets de c w2 = redb_tickets de c w) \<and>
    run_command (redb_store_ops ser de) le show_id (DeleteTicket c i) w =
      Some (Inr (RDeleteTicket c i (length (takeWhile (\<lambda>t. index_of t \<le> i) (redb_tickets de c w)))), w3) \<and>
      (\<forall>c'. redb_tickets de c' w3 =
        (if c' = c then dropWhile (\<lambda>t. index_of t \<le> i) (redb_tickets de c w) else redb_tickets de c' w))"
proof -
  note st = postcard.redb_store_provider [OF assms(2)]
  have sto: "stored (redb_tickets de) redb_handle w' c = redb_tickets de c w'" for w' c
    by (cases "map_of (rd_tables w') c") (simp_all add: stored_def redb_handle_def redb_tickets_def)
  from ticket_store.run_list_tickets [OF st assms(1,3), of show_id c]
    ticket_store.run_total_value [OF st assms(3), of le show_id c]
    ticket_store.run_delete_ticket [OF st assms(3), of le show_id c i]
  show ?thesis unfolding sto by blast
qed

theorem inspector_correct_witness:
  "\<exists>w3. run_command (redb_store_ops Some Some) ticket_le digits (DeleteTicket 1 5)
      (commit_table 1 [(make_index (sample_ticket 1 3 10), sample_ticket 1 3 10)] redb_new) =
    Some (Inr (RDeleteTicket 1 5 1), w3) \<and> redb_tickets Some 1 w3 = []"
proof -
  let ?t = "sample_ticket 1 3 10"
  let ?w = "commit_table 1 [(make_index ?t, ?t)] redb_new"
  have "table_ok Some [(make_index ?t, ?t)]" by (simp add: entry_ok_def)
  then have wf: "redb_wf Some ?w" by (rule redb_wf_commit [OF redb_wf_new])
  have ts: "redb_tickets Some 1 ?w = [?t]"
    by (simp add: redb_tickets_def entry_ok_def)
  have i: "index_of ?t \<le> 5" by (simp add: sample_ticket_def)
  obtain w3 where
    "run_command (redb_store_ops Some Some) ticket_le digits (DeleteTicket 1 5) ?w =
      Some (Inr (RDeleteTicket 1 5 (length (takeWhile (\<lambda>t. index_of t \<le> 5) (redb_tickets Some 1 ?w)))), w3)"
    "\<forall>c'. redb_tickets Some c' w3 =
        (if c' = 1 then dropWhile (\<lambda>t. index_of t \<le> 5) (redb_tickets Some 1 ?w) else redb_tickets Some c' ?w)"
    using inspector_correct [OF ticket_le.natural_order_axioms self_postcard.postcard_axioms wf, of digits 1 5]
    by blast
  with ts i show ?thesis by auto
qed

text \<open>
  The listing of a queue that exists and is empty claims that there is no queue.
\<close>

theorem inspector_empty_queue_text:
  "\<exists>w'. run_command (redb_store_ops Some Some) ticket_le digits (ListTickets 7) (commit_table 7 [] redb_new) =
      Some (Inr (RListTickets 7 []), w') \<and>
    redb_handle (commit_table 7 [] redb_new) 7 = Some 7 \<and>
    result_text digits (\<lambda>_. []) (\<lambda>_. []) (RListTickets 7 []) = ''No queue found for channel 7''"
  by (simp add: run_command_def with_queue_def redb_store_ops_def redb_iter_queues_def redb_open_or_create_def
      redb_queue_ops_def redb_iter_unordered_def read_table_def redb_new_def commit_table_def redb_handle_def
      sort_tickets_def digits.simps char_of_def bit_Suc_0_iff)

end
