(* ===== verification/Target_Pattern.thy ===== *)
theory Target_Pattern
  imports Rust_Text
begin

text \<open>
  Patterns that select session targets (\<open>session-server-forwarder/src/target_pattern.rs\<close>):
  the pattern types, matching against an unsealed target, the parser \<open>from_str\<close> and the
  \<open>Display\<close> form. The types of other crates are parameters: the text forms of a service id,
  an IP protocol, an IPv6 address and a network block are the record \<open>text_codec\<close>, and what
  the round trip needs of them is the locale \<open>target_text\<close>.
\<close>

section \<open>Hosts and targets\<close>

text \<open>\<open>ServiceId\<close> is an unsigned 32 bit integer.\<close>

type_synonym service_id = u32

datatype ip_protocol = TCP | UDP

datatype 'v6 ip_addr = V4 ipv4 | V6 'v6

text \<open>\<open>SocketAddr\<close>; a version 6 address carries its flow information and scope id.\<close>

datatype 'v6 sock_addr = SockV4 ipv4 u16 | SockV6 'v6 u16 u32 u32

fun sock_ip :: "'v6 sock_addr \<Rightarrow> 'v6 ip_addr" where
  "sock_ip (SockV4 a _) = V4 a"
| "sock_ip (SockV6 a _ _ _) = V6 a"

fun sock_port :: "'v6 sock_addr \<Rightarrow> u16" where
  "sock_port (SockV4 _ p) = p"
| "sock_port (SockV6 _ p _ _) = p"

datatype 'v6 ip_or_host = Dns string u16 | IpHost "'v6 sock_addr"

fun host_port :: "'v6 ip_or_host \<Rightarrow> u16" where
  "host_port (Dns _ p) = p"
| "host_port (IpHost a) = sock_port a"

datatype 'v6 unsealed_target = StreamTarget ip_protocol "'v6 ip_or_host" | ServiceTarget service_id

text \<open>\<open>SessionTarget\<close>: the host of a stream is sealed.\<close>

datatype 'sealed session_target = TcpStream 'sealed | UdpStream 'sealed | ExitNode service_id

definition unsealed_new :: "('sealed \<Rightarrow> 'ue + 'v6 ip_or_host) \<Rightarrow> 'sealed session_target \<Rightarrow> 'ue + 'v6 unsealed_target" where
  "unsealed_new unseal t =
     (case t of
        ExitNode i \<Rightarrow> Inr (ServiceTarget i)
      | TcpStream h \<Rightarrow> map_ok (StreamTarget TCP) (unseal h)
      | UdpStream h \<Rightarrow> map_ok (StreamTarget UDP) (unseal h))"

section \<open>Patterns\<close>

datatype protocol_pattern = AnyProtocol | OnlyProtocol ip_protocol

datatype ('v6, 'net) host_pattern =
    AnyHost
  | NameHost string
  | SubdomainHost string
  | AddressHost "'v6 ip_addr"
  | NetworkHost 'net

datatype port_pattern = AnyPort | ExactPort u16

datatype ('v6, 'net) target_pattern =
    AnyTarget
  | ServicePattern "service_id option"
  | StreamPattern protocol_pattern "('v6, 'net) host_pattern" port_pattern

record ('v6, 'net) text_codec =
  parse_service :: "string \<Rightarrow> string + service_id"
  show_service :: "service_id \<Rightarrow> string"
  parse_protocol :: "string \<Rightarrow> ip_protocol option"
  show_protocol :: "ip_protocol \<Rightarrow> string"
  parse_v6 :: "string \<Rightarrow> 'v6 option"
  show_v6 :: "'v6 \<Rightarrow> string"
  parse_net :: "string \<Rightarrow> string + 'net"
  show_net :: "'net \<Rightarrow> string"
  net_contains :: "'net \<Rightarrow> 'v6 ip_addr \<Rightarrow> bool"

section \<open>Names\<close>

definition without_root_dot :: "string \<Rightarrow> string" where
  "without_root_dot name = unwrap_or name (strip_suf CHR ''.'' name)"

definition is_dns_charset :: "string \<Rightarrow> bool" where
  "is_dns_charset name = list_all
     (\<lambda>b. is_alpha b \<or> is_digit b \<or> b = CHR ''-'' \<or> b = CHR ''.'' \<or> b = CHR ''_'') name"

record invalid_pattern =
  ip_pattern :: string
  ip_reason :: string

definition invalid :: "string \<Rightarrow> string \<Rightarrow> invalid_pattern" where
  "invalid pattern reason = \<lparr>ip_pattern = pattern, ip_reason = reason\<rparr>"

definition quoted :: "string \<Rightarrow> string" where
  "quoted s = [CHR 0x27] @ s @ [CHR 0x27]"

definition dns_name :: "string \<Rightarrow> string \<Rightarrow> invalid_pattern + string" where
  "dns_name pattern name =
     (let name = without_root_dot name in
      if name = [] then Inl (invalid pattern ''empty host name'')
      else if \<not> is_dns_charset name then
        Inl (invalid pattern (quoted name @ '' is not a DNS name; a wildcard label is written '' @ quoted ''*.''))
      else Inr (lower name))"

section \<open>Matching\<close>

fun protocol_matches :: "protocol_pattern \<Rightarrow> ip_protocol \<Rightarrow> bool" where
  "protocol_matches AnyProtocol _ = True"
| "protocol_matches (OnlyProtocol wanted) p = (wanted = p)"

fun port_matches :: "port_pattern \<Rightarrow> u16 \<Rightarrow> bool" where
  "port_matches AnyPort _ = True"
| "port_matches (ExactPort wanted) p = (wanted = p)"

text \<open>The two \<open>checked_sub\<close> of the source are the two comparisons.\<close>

definition subdomain_matches :: "string \<Rightarrow> string \<Rightarrow> bool" where
  "subdomain_matches suf name =
     (let name = without_root_dot name in
      if length name < length suf then False
      else let split = length name - length suf in
        if split < 1 then False
        else let dot = split - 1 in
          name ! dot = CHR ''.'' \<and> eq_ignore_case suf (drop (dot + 1) name))"

fun host_matches :: "('net \<Rightarrow> 'v6 ip_addr \<Rightarrow> bool) \<Rightarrow> ('v6, 'net) host_pattern \<Rightarrow> 'v6 ip_or_host \<Rightarrow> bool" where
  "host_matches contains AnyHost _ = True"
| "host_matches contains (NameHost wanted) (Dns name _) = eq_ignore_case wanted (without_root_dot name)"
| "host_matches contains (SubdomainHost suf) (Dns name _) = subdomain_matches suf name"
| "host_matches contains (AddressHost wanted) (IpHost addr) = (wanted = sock_ip addr)"
| "host_matches contains (NetworkHost net) (IpHost addr) = contains net (sock_ip addr)"
| "host_matches contains (NameHost _) (IpHost _) = False"
| "host_matches contains (SubdomainHost _) (IpHost _) = False"
| "host_matches contains (AddressHost _) (Dns _ _) = False"
| "host_matches contains (NetworkHost _) (Dns _ _) = False"

fun target_matches :: "('net \<Rightarrow> 'v6 ip_addr \<Rightarrow> bool) \<Rightarrow> ('v6, 'net) target_pattern \<Rightarrow> 'v6 unsealed_target \<Rightarrow> bool" where
  "target_matches contains AnyTarget _ = True"
| "target_matches contains (ServicePattern None) (ServiceTarget _) = True"
| "target_matches contains (ServicePattern (Some wanted)) (ServiceTarget i) = (wanted = i)"
| "target_matches contains (ServicePattern _) (StreamTarget _ _) = False"
| "target_matches contains (StreamPattern _ _ _) (ServiceTarget _) = False"
| "target_matches contains (StreamPattern protocol host port) (StreamTarget tp th) =
     (protocol_matches protocol tp \<and> port_matches port (host_port th) \<and> host_matches contains host th)"

section \<open>Parsing\<close>

definition parse_addr :: "('v6, 'net) text_codec \<Rightarrow> string \<Rightarrow> 'v6 ip_addr option" where
  "parse_addr C s = (case parse_ipv4 s of Some a \<Rightarrow> Some (V4 a) | None \<Rightarrow> map_option V6 (parse_v6 C s))"

definition parse_u16 :: "string \<Rightarrow> int_error + u16" where
  "parse_u16 s = map_ok word_of_nat (parse_unsigned 65535 s)"

definition parse_protocol_pattern :: "('v6, 'net) text_codec \<Rightarrow> string \<Rightarrow> string \<Rightarrow> invalid_pattern + protocol_pattern" where
  "parse_protocol_pattern C pattern s =
     (if s = ''*'' then Inr AnyProtocol
      else map_ok OnlyProtocol (ok_or (invalid pattern
        (''unknown protocol '' @ quoted s @ '', expected '' @ quoted ''tcp'' @ '', '' @ quoted ''udp'' @ '', ''
          @ quoted ''service'' @ '' or '' @ quoted ''*'')) (parse_protocol C s)))"

definition parse_port_pattern :: "string \<Rightarrow> string \<Rightarrow> invalid_pattern + port_pattern" where
  "parse_port_pattern pattern s =
     (if s = ''*'' then Inr AnyPort
      else map_ok ExactPort (map_err (\<lambda>e. invalid pattern (''port: '' @ int_error_text e)) (parse_u16 s)))"

definition bracketed :: "string \<Rightarrow> string option" where
  "bracketed host = (case strip_pre ''['' host of Some h \<Rightarrow> strip_suf CHR '']'' h | None \<Rightarrow> None)"

definition parse_host_pattern :: "('v6, 'net) text_codec \<Rightarrow> string \<Rightarrow> string \<Rightarrow> invalid_pattern + ('v6, 'net) host_pattern" where
  "parse_host_pattern C pattern host =
     (if host = ''*'' then Inr AnyHost
      else case strip_pre ''*.'' host of
        Some suf \<Rightarrow> map_ok SubdomainHost (dns_name pattern suf)
      | None \<Rightarrow>
        if CHR ''/'' \<in> set host then
          map_ok NetworkHost (map_err (\<lambda>e. invalid pattern (''network: '' @ e)) (parse_net C host))
        else case bracketed host of
          Some literal \<Rightarrow>
            map_ok AddressHost (ok_or (invalid pattern ''address: invalid IP address syntax'') (parse_addr C literal))
        | None \<Rightarrow>
          case parse_addr C host of
            Some address \<Rightarrow> Inr (AddressHost address)
          | None \<Rightarrow> map_ok NameHost (dns_name pattern host))"

definition from_str :: "('v6, 'net) text_codec \<Rightarrow> string \<Rightarrow> invalid_pattern + ('v6, 'net) target_pattern" where
  "from_str C s =
     (let pattern = trim s in
      if pattern = ''*'' then Inr AnyTarget
      else and_then
        (ok_or (invalid pattern (''expected '' @ quoted ''<protocol>:<host>:<port>'' @ '' or '' @ quoted ''*''))
          (split_once CHR '':'' pattern))
        (\<lambda>(protocol, rest).
          if eq_ignore_case protocol ''service'' then
            (if rest = ''*'' then Inr (ServicePattern None)
             else map_err (\<lambda>e. invalid pattern (''service id: '' @ e))
               (map_ok (\<lambda>i. ServicePattern (Some i)) (parse_service C rest)))
          else
            and_then (parse_protocol_pattern C pattern protocol) (\<lambda>protocol.
            and_then (ok_or (invalid pattern (''missing '' @ quoted '':<port>'')) (rsplit_once CHR '':'' rest)) (\<lambda>(host, port).
            and_then (parse_port_pattern pattern port) (\<lambda>port.
            and_then (parse_host_pattern C pattern host) (\<lambda>host.
              Inr (StreamPattern protocol host port)))))))"

section \<open>Printing\<close>

fun show_addr :: "('v6, 'net) text_codec \<Rightarrow> 'v6 ip_addr \<Rightarrow> string" where
  "show_addr C (V6 a) = ''['' @ show_v6 C a @ '']''"
| "show_addr C (V4 a) = show_ipv4 a"

fun show_host_pattern :: "('v6, 'net) text_codec \<Rightarrow> ('v6, 'net) host_pattern \<Rightarrow> string" where
  "show_host_pattern C AnyHost = ''*''"
| "show_host_pattern C (NameHost name) = name"
| "show_host_pattern C (SubdomainHost suf) = ''*.'' @ suf"
| "show_host_pattern C (AddressHost addr) = show_addr C addr"
| "show_host_pattern C (NetworkHost net) = show_net C net"

fun show_protocol_pattern :: "('v6, 'net) text_codec \<Rightarrow> protocol_pattern \<Rightarrow> string" where
  "show_protocol_pattern C AnyProtocol = ''*:''"
| "show_protocol_pattern C (OnlyProtocol p) = show_protocol C p @ '':''"

fun show_port_pattern :: "port_pattern \<Rightarrow> string" where
  "show_port_pattern AnyPort = '':*''"
| "show_port_pattern (ExactPort p) = '':'' @ digits (unat p)"

fun show_pattern :: "('v6, 'net) text_codec \<Rightarrow> ('v6, 'net) target_pattern \<Rightarrow> string" where
  "show_pattern C AnyTarget = ''*''"
| "show_pattern C (ServicePattern None) = ''service:*''"
| "show_pattern C (ServicePattern (Some i)) = ''service:'' @ show_service C i"
| "show_pattern C (StreamPattern protocol host port) =
     show_protocol_pattern C protocol @ show_host_pattern C host @ show_port_pattern port"

section \<open>Names are compared up to case and one root dot\<close>

lemma lower_without_root_dot: "lower (without_root_dot n) = without_root_dot (lower n)"
  by (cases n rule: rev_cases) (auto simp: without_root_dot_def strip_suf_def)

definition same_name :: "string \<Rightarrow> string \<Rightarrow> bool" where
  "same_name m n \<longleftrightarrow> lower (without_root_dot m) = lower (without_root_dot n)"

lemma subdomain_matches_iff:
  "subdomain_matches suf name \<longleftrightarrow> (\<exists>l. lower (without_root_dot name) = l @ CHR ''.'' # lower suf)"
proof -
  define m where "m = without_root_dot name"
  have "subdomain_matches suf name \<longleftrightarrow> length suf < length m
      \<and> m ! (length m - length suf - 1) = CHR ''.''
      \<and> lower (drop (length m - length suf) m) = lower suf" (is "_ \<longleftrightarrow> ?R")
    by (auto simp: subdomain_matches_def Let_def m_def [symmetric] eq_ignore_case_def Suc_diff_Suc)
  also have "?R \<longleftrightarrow> (\<exists>l. lower m = l @ CHR ''.'' # lower suf)"
  proof
    assume R: ?R
    define d where "d = length m - length suf - 1"
    have "d < length m" "Suc d = length m - length suf" using R by (auto simp: d_def)
    then have "m = take d m @ m ! d # drop (length m - length suf) m"
      by (metis id_take_nth_drop)
    then have "lower m = lower (take d m) @ to_lower (m ! d) # lower (drop (length m - length suf) m)"
      by (metis lower_append lower_Cons)
    with R show "\<exists>l. lower m = l @ CHR ''.'' # lower suf" by (auto simp: d_def)
  next
    assume "\<exists>l. lower m = l @ CHR ''.'' # lower suf"
    then obtain l where l: "lower m = l @ CHR ''.'' # lower suf" by blast
    then have len: "length m = Suc (length l + length suf)"
      by (metis add_Suc_right length_append length_Cons length_lower)
    then have d: "length m - length suf - 1 = length l" "length m - length suf = Suc (length l)" by simp_all
    have "to_lower (m ! length l) = lower m ! length l" using len by (simp add: lower_def)
    then have "m ! length l = CHR ''.''" using l by (simp add: nth_append)
    moreover have "lower (drop (Suc (length l)) m) = drop (Suc (length l)) (lower m)"
      by (simp add: lower_def drop_map)
    ultimately show ?R using len l unfolding d by simp
  qed
  finally show ?thesis by (simp add: m_def)
qed

lemma host_matches_same_name:
  assumes "same_name m n"
  shows "host_matches contains h (Dns m port) \<longleftrightarrow> host_matches contains h (Dns n port)"
  using assms by (cases h) (auto simp: same_name_def eq_ignore_case_def subdomain_matches_iff)

lemma target_matches_same_name:
  assumes "same_name m n"
  shows "target_matches contains p (StreamTarget pr (Dns m port))
     \<longleftrightarrow> target_matches contains p (StreamTarget pr (Dns n port))"
  using assms by (cases p) (auto simp: host_matches_same_name [OF assms])

section \<open>The parser and the printer are inverse\<close>

locale target_text =
  fixes C :: "('v6, 'net) text_codec"
  assumes service_inverse: "parse_service C (show_service C i) = Inr i"
    and service_text: "show_service C i \<noteq> [] \<and> show_service C i \<noteq> ''*'' \<and> plain (last (show_service C i))"
    and protocol_inverse: "parse_protocol C (show_protocol C q) = Some q"
    and protocol_text: "show_protocol C q \<noteq> [] \<and> plain (hd (show_protocol C q)) \<and> CHR '':'' \<notin> set (show_protocol C q)
      \<and> show_protocol C q \<noteq> ''*'' \<and> \<not> eq_ignore_case (show_protocol C q) ''service''"
    and v6_inverse: "parse_v6 C (show_v6 C a) = Some a"
    and v6_text: "CHR '':'' \<in> set (show_v6 C a) \<and> CHR ''/'' \<notin> set (show_v6 C a)"
    and net_inverse: "parse_net C (show_net C n) = Inr n"
    and net_text: "CHR ''/'' \<in> set (show_net C n) \<and> hd (show_net C n) \<noteq> CHR ''*''"

text \<open>
  What the parser yields, and the patterns of that form whose text is read back as
  something else: a name that is the text of an address, or that still ends in a dot.
\<close>

fun host_pattern_ok :: "('v6, 'net) host_pattern \<Rightarrow> bool" where
  "host_pattern_ok (NameHost n) \<longleftrightarrow> n \<noteq> [] \<and> is_dns_charset n \<and> lower n = n"
| "host_pattern_ok (SubdomainHost n) \<longleftrightarrow> n \<noteq> [] \<and> is_dns_charset n \<and> lower n = n"
| "host_pattern_ok _ \<longleftrightarrow> True"

fun pattern_ok :: "('v6, 'net) target_pattern \<Rightarrow> bool" where
  "pattern_ok (StreamPattern _ h _) \<longleftrightarrow> host_pattern_ok h"
| "pattern_ok _ \<longleftrightarrow> True"

fun ambiguous_host :: "('v6, 'net) text_codec \<Rightarrow> ('v6, 'net) host_pattern \<Rightarrow> bool" where
  "ambiguous_host C (NameHost n) \<longleftrightarrow> parse_addr C n \<noteq> None \<or> last n = CHR ''.''"
| "ambiguous_host C (SubdomainHost n) \<longleftrightarrow> last n = CHR ''.''"
| "ambiguous_host C _ \<longleftrightarrow> False"

fun ambiguous :: "('v6, 'net) text_codec \<Rightarrow> ('v6, 'net) target_pattern \<Rightarrow> bool" where
  "ambiguous C (StreamPattern _ h _) \<longleftrightarrow> ambiguous_host C h"
| "ambiguous C _ \<longleftrightarrow> False"

lemma dns_charset_chars:
  "is_dns_charset n \<Longrightarrow> c \<in> set n \<Longrightarrow> c \<notin> {CHR ''/'', CHR '':'', CHR ''*'', CHR ''['', CHR '']''}"
  by (auto simp: is_dns_charset_def list_all_iff is_alpha_def is_digit_def)

lemma dns_charset_lower [simp]: "is_dns_charset (lower n) \<longleftrightarrow> is_dns_charset n"
proof -
  have "to_lower c = d \<longleftrightarrow> c = d" if "d \<in> {CHR ''-'', CHR ''.'', CHR ''_''}" for c d
    by (rule to_lower_eq_iff) (use that in \<open>auto simp: is_alpha_def\<close>)
  then show ?thesis by (simp add: is_dns_charset_def lower_def list_all_iff)
qed

lemma dns_name_ok: "dns_name p n = Inr m \<Longrightarrow> m \<noteq> [] \<and> is_dns_charset m \<and> lower m = m"
  by (auto simp: dns_name_def Let_def split: if_splits)

lemma dns_name_id:
  assumes "n \<noteq> []" "is_dns_charset n" "lower n = n" "last n \<noteq> CHR ''.''"
  shows "dns_name p n = Inr n"
  using assms by (simp add: dns_name_def without_root_dot_def strip_suf_def)

lemma map_ok_Inr_iff: "map_ok f r = Inr y \<longleftrightarrow> (\<exists>x. r = Inr x \<and> y = f x)"
  by (cases r) auto

lemma ok_or_Inr_iff: "ok_or e r = Inr y \<longleftrightarrow> r = Some y"
  by (cases r) auto

lemmas parse_result_iff = map_ok_Inr_iff ok_or_Inr_iff and_then_Inr_iff

lemma parse_host_pattern_ok: "parse_host_pattern C p s = Inr h \<Longrightarrow> host_pattern_ok h"
  by (auto simp: parse_host_pattern_def parse_result_iff dest!: dns_name_ok split: if_splits option.splits)

lemma from_str_ok: "from_str C s = Inr p \<Longrightarrow> pattern_ok p"
  by (auto simp: from_str_def Let_def parse_result_iff parse_host_pattern_ok split: if_splits)

lemma parse_ipv4_colon: "CHR '':'' \<in> set s \<Longrightarrow> parse_ipv4 s = None"
proof (rule ccontr)
  assume c: "CHR '':'' \<in> set s" and n: "parse_ipv4 s \<noteq> None"
  then obtain w x y z where sp: "split_on CHR ''.'' s = [w, x, y, z]"
    and o: "parse_octet w \<noteq> None" "parse_octet x \<noteq> None" "parse_octet y \<noteq> None" "parse_octet z \<noteq> None"
    by (auto simp: parse_ipv4_def split: list.splits option.splits)
  have "CHR '':'' \<notin> set v" if "parse_octet v \<noteq> None" for v
    using that by (auto simp: parse_octet_def list_all_iff is_digit_def split: if_splits)
  then have "CHR '':'' \<notin> set (join_with CHR ''.'' [w, x, y, z])" using o by simp
  moreover have "join_with CHR ''.'' [w, x, y, z] = s" using join_split_on [of "CHR ''.''" s] sp by simp
  ultimately have "CHR '':'' \<notin> set s" by metis
  with c show False by contradiction
qed

lemma not_prefix_hd: "s \<noteq> [] \<Longrightarrow> hd s \<noteq> c \<Longrightarrow> strip_pre (c # p) s = None"
  by (cases s) (auto simp: strip_pre_def)

lemma parse_u16_digits [text_simps]: "parse_u16 (digits (unat p)) = Inr p"
  using unat_le_cap [of p] by (simp add: parse_u16_def text_simps)

lemma parse_port_show: "parse_port_pattern p (tl (show_port_pattern q)) = Inr q"
proof (cases q)
  case (ExactPort w)
  have "digits (unat w) \<noteq> ''*''" by (metis digits_not_mem(4) list.set_intros(1))
  with ExactPort show ?thesis by (simp add: parse_port_pattern_def text_simps)
qed (simp add: parse_port_pattern_def)

lemma show_port_shape: "show_port_pattern q = CHR '':'' # tl (show_port_pattern q) \<and>
   CHR '':'' \<notin> set (tl (show_port_pattern q)) \<and> plain (last (show_port_pattern q))"
  using plain_hd_last_digits by (cases q) (auto simp: plain_def)

lemma bracketed_show [simp]: "bracketed (CHR ''['' # s @ '']'') = Some s"
  by (simp add: bracketed_def strip_pre_def)

lemma parse_host_name:
  assumes "n \<noteq> []" "is_dns_charset n" "lower n = n" "last n \<noteq> CHR ''.''" "parse_addr C n = None"
  shows "parse_host_pattern C p n = Inr (NameHost n)"
proof -
  have h: "hd n \<noteq> CHR ''*''" "hd n \<noteq> CHR ''[''" "CHR ''/'' \<notin> set n"
    using dns_charset_chars [OF assms(2)] assms(1) by auto
  then have "n \<noteq> ''*''" by auto
  with h assms show ?thesis
    by (simp add: parse_host_pattern_def not_prefix_hd bracketed_def dns_name_id)
qed

lemma parse_host_v4: "parse_host_pattern C p (show_ipv4 a) = Inr (AddressHost (V4 a))"
proof -
  have nonempty: "show_ipv4 a \<noteq> []" by (rule show_ipv4_chars)
  then have "is_digit (hd (show_ipv4 a)) \<or> hd (show_ipv4 a) = CHR ''.''"
    by (intro show_ipv4_chars(1) [of "hd (show_ipv4 a)" a]) simp
  then have h: "hd (show_ipv4 a) \<noteq> CHR ''*''" "hd (show_ipv4 a) \<noteq> CHR ''[''" by (auto simp: is_digit_def)
  have "CHR ''/'' \<notin> set (show_ipv4 a)"
    using show_ipv4_chars(1) [of "CHR ''/''" a] by (auto simp: is_digit_def)
  moreover have "show_ipv4 a \<noteq> ''*''" using h by auto
  ultimately show ?thesis using h nonempty
    by (simp add: parse_host_pattern_def not_prefix_hd bracketed_def parse_addr_def text_simps)
qed

context target_text
begin

lemma parse_show_host:
  assumes "host_pattern_ok h" "\<not> ambiguous_host C h"
  shows "parse_host_pattern C p (show_host_pattern C h) = Inr h"
proof (cases h)
  case (NameHost n)
  with assms show ?thesis by (simp add: parse_host_name)
next
  case (SubdomainHost n)
  then have "strip_pre ''*.'' (show_host_pattern C h) = Some n" by (simp add: strip_pre_def)
  with SubdomainHost assms show ?thesis by (simp add: parse_host_pattern_def dns_name_id)
next
  case (AddressHost a)
  show ?thesis
  proof (cases a)
    case (V6 b)
    then have "parse_addr C (show_v6 C b) = Some a"
      by (simp add: parse_addr_def parse_ipv4_colon v6_text v6_inverse)
    with V6 AddressHost v6_text [of b] show ?thesis
      by (simp add: parse_host_pattern_def not_prefix_hd)
  qed (simp add: AddressHost parse_host_v4)
next
  case (NetworkHost n)
  have "show_net C n \<noteq> []" "hd (show_net C n) \<noteq> CHR ''*''" using net_text [of n] by auto
  moreover from this have "show_net C n \<noteq> ''*''" by auto
  ultimately show ?thesis using NetworkHost net_text [of n]
    by (simp add: parse_host_pattern_def not_prefix_hd net_inverse)
qed (simp add: parse_host_pattern_def)

lemma parse_show_protocol:
  "\<exists>w. show_protocol_pattern C q = w @ '':'' \<and> w \<noteq> [] \<and> plain (hd w) \<and> CHR '':'' \<notin> set w
     \<and> \<not> eq_ignore_case w ''service'' \<and> parse_protocol_pattern C p w = Inr q"
proof (cases q)
  case AnyProtocol
  then show ?thesis
    by (intro exI [of _ "''*''"])
      (simp add: plain_def eq_ignore_case_def parse_protocol_pattern_def)
next
  case (OnlyProtocol r)
  then show ?thesis using protocol_text [of r] protocol_inverse [of r]
    by (intro exI [of _ "show_protocol C r"]) (simp add: parse_protocol_pattern_def)
qed

lemma parse_show_stream:
  assumes "host_pattern_ok h" "\<not> ambiguous_host C h"
  shows "from_str C (show_pattern C (StreamPattern q h r)) = Inr (StreamPattern q h r)"
proof -
  define pat where "pat = show_pattern C (StreamPattern q h r)"
  obtain w where w: "show_protocol_pattern C q = w @ '':''" "w \<noteq> []" "plain (hd w)" "CHR '':'' \<notin> set w"
      "\<not> eq_ignore_case w ''service''" "parse_protocol_pattern C pat w = Inr q"
    using parse_show_protocol [of q pat] by blast
  let ?t = "tl (show_port_pattern r)"
  have t: "show_port_pattern r = CHR '':'' # ?t" "CHR '':'' \<notin> set ?t" "plain (last (show_port_pattern r))"
    using show_port_shape [of r] by auto
  have pat: "pat = w @ CHR '':'' # (show_host_pattern C h @ CHR '':'' # ?t)"
    using w(1) t(1) by (simp add: pat_def)
  have nonempty: "show_port_pattern r \<noteq> []" using t(1) by auto
  have "last pat = last (show_port_pattern r)" unfolding pat_def using nonempty by simp
  then have "trim pat = pat" using w t(3) by (intro trim_plain) (auto simp: pat hd_append)
  moreover have "pat \<noteq> ''*''" using w(2) by (cases w) (auto simp: pat)
  moreover have "split_once CHR '':'' pat = Some (w, show_host_pattern C h @ CHR '':'' # ?t)"
    unfolding pat by (rule split_once_append [OF w(4)])
  moreover have "rsplit_once CHR '':'' (show_host_pattern C h @ CHR '':'' # ?t) = Some (show_host_pattern C h, ?t)"
    by (rule rsplit_once_append [OF t(2)])
  ultimately show ?thesis unfolding pat_def [symmetric] from_str_def Let_def
    using w(5,6) parse_port_show [of pat r] parse_show_host [OF assms, of pat] by simp
qed

lemma parse_show_service: "from_str C (show_pattern C (ServicePattern i)) = Inr (ServicePattern i)"
proof (cases i)
  case None
  have "trim ''service:*'' = ''service:*''" by (rule trim_plain) (simp_all add: plain_def)
  with None show ?thesis by (simp add: from_str_def eq_ignore_case_def)
next
  case (Some k)
  let ?s = "''service:'' @ show_service C k"
  have "trim ?s = ?s" using service_text [of k] by (intro trim_plain) (auto simp: plain_def)
  moreover have "split_once CHR '':'' ?s = Some (''service'', show_service C k)"
    using split_once_append [of "CHR '':''" "''service''" "show_service C k"] by simp
  ultimately show ?thesis using Some service_text [of k]
    by (simp add: from_str_def Let_def eq_ignore_case_def service_inverse)
qed

theorem parse_show:
  assumes "pattern_ok p" "\<not> ambiguous C p"
  shows "from_str C (show_pattern C p) = Inr p"
proof (cases p)
  case AnyTarget
  have "trim ''*'' = ''*''" by (rule trim_plain) (simp_all add: plain_def)
  with AnyTarget show ?thesis by (simp add: from_str_def)
next
  case (ServicePattern i)
  then show ?thesis by (simp only: parse_show_service)
next
  case (StreamPattern q h r)
  with assms show ?thesis by (metis parse_show_stream pattern_ok.simps(1) ambiguous.simps(1))
qed

end

end
