(* ===== verification/Session_Admission.thy ===== *)
theory Session_Admission
  imports Target_Pattern "HOL-Library.List_Lexorder" "HOL-Library.Char_ord"
begin

text \<open>
  The session server of an exit node (\<open>session-server-forwarder/src/lib.rs\<close>,
  \<open>config.rs\<close>, \<open>allow_list.rs\<close>): the validation of its configuration, the terms a session
  is admitted on, the allow list for its target, and \<open>process\<close> up to the bridge it opens.
  Sealing, name resolution, sockets and the text of hosts are the environment \<open>exit_env\<close>.
\<close>

section \<open>Configuration\<close>

record ('v6, 'net) admission_rule =
  ar_target :: "('v6, 'net) target_pattern"
  ar_enforce_pix :: "bool option"
  ar_quota_min :: "u64 option"
  ar_quota_max :: "u64 option"

text \<open>The allow list is a set; the list is its elements in the order of some iteration.\<close>

record ('v6, 'net) forward_config =
  use_allow_list :: bool
  allow_list :: "'v6 ip_or_host list"
  retry_delay :: nat
  max_retries :: u32
  rx_parallelism :: "nat option"
  admission_rules :: "('v6, 'net) admission_rule list"

definition default_config :: "('v6, 'net) forward_config" where
  "default_config = \<lparr>use_allow_list = True, allow_list = [], retry_delay = 2, max_retries = 10,
     rx_parallelism = None, admission_rules = []\<rparr>"

definition validate_rule_quota :: "('v6, 'net) text_codec \<Rightarrow> ('v6, 'net) admission_rule \<Rightarrow> string + unit" where
  "validate_rule_quota C rule =
     (case (ar_quota_min rule, ar_quota_max rule) of
        (Some mn, Some mx) \<Rightarrow>
          if mn > mx then
            Inl (''rule for '' @ quoted (show_pattern C (ar_target rule)) @ '' has quota_range_min '' @ digits (unat mn)
              @ '' above quota_range_max '' @ digits (unat mx) @ '', which admits nothing'')
          else Inr ()
      | _ \<Rightarrow> Inr ())"

definition dns_entry_problem :: "string \<Rightarrow> string option" where
  "dns_entry_problem name =
     (let name = without_root_dot name in
      if name = [] then Some ''empty host name''
      else if \<not> is_dns_charset name then Some ''not a DNS name''
      else if list_ex (\<lambda>l. l = []) (split_on CHR ''.'' name) then Some ''empty label''
      else if list_all is_digit (last (split_on CHR ''.'' name)) then
        Some ''last label is numeric, like a mistyped IPv4 address''
      else None)"

fun join_text :: "string \<Rightarrow> string list \<Rightarrow> string" where
  "join_text sep [] = []"
| "join_text sep [w] = w"
| "join_text sep (w # v # ws) = w @ sep @ join_text sep (v # ws)"

definition entry_problem :: "('v6 ip_or_host \<Rightarrow> string) \<Rightarrow> 'v6 ip_or_host \<Rightarrow> string option" where
  "entry_problem show_host entry =
     (case entry of
        Dns name _ \<Rightarrow> map_option (\<lambda>problem. quoted (show_host entry) @ '' ('' @ problem @ '')'') (dns_entry_problem name)
      | IpHost _ \<Rightarrow> None)"

definition validate_allow_list :: "('v6 ip_or_host \<Rightarrow> string) \<Rightarrow> 'v6 ip_or_host list \<Rightarrow> string + unit" where
  "validate_allow_list show_host xs =
     (let unusable = List.map_filter (entry_problem show_host) xs in
      if unusable = [] then Inr ()
      else Inl (''no host name can match '' @ join_text '', '' (sort unusable)))"

section \<open>The environment of the exit node\<close>

record ('sealed, 'v6) exit_env =
  env_spawn :: "string + unit"
  env_unseal :: "'sealed \<Rightarrow> string + 'v6 ip_or_host"
  env_resolve :: "'v6 ip_or_host \<Rightarrow> string + 'v6 sock_addr list"
  env_udp_bind :: "'v6 sock_addr \<Rightarrow> nat option \<Rightarrow> string + unit"
  env_tcp_connect :: "nat \<Rightarrow> nat \<Rightarrow> 'v6 sock_addr list \<Rightarrow> string + unit"
  env_nodelay :: "string + unit"
  env_show_host :: "'v6 ip_or_host \<Rightarrow> string"
  env_show_sock :: "'v6 sock_addr \<Rightarrow> string"
  env_show_socks :: "'v6 sock_addr list \<Rightarrow> string"

datatype forwarder_error = General string | Denied string

section \<open>Admission\<close>

record decision =
  d_enforce_pix :: "bool option"
  d_quota_range :: "(u64 \<times> u64) option"

definition default_decision :: decision where
  "default_decision = \<lparr>d_enforce_pix = None, d_quota_range = None\<rparr>"

definition rule_decision :: "('v6, 'net) admission_rule \<Rightarrow> decision" where
  "rule_decision rule =
     (let d = default_decision;
          d = (case ar_enforce_pix rule of Some b \<Rightarrow> d\<lparr>d_enforce_pix := Some b\<rparr> | None \<Rightarrow> d)
      in if ar_quota_min rule \<noteq> None \<or> ar_quota_max rule \<noteq> None
         then d\<lparr>d_quota_range := Some (unwrap_or 0 (ar_quota_min rule), unwrap_or (- 1) (ar_quota_max rule))\<rparr>
         else d)"

definition admit :: "('net \<Rightarrow> 'v6 ip_addr \<Rightarrow> bool) \<Rightarrow> ('v6, 'net) forward_config \<Rightarrow> ('sealed, 'v6) exit_env
    \<Rightarrow> 'sealed session_target \<Rightarrow> forwarder_error + decision" where
  "admit contains cfg env request =
     (if admission_rules cfg = [] then Inr default_decision
      else and_then (map_err (\<lambda>e. General (''failed to spawn unseal task: '' @ e)) (env_spawn env)) (\<lambda>_.
        and_then (map_err (\<lambda>e. Denied (''cannot unseal target: '' @ e)) (unsealed_new (env_unseal env) request)) (\<lambda>target.
          case List.find (\<lambda>rule. target_matches contains (ar_target rule) target) (admission_rules cfg) of
            None \<Rightarrow> Inr default_decision
          | Some rule \<Rightarrow> Inr (rule_decision rule))))"

section \<open>The allow list\<close>

fun is_dns :: "'v6 ip_or_host \<Rightarrow> bool" where
  "is_dns (Dns _ _) = True"
| "is_dns (IpHost _) = False"

fun names_target :: "string \<Rightarrow> u16 \<Rightarrow> 'v6 ip_or_host \<Rightarrow> bool" where
  "names_target name port (Dns listed listed_port) =
     (listed_port = port \<and> eq_ignore_case (without_root_dot listed) (without_root_dot name))"
| "names_target name port (IpHost _) = False"

text \<open>The names worth a lookup, and the addresses the lookups yield; a failed one yields none.\<close>

definition wanted_names :: "'v6 ip_or_host list \<Rightarrow> 'v6 sock_addr list \<Rightarrow> 'v6 ip_or_host list" where
  "wanted_names xs wanted =
     filter (\<lambda>entry. is_dns entry \<and> list_ex (\<lambda>addr. sock_port addr = host_port entry) wanted) xs"

definition resolve_listed_names :: "('v6 ip_or_host \<Rightarrow> string + 'v6 sock_addr list) \<Rightarrow> 'v6 ip_or_host list
    \<Rightarrow> 'v6 sock_addr list \<Rightarrow> 'v6 sock_addr list" where
  "resolve_listed_names resolve xs wanted =
     concat (map (\<lambda>entry. unwrap_or [] (res_ok (resolve entry))) (wanted_names xs wanted))"

text \<open>The verdict, and the lookups made for it.\<close>

definition is_allowed :: "('v6, 'net) forward_config \<Rightarrow> ('v6 ip_or_host \<Rightarrow> string + 'v6 sock_addr list)
    \<Rightarrow> 'v6 ip_or_host \<Rightarrow> 'v6 sock_addr list \<Rightarrow> bool \<times> 'v6 ip_or_host list" where
  "is_allowed cfg resolve target resolved =
     (let xs = allow_list cfg;
          by_target = (case target of Dns name port \<Rightarrow> list_ex (names_target name port) xs | IpHost _ \<Rightarrow> False);
          is_listed = (\<lambda>addr. IpHost addr \<in> set xs)
      in if \<not> use_allow_list cfg then (True, [])
         else if by_target then (True, [])
         else if list_all is_listed resolved then (True, [])
         else (let by_name = resolve_listed_names resolve xs resolved
               in (list_all (\<lambda>addr. is_listed addr \<or> addr \<in> set by_name) resolved, wanted_names xs resolved)))"

section \<open>Serving a session\<close>

datatype 'v6 bridge = UdpBridge "'v6 sock_addr" | TcpBridge "'v6 sock_addr list" | LoopbackBridge

definition process_udp :: "('v6, 'net) forward_config \<Rightarrow> ('sealed, 'v6) exit_env \<Rightarrow> 'sealed \<Rightarrow> forwarder_error + 'v6 bridge" where
  "process_udp cfg env host =
     and_then (map_err (\<lambda>e. General (''failed to spawn unseal task: '' @ e)) (env_spawn env)) (\<lambda>_.
     and_then (map_err (\<lambda>e. General (''cannot unseal target: '' @ e)) (env_unseal env host)) (\<lambda>udp_target.
     and_then (map_err (\<lambda>e. General (''failed to resolve DNS name '' @ env_show_host env udp_target @ '': '' @ e))
       (env_resolve env udp_target)) (\<lambda>resolutions.
     case resolutions of
       [] \<Rightarrow> Inl (General (''failed to resolve DNS name '' @ env_show_host env udp_target))
     | addr # _ \<Rightarrow>
         if \<not> fst (is_allowed cfg (env_resolve env) udp_target [addr])
         then Inl (Denied (env_show_sock env addr @ '' is not allowed by the target allow list''))
         else and_then (map_err (\<lambda>e. General (''could not bridge the incoming session to '' @ env_show_host env udp_target @ '': '' @ e))
             (env_udp_bind env addr (rx_parallelism cfg))) (\<lambda>_. Inr (UdpBridge addr)))))"

definition process_tcp :: "('v6, 'net) forward_config \<Rightarrow> ('sealed, 'v6) exit_env \<Rightarrow> 'sealed \<Rightarrow> forwarder_error + 'v6 bridge" where
  "process_tcp cfg env host =
     and_then (map_err (\<lambda>e. General (''failed to spawn unseal task: '' @ e)) (env_spawn env)) (\<lambda>_.
     and_then (map_err (\<lambda>e. General (''cannot unseal target: '' @ e)) (env_unseal env host)) (\<lambda>tcp_target.
     and_then (map_err (\<lambda>e. General (''failed to resolve DNS name '' @ env_show_host env tcp_target @ '': '' @ e))
       (env_resolve env tcp_target)) (\<lambda>addrs.
     if \<not> fst (is_allowed cfg (env_resolve env) tcp_target addrs)
     then Inl (Denied (''not all of '' @ env_show_socks env addrs @ '' are allowed by the target allow list''))
     else and_then (map_err (\<lambda>e. General (''could not bridge the incoming session to '' @ env_show_host env tcp_target @ '': '' @ e))
         (env_tcp_connect env (retry_delay cfg) (unat (max_retries cfg)) addrs)) (\<lambda>_.
       and_then (map_err (\<lambda>e. General (''could not set the TCP_NODELAY option for the bridged session to ''
             @ env_show_host env tcp_target @ '': '' @ e)) (env_nodelay env)) (\<lambda>_. Inr (TcpBridge addrs))))))"

definition process :: "('v6, 'net) forward_config \<Rightarrow> ('sealed, 'v6) exit_env \<Rightarrow> 'sealed session_target
    \<Rightarrow> forwarder_error + 'v6 bridge" where
  "process cfg env target =
     (case target of
        UdpStream host \<Rightarrow> process_udp cfg env host
      | TcpStream host \<Rightarrow> process_tcp cfg env host
      | ExitNode i \<Rightarrow> if i = 0 then Inr LoopbackBridge
          else Inl (General ''server does not support internal session processing''))"

section \<open>The loopback service\<close>

text \<open>
  Two tasks with an unbounded channel in between. \<open>lb_input\<close> is what the reader will get
  (\<open>Inr []\<close> is the end of the stream), \<open>lb_writes\<close> how the calls of \<open>write_all\<close> will end:
  with everything written, or with an error after some of the bytes.
\<close>

record loopback =
  lb_input :: "(string + u8 list) list"
  lb_writes :: "(nat + unit) list"
  lb_channel :: "u8 list list"
  lb_output :: "u8 list"
  lb_read_done :: bool
  lb_write_done :: bool

definition loopback_new :: "(string + u8 list) list \<Rightarrow> (nat + unit) list \<Rightarrow> loopback" where
  "loopback_new ins outs = \<lparr>lb_input = ins, lb_writes = outs, lb_channel = [], lb_output = [],
     lb_read_done = False, lb_write_done = False\<rparr>"

text \<open>A read while no data is there changes nothing: the task waits. A send fails once the receiver is gone.\<close>

definition reader_step :: "loopback \<Rightarrow> loopback" where
  "reader_step s =
     (if lb_read_done s then s
      else case lb_input s of
        [] \<Rightarrow> s
      | Inl e # rest \<Rightarrow> s\<lparr>lb_input := rest, lb_read_done := True\<rparr>
      | Inr buf # rest \<Rightarrow>
          if buf = [] then s\<lparr>lb_input := rest, lb_read_done := True\<rparr>
          else if lb_write_done s then s\<lparr>lb_input := rest, lb_read_done := True\<rparr>
          else s\<lparr>lb_input := rest, lb_channel := lb_channel s @ [buf]\<rparr>)"

text \<open>The writer ends when the channel is empty and its sender is gone.\<close>

definition writer_step :: "loopback \<Rightarrow> loopback" where
  "writer_step s =
     (if lb_write_done s then s
      else case lb_channel s of
        [] \<Rightarrow> if lb_read_done s then s\<lparr>lb_write_done := True\<rparr> else s
      | buf # rest \<Rightarrow>
          (case lb_writes s of
             [] \<Rightarrow> s
           | Inr _ # ws \<Rightarrow> s\<lparr>lb_writes := ws, lb_channel := rest, lb_output := lb_output s @ buf\<rparr>
           | Inl k # ws \<Rightarrow> s\<lparr>lb_writes := ws, lb_channel := rest, lb_output := lb_output s @ take k buf,
                 lb_write_done := True\<rparr>))"

fun loopback_run :: "bool list \<Rightarrow> loopback \<Rightarrow> loopback" where
  "loopback_run [] s = s"
| "loopback_run (reader # sched) s = loopback_run sched (if reader then reader_step s else writer_step s)"

section \<open>Lemmas\<close>

lemma names_target_iff: "names_target name port e \<longleftrightarrow> (\<exists>l. e = Dns l port \<and> same_name l name)"
  by (cases e) (auto simp: same_name_def eq_ignore_case_def)

text \<open>What the allow list says, without the order of the lookups and their short cuts.\<close>

definition target_named :: "'v6 ip_or_host list \<Rightarrow> 'v6 ip_or_host \<Rightarrow> bool" where
  "target_named xs target \<longleftrightarrow> (\<exists>n l port. target = Dns n port \<and> Dns l port \<in> set xs \<and> same_name l n)"

definition address_listed :: "('v6 ip_or_host \<Rightarrow> string + 'v6 sock_addr list) \<Rightarrow> 'v6 ip_or_host list
    \<Rightarrow> 'v6 sock_addr \<Rightarrow> bool" where
  "address_listed resolve xs a \<longleftrightarrow> IpHost a \<in> set xs \<or>
     (\<exists>n port as. Dns n port \<in> set xs \<and> resolve (Dns n port) = Inr as \<and> a \<in> set as)"

lemma by_target_iff:
  "(case target of Dns name port \<Rightarrow> list_ex (names_target name port) xs | IpHost _ \<Rightarrow> False) \<longleftrightarrow> target_named xs target"
  by (cases target) (auto simp: list_ex_iff names_target_iff target_named_def)

lemma is_dns_iff: "is_dns e \<longleftrightarrow> (\<exists>n port. e = Dns n port)"
  by (cases e) auto

lemma resolved_name_iff:
  "a \<in> set (resolve_listed_names resolve xs wanted) \<longleftrightarrow>
     (\<exists>n port as. Dns n port \<in> set xs \<and> port \<in> sock_port ` set wanted \<and> resolve (Dns n port) = Inr as \<and> a \<in> set as)"
proof -
  have ok: "a \<in> set (unwrap_or [] (res_ok r)) \<longleftrightarrow> (\<exists>as. r = Inr as \<and> a \<in> set as)" for r :: "'b + 'a sock_addr list"
    by (cases r) auto
  have "a \<in> set (resolve_listed_names resolve xs wanted) \<longleftrightarrow>
      (\<exists>e\<in>set xs. is_dns e \<and> (\<exists>addr\<in>set wanted. sock_port addr = host_port e) \<and>
         (\<exists>as. resolve e = Inr as \<and> a \<in> set as))"
    by (auto simp: resolve_listed_names_def wanted_names_def ok list_ex_iff)
  also have "\<dots> \<longleftrightarrow> (\<exists>n port as. Dns n port \<in> set xs \<and> port \<in> sock_port ` set wanted \<and>
      resolve (Dns n port) = Inr as \<and> a \<in> set as)"
    by (fastforce simp: is_dns_iff image_iff)
  finally show ?thesis .
qed

lemma is_allowed_sound:
  assumes "fst (is_allowed cfg resolve target resolved)" "use_allow_list cfg"
  shows "target_named (allow_list cfg) target \<or> (\<forall>a\<in>set resolved. address_listed resolve (allow_list cfg) a)"
  using assms unfolding is_allowed_def Let_def by_target_iff
  by (auto simp: list_all_iff address_listed_def resolved_name_iff split: if_splits)

lemma is_allowed_complete:
  assumes ports: "\<And>n port as a. resolve (Dns n port) = Inr as \<Longrightarrow> a \<in> set as \<Longrightarrow> sock_port a = port"
    and "target_named (allow_list cfg) target \<or> (\<forall>a\<in>set resolved. address_listed resolve (allow_list cfg) a)"
  shows "fst (is_allowed cfg resolve target resolved)"
proof -
  have "a \<in> set (resolve_listed_names resolve (allow_list cfg) resolved)"
    if "a \<in> set resolved" "address_listed resolve (allow_list cfg) a" "IpHost a \<notin> set (allow_list cfg)" for a
    using that ports unfolding address_listed_def resolved_name_iff by blast
  with assms(2) show ?thesis
    unfolding is_allowed_def Let_def by_target_iff by (auto simp: list_all_iff)
qed

fun input_bytes :: "(string + u8 list) list \<Rightarrow> u8 list" where
  "input_bytes [] = []"
| "input_bytes (Inl e # rest) = []"
| "input_bytes (Inr buf # rest) = (if buf = [] then [] else buf @ input_bytes rest)"

definition echo_inv :: "u8 list \<Rightarrow> bool \<Rightarrow> loopback \<Rightarrow> bool" where
  "echo_inv all clean s \<longleftrightarrow>
     (lb_output s @ concat (lb_channel s) @ (if lb_read_done s then [] else input_bytes (lb_input s)) = all
        \<and> (lb_write_done s \<longrightarrow> lb_read_done s \<and> lb_channel s = []))
     \<or> (\<not> clean \<and> lb_write_done s \<and> prefix (lb_output s) all)"

lemma reader_step_echo: "echo_inv all clean s \<Longrightarrow> echo_inv all clean (reader_step s)"
  by (auto simp: echo_inv_def reader_step_def split: list.splits sum.splits if_splits)

lemma writer_step_echo:
  assumes "echo_inv all clean s" "clean \<Longrightarrow> \<forall>w\<in>set (lb_writes s). w = Inr ()"
  shows "echo_inv all clean (writer_step s)"
proof (cases "lb_write_done s")
  case False
  show ?thesis
  proof (cases "lb_channel s")
    case (Cons buf rest)
    show ?thesis
    proof (cases "lb_writes s")
      case (Cons w ws)
      show ?thesis
      proof (cases w)
        case (Inl k)
        have "all = lb_output s @ buf @ concat rest @ (if lb_read_done s then [] else input_bytes (lb_input s))"
          using assms(1) False \<open>lb_channel s = buf # rest\<close> by (auto simp: echo_inv_def)
        then have "prefix (lb_output s @ take k buf) all"
          by (simp add: take_is_prefix prefix_prefix)
        with Inl Cons False assms(2) \<open>lb_channel s = buf # rest\<close> show ?thesis
          by (auto simp: echo_inv_def writer_step_def)
      next
        case (Inr u)
        with Cons False assms(1) \<open>lb_channel s = buf # rest\<close> show ?thesis
          by (auto simp: echo_inv_def writer_step_def)
      qed
    qed (use assms(1) False Cons in \<open>simp add: writer_step_def\<close>)
  qed (use assms(1) False in \<open>auto simp: echo_inv_def writer_step_def\<close>)
qed (use assms(1) in \<open>simp add: writer_step_def\<close>)

lemma writes_left: "set (lb_writes (writer_step s)) \<subseteq> set (lb_writes s)" "lb_writes (reader_step s) = lb_writes s"
  by (auto simp: writer_step_def reader_step_def split: list.splits sum.splits)

lemma loopback_run_echo:
  "echo_inv all clean s \<Longrightarrow> (clean \<Longrightarrow> \<forall>w\<in>set (lb_writes s). w = Inr ()) \<Longrightarrow> echo_inv all clean (loopback_run sched s)"
proof (induction sched s rule: loopback_run.induct)
  case (2 reader sched s)
  show ?case
  proof (cases reader)
    case True
    with 2 show ?thesis by (simp add: reader_step_echo writes_left)
  next
    case False
    have "clean \<Longrightarrow> \<forall>w\<in>set (lb_writes (writer_step s)). w = Inr ()"
      using 2(3) writes_left(1) [of s] by blast
    with False 2 show ?thesis by (simp add: writer_step_echo)
  qed
qed simp

text \<open>A host name: non-empty labels over the name characters, the last one not a number.\<close>

definition host_name :: "string \<Rightarrow> bool" where
  "host_name n \<longleftrightarrow> (\<exists>labels. labels \<noteq> [] \<and> without_root_dot n = join_with CHR ''.'' labels
     \<and> (\<forall>l\<in>set labels. l \<noteq> [] \<and> CHR ''.'' \<notin> set l \<and> is_dns_charset l) \<and> \<not> list_all is_digit (last labels))"

lemma dns_charset_join:
  "is_dns_charset (join_with CHR ''.'' ws) \<longleftrightarrow> (\<forall>w\<in>set ws. is_dns_charset w)"
  by (induction "CHR ''.''" ws rule: join_with.induct) (auto simp: is_dns_charset_def)

lemma dns_entry_problem_iff: "dns_entry_problem n = None \<longleftrightarrow> host_name n"
proof -
  let ?n = "without_root_dot n" and ?ls = "split_on CHR ''.'' (without_root_dot n)"
  have j: "join_with CHR ''.'' ?ls = ?n" by simp
  have cs: "is_dns_charset ?n \<longleftrightarrow> (\<forall>l\<in>set ?ls. is_dns_charset l)"
    using dns_charset_join [of ?ls] by simp
  have none: "dns_entry_problem n = None \<longleftrightarrow>
      ?n \<noteq> [] \<and> is_dns_charset ?n \<and> (\<forall>l\<in>set ?ls. l \<noteq> []) \<and> \<not> list_all is_digit (last ?ls)"
    by (auto simp: dns_entry_problem_def Let_def list_ex_iff)
  show ?thesis
  proof
    assume "dns_entry_problem n = None"
    with none cs show "host_name n"
      unfolding host_name_def by (intro exI [of _ ?ls]) (auto dest: split_on_no_sep)
  next
    assume "host_name n"
    then obtain labels where l: "labels \<noteq> []" "?n = join_with CHR ''.'' labels"
        "\<And>l. l \<in> set labels \<Longrightarrow> l \<noteq> [] \<and> CHR ''.'' \<notin> set l \<and> is_dns_charset l"
        "\<not> list_all is_digit (last labels)"
      unfolding host_name_def by blast
    have sp: "?ls = labels" unfolding l(2) using l(1,3) by (intro split_join) auto
    have "?n \<noteq> []" using sp l(1,3) by (cases labels) auto
    with l cs sp none show "dns_entry_problem n = None" by simp
  qed
qed

end
