(* ===== verification/Session_Server.thy ===== *)
theory Session_Server
  imports Session_Admission
begin

text \<open>
  The properties of the session server: its target patterns, the terms of admission, the
  allow list, what it bridges to, and the loopback service. \<open>plain_codec\<close> instantiates the
  text forms of the other crates, so that the laws of \<open>target_text\<close> have a model: service
  ids and protocols as documented, an IPv6 address written as two colons and a number, a
  network as an IPv4 address and a prefix length.
\<close>

section \<open>An instance of the text forms\<close>

definition ipv4_value :: "ipv4 \<Rightarrow> nat" where
  "ipv4_value = (\<lambda>(a, b, c, d). ((unat a * 256 + unat b) * 256 + unat c) * 256 + unat d)"

definition plain_codec :: "(u64, ipv4 \<times> u8) text_codec" where
  "plain_codec =
    \<lparr>parse_service = (\<lambda>s. map_err int_error_text (map_ok word_of_nat (parse_unsigned (2 ^ 32 - 1) s))),
     show_service = (\<lambda>i. digits (unat i)),
     parse_protocol = (\<lambda>s. if lower s = ''tcp'' then Some TCP else if lower s = ''udp'' then Some UDP else None),
     show_protocol = (\<lambda>q. case q of TCP \<Rightarrow> ''tcp'' | UDP \<Rightarrow> ''udp''),
     parse_v6 = (\<lambda>s. case strip_pre ''::'' s of
        Some t \<Rightarrow> map_option word_of_nat (res_ok (parse_digits (2 ^ 64 - 1) 0 t)) | None \<Rightarrow> None),
     show_v6 = (\<lambda>a. ''::'' @ digits (unat a)),
     parse_net = (\<lambda>s. ok_or ''invalid IP address syntax''
        (case split_once CHR ''/'' s of
           Some (a, l) \<Rightarrow> (case (parse_ipv4 a, parse_unsigned 255 l) of
              (Some b, Inr n) \<Rightarrow> Some (b, word_of_nat n) | _ \<Rightarrow> None)
         | None \<Rightarrow> None)),
     show_net = (\<lambda>(a, l). show_ipv4 a @ ''/'' @ digits (unat l)),
     net_contains = (\<lambda>(a, l) b. case b of
        V4 c \<Rightarrow> ipv4_value a div 2 ^ (32 - unat l) = ipv4_value c div 2 ^ (32 - unat l) | V6 _ \<Rightarrow> False)\<rparr>"

lemma parse_unsigned_word:
  fixes w :: "'a::len word"
  assumes "k + 1 = 2 ^ LENGTH('a)"
  shows "map_ok word_of_nat (parse_unsigned k (digits (unat w))) = Inr w"
    and "map_ok word_of_nat (parse_digits k 0 (digits (unat w))) = Inr w"
proof -
  have "unat w \<le> k" using unat_less_len [of w] assms by linarith
  then show "map_ok word_of_nat (parse_unsigned k (digits (unat w))) = Inr w"
    "map_ok word_of_nat (parse_digits k 0 (digits (unat w))) = Inr w"
    by (simp_all add: text_simps)
qed

interpretation plain_text: target_text plain_codec
proof
  show "parse_service plain_codec (show_service plain_codec i) = Inr i" for i
    using parse_unsigned_word(1) [of "2 ^ 32 - 1" i] by (simp add: plain_codec_def)
  have "digits (unat i) \<noteq> ''*''" for i :: u32 by (metis digits_not_mem(4) list.set_intros(1))
  then show "show_service plain_codec i \<noteq> [] \<and> show_service plain_codec i \<noteq> ''*''
      \<and> plain (last (show_service plain_codec i))" for i
    using plain_hd_last_digits by (simp add: plain_codec_def)
  show "parse_protocol plain_codec (show_protocol plain_codec q) = Some q" for q
    by (cases q) (simp_all add: plain_codec_def to_lower_def)
  show "show_protocol plain_codec q \<noteq> [] \<and> plain (hd (show_protocol plain_codec q))
      \<and> CHR '':'' \<notin> set (show_protocol plain_codec q) \<and> show_protocol plain_codec q \<noteq> ''*''
      \<and> \<not> eq_ignore_case (show_protocol plain_codec q) ''service''" for q
    by (cases q) (simp_all add: plain_codec_def plain_def eq_ignore_case_def)
  show "parse_v6 plain_codec (show_v6 plain_codec a) = Some a" for a
  proof -
    have "unat a \<le> 2 ^ 64 - 1" using unat_le_cap [of a] by simp
    then show ?thesis by (simp add: plain_codec_def text_simps strip_pre_def)
  qed
  show "CHR '':'' \<in> set (show_v6 plain_codec a) \<and> CHR ''/'' \<notin> set (show_v6 plain_codec a)" for a
    by (simp add: plain_codec_def)
  show "parse_net plain_codec (show_net plain_codec n) = Inr n" for n
  proof (cases n)
    case (Pair a l)
    have "CHR ''/'' \<notin> set (show_ipv4 a)"
      using show_ipv4_chars(1) [of "CHR ''/''" a] by (auto simp: is_digit_def)
    moreover have "unat l \<le> 255" using unat_le_cap [of l] by simp
    ultimately show ?thesis using Pair by (simp add: plain_codec_def text_simps)
  qed
  show "CHR ''/'' \<in> set (show_net plain_codec n) \<and> hd (show_net plain_codec n) \<noteq> CHR ''*''" for n
  proof (cases n)
    case (Pair a l)
    have "hd (show_ipv4 a) \<in> set (show_ipv4 a)" using show_ipv4_chars(2) [of a] by simp
    then have "is_digit (hd (show_ipv4 a)) \<or> hd (show_ipv4 a) = CHR ''.''" by (rule show_ipv4_chars)
    then show ?thesis using Pair show_ipv4_chars(2) [of a]
      by (auto simp: plain_codec_def is_digit_def)
  qed
qed

named_theorems text_eval \<open>evaluation of the text functions on concrete strings\<close>

lemma trim_eval [text_eval]: "s \<noteq> [] \<Longrightarrow> plain (hd s) \<Longrightarrow> plain (last s) \<Longrightarrow> trim s = s"
  by (rule trim_plain)

lemmas [text_eval] = from_str_def plain_def rsplit_once_def eq_ignore_case_def parse_protocol_pattern_def
  parse_port_pattern_def parse_u16_def parse_unsigned_def digit_val_def is_digit_def is_alpha_def
  parse_host_pattern_def strip_pre_def strip_suf_def bracketed_def parse_addr_def parse_ipv4_def
  parse_octet_def plain_codec_def dns_name_def without_root_dot_def is_dns_charset_def to_lower_def
  same_name_def Let_def char_of_def bit_0

section \<open>Properties\<close>

text \<open>
  C21. A target pattern survives its text. Whatever string the parser accepts, in whatever
  spelling, printing the pattern and parsing the print gives the same pattern again; the
  exceptions are a name that is the text of an IP address and a name that still ends in a
  dot.
\<close>

theorem pattern_round_trip:
  assumes "target_text C" and "from_str C s = Inr p" and "\<not> ambiguous C p"
  shows "from_str C (show_pattern C p) = Inr p"
  using assms from_str_ok by (blast intro: target_text.parse_show)

theorem pattern_round_trip_witness:
  "from_str plain_codec ''TCP:*.Example.COM.:+443'' =
      Inr (StreamPattern (OnlyProtocol TCP) (SubdomainHost ''example.com'') (ExactPort 443)) \<and>
   from_str plain_codec (show_pattern plain_codec
      (StreamPattern (OnlyProtocol TCP) (SubdomainHost ''example.com'') (ExactPort 443))) =
      Inr (StreamPattern (OnlyProtocol TCP) (SubdomainHost ''example.com'') (ExactPort 443))"
proof -
  have 1: "from_str plain_codec ''TCP:*.Example.COM.:+443'' =
      Inr (StreamPattern (OnlyProtocol TCP) (SubdomainHost ''example.com'') (ExactPort 443))"
    by (simp add: text_eval)
  have "\<not> ambiguous plain_codec (StreamPattern (OnlyProtocol TCP) (SubdomainHost ''example.com'') (ExactPort 443))"
    by simp
  from pattern_round_trip [OF plain_text.target_text_axioms 1 this] 1 show ?thesis by blast
qed

text \<open>
  A pattern whose name is an address after the root dot is dropped does not survive its
  text. It selects the name; the printed form is read back as the address, which selects
  other targets. A rule stored and loaded again no longer applies to the peer that asked for
  the name.
\<close>

theorem pattern_text_ambiguous:
  "\<exists>p q. from_str plain_codec ''tcp:10.0.0.1.:443'' = Inr p \<and>
     from_str plain_codec (show_pattern plain_codec p) = Inr q \<and>
     target_matches (net_contains plain_codec) p (StreamTarget TCP (Dns ''10.0.0.1.'' 443)) \<and>
     \<not> target_matches (net_contains plain_codec) q (StreamTarget TCP (Dns ''10.0.0.1.'' 443)) \<and>
     target_matches (net_contains plain_codec) q (StreamTarget TCP (IpHost (SockV4 (10, 0, 0, 1) 443)))"
proof (intro exI conjI)
  show "from_str plain_codec ''tcp:10.0.0.1.:443'' =
      Inr (StreamPattern (OnlyProtocol TCP) (NameHost ''10.0.0.1'') (ExactPort 443))"
    by (simp add: text_eval)
  have "digits 443 = ''443''" by (simp add: digits.simps char_of_def bit_0)
  then show "from_str plain_codec (show_pattern plain_codec
      (StreamPattern (OnlyProtocol TCP) (NameHost ''10.0.0.1'') (ExactPort 443))) =
      Inr (StreamPattern (OnlyProtocol TCP) (AddressHost (V4 (10, 0, 0, 1))) (ExactPort 443))"
    by (simp add: text_eval)
qed (simp_all add: text_eval)

text \<open>
  The terms of a session do not depend on how the peer spells the name of its target.
  For all rules, two names that differ in case or in one root dot get the same decision,
  over TCP and over UDP.
\<close>

theorem admission_ignores_spelling:
  assumes "same_name m n"
    and "env_unseal env h = Inr (Dns m port)" and "env_unseal env k = Inr (Dns n port)"
  shows "admit contains cfg env (TcpStream h) = admit contains cfg env (TcpStream k) \<and>
    admit contains cfg env (UdpStream h) = admit contains cfg env (UdpStream k)"
  using assms target_matches_same_name [OF assms(1), of contains]
  by (simp add: admit_def unsealed_new_def)

definition sample_env :: "(string \<times> nat, u64) exit_env" where
  "sample_env = \<lparr>env_spawn = Inr (),
     env_unseal = (\<lambda>(n, p). if n = [] then Inl ''no key'' else Inr (Dns n (word_of_nat p))),
     env_resolve = (\<lambda>h. case h of
        Dns n p \<Rightarrow> if lower (without_root_dot n) = ''exit.example'' then Inr [SockV4 (10, 0, 0, 1) p, SockV4 (10, 0, 0, 2) p]
                   else Inl ''no such name''
      | IpHost a \<Rightarrow> Inr [a]),
     env_udp_bind = (\<lambda>_ _. Inr ()), env_tcp_connect = (\<lambda>_ _ _. Inr ()), env_nodelay = Inr (),
     env_show_host = (\<lambda>_. ''host''), env_show_sock = (\<lambda>_. ''address''), env_show_socks = (\<lambda>_. ''addresses'')\<rparr>"

definition paid_rule :: "(u64, ipv4 \<times> u8) admission_rule" where
  "paid_rule = \<lparr>ar_target = StreamPattern AnyProtocol (SubdomainHost ''example'') AnyPort,
     ar_enforce_pix = Some True, ar_quota_min = Some 10, ar_quota_max = None\<rparr>"

definition sample_config :: "(u64, ipv4 \<times> u8) forward_config" where
  "sample_config = default_config\<lparr>allow_list := [Dns ''EXIT.example.'' 443], admission_rules := [paid_rule]\<rparr>"

theorem admission_ignores_spelling_witness:
  "admit (net_contains plain_codec) sample_config sample_env (TcpStream (''exit.example'', 443)) =
     admit (net_contains plain_codec) sample_config sample_env (TcpStream (''Exit.EXAMPLE.'', 443))"
proof -
  have s: "same_name ''exit.example'' ''Exit.EXAMPLE.''" by (simp add: text_eval)
  have u: "env_unseal sample_env (''exit.example'', 443) = Inr (Dns ''exit.example'' 443)"
    "env_unseal sample_env (''Exit.EXAMPLE.'', 443) = Inr (Dns ''Exit.EXAMPLE.'' 443)"
    by (simp_all add: sample_env_def)
  show ?thesis using admission_ignores_spelling [OF s u] by blast
qed

text \<open>
  The first rule that matches decides. With the rules before it not matching, the
  decision has exactly the terms the rule states: its payment flag, and a quota range exactly
  when it bounds the quota, which then contains the quotas within the bounds. For a rule the
  configuration check accepts, that range is never empty.
\<close>

theorem admission_first_match:
  assumes "env_spawn env = Inr ()" and "unsealed_new (env_unseal env) request = Inr target"
    and "admission_rules cfg = pre @ rule # post"
    and "\<And>r. r \<in> set pre \<Longrightarrow> \<not> target_matches contains (ar_target r) target"
    and "target_matches contains (ar_target rule) target"
    and "validate_rule_quota C rule = Inr ()"
  shows "\<exists>d. admit contains cfg env request = Inr d \<and> d_enforce_pix d = ar_enforce_pix rule \<and>
    (d_quota_range d = None \<longleftrightarrow> ar_quota_min rule = None \<and> ar_quota_max rule = None) \<and>
    (\<forall>lo hi. d_quota_range d = Some (lo, hi) \<longrightarrow> lo \<le> hi \<and>
       (\<forall>q. lo \<le> q \<and> q \<le> hi \<longleftrightarrow> (\<forall>b. ar_quota_min rule = Some b \<longrightarrow> b \<le> q) \<and> (\<forall>b. ar_quota_max rule = Some b \<longrightarrow> q \<le> b)))"
proof -
  have "List.find (\<lambda>r. target_matches contains (ar_target r) target) (pre @ rule # post) = Some rule"
    using assms(4,5) by (induction pre) auto
  then have adm: "admit contains cfg env request = Inr (rule_decision rule)"
    using assms(1-3) by (simp add: admit_def)
  show ?thesis
    by (rule exI [of _ "rule_decision rule"], unfold adm)
      (use assms(6) in \<open>auto simp: rule_decision_def default_decision_def validate_rule_quota_def Let_def
         split: option.splits if_splits\<close>)
qed

theorem admission_first_match_witness:
  "\<exists>d. admit (net_contains plain_codec) sample_config sample_env (TcpStream (''exit.example'', 443)) = Inr d \<and>
     d_enforce_pix d = Some True \<and> d_quota_range d = Some (10, - 1)"
proof -
  have s: "env_spawn sample_env = Inr ()" by (simp add: sample_env_def)
  have u: "unsealed_new (env_unseal sample_env) (TcpStream (''exit.example'', 443)) =
      Inr (StreamTarget TCP (Dns ''exit.example'' 443) :: u64 unsealed_target)"
    by (simp add: sample_env_def unsealed_new_def)
  have r: "admission_rules sample_config = [] @ paid_rule # []" by (simp add: sample_config_def)
  have m: "target_matches (net_contains plain_codec) (ar_target paid_rule) (StreamTarget TCP (Dns ''exit.example'' 443))"
    by (simp add: paid_rule_def subdomain_matches_def text_eval)
  have v: "validate_rule_quota plain_codec paid_rule = Inr ()" by (simp add: validate_rule_quota_def paid_rule_def)
  have e: "admit (net_contains plain_codec) sample_config sample_env (TcpStream (''exit.example'', 443)) =
      Inr (rule_decision paid_rule)"
    using s u m r by (simp add: admit_def)
  show ?thesis using admission_first_match [OF s u r _ m v] e
    by (auto simp: rule_decision_def default_decision_def paid_rule_def)
qed

text \<open>
  C20. Nothing reaches an address the operator did not allow. With the allow list in force, a
  session is bridged only to addresses the resolver gave for its very target, the first one
  for UDP and all of them for TCP, and either the list names the target on its port, up to
  case and root dot, or each of these addresses is on the list or one of its names resolves
  to it; the loopback service is the only other one.
\<close>

theorem bridge_only_allowed:
  assumes "process cfg env target = Inr b" and "use_allow_list cfg"
  shows "case b of
      LoopbackBridge \<Rightarrow> target = ExitNode 0
    | UdpBridge addr \<Rightarrow> (\<exists>h host addrs. target = UdpStream h \<and> env_unseal env h = Inr host \<and>
        env_resolve env host = Inr addrs \<and> addrs \<noteq> [] \<and> addr = hd addrs \<and>
        (target_named (allow_list cfg) host \<or> address_listed (env_resolve env) (allow_list cfg) addr))
    | TcpBridge addrs \<Rightarrow> (\<exists>h host. target = TcpStream h \<and> env_unseal env h = Inr host \<and>
        env_resolve env host = Inr addrs \<and>
        (target_named (allow_list cfg) host \<or> (\<forall>a\<in>set addrs. address_listed (env_resolve env) (allow_list cfg) a)))"
proof (cases target)
  case (UdpStream h)
  with assms(1) obtain host addr rest where u: "env_unseal env h = Inr host"
      "env_resolve env host = Inr (addr # rest)" "fst (is_allowed cfg (env_resolve env) host [addr])" "b = UdpBridge addr"
    by (auto simp: process_def process_udp_def and_then_Inr_iff neq_Nil_conv split: list.splits if_splits)
  from is_allowed_sound [OF u(3) assms(2)] u UdpStream show ?thesis by auto
next
  case (TcpStream h)
  with assms(1) obtain host addrs where t: "env_unseal env h = Inr host"
      "env_resolve env host = Inr addrs" "fst (is_allowed cfg (env_resolve env) host addrs)" "b = TcpBridge addrs"
    by (auto simp: process_def process_tcp_def and_then_Inr_iff split: if_splits)
  from is_allowed_sound [OF t(3) assms(2)] t TcpStream show ?thesis by auto
next
  case (ExitNode i)
  then show ?thesis using assms by (auto simp: process_def split: if_splits)
qed

theorem bridge_only_allowed_witness:
  "process sample_config sample_env (UdpStream (''exit.example'', 443)) = Inr (UdpBridge (SockV4 (10, 0, 0, 1) 443)) \<and>
   (\<exists>host. env_unseal sample_env (''exit.example'', 443) = Inr host \<and> target_named (allow_list sample_config) host)"
proof -
  have p: "process sample_config sample_env (UdpStream (''exit.example'', 443)) = Inr (UdpBridge (SockV4 (10, 0, 0, 1) 443))"
    by (simp add: process_def process_udp_def sample_env_def is_allowed_def sample_config_def default_config_def text_eval)
  have u: "use_allow_list sample_config" by (simp add: sample_config_def default_config_def)
  have "\<not> address_listed (env_resolve sample_env) [] (SockV4 (10, 0, 0, 1) 443)" by (simp add: address_listed_def)
  have n: "target_named (allow_list sample_config) (Dns ''exit.example'' 443)"
    by (simp add: target_named_def sample_config_def text_eval)
  from bridge_only_allowed [OF p u] obtain host where "env_unseal sample_env (''exit.example'', 443) = Inr host" by auto
  with p n show ?thesis by (auto simp: sample_env_def)
qed

text \<open>
  The allow list decides exactly what it says, in whatever order it is iterated. Where
  the resolver answers a name with addresses on the name's own port, a target is allowed if
  and only if the list is off, names it, or accounts for every resolved address; and lookups
  are made only of listed names on the port of a resolved address, none when the literal
  entries settle the matter.
\<close>

theorem allow_list_exact:
  assumes "\<And>n port as a. resolve (Dns n port) = Inr as \<Longrightarrow> a \<in> set as \<Longrightarrow> sock_port a = port"
  shows "(fst (is_allowed cfg resolve target resolved) \<longleftrightarrow>
      \<not> use_allow_list cfg \<or> target_named (allow_list cfg) target \<or>
      (\<forall>a\<in>set resolved. address_listed resolve (allow_list cfg) a)) \<and>
    (\<forall>e\<in>set (snd (is_allowed cfg resolve target resolved)).
      e \<in> set (allow_list cfg) \<and> is_dns e \<and> host_port e \<in> sock_port ` set resolved) \<and>
    ((\<forall>a\<in>set resolved. IpHost a \<in> set (allow_list cfg)) \<longrightarrow> snd (is_allowed cfg resolve target resolved) = [])"
proof (intro conjI)
  show "fst (is_allowed cfg resolve target resolved) \<longleftrightarrow>
      \<not> use_allow_list cfg \<or> target_named (allow_list cfg) target \<or>
      (\<forall>a\<in>set resolved. address_listed resolve (allow_list cfg) a)"
  proof (cases "use_allow_list cfg")
    case True
    have "target_named (allow_list cfg) target \<or> (\<forall>a\<in>set resolved. address_listed resolve (allow_list cfg) a)
        \<Longrightarrow> fst (is_allowed cfg resolve target resolved)"
      by (rule is_allowed_complete) (use assms in blast)+
    with True show ?thesis using is_allowed_sound [of cfg resolve target resolved] by blast
  qed (simp add: is_allowed_def Let_def)
qed (auto simp: is_allowed_def Let_def wanted_names_def list_ex_iff list_all_iff split: if_splits,
     metis image_eqI)

theorem allow_list_exact_witness:
  "fst (is_allowed sample_config (env_resolve sample_env) (IpHost (SockV4 (10, 0, 0, 2) 443)) [SockV4 (10, 0, 0, 2) 443])"
proof -
  have p: "sock_port a = port" if "env_resolve sample_env (Dns n port) = Inr as" "a \<in> set as" for n port as a
    using that by (auto simp: sample_env_def split: if_splits)
  have "address_listed (env_resolve sample_env) (allow_list sample_config) (SockV4 (10, 0, 0, 2) 443)"
    by (simp add: address_listed_def sample_config_def sample_env_def text_eval)
  then show ?thesis
    using allow_list_exact [of "env_resolve sample_env" sample_config "IpHost (SockV4 (10, 0, 0, 2) 443)"
        "[SockV4 (10, 0, 0, 2) 443]", OF p] by simp
qed

text \<open>
  The configuration check accepts a name of the allow list exactly when it is a host
  name: non-empty labels over the characters of names, the last of them not a number, and
  perhaps one root dot.
\<close>

theorem allow_entry_names:
  "entry_problem show_host (Dns n port) = None \<longleftrightarrow> host_name n"
  by (simp add: entry_problem_def dns_entry_problem_iff)

text \<open>
  The loopback service echoes. However the two tasks are scheduled and however the
  writes end, what was written is a prefix of what was read up to the first error or the end
  of the stream; and if no write failed, all of it was written once the writer has ended.
\<close>

theorem loopback_echoes:
  "prefix (lb_output (loopback_run sched (loopback_new ins outs))) (input_bytes ins) \<and>
   ((\<forall>w\<in>set outs. w = Inr ()) \<and> lb_write_done (loopback_run sched (loopback_new ins outs)) \<longrightarrow>
      lb_output (loopback_run sched (loopback_new ins outs)) = input_bytes ins)"
proof -
  have i: "echo_inv (input_bytes ins) c (loopback_new ins outs)" for c
    by (simp add: echo_inv_def loopback_new_def)
  have "echo_inv (input_bytes ins) False (loopback_run sched (loopback_new ins outs))"
    by (rule loopback_run_echo [OF i]) simp
  moreover have "\<forall>w\<in>set outs. w = Inr () \<Longrightarrow> echo_inv (input_bytes ins) True (loopback_run sched (loopback_new ins outs))"
    by (rule loopback_run_echo [OF i]) (simp add: loopback_new_def)
  moreover have "echo_inv (input_bytes ins) c s \<Longrightarrow> prefix (lb_output s) (input_bytes ins)" for c s
    by (auto simp: echo_inv_def prefix_def intro: sym)
  ultimately show ?thesis by (auto simp: echo_inv_def)
qed

theorem loopback_echoes_witness:
  "lb_output (loopback_run [True, True, False, True, False, False, False]
     (loopback_new [Inr [1, 2], Inr [3], Inr []] [Inr (), Inr ()])) = [1, 2, 3]"
  using loopback_echoes [of "[True, True, False, True, False, False, False]" "[Inr [1, 2], Inr [3], Inr []]" "[Inr (), Inr ()]"]
  by (simp add: loopback_new_def reader_step_def writer_step_def)

end
