(* ===== verification/P2p_Discovery.thy ===== *)
theory P2p_Discovery
  imports Hopr_Base
begin

text \<open>
  The discovery behaviour of the peer-to-peer transport
  (\<open>transport/p2p/src/behavior/discovery.rs\<close>): announcements of peers come in from the
  chain, dials go out with an exponential backoff. The state is \<open>behaviour\<close>; the operations
  are \<open>on_swarm_event\<close>, \<open>handle_pending_outbound\<close> and \<open>poll\<close>. The backoff iterator
  (crate \<open>backon\<close>), the test for a public address and the swarm itself are parameters; time
  is a number. A binary heap releases entries of the same instant in any order; here it is
  the list of its entries by release time, first come first served among equals.
\<close>

section \<open>State\<close>

record 'p delayed =
  release_at :: nat
  dl_item :: 'p

datatype ('p, 'a) to_swarm =
    NewExternalAddr 'p 'a
  | Dial 'p "'a list"

text \<open>What is fixed in the environment: the backoff iterator and the address filter.\<close>

record ('a, 'b) dial_env =
  de_initial :: 'b
  de_next :: "'b \<Rightarrow> nat option \<times> 'b"
  de_public :: "'a \<Rightarrow> bool"

record ('p, 'a, 'b) behaviour =
  bh_me :: 'p
  bh_pending :: "('p, 'a) to_swarm list"
  bh_bootstrap :: "'p \<Rightarrow> 'a list option"
  bh_allow_private :: bool
  bh_connected :: "'p \<Rightarrow> nat option"
  bh_dials :: "'p delayed list"
  bh_queued :: "'p set"
  bh_not_connected :: "'p \<Rightarrow> 'b option"
  bh_timer :: "nat option"

definition bh_new :: "'p \<Rightarrow> bool \<Rightarrow> ('p, 'a, 'b) behaviour" where
  "bh_new me allow_private = \<lparr>bh_me = me, bh_pending = [], bh_bootstrap = (\<lambda>_. None),
     bh_allow_private = allow_private, bh_connected = (\<lambda>_. None), bh_dials = [], bh_queued = {},
     bh_not_connected = (\<lambda>_. None), bh_timer = None\<rparr>"

section \<open>Helpers of the behaviour\<close>

definition addr_allowed :: "('a, 'b) dial_env \<Rightarrow> bool \<Rightarrow> 'a \<Rightarrow> bool" where
  "addr_allowed E allow_private a \<longleftrightarrow> allow_private \<or> de_public E a"

definition dialable_addresses :: "('a, 'b) dial_env \<Rightarrow> ('p, 'a, 'b) behaviour \<Rightarrow> 'a list \<Rightarrow> 'a list" where
  "dialable_addresses E s addrs = filter (addr_allowed E (bh_allow_private s)) addrs"

definition has_known_address :: "('p, 'a, 'b) behaviour \<Rightarrow> 'p \<Rightarrow> bool" where
  "has_known_address s p = (case bh_bootstrap s p of None \<Rightarrow> False | Some addrs \<Rightarrow> addrs \<noteq> [])"

definition cancel_dial :: "'p \<Rightarrow> ('p, 'a, 'b) behaviour \<Rightarrow> ('p, 'a, 'b) behaviour" where
  "cancel_dial p s = s\<lparr>bh_not_connected := (bh_not_connected s)(p := None),
     bh_queued := bh_queued s - {p}, bh_dials := filter (\<lambda>d. dl_item d \<noteq> p) (bh_dials s)\<rparr>"

definition push_dial :: "'p delayed \<Rightarrow> 'p delayed list \<Rightarrow> 'p delayed list" where
  "push_dial d ds = insort_key release_at d ds"

text \<open>Without a next duration the code waits ten seconds; the unit of time is a millisecond.\<close>

definition schedule_dial_with :: "('a, 'b) dial_env \<Rightarrow> nat \<Rightarrow> 'p \<Rightarrow> 'b \<Rightarrow> ('p, 'a, 'b) behaviour \<Rightarrow> ('p, 'a, 'b) behaviour" where
  "schedule_dial_with E now p backoff s =
     (if \<not> has_known_address s p \<or> p \<in> bh_queued s then s
      else case de_next E backoff of (duration, backoff') \<Rightarrow>
        s\<lparr>bh_not_connected := (bh_not_connected s)(p \<mapsto> backoff'),
          bh_queued := insert p (bh_queued s),
          bh_dials := push_dial \<lparr>release_at = now + unwrap_or 10000 duration, dl_item = p\<rparr> (bh_dials s)\<rparr>)"

section \<open>Events of the swarm\<close>

datatype 'p from_swarm =
    Established 'p
  | Closed 'p
  | DialFailure "'p option" bool
  | OtherEvent

text \<open>The flag of a dial failure says that it is \<open>DialError::NoAddresses\<close>.\<close>

definition on_swarm_event :: "('a, 'b) dial_env \<Rightarrow> nat \<Rightarrow> 'p from_swarm \<Rightarrow> ('p, 'a, 'b) behaviour \<Rightarrow> ('p, 'a, 'b) behaviour" where
  "on_swarm_event E now ev s =
     (case ev of
        Established p \<Rightarrow>
          cancel_dial p (s\<lparr>bh_connected := (bh_connected s)(p \<mapsto> unwrap_or 0 (bh_connected s p) + 1)\<rparr>)
      | Closed p \<Rightarrow>
          (let v = unwrap_or 0 (bh_connected s p);
               v = (if v > 0 then v - 1 else v);
               s = s\<lparr>bh_connected := (bh_connected s)(p \<mapsto> v)\<rparr>
           in if v = 0 then
                (let s = s\<lparr>bh_connected := (bh_connected s)(p := None)\<rparr>
                 in if bh_not_connected s p = None then schedule_dial_with E now p (de_initial E) s else s)
              else s)
      | DialFailure (Some p) no_addresses \<Rightarrow>
          (if bh_connected s p \<noteq> None \<or> no_addresses \<or> \<not> has_known_address s p then cancel_dial p s
           else if p \<notin> bh_queued s then
             (let backoff = unwrap_or (de_initial E) (bh_not_connected s p);
                  s = s\<lparr>bh_not_connected := (bh_not_connected s)(p := None)\<rparr>
              in schedule_dial_with E now p backoff s)
           else s)
      | DialFailure None _ \<Rightarrow> s
      | OtherEvent \<Rightarrow> s)"

definition handle_pending_outbound :: "'p option \<Rightarrow> ('p, 'a, 'b) behaviour \<Rightarrow> 'a list" where
  "handle_pending_outbound maybe_peer s =
     (case maybe_peer of Some p \<Rightarrow> unwrap_or [] (bh_bootstrap s p) | None \<Rightarrow> [])"

section \<open>Polling\<close>

datatype ('p, 'a) announce = Announce 'p "'a list"

text \<open>What polling the stream of announcements gives: nothing yet, its end, or the next one.\<close>

datatype ('p, 'a) announce_poll = StreamPending | StreamEnd | StreamNext "('p, 'a) announce"

definition on_announce :: "('a, 'b) dial_env \<Rightarrow> nat \<Rightarrow> ('p, 'a) announce \<Rightarrow> ('p, 'a, 'b) behaviour \<Rightarrow> ('p, 'a, 'b) behaviour" where
  "on_announce E now an s =
     (case an of Announce p addrs \<Rightarrow>
        if p = bh_me s then s
        else (let addrs = dialable_addresses E s addrs;
                  s = s\<lparr>bh_pending := bh_pending s @ map (NewExternalAddr p) addrs\<rparr>
              in if addrs = [] then s
                 else (let s = s\<lparr>bh_bootstrap := (bh_bootstrap s)(p \<mapsto> addrs)\<rparr>
                       in if bh_connected s p = None \<and> bh_not_connected s p = None
                          then schedule_dial_with E now p (de_initial E) s else s)))"

lemma length_cancel_dial [simp]: "length (bh_dials (cancel_dial p s)) \<le> length (bh_dials s)"
  by (simp add: cancel_dial_def)

text \<open>The loop that turns the dials that fell due into events.\<close>

function dispatch_due :: "nat \<Rightarrow> ('p, 'a, 'b) behaviour \<Rightarrow> ('p, 'a, 'b) behaviour" where
  "dispatch_due now s =
     (case bh_dials s of
        [] \<Rightarrow> s
      | d # rest \<Rightarrow>
          if \<not> release_at d \<le> now then s
          else (let p = dl_item d;
                    s = s\<lparr>bh_dials := rest, bh_queued := bh_queued s - {p}\<rparr>
                in if bh_not_connected s p = None then dispatch_due now s
                   else if \<not> has_known_address s p then dispatch_due now (cancel_dial p s)
                   else dispatch_due now (s\<lparr>bh_pending := bh_pending s @ [Dial p (the (bh_bootstrap s p))]\<rparr>)))"
  by pat_completeness auto
termination
proof (relation "measure (\<lambda>(now, s). length (bh_dials s))", goal_cases)
  case (3 now s d rest p s')
  then show ?case using length_cancel_dial [of p s'] by simp
qed auto

declare dispatch_due.simps [simp del]

text \<open>
  The outcome of a poll: an event, or pending. A pending poll is woken when the stream has
  news, if the stream was asked last and had none; when the timer fires, if it is armed; or
  at once, if the timer has fired already.
\<close>

datatype ('p, 'a) poll_outcome =
    Ready "('p, 'a) to_swarm"
  | Pending (stream_registered: bool) (timer_armed: "nat option") (woken: bool)

text \<open>\<open>elapsed\<close> says whether the timer is found to have fired.\<close>

definition arm_next_dial_timer :: "bool \<Rightarrow> ('p, 'a, 'b) behaviour \<Rightarrow> bool \<times> ('p, 'a, 'b) behaviour" where
  "arm_next_dial_timer elapsed s =
     (case bh_dials s of
        [] \<Rightarrow> (False, s\<lparr>bh_timer := None\<rparr>)
      | d # _ \<Rightarrow>
          (let s = (if bh_timer s = Some (release_at d) then s else s\<lparr>bh_timer := Some (release_at d)\<rparr>)
           in if elapsed then (True, s\<lparr>bh_timer := None\<rparr>) else (False, s)))"

definition poll :: "('a, 'b) dial_env \<Rightarrow> nat \<Rightarrow> nat \<Rightarrow> bool \<Rightarrow> ('p, 'a) announce_poll \<Rightarrow> ('p, 'a, 'b) behaviour
    \<Rightarrow> ('p, 'a) poll_outcome \<times> ('p, 'a, 'b) behaviour" where
  "poll E t now elapsed ext s =
     (case bh_pending s of
        ev # rest \<Rightarrow> (Ready ev, s\<lparr>bh_pending := rest\<rparr>)
      | [] \<Rightarrow>
        (let s = (case ext of StreamNext an \<Rightarrow> on_announce E t an s | _ \<Rightarrow> s)
         in if ext \<noteq> StreamPending \<and> bh_pending s \<noteq> [] then
              (Ready (hd (bh_pending s)), s\<lparr>bh_pending := tl (bh_pending s)\<rparr>)
            else
              (let s = dispatch_due now s
               in case bh_pending s of
                    ev # rest \<Rightarrow> (Ready ev, s\<lparr>bh_pending := rest\<rparr>)
                  | [] \<Rightarrow> (case arm_next_dial_timer elapsed s of
                      (fired, s) \<Rightarrow> (Pending (ext = StreamPending) (bh_timer s) fired, s)))))"

section \<open>Runs\<close>

text \<open>
  One step of the swarm, and runs from a new behaviour. \<open>ln_announced\<close> and \<open>ln_emitted\<close> are the
  announcements the behaviour consumed and the events it emitted; \<open>ln_flying\<close> holds the
  peers whose emitted dial has had no answer yet (a connection or a failure), and
  \<open>ln_gave_up\<close> those of which a dial failed for lack of addresses and which were not announced
  with a usable address since.
\<close>

datatype ('p, 'a) dstep =
    SwarmEvent nat "'p from_swarm"
  | Poll nat nat bool "('p, 'a) announce_poll"

record ('p, 'a, 'b) lnode =
  ln_bh :: "('p, 'a, 'b) behaviour"
  ln_announced :: "('p \<times> 'a list) list"
  ln_emitted :: "('p, 'a) to_swarm list"
  ln_flying :: "'p set"
  ln_gave_up :: "'p set"

definition ln_new :: "'p \<Rightarrow> bool \<Rightarrow> ('p, 'a, 'b) lnode" where
  "ln_new me allow_private = \<lparr>ln_bh = bh_new me allow_private, ln_announced = [], ln_emitted = [], ln_flying = {}, ln_gave_up = {}\<rparr>"

fun answered :: "'p from_swarm \<Rightarrow> 'p set" where
  "answered (Established p) = {p}"
| "answered (DialFailure (Some p) _) = {p}"
| "answered _ = {}"

fun gave_up :: "'p from_swarm \<Rightarrow> 'p set" where
  "gave_up (DialFailure (Some p) True) = {p}"
| "gave_up _ = {}"

definition consumed :: "('p, 'a) announce_poll \<Rightarrow> ('p, 'a, 'b) behaviour \<Rightarrow> ('p \<times> 'a list) list" where
  "consumed ext s = (case ext of
     StreamNext (Announce p addrs) \<Rightarrow> if bh_pending s = [] then [(p, addrs)] else [] | _ \<Rightarrow> [])"

definition lstep :: "('a, 'b) dial_env \<Rightarrow> ('p, 'a) dstep \<Rightarrow> ('p, 'a, 'b) lnode \<Rightarrow> ('p, 'a, 'b) lnode" where
  "lstep E st n =
     (case st of
        SwarmEvent now ev \<Rightarrow>
          n\<lparr>ln_bh := on_swarm_event E now ev (ln_bh n), ln_flying := ln_flying n - answered ev,
            ln_gave_up := ln_gave_up n \<union> gave_up ev\<rparr>
      | Poll t now elapsed ext \<Rightarrow>
          (case poll E t now elapsed ext (ln_bh n) of
             (out, s) \<Rightarrow>
               n\<lparr>ln_bh := s,
                 ln_announced := ln_announced n @ consumed ext (ln_bh n),
                 ln_gave_up := ln_gave_up n - {p. \<exists>(q, addrs)\<in>set (consumed ext (ln_bh n)).
                     q = p \<and> dialable_addresses E (ln_bh n) addrs \<noteq> []},
                 ln_emitted := (case out of Ready ev \<Rightarrow> ln_emitted n @ [ev] | Pending _ _ _ \<Rightarrow> ln_emitted n),
                 ln_flying := (case out of Ready (Dial p _) \<Rightarrow> insert p (ln_flying n) | _ \<Rightarrow> ln_flying n)\<rparr>))"

definition lrun :: "('a, 'b) dial_env \<Rightarrow> ('p, 'a) dstep list \<Rightarrow> ('p, 'a, 'b) lnode \<Rightarrow> ('p, 'a, 'b) lnode" where
  "lrun E steps n = foldl (\<lambda>n st. lstep E st n) n steps"

section \<open>Invariants\<close>

fun event_ok :: "('a, 'b) dial_env \<Rightarrow> bool \<Rightarrow> 'p \<Rightarrow> ('p \<times> 'a list) set \<Rightarrow> ('p, 'a) to_swarm \<Rightarrow> bool" where
  "event_ok E allow me A (NewExternalAddr p a) \<longleftrightarrow>
     p \<noteq> me \<and> addr_allowed E allow a \<and> (\<exists>addrs. (p, addrs) \<in> A \<and> a \<in> set addrs)"
| "event_ok E allow me A (Dial p as) \<longleftrightarrow>
     p \<noteq> me \<and> as \<noteq> [] \<and> (\<exists>addrs. (p, addrs) \<in> A \<and> as = filter (addr_allowed E allow) addrs)"

definition queue_inv :: "('p, 'a, 'b) behaviour \<Rightarrow> bool" where
  "queue_inv s \<longleftrightarrow> bh_queued s = dl_item ` set (bh_dials s) \<and> distinct (map dl_item (bh_dials s))
     \<and> sorted (map release_at (bh_dials s))"

definition peers_inv :: "('p, 'a, 'b) behaviour \<Rightarrow> bool" where
  "peers_inv s \<longleftrightarrow> (\<forall>p. (p \<in> bh_queued s \<longrightarrow> bh_not_connected s p \<noteq> None)
     \<and> (bh_not_connected s p \<noteq> None \<longrightarrow> has_known_address s p \<and> bh_connected s p = None)
     \<and> bh_connected s p \<noteq> Some 0)"

definition known_inv :: "('a, 'b) dial_env \<Rightarrow> ('p \<times> 'a list) set \<Rightarrow> ('p, 'a, 'b) behaviour \<Rightarrow> bool" where
  "known_inv E A s \<longleftrightarrow>
     (\<forall>p as. bh_bootstrap s p = Some as \<longrightarrow> event_ok E (bh_allow_private s) (bh_me s) A (Dial p as))
     \<and> (\<forall>ev\<in>set (bh_pending s). event_ok E (bh_allow_private s) (bh_me s) A ev)"

definition tracked_at :: "'p set \<Rightarrow> 'p set \<Rightarrow> ('p, 'a, 'b) behaviour \<Rightarrow> 'p \<Rightarrow> bool" where
  "tracked_at F G s p \<longleftrightarrow>
     (bh_not_connected s p \<noteq> None \<longrightarrow> p \<in> bh_queued s \<or> (\<exists>as. Dial p as \<in> set (bh_pending s)) \<or> p \<in> F)
     \<and> (has_known_address s p \<and> bh_connected s p = None \<and> p \<notin> G \<longrightarrow> bh_not_connected s p \<noteq> None)"

definition tracked_inv :: "'p set \<Rightarrow> 'p set \<Rightarrow> ('p, 'a, 'b) behaviour \<Rightarrow> bool" where
  "tracked_inv F G s \<longleftrightarrow> (\<forall>p. tracked_at F G s p)"

lemmas disc_invs = queue_inv_def peers_inv_def known_inv_def tracked_inv_def

lemma has_known_upd [simp]:
  "has_known_address (s\<lparr>bh_bootstrap := b\<rparr>) p = (case b p of None \<Rightarrow> False | Some as \<Rightarrow> as \<noteq> [])"
  "has_known_address (s\<lparr>bh_pending := pe\<rparr>) p = has_known_address s p"
  "has_known_address (s\<lparr>bh_connected := co\<rparr>) p = has_known_address s p"
  "has_known_address (s\<lparr>bh_dials := ds\<rparr>) p = has_known_address s p"
  "has_known_address (s\<lparr>bh_queued := q\<rparr>) p = has_known_address s p"
  "has_known_address (s\<lparr>bh_not_connected := nc\<rparr>) p = has_known_address s p"
  "has_known_address (s\<lparr>bh_timer := t\<rparr>) p = has_known_address s p"
  by (simp_all add: has_known_address_def)

lemma cancel_dial_sel [simp]:
  "bh_me (cancel_dial p s) = bh_me s" "bh_pending (cancel_dial p s) = bh_pending s"
  "bh_bootstrap (cancel_dial p s) = bh_bootstrap s" "bh_allow_private (cancel_dial p s) = bh_allow_private s"
  "bh_connected (cancel_dial p s) = bh_connected s" "bh_queued (cancel_dial p s) = bh_queued s - {p}"
  "bh_not_connected (cancel_dial p s) = (bh_not_connected s)(p := None)"
  "has_known_address (cancel_dial p s) q = has_known_address s q"
  by (simp_all add: cancel_dial_def)

lemma schedule_sel [simp]:
  "bh_me (schedule_dial_with E now p b s) = bh_me s" "bh_pending (schedule_dial_with E now p b s) = bh_pending s"
  "bh_bootstrap (schedule_dial_with E now p b s) = bh_bootstrap s"
  "bh_allow_private (schedule_dial_with E now p b s) = bh_allow_private s"
  "bh_connected (schedule_dial_with E now p b s) = bh_connected s"
  "has_known_address (schedule_dial_with E now p b s) q = has_known_address s q"
  "bh_queued (schedule_dial_with E now p b s) = (if has_known_address s p then insert p (bh_queued s) else bh_queued s)"
  by (auto simp: schedule_dial_with_def split: prod.splits)

lemma schedule_not_connected:
  "bh_not_connected (schedule_dial_with E now p b s) q \<noteq> None \<longleftrightarrow>
     bh_not_connected s q \<noteq> None \<or> (q = p \<and> has_known_address s p \<and> p \<notin> bh_queued s)"
  by (auto simp: schedule_dial_with_def split: prod.splits)

lemma schedule_not_connected_ex:
  "(\<exists>b'. bh_not_connected (schedule_dial_with E now p b s) q = Some b') \<longleftrightarrow>
     (\<exists>b'. bh_not_connected s q = Some b') \<or> (q = p \<and> has_known_address s p \<and> p \<notin> bh_queued s)"
  "bh_not_connected (schedule_dial_with E now p b s) q = None \<longleftrightarrow>
     bh_not_connected s q = None \<and> \<not> (q = p \<and> has_known_address s p \<and> p \<notin> bh_queued s)"
  using schedule_not_connected [of E now p b s q] by auto

lemma distinct_push_dial:
  "distinct (map dl_item (push_dial d ds)) \<longleftrightarrow> dl_item d \<notin> dl_item ` set ds \<and> distinct (map dl_item ds)"
  by (induction ds) (auto simp: push_dial_def set_insort_key)

lemma set_push_dial: "set (push_dial d ds) = insert d (set ds)"
  by (simp add: push_dial_def set_insort_key)

lemma sorted_push_dial: "sorted (map release_at ds) \<Longrightarrow> sorted (map release_at (push_dial d ds))"
  by (simp add: push_dial_def sorted_insort_key)

lemma queue_inv_cancel: "queue_inv s \<Longrightarrow> queue_inv (cancel_dial p s)"
  by (auto simp: queue_inv_def cancel_dial_def distinct_map_filter sorted_filter)

lemma queue_inv_schedule: "queue_inv s \<Longrightarrow> queue_inv (schedule_dial_with E now p b s)"
  by (auto simp: queue_inv_def schedule_dial_with_def distinct_push_dial set_push_dial sorted_push_dial
      split: prod.splits)

lemma peers_inv_schedule:
  "peers_inv s \<Longrightarrow> bh_connected s p = None \<Longrightarrow> peers_inv (schedule_dial_with E now p b s)"
  unfolding peers_inv_def schedule_sel schedule_not_connected by (auto split: if_splits)

lemma known_inv_cong:
  "bh_me s' = bh_me s \<Longrightarrow> bh_allow_private s' = bh_allow_private s \<Longrightarrow> bh_bootstrap s' = bh_bootstrap s
    \<Longrightarrow> bh_pending s' = bh_pending s \<Longrightarrow> known_inv E A s' = known_inv E A s"
  by (simp add: known_inv_def)

lemma known_inv_mono: "known_inv E A s \<Longrightarrow> A \<subseteq> B \<Longrightarrow> known_inv E B s"
proof -
  have "event_ok E al me A ev \<Longrightarrow> A \<subseteq> B \<Longrightarrow> event_ok E al me B ev" for al me ev
    by (cases ev) auto
  then show "known_inv E A s \<Longrightarrow> A \<subseteq> B \<Longrightarrow> known_inv E B s" unfolding known_inv_def by blast
qed

lemma tracked_schedule_other:
  "q \<noteq> p \<Longrightarrow> tracked_at F G (schedule_dial_with E now p b s) q \<longleftrightarrow> tracked_at F G s q"
  by (auto simp: tracked_at_def schedule_dial_with_def split: prod.splits)

lemma tracked_schedule_self:
  "(bh_not_connected s p \<noteq> None \<Longrightarrow> has_known_address s p) \<Longrightarrow>
     p \<in> bh_queued s \<longrightarrow> bh_not_connected s p \<noteq> None \<Longrightarrow> tracked_at F G (schedule_dial_with E now p b s) p"
  by (cases "has_known_address s p"; cases "p \<in> bh_queued s")
    (auto simp: tracked_at_def schedule_dial_with_def split: prod.splits)

lemma tracked_cong:
  "bh_not_connected s' p = bh_not_connected s p \<Longrightarrow> bh_connected s' p = bh_connected s p \<Longrightarrow>
   bh_bootstrap s' p = bh_bootstrap s p \<Longrightarrow> p \<in> bh_queued s' \<longleftrightarrow> p \<in> bh_queued s \<Longrightarrow>
   (p \<in> F' \<longleftrightarrow> p \<in> F) \<Longrightarrow> (p \<in> G' \<longleftrightarrow> p \<in> G) \<Longrightarrow> set (bh_pending s') = set (bh_pending s) \<Longrightarrow>
   tracked_at F' G' s' p = tracked_at F G s p"
  by (simp add: tracked_at_def has_known_address_def)

section \<open>Events of the swarm keep the invariants\<close>

lemma queue_inv_upd [simp]:
  "queue_inv (s\<lparr>bh_connected := co\<rparr>) = queue_inv s" "queue_inv (s\<lparr>bh_not_connected := nc\<rparr>) = queue_inv s"
  "queue_inv (s\<lparr>bh_pending := pe\<rparr>) = queue_inv s" "queue_inv (s\<lparr>bh_bootstrap := bo\<rparr>) = queue_inv s"
  "queue_inv (s\<lparr>bh_timer := ti\<rparr>) = queue_inv s"
  by (simp_all add: queue_inv_def)

text \<open>Closing a connection: the last one schedules a dial unless a backoff is there already.\<close>

lemma closed_eq:
  "on_swarm_event E now (Closed p) s =
     (if unwrap_or 0 (bh_connected s p) \<le> 1
      then (let s' = s\<lparr>bh_connected := (bh_connected s)(p := None)\<rparr>
            in if bh_not_connected s p = None then schedule_dial_with E now p (de_initial E) s' else s')
      else s\<lparr>bh_connected := (bh_connected s)(p \<mapsto> unwrap_or 0 (bh_connected s p) - 1)\<rparr>)"
  by (auto simp: on_swarm_event_def Let_def)

lemma failure_eq:
  "on_swarm_event E now (DialFailure (Some p) na) s =
     (if bh_connected s p \<noteq> None \<or> na \<or> \<not> has_known_address s p then cancel_dial p s
      else if p \<notin> bh_queued s then
        schedule_dial_with E now p (unwrap_or (de_initial E) (bh_not_connected s p))
          (s\<lparr>bh_not_connected := (bh_not_connected s)(p := None)\<rparr>)
      else s)"
  by (simp add: on_swarm_event_def Let_def)

lemma established_eq:
  "on_swarm_event E now (Established p) s =
     cancel_dial p (s\<lparr>bh_connected := (bh_connected s)(p \<mapsto> unwrap_or 0 (bh_connected s p) + 1)\<rparr>)"
  by (simp add: on_swarm_event_def)

lemma ignored_eq:
  "on_swarm_event E now (DialFailure None na) s = s" "on_swarm_event E now OtherEvent s = s"
  by (simp_all add: on_swarm_event_def)

lemmas swarm_event_eqs = closed_eq failure_eq established_eq ignored_eq

lemma from_swarm_cases:
  obtains (established) p where "ev = Established p" | (closed) p where "ev = Closed p"
    | (failed) p na where "ev = DialFailure (Some p) na" | (unknown) na where "ev = DialFailure None na"
    | (other) "ev = OtherEvent"
proof (cases ev)
  case (DialFailure po na)
  with that show ?thesis by (cases po) auto
qed (use that in auto)

lemma swarm_event_queue: "queue_inv s \<Longrightarrow> queue_inv (on_swarm_event E now ev s)"
  by (cases ev rule: from_swarm_cases) (simp_all add: swarm_event_eqs Let_def queue_inv_cancel queue_inv_schedule)

lemma peers_inv_connected_None:
  "peers_inv s \<Longrightarrow> peers_inv (s\<lparr>bh_connected := (bh_connected s)(p := None)\<rparr>)"
  by (simp add: peers_inv_def)

lemma peers_inv_forget:
  "peers_inv s \<Longrightarrow> p \<notin> bh_queued s \<Longrightarrow> peers_inv (s\<lparr>bh_not_connected := (bh_not_connected s)(p := None)\<rparr>)"
  by (auto simp: peers_inv_def)

lemma swarm_event_peers: "peers_inv s \<Longrightarrow> peers_inv (on_swarm_event E now ev s)"
proof (cases ev rule: from_swarm_cases)
  case (closed p)
  assume p: "peers_inv s"
  have "\<not> unwrap_or 0 (bh_connected s p) \<le> 1 \<Longrightarrow> bh_not_connected s p = None"
    using p by (cases "bh_connected s p") (auto simp: peers_inv_def)
  then have "\<not> unwrap_or 0 (bh_connected s p) \<le> 1 \<Longrightarrow> peers_inv (on_swarm_event E now ev s)"
    using p by (auto simp: closed closed_eq peers_inv_def)
  with p show ?thesis
    by (auto simp: closed closed_eq Let_def intro!: peers_inv_schedule peers_inv_connected_None)
next
  case (failed p na)
  assume p: "peers_inv s"
  then have "peers_inv (cancel_dial p s)" by (auto simp: peers_inv_def)
  with p show ?thesis by (auto simp: failed failure_eq intro!: peers_inv_schedule peers_inv_forget)
next
  case (established p)
  assume "peers_inv s"
  then show ?thesis by (auto simp: established established_eq peers_inv_def)
qed (simp_all add: ignored_eq)

lemma swarm_event_frame:
  "bh_me (on_swarm_event E now ev s) = bh_me s \<and> bh_allow_private (on_swarm_event E now ev s) = bh_allow_private s
    \<and> bh_bootstrap (on_swarm_event E now ev s) = bh_bootstrap s \<and> bh_pending (on_swarm_event E now ev s) = bh_pending s"
proof (cases ev rule: from_swarm_cases)
  case (closed p)
  then show ?thesis by (simp only: closed_eq) (simp add: Let_def)
next
  case (failed p na)
  then show ?thesis by (simp only: failure_eq) simp
qed (simp_all add: established_eq ignored_eq)

lemma swarm_event_known: "known_inv E A (on_swarm_event E' now ev s) = known_inv E A s"
  using swarm_event_frame [of E' now ev s] by (intro known_inv_cong) auto

lemma swarm_event_tracked:
  assumes "tracked_inv F G s" "peers_inv s"
  shows "tracked_inv (F - answered ev) (G \<union> gave_up ev) (on_swarm_event E now ev s)"
  unfolding tracked_inv_def
proof
  fix q
  have q: "tracked_at F G s q" using assms(1) by (simp add: tracked_inv_def)
  show "tracked_at (F - answered ev) (G \<union> gave_up ev) (on_swarm_event E now ev s) q"
  proof (cases ev rule: from_swarm_cases)
    case (established p)
    with q show ?thesis by (simp add: established_eq tracked_at_def)
  next
    case (closed p)
    show ?thesis
    proof (cases "q = p")
      case False
      then have "tracked_at F G (on_swarm_event E now ev s) q = tracked_at F G s q"
        by (simp add: closed closed_eq Let_def tracked_schedule_other) (simp add: tracked_at_def)
      with q show ?thesis by (simp add: closed)
    next
      case True
      have "tracked_at F G (schedule_dial_with E now p b (s\<lparr>bh_connected := c\<rparr>)) p" for b c
        by (rule tracked_schedule_self) (use assms(2) in \<open>auto simp: peers_inv_def\<close>)
      with q True show ?thesis
        by (simp add: closed closed_eq Let_def) (simp add: tracked_at_def)
    qed
  next
    case (failed p na)
    show ?thesis
    proof (cases "q = p")
      case False
      then have "tracked_at (F - {p}) (G \<union> gave_up ev) (on_swarm_event E now ev s) q = tracked_at F G s q"
        by (cases na) (simp_all add: failed failure_eq tracked_schedule_other, simp_all add: tracked_at_def)
      with q show ?thesis by (simp add: failed)
    next
      case True
      have "p \<notin> bh_queued s \<Longrightarrow> tracked_at (F - {p}) (G \<union> gave_up ev)
          (schedule_dial_with E now p b (s\<lparr>bh_not_connected := (bh_not_connected s)(p := None)\<rparr>)) p" for b
        by (rule tracked_schedule_self) auto
      with q True show ?thesis
        by (cases na) (simp_all add: failed failure_eq, auto simp: tracked_at_def)
    qed
  qed (use q in \<open>simp_all add: ignored_eq\<close>)
qed

section \<open>Announcements and polls keep the invariants\<close>

definition disc_inv :: "('a, 'b) dial_env \<Rightarrow> ('p \<times> 'a list) set \<Rightarrow> 'p set \<Rightarrow> 'p set \<Rightarrow> ('p, 'a, 'b) behaviour \<Rightarrow> bool" where
  "disc_inv E A F G s \<longleftrightarrow> queue_inv s \<and> peers_inv s \<and> known_inv E A s \<and> tracked_inv F G s"

lemma disc_inv_new: "disc_inv E A F G (bh_new me allow)"
  by (auto simp: disc_inv_def bh_new_def disc_invs tracked_at_def has_known_address_def)

lemma swarm_event_disc:
  "disc_inv E A F G s \<Longrightarrow> disc_inv E A (F - answered ev) (G \<union> gave_up ev) (on_swarm_event E now ev s)"
  by (simp add: disc_inv_def swarm_event_queue swarm_event_peers swarm_event_known swarm_event_tracked)

lemma announce_eq:
  assumes "p \<noteq> bh_me s" "dialable_addresses E s addrs \<noteq> []"
  shows "on_announce E now (Announce p addrs) s =
    (let s' = s\<lparr>bh_pending := bh_pending s @ map (NewExternalAddr p) (dialable_addresses E s addrs),
                bh_bootstrap := (bh_bootstrap s)(p \<mapsto> dialable_addresses E s addrs)\<rparr>
     in if bh_connected s p = None \<and> bh_not_connected s p = None
        then schedule_dial_with E now p (de_initial E) s' else s')"
  using assms by (simp add: on_announce_def Let_def dialable_addresses_def)

lemma announce_ignored:
  "p = bh_me s \<or> dialable_addresses E s addrs = [] \<Longrightarrow> on_announce E now (Announce p addrs) s = s"
  by (auto simp: on_announce_def Let_def)

lemma announce_disc:
  assumes "disc_inv E A F G s"
  shows "disc_inv E (insert (p, addrs) A) F (G - {q. q = p \<and> dialable_addresses E s addrs \<noteq> []})
    (on_announce E now (Announce p addrs) s)"
proof (cases "p = bh_me s \<or> dialable_addresses E s addrs = []")
  case True
  have "bh_bootstrap s (bh_me s) = None"
    using assms by (cases "bh_bootstrap s (bh_me s)") (auto simp: disc_inv_def known_inv_def)
  then have "tracked_inv F (G - {q. q = p \<and> dialable_addresses E s addrs \<noteq> []}) s"
    using assms True by (auto simp: disc_inv_def tracked_inv_def tracked_at_def has_known_address_def)
  moreover have "known_inv E (insert (p, addrs) A) s"
    by (rule known_inv_mono [of E A s]) (use assms in \<open>auto simp: disc_inv_def\<close>)
  ultimately show ?thesis using assms by (simp add: announce_ignored [OF True] disc_inv_def)
next
  case False
  define ds where "ds = dialable_addresses E s addrs"
  define s' where "s' = s\<lparr>bh_pending := bh_pending s @ map (NewExternalAddr p) ds, bh_bootstrap := (bh_bootstrap s)(p \<mapsto> ds)\<rparr>"
  have ds: "ds \<noteq> []" "p \<noteq> bh_me s" using False by (auto simp: ds_def)
  have eq: "on_announce E now (Announce p addrs) s =
      (if bh_connected s p = None \<and> bh_not_connected s p = None then schedule_dial_with E now p (de_initial E) s' else s')"
    using announce_eq [of p s E addrs now] False by (simp add: s'_def ds_def Let_def)
  have q: "queue_inv s'" and pe: "peers_inv s'"
    using assms ds by (auto simp: disc_inv_def s'_def peers_inv_def has_known_address_def split: option.splits)
  have "event_ok E (bh_allow_private s) (bh_me s) (insert (p, addrs) A) (Dial p ds)"
    "\<forall>a\<in>set ds. event_ok E (bh_allow_private s) (bh_me s) (insert (p, addrs) A) (NewExternalAddr p a)"
    using ds by (auto simp: ds_def dialable_addresses_def)
  moreover have "known_inv E (insert (p, addrs) A) s" by (rule known_inv_mono [of E A s]) (use assms in \<open>auto simp: disc_inv_def\<close>)
  ultimately have k: "known_inv E (insert (p, addrs) A) s'"
    by (auto simp: s'_def known_inv_def simp del: event_ok.simps)
  have t: "tracked_at F (G - {p}) (on_announce E now (Announce p addrs) s) r" for r
  proof -
    have r: "tracked_at F G s r" using assms by (simp add: disc_inv_def tracked_inv_def)
    show ?thesis
    proof (cases "r = p")
      case False
      then have "tracked_at F (G - {p}) s' r" using r by (auto simp: tracked_at_def s'_def has_known_address_def)
      with False show ?thesis by (simp add: eq tracked_schedule_other)
    next
      case True
      have "tracked_at F (G - {p}) (schedule_dial_with E now p b s') p" for b
        by (rule tracked_schedule_self) (use ds assms in \<open>auto simp: s'_def disc_inv_def peers_inv_def\<close>)
      moreover have "\<not> (bh_connected s p = None \<and> bh_not_connected s p = None) \<Longrightarrow> tracked_at F (G - {p}) s' p"
        using r True by (auto simp: tracked_at_def s'_def)
      ultimately show ?thesis using True by (simp add: eq)
    qed
  qed
  have "{r. r = p \<and> dialable_addresses E s addrs \<noteq> []} = {p}" using ds by (auto simp: ds_def)
  moreover have "peers_inv (on_announce E now (Announce p addrs) s)"
    unfolding eq using pe by (auto simp: s'_def intro!: peers_inv_schedule)
  moreover have "known_inv E (insert (p, addrs) A) (on_announce E now (Announce p addrs) s)"
    unfolding eq using k by (auto cong: known_inv_cong simp: known_inv_def)
  ultimately show ?thesis using q t unfolding eq
    by (auto simp: disc_inv_def queue_inv_schedule tracked_inv_def)
qed

text \<open>One round of the loop of \<open>poll\<close>: the head of the queue falls due.\<close>

definition take_due :: "('p, 'a, 'b) behaviour \<Rightarrow> ('p, 'a, 'b) behaviour" where
  "take_due s = (let p = dl_item (hd (bh_dials s));
       s1 = s\<lparr>bh_dials := tl (bh_dials s), bh_queued := bh_queued s - {p}\<rparr>
     in if bh_not_connected s p = None then s1
        else if \<not> has_known_address s p then cancel_dial p s1
        else s1\<lparr>bh_pending := bh_pending s @ [Dial p (the (bh_bootstrap s p))]\<rparr>)"

lemma dispatch_due_step:
  "dispatch_due now s = (if bh_dials s \<noteq> [] \<and> release_at (hd (bh_dials s)) \<le> now
     then dispatch_due now (take_due s) else s)"
  by (subst dispatch_due.simps) (auto simp: take_due_def Let_def split: list.splits)

lemma take_due_disc:
  assumes "disc_inv E A F G s" "bh_dials s \<noteq> []"
  shows "disc_inv E A F G (take_due s)"
proof -
  obtain d rest where d: "bh_dials s = d # rest" using assms(2) by (cases "bh_dials s") auto
  define p where "p = dl_item d"
  define s1 where "s1 = s\<lparr>bh_dials := rest, bh_queued := bh_queued s - {p}\<rparr>"
  have known: "has_known_address s p"
    using assms d by (auto simp: disc_inv_def queue_inv_def peers_inv_def p_def)
  then have eq: "take_due s = (if bh_not_connected s p = None then s1
      else s1\<lparr>bh_pending := bh_pending s @ [Dial p (the (bh_bootstrap s p))]\<rparr>)"
    by (simp add: take_due_def d p_def s1_def Let_def)
  have "queue_inv s1" "peers_inv s1" "known_inv E A s1"
    using assms d by (auto simp: disc_inv_def queue_inv_def peers_inv_def known_inv_def s1_def p_def has_known_address_def)
  moreover have "event_ok E (bh_allow_private s) (bh_me s) A (Dial p (the (bh_bootstrap s p)))"
    using known assms by (auto simp: has_known_address_def disc_inv_def known_inv_def split: option.splits)
  ultimately have "queue_inv (take_due s)" "peers_inv (take_due s)" "known_inv E A (take_due s)"
    unfolding eq by (auto simp: s1_def peers_inv_def known_inv_def)
  moreover have "tracked_at F G (take_due s) q" for q
  proof -
    have "tracked_at F G s q" using assms by (simp add: disc_inv_def tracked_inv_def)
    then show ?thesis unfolding eq by (auto simp: tracked_at_def s1_def has_known_address_def)
  qed
  ultimately show ?thesis by (simp add: disc_inv_def tracked_inv_def)
qed

lemma dispatch_due_disc: "disc_inv E A F G s \<Longrightarrow> disc_inv E A F G (dispatch_due now s)"
proof (induction "length (bh_dials s)" arbitrary: s rule: less_induct)
  case less
  show ?case
  proof (cases "bh_dials s \<noteq> [] \<and> release_at (hd (bh_dials s)) \<le> now")
    case True
    then have "length (bh_dials (take_due s)) < length (bh_dials s)"
      using length_cancel_dial [of "dl_item (hd (bh_dials s))"
        "s\<lparr>bh_dials := tl (bh_dials s), bh_queued := bh_queued s - {dl_item (hd (bh_dials s))}\<rparr>"]
      by (cases "bh_dials s") (auto simp: take_due_def Let_def)
    with less True take_due_disc [of E A F G s] show ?thesis by (subst dispatch_due_step) auto
  next
    case False
    with less show ?thesis by (subst dispatch_due_step) auto
  qed
qed

lemma dispatch_due_later:
  "sorted (map release_at (bh_dials s)) \<Longrightarrow> d \<in> set (bh_dials (dispatch_due now s)) \<Longrightarrow>
     now < release_at d \<and> d \<in> set (bh_dials s)"
proof (induction now s rule: dispatch_due.induct)
  case (1 now s)
  show ?case
  proof (cases "bh_dials s")
    case Nil
    with 1 show ?thesis by (subst (asm) (3) dispatch_due.simps) simp
  next
    case (Cons e rest)
    show ?thesis
    proof (cases "release_at e \<le> now")
      case False
      then have "dispatch_due now s = s" using Cons by (subst dispatch_due.simps) simp
      with 1(4,5) False Cons show ?thesis by auto
    next
      case True
      let ?p = "dl_item e" and ?s = "s\<lparr>bh_dials := rest, bh_queued := bh_queued s - {dl_item e}\<rparr>"
      have so: "sorted (map release_at rest)" using 1(4) Cons by simp
      then have so': "sorted (map release_at (bh_dials (cancel_dial ?p ?s)))"
        by (simp add: cancel_dial_def sorted_filter)
      have eq: "dispatch_due now s = (if bh_not_connected s ?p = None then dispatch_due now ?s
          else if \<not> has_known_address s ?p then dispatch_due now (cancel_dial ?p ?s)
          else dispatch_due now (?s\<lparr>bh_pending := bh_pending s @ [Dial ?p (the (bh_bootstrap s ?p))]\<rparr>))"
        using Cons True by (subst dispatch_due.simps) (simp add: Let_def)
      from 1(1-3) [OF Cons _ refl refl] True 1(5) so so' Cons show ?thesis
        unfolding eq by (auto simp: cancel_dial_def split: if_splits)
    qed
  qed
qed

end
