(* ===== verification/Discovery_Runs.thy ===== *)
theory Discovery_Runs
  imports P2p_Discovery
begin

text \<open>
  Runs of the discovery behaviour: polls and swarm events in any order keep the invariant
  \<open>disc_inv\<close>, and what follows from it for the dials.
\<close>

section \<open>One poll\<close>

fun dialled :: "('p, 'a) to_swarm \<Rightarrow> 'p set" where
  "dialled (Dial p _) = {p}"
| "dialled (NewExternalAddr _ _) = {}"

fun emitted :: "('p, 'a) poll_outcome \<Rightarrow> ('p, 'a) to_swarm list" where
  "emitted (Ready ev) = [ev]"
| "emitted (Pending _ _ _) = []"

lemma pop_event_disc:
  assumes "disc_inv E A F G s" "bh_pending s = ev # rest"
  shows "disc_inv E A (F \<union> dialled ev) G (s\<lparr>bh_pending := rest\<rparr>)"
    and "event_ok E (bh_allow_private s) (bh_me s) A ev"
proof -
  have "tracked_at (F \<union> dialled ev) G (s\<lparr>bh_pending := rest\<rparr>) q" for q
  proof -
    have "tracked_at F G s q" using assms by (simp add: disc_inv_def tracked_inv_def)
    then show ?thesis using assms(2) by (cases ev) (auto simp: tracked_at_def has_known_address_def)
  qed
  moreover have "queue_inv (s\<lparr>bh_pending := rest\<rparr>)" "peers_inv (s\<lparr>bh_pending := rest\<rparr>)"
    using assms(1) by (simp_all add: disc_inv_def peers_inv_def)
  moreover have "known_inv E A (s\<lparr>bh_pending := rest\<rparr>)"
    using assms by (simp add: disc_inv_def known_inv_def del: event_ok.simps)
  ultimately show "disc_inv E A (F \<union> dialled ev) G (s\<lparr>bh_pending := rest\<rparr>)"
    by (simp add: disc_inv_def tracked_inv_def)
  show "event_ok E (bh_allow_private s) (bh_me s) A ev"
    using assms by (simp add: disc_inv_def known_inv_def del: event_ok.simps)
qed

lemma disc_inv_timer: "disc_inv E A F G (s\<lparr>bh_timer := t\<rparr>) = disc_inv E A F G s"
  by (simp add: disc_inv_def peers_inv_def known_inv_def tracked_inv_def tracked_at_def)

lemma arm_timer_disc: "disc_inv E A F G s \<Longrightarrow> disc_inv E A F G (snd (arm_next_dial_timer el s))"
  by (auto simp: arm_next_dial_timer_def Let_def disc_inv_timer split: list.splits)

definition cleared :: "('a, 'b) dial_env \<Rightarrow> ('p, 'a) announce_poll \<Rightarrow> ('p, 'a, 'b) behaviour \<Rightarrow> 'p set" where
  "cleared E ext s = {p. \<exists>(q, addrs)\<in>set (consumed ext s). q = p \<and> dialable_addresses E s addrs \<noteq> []}"

definition after_announce :: "('a, 'b) dial_env \<Rightarrow> nat \<Rightarrow> ('p, 'a) announce_poll \<Rightarrow> ('p, 'a, 'b) behaviour \<Rightarrow> ('p, 'a, 'b) behaviour" where
  "after_announce E t ext s = (case ext of StreamNext an \<Rightarrow> on_announce E t an s | _ \<Rightarrow> s)"

lemma after_announce_disc:
  assumes "disc_inv E A F G s" "bh_pending s = []"
  shows "disc_inv E (A \<union> set (consumed ext s)) F (G - cleared E ext s) (after_announce E t ext s)"
proof (cases ext)
  case (StreamNext an)
  obtain p addrs where an: "an = Announce p addrs" by (cases an)
  have "cleared E ext s = {q. q = p \<and> dialable_addresses E s addrs \<noteq> []}" "set (consumed ext s) = {(p, addrs)}"
    using assms(2) by (auto simp: StreamNext an cleared_def consumed_def)
  with announce_disc [OF assms(1), of p addrs t] show ?thesis
    by (simp add: StreamNext an after_announce_def)
qed (use assms in \<open>simp_all add: after_announce_def cleared_def consumed_def\<close>)

lemma poll_cases:
  assumes "poll E t now el ext s = (out, s')"
  obtains (queued) ev rest where "bh_pending s = ev # rest" "out = Ready ev" "s' = s\<lparr>bh_pending := rest\<rparr>"
  | (announced) ev rest where "bh_pending s = []" "bh_pending (after_announce E t ext s) = ev # rest"
      "out = Ready ev" "s' = (after_announce E t ext s)\<lparr>bh_pending := rest\<rparr>"
  | (due) ev rest where "bh_pending s = []" "bh_pending (dispatch_due now (after_announce E t ext s)) = ev # rest"
      "out = Ready ev" "s' = (dispatch_due now (after_announce E t ext s))\<lparr>bh_pending := rest\<rparr>"
  | (idle) fired where "bh_pending s = []" "bh_pending (dispatch_due now (after_announce E t ext s)) = []"
      "arm_next_dial_timer el (dispatch_due now (after_announce E t ext s)) = (fired, s')"
      "out = Pending (ext = StreamPending) (bh_timer s') fired"
proof (cases "bh_pending s")
  case (Cons ev rest)
  with assms that(1) show ?thesis by (simp add: poll_def)
next
  case Nil
  define a where "a = after_announce E t ext s"
  have p: "poll E t now el ext s =
      (if ext \<noteq> StreamPending \<and> bh_pending a \<noteq> [] then (Ready (hd (bh_pending a)), a\<lparr>bh_pending := tl (bh_pending a)\<rparr>)
       else case bh_pending (dispatch_due now a) of
          ev # rest \<Rightarrow> (Ready ev, (dispatch_due now a)\<lparr>bh_pending := rest\<rparr>)
        | [] \<Rightarrow> (case arm_next_dial_timer el (dispatch_due now a) of
            (fired, s) \<Rightarrow> (Pending (ext = StreamPending) (bh_timer s) fired, s)))"
    unfolding poll_def Nil a_def after_announce_def Let_def by simp
  show ?thesis
  proof (cases "ext \<noteq> StreamPending \<and> bh_pending a \<noteq> []")
    case True
    with assms show ?thesis unfolding p by (intro that(2) [of "hd (bh_pending a)" "tl (bh_pending a)"]) (auto simp: a_def Nil)
  next
    case False
    show ?thesis
    proof (cases "bh_pending (dispatch_due now a)")
      case (Cons ev rest)
      with False assms Nil show ?thesis unfolding p by (intro that(3) [of ev rest]) (auto simp: a_def)
    next
      case Nil2: Nil
      with False assms Nil show ?thesis unfolding p
        by (intro that(4) [of "fst (arm_next_dial_timer el (dispatch_due now a))"]) (auto simp: a_def split: prod.splits)
    qed
  qed
qed

lemma disc_frame:
  "bh_me (dispatch_due now s) = bh_me s \<and> bh_allow_private (dispatch_due now s) = bh_allow_private s"
proof (induction now s rule: dispatch_due.induct)
  case (1 now s)
  show ?case by (subst (1 2) dispatch_due.simps) (use 1 in \<open>auto simp: Let_def split: list.splits\<close>)
qed

lemma after_announce_frame:
  "bh_me (after_announce E t ext s) = bh_me s \<and> bh_allow_private (after_announce E t ext s) = bh_allow_private s"
  by (auto simp: after_announce_def on_announce_def Let_def split: announce_poll.splits announce.splits)

lemma arm_frame:
  "arm_next_dial_timer el s = (fired, s') \<Longrightarrow> bh_me s' = bh_me s \<and> bh_allow_private s' = bh_allow_private s"
  by (auto simp: arm_next_dial_timer_def Let_def split: list.splits if_splits)

lemma poll_disc:
  assumes "disc_inv E A F G s" "poll E t now el ext s = (out, s')"
  shows "disc_inv E (A \<union> set (consumed ext s)) (F \<union> \<Union> (dialled ` set (emitted out))) (G - cleared E ext s) s' \<and>
    (\<forall>ev\<in>set (emitted out). event_ok E (bh_allow_private s) (bh_me s) (A \<union> set (consumed ext s)) ev) \<and>
    bh_me s' = bh_me s \<and> bh_allow_private s' = bh_allow_private s"
  using assms(2)
proof (cases rule: poll_cases)
  case (queued ev rest)
  then have c: "consumed ext s = []" "cleared E ext s = {}"
    by (auto simp: consumed_def cleared_def split: announce_poll.splits announce.splits)
  from pop_event_disc [OF assms(1) queued(1)] queued c show ?thesis by simp
next
  case (announced ev rest)
  note a = after_announce_disc [OF assms(1) announced(1), of ext t]
  from pop_event_disc [OF a announced(2)] announced after_announce_frame [of E t ext s] show ?thesis by simp
next
  case (due ev rest)
  note a = dispatch_due_disc [OF after_announce_disc [OF assms(1) due(1), of ext t], of now]
  from pop_event_disc [OF a due(2)] due after_announce_frame [of E t ext s] disc_frame [of now "after_announce E t ext s"]
  show ?thesis by simp
next
  case (idle fired)
  note a = dispatch_due_disc [OF after_announce_disc [OF assms(1) idle(1), of ext t], of now]
  from arm_timer_disc [OF a, of el] idle arm_frame [OF idle(3)] after_announce_frame [of E t ext s]
    disc_frame [of now "after_announce E t ext s"]
  show ?thesis by simp
qed

section \<open>Runs\<close>

definition node_inv :: "('a, 'b) dial_env \<Rightarrow> bool \<Rightarrow> 'p \<Rightarrow> ('p, 'a, 'b) lnode \<Rightarrow> bool" where
  "node_inv E allow me n \<longleftrightarrow> disc_inv E (set (ln_announced n)) (ln_flying n) (ln_gave_up n) (ln_bh n) \<and>
     bh_me (ln_bh n) = me \<and> bh_allow_private (ln_bh n) = allow \<and>
     (\<forall>ev\<in>set (ln_emitted n). event_ok E allow me (set (ln_announced n)) ev)"

lemma event_ok_mono: "event_ok E allow me A ev \<Longrightarrow> A \<subseteq> B \<Longrightarrow> event_ok E allow me B ev"
  by (cases ev) auto

lemma lstep_inv: "node_inv E allow me n \<Longrightarrow> node_inv E allow me (lstep E st n)"
proof (cases st)
  case (SwarmEvent now ev)
  assume "node_inv E allow me n"
  then show ?thesis using swarm_event_frame [of E now ev "ln_bh n"]
    by (simp add: node_inv_def SwarmEvent lstep_def swarm_event_disc)
next
  case (Poll t now el ext)
  assume n: "node_inv E allow me n"
  obtain out s where p: "poll E t now el ext (ln_bh n) = (out, s)" by fastforce
  let ?A = "set (ln_announced n) \<union> set (consumed ext (ln_bh n))"
  have n': "lstep E st n = n\<lparr>ln_bh := s, ln_announced := ln_announced n @ consumed ext (ln_bh n),
      ln_gave_up := ln_gave_up n - cleared E ext (ln_bh n), ln_emitted := ln_emitted n @ emitted out,
      ln_flying := ln_flying n \<union> \<Union> (dialled ` set (emitted out))\<rparr>"
    using p by (cases out; cases "\<exists>p as. out = Ready (Dial p as)")
      (auto simp: lstep_def Poll cleared_def split: to_swarm.splits)
  have i: "disc_inv E (set (ln_announced n)) (ln_flying n) (ln_gave_up n) (ln_bh n)"
    and fr: "bh_me (ln_bh n) = me" "bh_allow_private (ln_bh n) = allow"
    and em: "\<forall>ev\<in>set (ln_emitted n). event_ok E allow me (set (ln_announced n)) ev"
    using n by (auto simp: node_inv_def)
  have "\<forall>ev\<in>set (ln_emitted n). event_ok E allow me ?A ev"
    using em event_ok_mono [of E allow me "set (ln_announced n)" _ ?A] by blast
  with poll_disc [OF i p] fr show ?thesis unfolding n' node_inv_def by auto
qed

lemma lrun_inv: "node_inv E allow me (lrun E steps (ln_new me allow))"
proof -
  have "node_inv E allow me n \<Longrightarrow> node_inv E allow me (foldl (\<lambda>n st. lstep E st n) n steps)" for n
    by (induction steps arbitrary: n) (simp_all add: lstep_inv)
  moreover have "node_inv E allow me (ln_new me allow)"
    by (simp add: node_inv_def ln_new_def disc_inv_new) (simp add: bh_new_def)
  ultimately show ?thesis by (simp add: lrun_def)
qed

section \<open>A concrete environment\<close>

definition even_env :: "(nat, nat) dial_env" where
  "even_env = \<lparr>de_initial = 3000, de_next = (\<lambda>b. (Some b, min 120000 (b + b div 2))), de_public = even\<rparr>"

definition sample_steps :: "(nat, nat) dstep list" where
  "sample_steps = [Poll 0 0 False (StreamNext (Announce 7 [4, 5, 6])), Poll 1 1 False StreamPending,
     Poll 2 2 False StreamPending, Poll 3000 3000 True StreamPending,
     SwarmEvent 3100 (DialFailure (Some 7) False)]"

lemmas disc_eval = even_env_def sample_steps_def lrun_def lstep_def ln_new_def bh_new_def poll_def on_announce_def
  dialable_addresses_def addr_allowed_def schedule_dial_with_def has_known_address_def consumed_def
  dispatch_due.simps arm_next_dial_timer_def on_swarm_event_def push_dial_def Let_def

section \<open>Properties\<close>

text \<open>
  C15. The node dials only what was announced. Whatever the announcements, swarm events and
  polls, every dial emitted goes to another peer, at the usable addresses of an announcement
  of that peer that the node consumed, and to at least one; no address that is not public is
  ever dialled, offered or made known unless private addresses are allowed.
\<close>

theorem dials_only_announced:
  assumes "n = lrun E steps (ln_new me allow)"
  shows "(\<forall>p as. Dial p as \<in> set (ln_emitted n) \<longrightarrow> p \<noteq> me \<and> as \<noteq> [] \<and>
      (\<exists>addrs. (p, addrs) \<in> set (ln_announced n) \<and> as = filter (addr_allowed E allow) addrs)) \<and>
    (\<forall>p a. NewExternalAddr p a \<in> set (ln_emitted n) \<longrightarrow> p \<noteq> me \<and> addr_allowed E allow a \<and>
      (\<exists>addrs. (p, addrs) \<in> set (ln_announced n) \<and> a \<in> set addrs)) \<and>
    (\<forall>p. \<forall>a\<in>set (handle_pending_outbound p (ln_bh n)). addr_allowed E allow a)"
proof -
  have i: "node_inv E allow me n" unfolding assms by (rule lrun_inv)
  then have k: "event_ok E allow me (set (ln_announced n)) (Dial p as)" if "bh_bootstrap (ln_bh n) p = Some as" for p as
    using that unfolding node_inv_def disc_inv_def known_inv_def by blast
  have "\<forall>a\<in>set (handle_pending_outbound po (ln_bh n)). addr_allowed E allow a" for po
  proof (cases "\<exists>p as. po = Some p \<and> bh_bootstrap (ln_bh n) p = Some as")
    case True
    then obtain p as where "po = Some p" "bh_bootstrap (ln_bh n) p = Some as" by blast
    with k [of p as] show ?thesis by (auto simp: handle_pending_outbound_def)
  next
    case False
    then show ?thesis by (cases po) (auto simp: handle_pending_outbound_def)
  qed
  with i show ?thesis unfolding node_inv_def by fastforce
qed

theorem dials_only_announced_witness:
  "Dial 7 [4, 6] \<in> set (ln_emitted (lrun even_env sample_steps (ln_new 1 False))) \<and>
   (\<exists>addrs. (7, addrs) \<in> set (ln_announced (lrun even_env sample_steps (ln_new 1 False))) \<and>
      [4, 6] = filter (addr_allowed even_env False) addrs)"
proof -
  have "Dial 7 [4, 6] \<in> set (ln_emitted (lrun even_env sample_steps (ln_new 1 False)))"
    by (simp add: disc_eval)
  with dials_only_announced [OF refl, of even_env sample_steps 1 False] show ?thesis by blast
qed



text \<open>
  C17. A pending poll leaves nothing undone. When a poll of a reachable behaviour returns
  pending, no event waits and no dial is due; and either the timer is armed for the earliest
  dial, or there is none, or the task was woken at once because the timer had fired.
\<close>

theorem pending_poll_armed:
  assumes "poll E t now el ext (ln_bh (lrun E steps (ln_new me allow))) = (Pending reg armed fired, s')"
  shows "bh_pending s' = [] \<and> (\<forall>d\<in>set (bh_dials s'). now < release_at d) \<and>
    (if bh_dials s' = [] then armed = None \<and> \<not> fired
     else if fired then el else \<exists>d\<in>set (bh_dials s'). armed = Some (release_at d) \<and> (\<forall>e\<in>set (bh_dials s'). release_at d \<le> release_at e))"
proof -
  let ?s = "ln_bh (lrun E steps (ln_new me allow))"
  let ?a = "after_announce E t ext ?s" and ?n = "lrun E steps (ln_new me allow)"
  have i: "disc_inv E (set (ln_announced ?n)) (ln_flying ?n) (ln_gave_up ?n) ?s"
    using lrun_inv [of E allow me steps] by (simp add: node_inv_def)
  from assms show ?thesis
  proof (cases rule: poll_cases)
    case (idle fired')
    let ?d = "dispatch_due now ?a"
    note a = after_announce_disc [OF i idle(1), of ext t]
    have so: "sorted (map release_at (bh_dials ?a))" using a by (simp add: disc_inv_def queue_inv_def)
    have so': "sorted (map release_at (bh_dials ?d))"
      using dispatch_due_disc [OF a, of now] by (simp add: disc_inv_def queue_inv_def)
    have "bh_dials s' = bh_dials ?d" "bh_pending s' = []"
      using idle(2,3) by (auto simp: arm_next_dial_timer_def Let_def split: list.splits if_splits)
    moreover have "if bh_dials ?d = [] then armed = None \<and> \<not> fired else if fired then el else armed = Some (release_at (hd (bh_dials ?d)))"
      using idle(3,4) by (auto simp: arm_next_dial_timer_def Let_def split: list.splits if_splits)
    moreover have "bh_dials ?d \<noteq> [] \<Longrightarrow> \<forall>e\<in>set (bh_dials ?d). release_at (hd (bh_dials ?d)) \<le> release_at e"
      using so' by (cases "bh_dials ?d") auto
    ultimately show ?thesis using dispatch_due_later [OF so] by (auto split: if_splits)
  qed auto
qed

theorem pending_poll_armed_witness:
  "\<exists>s'. poll even_env 3200 3200 False StreamPending (ln_bh (lrun even_env sample_steps (ln_new 1 False))) =
     (Pending True (Some 7600) False, s') \<and> (\<forall>d\<in>set (bh_dials s'). (3200::nat) < release_at d)"
proof -
  obtain s' where p: "poll even_env 3200 3200 False StreamPending (ln_bh (lrun even_env sample_steps (ln_new 1 False))) =
     (Pending True (Some 7600) False, s')"
    by (simp add: disc_eval)
  from pending_poll_armed [OF p] p show ?thesis by blast
qed

text \<open>
  An announcement that is ignored puts the node to sleep over the next one. When the
  stream yields an announcement of the node itself, or one without a usable address, and no
  dial is queued, the poll returns pending although it has not asked the stream again: neither
  the stream nor a timer will wake it, even if more announcements are ready.
\<close>

theorem ignored_announcement_sleeps:
  assumes "bh_pending s = []" and "bh_dials s = []" and "p = bh_me s \<or> dialable_addresses E s addrs = []"
  shows "poll E t now el (StreamNext (Announce p addrs)) s = (Pending False None False, s\<lparr>bh_timer := None\<rparr>)"
  using assms announce_ignored [of p s E addrs t]
  by (simp add: poll_def Let_def dispatch_due.simps arm_next_dial_timer_def)

theorem ignored_announcement_sleeps_witness:
  "fst (poll even_env 0 0 False (StreamNext (Announce 7 [3, 5])) (bh_new 1 False :: (nat, nat, nat) behaviour)) =
     Pending False None False"
proof -
  have "dialable_addresses even_env (bh_new 1 False :: (nat, nat, nat) behaviour) [3, 5] = []"
    by (simp add: disc_eval)
  then show ?thesis
    using ignored_announcement_sleeps [of "bh_new 1 False :: (nat, nat, nat) behaviour" 7 even_env "[3, 5]" 0 0 False]
    by (simp add: bh_new_def)
qed

end
