(* ===== verification/P2p_Network.thy ===== *)
theory P2p_Network
  imports Hopr_Base
begin

text \<open>
  The network view of the peer-to-peer transport (\<open>transport/p2p/src\<close>): the peer store
  (\<open>peer_store.rs\<close>), the liveness flags of streams (\<open>liveness.rs\<close>), the handling of swarm
  events (\<open>swarm.rs\<close>), the answers of \<open>HoprNetwork\<close> (\<open>lib.rs\<close>) and the rewriting of
  multiaddresses (\<open>utils.rs\<close>). The swarm of \<open>libp2p\<close> delivers the events; telemetry and logs
  are left out.
\<close>

section \<open>Peer store\<close>

datatype network_error = DisallowedOperationOnOwnPeerId

record ('p, 'a) peer_store =
  ps_me :: 'p
  ps_my_addresses :: "'a set"
  ps_addresses :: "'p \<Rightarrow> 'a set option"

definition store_new :: "'p \<Rightarrow> 'a set \<Rightarrow> ('p, 'a) peer_store" where
  "store_new me mine = \<lparr>ps_me = me, ps_my_addresses = mine, ps_addresses = (\<lambda>_. None)\<rparr>"

definition store_has :: "('p, 'a) peer_store \<Rightarrow> 'p \<Rightarrow> bool" where
  "store_has s p \<longleftrightarrow> p = ps_me s \<or> ps_addresses s p \<noteq> None"

definition store_add :: "'p \<Rightarrow> 'a set \<Rightarrow> ('p, 'a) peer_store \<Rightarrow> (network_error + unit) \<times> ('p, 'a) peer_store" where
  "store_add p as s =
     (if p = ps_me s then (Inl DisallowedOperationOnOwnPeerId, s)
      else (Inr (), s\<lparr>ps_addresses := (ps_addresses s)(p \<mapsto>
        (case ps_addresses s p of Some known \<Rightarrow> known \<union> as | None \<Rightarrow> as))\<rparr>))"

definition store_get :: "('p, 'a) peer_store \<Rightarrow> 'p \<Rightarrow> 'a set option" where
  "store_get s p = (if p = ps_me s then Some (ps_my_addresses s) else ps_addresses s p)"

definition store_remove :: "'p \<Rightarrow> ('p, 'a) peer_store \<Rightarrow> (network_error + unit) \<times> ('p, 'a) peer_store" where
  "store_remove p s =
     (if p = ps_me s then (Inl DisallowedOperationOnOwnPeerId, s)
      else (Inr (), s\<lparr>ps_addresses := (ps_addresses s)(p := None)\<rparr>))"

definition store_keys :: "('p, 'a) peer_store \<Rightarrow> 'p set" where
  "store_keys s = dom (ps_addresses s)"

section \<open>Liveness of streams\<close>

text \<open>The shared flags are a store of booleans; the registry maps a peer to its flag.\<close>

record 'p liveness =
  lv_flags :: "nat \<Rightarrow> bool"
  lv_next :: nat
  lv_registry :: "'p \<Rightarrow> nat option"

definition lv_new :: "'p liveness" where
  "lv_new = \<lparr>lv_flags = (\<lambda>_. False), lv_next = 0, lv_registry = (\<lambda>_. None)\<rparr>"

definition get_or_create_connected :: "'p \<Rightarrow> 'p liveness \<Rightarrow> nat \<times> 'p liveness" where
  "get_or_create_connected p l =
     (case lv_registry l p of
        Some f \<Rightarrow> (f, l)
      | None \<Rightarrow> (lv_next l, l\<lparr>lv_flags := (lv_flags l)(lv_next l := True), lv_next := lv_next l + 1,
                      lv_registry := (lv_registry l)(p \<mapsto> lv_next l)\<rparr>))"

definition lv_get :: "'p liveness \<Rightarrow> 'p \<Rightarrow> nat option" where
  "lv_get l p = lv_registry l p"

definition lv_remove :: "'p \<Rightarrow> 'p liveness \<Rightarrow> 'p liveness" where
  "lv_remove p l =
     (case lv_registry l p of
        Some f \<Rightarrow> l\<lparr>lv_registry := (lv_registry l)(p := None), lv_flags := (lv_flags l)(f := False)\<rparr>
      | None \<Rightarrow> l)"

text \<open>A stream over an inner one; the four poll operations share their guard.\<close>

datatype io_error = ConnectionAborted | OtherError string

record 's lv_stream =
  ls_inner :: 's
  ls_alive :: nat

definition guarded :: "('s \<Rightarrow> (io_error + 'r) option \<times> 's) \<Rightarrow> 'p liveness \<Rightarrow> 's lv_stream
    \<Rightarrow> (io_error + 'r) option \<times> 's lv_stream" where
  "guarded f l st =
     (if \<not> lv_flags l (ls_alive st) then (Some (Inl ConnectionAborted), st)
      else (case f (ls_inner st) of (r, inner) \<Rightarrow> (r, st\<lparr>ls_inner := inner\<rparr>)))"

record 's stream_ops =
  so_read :: "'s \<Rightarrow> (io_error + u8 list) option \<times> 's"
  so_write :: "u8 list \<Rightarrow> 's \<Rightarrow> (io_error + nat) option \<times> 's"
  so_flush :: "'s \<Rightarrow> (io_error + unit) option \<times> 's"
  so_close :: "'s \<Rightarrow> (io_error + unit) option \<times> 's"

definition lv_stream_ops :: "'s stream_ops \<Rightarrow> 'p liveness \<Rightarrow> 's lv_stream stream_ops" where
  "lv_stream_ops I l = \<lparr>so_read = guarded (so_read I) l, so_write = (\<lambda>buf. guarded (so_write I buf) l),
     so_flush = guarded (so_flush I) l, so_close = guarded (so_close I) l\<rparr>"

section \<open>The network\<close>

datatype 'p network_event = PeerConnected 'p | PeerDisconnected 'p

record ('p, 'a) network =
  nw_tracker :: "'p set"
  nw_store :: "('p, 'a) peer_store"
  nw_liveness :: "'p liveness"
  nw_events :: "'p network_event list"
  nw_swarm_addrs :: "('p \<times> 'a) list"

definition network_new :: "'p \<Rightarrow> 'a set \<Rightarrow> ('p, 'a) network" where
  "network_new me mine = \<lparr>nw_tracker = {}, nw_store = store_new me mine, nw_liveness = lv_new,
     nw_events = [], nw_swarm_addrs = []\<rparr>"

text \<open>\<open>room\<close>: the broadcast channel takes the event; when it is full the event is lost.\<close>

definition broadcast :: "bool \<Rightarrow> 'p network_event \<Rightarrow> ('p, 'a) network \<Rightarrow> ('p, 'a) network" where
  "broadcast room e s = (if room then s\<lparr>nw_events := nw_events s @ [e]\<rparr> else s)"

definition disconnect_peer :: "bool \<Rightarrow> 'p \<Rightarrow> ('p, 'a) network \<Rightarrow> ('p, 'a) network" where
  "disconnect_peer room p s = broadcast room (PeerDisconnected p)
     (s\<lparr>nw_tracker := nw_tracker s - {p}, nw_liveness := lv_remove p (nw_liveness s)\<rparr>)"

text \<open>
  The events the loop acts on. The number is that of the connections after the event; the
  flag of a failed dial says whether the swarm holds a connection to the peer.
\<close>

datatype ('p, 'a) net_event =
    ConnectionEstablished 'p nat 'a
  | ConnectionClosed 'p nat
  | OutgoingConnectionError "'p option" bool
  | NewExternalAddrOfPeer 'p 'a
  | OtherSwarmEvent

definition handle_event :: "bool \<Rightarrow> ('a \<Rightarrow> bool) \<Rightarrow> bool \<Rightarrow> ('p, 'a) net_event \<Rightarrow> ('p, 'a) network \<Rightarrow> ('p, 'a) network" where
  "handle_event allow_private is_public room ev s =
     (case ev of
        ConnectionEstablished p num addr \<Rightarrow>
          if num = 1 then
            (let s = (if allow_private \<or> is_public addr then s\<lparr>nw_store := snd (store_add p {addr} (nw_store s))\<rparr> else s);
                 s = s\<lparr>nw_tracker := insert p (nw_tracker s)\<rparr>
             in broadcast room (PeerConnected p) s)
          else s
      | ConnectionClosed p num \<Rightarrow> if num = 0 then disconnect_peer room p s else s
      | OutgoingConnectionError (Some p) connected \<Rightarrow>
          if \<not> connected then disconnect_peer room p (s\<lparr>nw_store := snd (store_remove p (nw_store s))\<rparr>) else s
      | OutgoingConnectionError None _ \<Rightarrow> s
      | NewExternalAddrOfPeer p addr \<Rightarrow>
          if allow_private \<or> is_public addr then s\<lparr>nw_swarm_addrs := nw_swarm_addrs s @ [(p, addr)]\<rparr> else s
      | OtherSwarmEvent \<Rightarrow> s)"

text \<open>The views; the tracker is finite, its size is the number of connected peers.\<close>

datatype net_health = Red | Orange | Yellow | Green

definition health :: "('p, 'a) network \<Rightarrow> net_health" where
  "health s = (let n = card (nw_tracker s) in
     if n = 0 then Red else if n = 1 then Orange else if n < 4 then Yellow else Green)"

definition listening_as :: "('p, 'a) network \<Rightarrow> 'a set" where
  "listening_as s = unwrap_or {} (store_get (nw_store s) (ps_me (nw_store s)))"

definition is_connected :: "('p, 'a) network \<Rightarrow> 'p \<Rightarrow> bool" where
  "is_connected s p \<longleftrightarrow> p \<in> nw_tracker s"

text \<open>Opening and accepting a stream take the flag of the peer first.\<close>

definition open_stream :: "'p \<Rightarrow> (string + 's) \<Rightarrow> ('p, 'a) network \<Rightarrow> (string + 's lv_stream) \<times> ('p, 'a) network" where
  "open_stream p opened s =
     (case get_or_create_connected p (nw_liveness s) of
        (flag, l) \<Rightarrow> (map_ok (\<lambda>inner. \<lparr>ls_inner = inner, ls_alive = flag\<rparr>) opened, s\<lparr>nw_liveness := l\<rparr>))"

definition accept_stream :: "'p \<Rightarrow> 's \<Rightarrow> ('p, 'a) network \<Rightarrow> ('p \<times> 's lv_stream) \<times> ('p, 'a) network" where
  "accept_stream p inner s =
     (case get_or_create_connected p (nw_liveness s) of
        (flag, l) \<Rightarrow> ((p, \<lparr>ls_inner = inner, ls_alive = flag\<rparr>), s\<lparr>nw_liveness := l\<rparr>))"

section \<open>Multiaddresses\<close>

datatype ('i4, 'i6, 'o) protocol = Ip4 'i4 | Ip6 'i6 | Dns4 string | Dns6 string | OtherProtocol 'o

definition replace_transport_with_unspecified :: "'i4 \<Rightarrow> 'i6 \<Rightarrow> ('i4, 'i6, 'o) protocol list
    \<Rightarrow> ('i4, 'i6, 'o) protocol list" where
  "replace_transport_with_unspecified any4 any6 ma =
     map (\<lambda>proto. case proto of Ip4 _ \<Rightarrow> Ip4 any4 | Ip6 _ \<Rightarrow> Ip6 any6 | _ \<Rightarrow> proto) ma"

text \<open>\<open>lookup\<close>: the addresses of a name, version 4 and 6 mixed, or the error of the resolver.\<close>

definition resolve_proto :: "(string \<Rightarrow> string + ('i4 + 'i6) list) \<Rightarrow> ('i4, 'i6, 'o) protocol
    \<Rightarrow> string + ('i4, 'i6, 'o) protocol" where
  "resolve_proto lookup proto =
     (case proto of
        Dns4 domain \<Rightarrow> and_then (lookup domain) (\<lambda>as.
          case List.map_filter (\<lambda>a. case a of Inl i \<Rightarrow> Some i | Inr _ \<Rightarrow> None) as of
            i # _ \<Rightarrow> Inr (Ip4 i)
          | [] \<Rightarrow> Inl (''Failed to resolve '' @ domain @ '' to an IPv4 address. Does the DNS entry has an A record?''))
      | Dns6 domain \<Rightarrow> and_then (lookup domain) (\<lambda>as.
          case List.map_filter (\<lambda>a. case a of Inl _ \<Rightarrow> None | Inr i \<Rightarrow> Some i) as of
            i # _ \<Rightarrow> Inr (Ip6 i)
          | [] \<Rightarrow> Inl (''Failed to resolve '' @ domain @ '' to an IPv6 address. Does the DNS entry has an AAAA record?''))
      | _ \<Rightarrow> Inr proto)"

fun resolve_dns_if_any :: "(string \<Rightarrow> string + ('i4 + 'i6) list) \<Rightarrow> ('i4, 'i6, 'o) protocol list
    \<Rightarrow> string + ('i4, 'i6, 'o) protocol list" where
  "resolve_dns_if_any lookup [] = Inr []"
| "resolve_dns_if_any lookup (proto # ma) =
     and_then (resolve_proto lookup proto) (\<lambda>q. map_ok (\<lambda>rest. q # rest) (resolve_dns_if_any lookup ma))"

section \<open>Runs of the network\<close>

text \<open>
  The steps that touch the flags and the tracker. \<open>ns_connections\<close> counts the established
  connections of a peer, \<open>ns_streams\<close> holds the streams handed out, each with its peer and
  whether that peer was disconnected since.
\<close>

datatype ('p, 'a) net_step =
    NetEvent bool "('p, 'a) net_event"
  | OpenStream 'p bool
  | AcceptStream 'p

record ('p, 'a) net_run =
  ns_net :: "('p, 'a) network"
  ns_connections :: "'p \<Rightarrow> nat"
  ns_streams :: "('p \<times> nat \<times> bool) list"

definition ns_new :: "'p \<Rightarrow> 'a set \<Rightarrow> ('p, 'a) net_run" where
  "ns_new me mine = \<lparr>ns_net = network_new me mine, ns_connections = (\<lambda>_. 0), ns_streams = []\<rparr>"

fun disconnects :: "('p, 'a) net_event \<Rightarrow> 'p option" where
  "disconnects (ConnectionClosed p num) = (if num = 0 then Some p else None)"
| "disconnects (OutgoingConnectionError (Some p) connected) = (if connected then None else Some p)"
| "disconnects _ = None"

fun net_count :: "('p, 'a) net_event \<Rightarrow> ('p \<Rightarrow> nat) \<Rightarrow> 'p \<Rightarrow> nat" where
  "net_count (ConnectionEstablished p num _) c = c(p := num)"
| "net_count (ConnectionClosed p num) c = c(p := num)"
| "net_count _ c = c"

text \<open>What the swarm reports fits the connections there are.\<close>

fun reported :: "('p, 'a) net_event \<Rightarrow> ('p \<Rightarrow> nat) \<Rightarrow> bool" where
  "reported (ConnectionEstablished p num _) c \<longleftrightarrow> num = c p + 1"
| "reported (ConnectionClosed p num) c \<longleftrightarrow> num + 1 = c p"
| "reported (OutgoingConnectionError (Some p) connected) c \<longleftrightarrow> (connected \<longleftrightarrow> 0 < c p)"
| "reported _ c \<longleftrightarrow> True"

definition net_step :: "bool \<Rightarrow> ('a \<Rightarrow> bool) \<Rightarrow> ('p, 'a) net_step \<Rightarrow> ('p, 'a) net_run \<Rightarrow> ('p, 'a) net_run" where
  "net_step allow pub st s =
     (case st of
        NetEvent room ev \<Rightarrow>
          s\<lparr>ns_net := handle_event allow pub room ev (ns_net s),
            ns_connections := net_count ev (ns_connections s),
            ns_streams := map (\<lambda>(p, f, gone). (p, f, gone \<or> disconnects ev = Some p)) (ns_streams s)\<rparr>
      | OpenStream p ok \<Rightarrow>
          (case open_stream p (if ok then Inr () else Inl []) (ns_net s) of
             (r, net) \<Rightarrow> s\<lparr>ns_net := net, ns_streams := ns_streams s @
                (case r of Inr st \<Rightarrow> [(p, ls_alive st, False)] | Inl _ \<Rightarrow> [])\<rparr>)
      | AcceptStream p \<Rightarrow>
          (case accept_stream p () (ns_net s) of
             ((q, st), net) \<Rightarrow> s\<lparr>ns_net := net, ns_streams := ns_streams s @ [(q, ls_alive st, False)]\<rparr>))"

fun net_enabled :: "('p, 'a) net_step \<Rightarrow> ('p, 'a) net_run \<Rightarrow> bool" where
  "net_enabled (NetEvent _ ev) s \<longleftrightarrow> reported ev (ns_connections s)"
| "net_enabled _ s \<longleftrightarrow> True"

fun net_runs :: "bool \<Rightarrow> ('a \<Rightarrow> bool) \<Rightarrow> ('p, 'a) net_step list \<Rightarrow> ('p, 'a) net_run \<Rightarrow> ('p, 'a) net_run option" where
  "net_runs allow pub [] s = Some s"
| "net_runs allow pub (st # steps) s =
     (if net_enabled st s then net_runs allow pub steps (net_step allow pub st s) else None)"

section \<open>Invariants\<close>

definition flags_inv :: "'p liveness \<Rightarrow> bool" where
  "flags_inv l \<longleftrightarrow> (\<forall>p f. lv_registry l p = Some f \<longrightarrow> f < lv_next l \<and> lv_flags l f)
     \<and> (\<forall>p q f. lv_registry l p = Some f \<longrightarrow> lv_registry l q = Some f \<longrightarrow> p = q)
     \<and> (\<forall>f. lv_flags l f \<longrightarrow> (\<exists>p. lv_registry l p = Some f))"

definition stream_ok :: "'p liveness \<Rightarrow> 'p \<times> nat \<times> bool \<Rightarrow> bool" where
  "stream_ok l = (\<lambda>(p, f, gone). f < lv_next l \<and>
     (if gone then \<not> lv_flags l f else lv_registry l p = Some f \<and> lv_flags l f))"

lemma flags_inv_new: "flags_inv lv_new"
  by (simp add: flags_inv_def lv_new_def)

lemma flags_inv_create:
  assumes "flags_inv l" "get_or_create_connected p l = (f, l')"
  shows "flags_inv l'" "stream_ok l' (p, f, False)" "stream_ok l x \<Longrightarrow> stream_ok l' x"
proof -
  have "flags_inv l' \<and> stream_ok l' (p, f, False) \<and> (stream_ok l x \<longrightarrow> stream_ok l' x)"
  proof (cases "lv_registry l p")
    case (Some g)
    with assms show ?thesis by (auto simp: get_or_create_connected_def flags_inv_def stream_ok_def)
  next
    case None
    have fresh: "lv_registry l q \<noteq> Some (lv_next l)" for q using assms(1) by (auto simp: flags_inv_def)
    have l': "f = lv_next l" "l' = l\<lparr>lv_flags := (lv_flags l)(lv_next l := True), lv_next := lv_next l + 1,
        lv_registry := (lv_registry l)(p \<mapsto> lv_next l)\<rparr>"
      using assms(2) None by (auto simp: get_or_create_connected_def)
    have "flags_inv l'"
      using assms(1) fresh None unfolding flags_inv_def l' by (auto simp: less_Suc_eq) (metis option.distinct(1))
    moreover have "stream_ok l x \<longrightarrow> stream_ok l' x"
      using None fresh unfolding l' by (cases x) (auto simp: stream_ok_def)
    ultimately show ?thesis by (simp add: l' stream_ok_def)
  qed
  then show "flags_inv l'" "stream_ok l' (p, f, False)" "stream_ok l x \<Longrightarrow> stream_ok l' x" by auto
qed

lemma flags_inv_remove:
  assumes "flags_inv l"
  shows "flags_inv (lv_remove p l)" "stream_ok l (q, f, gone) \<Longrightarrow> stream_ok (lv_remove p l) (q, f, gone \<or> p = q)"
proof -
  show "flags_inv (lv_remove p l)"
  proof (cases "lv_registry l p")
    case (Some f)
    then have r: "lv_registry (lv_remove p l) = (lv_registry l)(p := None)"
      "lv_flags (lv_remove p l) = (lv_flags l)(f := False)" "lv_next (lv_remove p l) = lv_next l"
      by (simp_all add: lv_remove_def)
    have other: "lv_registry l q = Some f \<Longrightarrow> q = p" for q using assms Some unfolding flags_inv_def by blast
    show ?thesis
      unfolding flags_inv_def r
    proof (intro conjI allI impI)
      fix q g assume "((lv_registry l)(p := None)) q = Some g"
      then have q: "lv_registry l q = Some g" "q \<noteq> p" by (auto split: if_splits)
      then show "g < lv_next l" "((lv_flags l)(f := False)) g"
        using assms other [of q] unfolding flags_inv_def by auto
    next
      fix q q' g assume "((lv_registry l)(p := None)) q = Some g" "((lv_registry l)(p := None)) q' = Some g"
      then have "lv_registry l q = Some g" "lv_registry l q' = Some g" by (auto split: if_splits)
      then show "q = q'" using assms unfolding flags_inv_def by blast
    next
      fix g assume "((lv_flags l)(f := False)) g"
      then have g: "g \<noteq> f" "lv_flags l g" by (auto split: if_splits)
      then obtain q where "lv_registry l q = Some g" using assms unfolding flags_inv_def by blast
      with g Some show "\<exists>q. ((lv_registry l)(p := None)) q = Some g" by (intro exI [of _ q]) auto
    qed
  qed (use assms in \<open>simp add: lv_remove_def\<close>)
  show "stream_ok l (q, f, gone) \<Longrightarrow> stream_ok (lv_remove p l) (q, f, gone \<or> p = q)"
    using assms by (cases "lv_registry l p") (auto simp: flags_inv_def lv_remove_def stream_ok_def split: if_splits)
qed

definition store_inv :: "bool \<Rightarrow> ('a \<Rightarrow> bool) \<Rightarrow> ('p, 'a) peer_store \<Rightarrow> bool" where
  "store_inv allow pub s \<longleftrightarrow> ps_addresses s (ps_me s) = None \<and>
     (\<forall>p as a. ps_addresses s p = Some as \<longrightarrow> a \<in> as \<longrightarrow> allow \<or> pub a)"

lemma store_inv_add: "store_inv allow pub s \<Longrightarrow> allow \<or> pub a \<Longrightarrow> store_inv allow pub (snd (store_add p {a} s))"
  by (auto simp: store_inv_def store_add_def split: option.splits)

lemma store_inv_remove: "store_inv allow pub s \<Longrightarrow> store_inv allow pub (snd (store_remove p s))"
  by (auto simp: store_inv_def store_remove_def)

definition net_inv :: "bool \<Rightarrow> ('a \<Rightarrow> bool) \<Rightarrow> ('p, 'a) net_run \<Rightarrow> bool" where
  "net_inv allow pub s \<longleftrightarrow> nw_tracker (ns_net s) = {p. 0 < ns_connections s p} \<and> finite (nw_tracker (ns_net s))
     \<and> store_inv allow pub (nw_store (ns_net s)) \<and> flags_inv (nw_liveness (ns_net s))
     \<and> (\<forall>x\<in>set (ns_streams s). stream_ok (nw_liveness (ns_net s)) x)"

lemma broadcast_sel [simp]:
  "nw_tracker (broadcast room e s) = nw_tracker s" "nw_store (broadcast room e s) = nw_store s"
  "nw_liveness (broadcast room e s) = nw_liveness s" "nw_swarm_addrs (broadcast room e s) = nw_swarm_addrs s"
  by (simp_all add: broadcast_def)

lemma event_tracker:
  assumes "nw_tracker s = {p. 0 < c p}" "reported ev c"
  shows "nw_tracker (handle_event allow pub room ev s) = {p. 0 < net_count ev c p}"
  using assms by (cases "(ev, c)" rule: reported.cases)
    (auto simp: handle_event_def disconnect_peer_def Let_def)

lemma event_finite: "finite (nw_tracker s) \<Longrightarrow> finite (nw_tracker (handle_event allow pub room ev s))"
  by (auto simp: handle_event_def disconnect_peer_def Let_def split: net_event.splits option.splits)

lemma event_store: "store_inv allow pub (nw_store s) \<Longrightarrow> store_inv allow pub (nw_store (handle_event allow pub room ev s))"
  by (auto simp: handle_event_def disconnect_peer_def Let_def store_inv_add store_inv_remove
      split: net_event.splits option.splits)

lemma event_liveness:
  "nw_liveness (handle_event allow pub room ev s) =
     (case disconnects ev of Some p \<Rightarrow> lv_remove p (nw_liveness s) | None \<Rightarrow> nw_liveness s)"
  by (cases ev rule: disconnects.cases) (auto simp: handle_event_def disconnect_peer_def Let_def)

lemma net_step_inv:
  assumes "net_inv allow pub s" "net_enabled st s"
  shows "net_inv allow pub (net_step allow pub st s)"
proof (cases st)
  case (NetEvent room ev)
  let ?l = "nw_liveness (ns_net s)" and ?net = "handle_event allow pub room ev (ns_net s)"
  have fl: "flags_inv ?l" and so: "\<And>x. x \<in> set (ns_streams s) \<Longrightarrow> stream_ok ?l x"
    using assms(1) by (auto simp: net_inv_def)
  have "flags_inv (nw_liveness ?net)"
    using fl by (auto simp: event_liveness flags_inv_remove split: option.splits)
  moreover have "stream_ok (nw_liveness ?net) (p, f, gone \<or> disconnects ev = Some p)" if "(p, f, gone) \<in> set (ns_streams s)" for p f gone
    using so [OF that] flags_inv_remove(2) [OF fl, of p f gone] by (cases "disconnects ev") (auto simp: event_liveness)
  ultimately show ?thesis
    using assms event_tracker [of "ns_net s" "ns_connections s" ev allow pub room]
      event_finite [of "ns_net s" allow pub room ev]
    by (auto simp: net_inv_def net_step_def NetEvent event_store)
next
  case (OpenStream p ok)
  obtain f l where g: "get_or_create_connected p (nw_liveness (ns_net s)) = (f, l)" by fastforce
  then have "flags_inv l" "stream_ok l (p, f, False)" "\<And>x. stream_ok (nw_liveness (ns_net s)) x \<Longrightarrow> stream_ok l x"
    using assms(1) flags_inv_create [OF _ g] by (auto simp: net_inv_def)
  with assms(1) show ?thesis
    by (cases ok) (auto simp: net_inv_def net_step_def OpenStream open_stream_def g)
next
  case (AcceptStream p)
  obtain f l where g: "get_or_create_connected p (nw_liveness (ns_net s)) = (f, l)" by fastforce
  then have "flags_inv l" "stream_ok l (p, f, False)" "\<And>x. stream_ok (nw_liveness (ns_net s)) x \<Longrightarrow> stream_ok l x"
    using assms(1) flags_inv_create [OF _ g] by (auto simp: net_inv_def)
  with assms(1) show ?thesis
    by (auto simp: net_inv_def net_step_def AcceptStream accept_stream_def g)
qed

lemma net_inv_new: "net_inv allow pub (ns_new me mine)"
  by (simp add: net_inv_def ns_new_def network_new_def store_inv_def store_new_def flags_inv_new)

lemma net_runs_inv: "net_inv allow pub s \<Longrightarrow> net_runs allow pub steps s = Some s' \<Longrightarrow> net_inv allow pub s'"
proof (induction steps arbitrary: s)
  case (Cons st steps)
  then show ?case using net_step_inv [of allow pub s st] by (auto split: if_splits)
qed simp

fun is_name :: "('i4, 'i6, 'o) protocol \<Rightarrow> bool" where
  "is_name (Dns4 _) = True"
| "is_name (Dns6 _) = True"
| "is_name _ = False"

lemma resolve_proto_no_name: "resolve_proto lookup proto = Inr q \<Longrightarrow> \<not> is_name q"
  by (cases proto) (auto simp: resolve_proto_def and_then_Inr_iff neq_Nil_conv split: list.splits)

lemma resolve_dns_no_names:
  "resolve_dns_if_any lookup ma = Inr out \<Longrightarrow> length out = length ma \<and> list_all (\<lambda>q. \<not> is_name q) out"
proof (induction ma arbitrary: out)
  case (Cons proto ma)
  then show ?case
    by (cases "resolve_dns_if_any lookup ma") (auto simp: and_then_Inr_iff resolve_proto_no_name)
qed simp

lemma guarded_eq:
  "guarded f l st = (if \<not> lv_flags l (ls_alive st) then (Some (Inl ConnectionAborted), st)
     else apsnd (\<lambda>i. st\<lparr>ls_inner := i\<rparr>) (f (ls_inner st)))"
  by (cases "f (ls_inner st)") (simp add: guarded_def)

section \<open>Properties\<close>

definition sample_net :: "(nat, nat) net_step list" where
  "sample_net = [OpenStream 7 True, NetEvent True (ConnectionEstablished 7 1 4), NetEvent True (ConnectionEstablished 8 1 6),
     NetEvent True (ConnectionClosed 7 0), AcceptStream 8]"

text \<open>
  C19. The view of the network is the truth about the connections. In every run in which the
  swarm reports the connections there are, the tracker holds exactly the peers with an
  established connection, whatever the order of several connections to one peer; the health
  is read off their number; and the peer store never holds the node itself, nor an address
  that is not public unless private ones are allowed.
\<close>

theorem tracker_matches_connections:
  assumes "net_runs allow pub steps (ns_new me mine) = Some s"
  shows "(\<forall>p. is_connected (ns_net s) p \<longleftrightarrow> 0 < ns_connections s p) \<and>
    health (ns_net s) = (let n = card {p. 0 < ns_connections s p} in
      if n = 0 then Red else if n = 1 then Orange else if n < 4 then Yellow else Green) \<and>
    (\<forall>p as a. ps_addresses (nw_store (ns_net s)) p = Some as \<and> a \<in> as \<longrightarrow>
      p \<noteq> ps_me (nw_store (ns_net s)) \<and> (allow \<or> pub a))"
proof -
  have i: "net_inv allow pub s" by (rule net_runs_inv [OF net_inv_new assms])
  then show ?thesis
    by (auto simp: net_inv_def is_connected_def health_def store_inv_def)
qed

theorem tracker_matches_connections_witness:
  "\<exists>s. net_runs False even sample_net (ns_new 1 {}) = Some s \<and> is_connected (ns_net s) 8 \<and> \<not> is_connected (ns_net s) 7"
proof -
  have "map_option (\<lambda>s. (ns_connections s 8, ns_connections s 7)) (net_runs False even sample_net (ns_new 1 {})) = Some (1, 0)"
    by code_simp
  then obtain s where s: "net_runs False even sample_net (ns_new 1 {}) = Some s"
      and c: "(ns_connections s 8, ns_connections s 7) = (1, 0)"
    unfolding map_option_eq_Some by blast
  from tracker_matches_connections [OF s] c s show ?thesis by (metis less_numeral_extra(1,3) prod.inject)
qed



end
