(* ===== verification/P2p_Listen.thy ===== *)
theory P2p_Listen
  imports P2p_Discovery P2p_Network Rust_Text
begin

text \<open>
  How the peer-to-peer transport is put together (\<open>transport/p2p/src\<close>): the limits of the swarm,
  its construction and the addresses it listens on (\<open>swarm.rs\<close>), the configuration of the
  behaviours (\<open>behavior/mod.rs\<close>), the constants and errors (\<open>constants.rs\<close>, \<open>errors.rs\<close>). What
  \<open>libp2p\<close> answers to the construction of a transport and to a request to listen is a parameter.
\<close>

section \<open>Errors and limits\<close>

datatype p2p_error =
    Notification string
  | ProtocolHeartbeat string
  | Logic string
  | Libp2p string
  | Multiaddress string

definition idle_connection_timeout :: nat where "idle_connection_timeout = 300"
definition concurrently_dialed_peer_count :: nat where "concurrently_dialed_peer_count = 255"
definition concurrently_negotiating_inbound_peer_count :: nat where "concurrently_negotiating_inbound_peer_count = 512"

text \<open>The three variables of the environment; only the first is trimmed and bounded from below.\<close>

definition parsed_or :: "nat \<Rightarrow> nat \<Rightarrow> string option \<Rightarrow> nat" where
  "parsed_or cap dflt var =
    (case Option.bind var (\<lambda>v. res_ok (parse_unsigned cap v)) of Some n \<Rightarrow> n | None \<Rightarrow> dflt)"

definition dial_concurrency :: "string option \<Rightarrow> nat" where
  "dial_concurrency var = max (parsed_or (2 ^ 8 - 1) concurrently_dialed_peer_count (map_option trim var)) 1"

definition max_negotiating_inbound :: "string option \<Rightarrow> nat" where
  "max_negotiating_inbound var = parsed_or (2 ^ 64 - 1) concurrently_negotiating_inbound_peer_count var"

definition idle_timeout :: "string option \<Rightarrow> nat" where
  "idle_timeout var = parsed_or (2 ^ 64 - 1) idle_connection_timeout var"

section \<open>The behaviours\<close>

text \<open>Discovery is the only behaviour of the crate; \<open>identify\<close> is given by the settings that matter.\<close>

record ('p, 'a, 'b) hopr_behaviour =
  hb_discovery :: "('p, 'a, 'b) behaviour"
  hb_identify_protocol :: string
  hb_identify_cache_size :: nat
  hb_identify_hide_listen_addrs :: bool

definition hopr_behaviour_new :: "'p \<Rightarrow> bool \<Rightarrow> ('p, 'a, 'b) hopr_behaviour" where
  "hopr_behaviour_new me allow_private = \<lparr>hb_discovery = bh_new me allow_private,
    hb_identify_protocol = ''/hopr/identify/1.0.0'', hb_identify_cache_size = 0, hb_identify_hide_listen_addrs = True\<rparr>"

section \<open>Building the swarm\<close>

record ('p, 'a, 'b) inactive =
  in_behaviour :: "('p, 'a, 'b) hopr_behaviour"
  in_dial_concurrency :: nat
  in_max_negotiating :: nat
  in_idle_timeout :: nat

record swarm_env =
  se_tcp :: "string + unit"
  se_dns :: "string + unit"
  se_behaviour :: "string + unit"
  se_dialed :: "string option"
  se_negotiating :: "string option"
  se_idle :: "string option"

definition inactive_build :: "swarm_env \<Rightarrow> 'p \<Rightarrow> bool \<Rightarrow> p2p_error + ('p, 'a, 'b) inactive" where
  "inactive_build V me allow_private =
    and_then (map_err Libp2p (se_tcp V)) (\<lambda>_.
    and_then (map_err Libp2p (se_dns V)) (\<lambda>_.
    map_ok (\<lambda>_. \<lparr>in_behaviour = hopr_behaviour_new me allow_private,
        in_dial_concurrency = dial_concurrency (se_dialed V),
        in_max_negotiating = max_negotiating_inbound (se_negotiating V),
        in_idle_timeout = idle_timeout (se_idle V)\<rparr>)
      (map_err Libp2p (se_behaviour V))))"

text \<open>
  \<open>listen\<close> is the answer of the swarm to a request to listen, over a state of its own. Beside it
  stands the list of external addresses that were advertised.
\<close>

definition listen_one ::
  "(string \<Rightarrow> string + ('i4 + 'i6) list) \<Rightarrow> 'i4 \<Rightarrow> 'i6 \<Rightarrow> (('i4, 'i6, 'o) protocol list \<Rightarrow> 's \<Rightarrow> bool \<times> 's) \<Rightarrow>
    ('i4, 'i6, 'o) protocol list \<Rightarrow> 's \<times> ('i4, 'i6, 'o) protocol list list \<Rightarrow>
    's \<times> ('i4, 'i6, 'o) protocol list list"
where
  "listen_one lookup any4 any6 listen multiaddress = (\<lambda>(sw, external).
    (case resolve_dns_if_any lookup multiaddress of
       Inl _ \<Rightarrow> (sw, external)
     | Inr ma \<Rightarrow>
         (case listen ma sw of
            (True, sw) \<Rightarrow> (sw, external @ [multiaddress])
          | (False, sw) \<Rightarrow>
              (case listen (replace_transport_with_unspecified any4 any6 ma) sw of
                 (True, sw) \<Rightarrow> (sw, external @ [multiaddress])
               | (False, sw) \<Rightarrow> (sw, external)))))"

definition with_listen_on ::
  "(string \<Rightarrow> string + ('i4 + 'i6) list) \<Rightarrow> 'i4 \<Rightarrow> 'i6 \<Rightarrow> (('i4, 'i6, 'o) protocol list \<Rightarrow> 's \<Rightarrow> bool \<times> 's) \<Rightarrow>
    ('i4, 'i6, 'o) protocol list list \<Rightarrow> 's \<Rightarrow> 's \<times> ('i4, 'i6, 'o) protocol list list"
where
  "with_listen_on lookup any4 any6 listen multiaddresses sw =
    fold (listen_one lookup any4 any6 listen) multiaddresses (sw, [])"

text \<open>The whole builder; a swarm that cannot be constructed panics.\<close>

definition network_build ::
  "swarm_env \<Rightarrow> (string \<Rightarrow> string + ('i4 + 'i6) list) \<Rightarrow> 'i4 \<Rightarrow> 'i6 \<Rightarrow>
    (('i4, 'i6, 'o) protocol list \<Rightarrow> 's \<Rightarrow> bool \<times> 's) \<Rightarrow> 's \<Rightarrow> 'p \<Rightarrow> ('i4, 'i6, 'o) protocol list list \<Rightarrow> bool \<Rightarrow>
    (('p, ('i4, 'i6, 'o) protocol list) network \<times> ('p, ('i4, 'i6, 'o) protocol list, 'b) inactive \<times>
      's \<times> ('i4, 'i6, 'o) protocol list list) option"
where
  "network_build V lookup any4 any6 listen sw me mas allow_private =
    (case inactive_build V me allow_private of
       Inl _ \<Rightarrow> None
     | Inr inactive \<Rightarrow>
         (let (sw, external) = with_listen_on lookup any4 any6 listen mas sw
          in Some (network_new me (set mas), inactive, sw, external)))"

section \<open>Limits and addresses\<close>

lemma parsed_or_le:
  assumes "dflt \<le> cap"
  shows "parsed_or cap dflt var \<le> cap"
proof (cases var)
  case (Some v)
  with assms show ?thesis
    by (cases "parse_unsigned cap v") (simp_all add: parsed_or_def res_ok_def parse_unsigned_le)
qed (simp add: assms parsed_or_def)

lemma inactive_build_Inr:
  "inactive_build V me allow_private = Inr sm \<Longrightarrow> in_behaviour sm = hopr_behaviour_new me allow_private \<and>
    in_dial_concurrency sm = dial_concurrency (se_dialed V)"
  by (cases "se_tcp V"; cases "se_dns V"; cases "se_behaviour V") (auto simp: inactive_build_def)

lemma dial_concurrency_bounds: "1 \<le> dial_concurrency var \<and> dial_concurrency var \<le> 255"
  using parsed_or_le [of concurrently_dialed_peer_count "2 ^ 8 - 1" "map_option trim var"]
  by (simp add: dial_concurrency_def concurrently_dialed_peer_count_def)

definition can_listen ::
  "(string \<Rightarrow> string + ('i4 + 'i6) list) \<Rightarrow> 'i4 \<Rightarrow> 'i6 \<Rightarrow> (('i4, 'i6, 'o) protocol list \<Rightarrow> bool) \<Rightarrow>
    ('i4, 'i6, 'o) protocol list \<Rightarrow> bool"
where
  "can_listen lookup any4 any6 works ma \<longleftrightarrow>
    (\<exists>la. resolve_dns_if_any lookup ma = Inr la \<and> (works la \<or> works (replace_transport_with_unspecified any4 any6 la)))"

lemma listen_one_stateless:
  "listen_one lookup any4 any6 (\<lambda>a s. (works a, s)) ma (sw, external) =
    (sw, external @ (if can_listen lookup any4 any6 works ma then [ma] else []))"
  by (auto simp: listen_one_def can_listen_def split: sum.splits bool.splits)

lemma listen_all_stateless:
  "fold (listen_one lookup any4 any6 (\<lambda>a s. (works a, s))) mas (sw, external) =
    (sw, external @ filter (can_listen lookup any4 any6 works) mas)"
  by (induction mas arbitrary: external) (simp_all add: listen_one_stateless)



end
