(* ===== verification/Channel_Graph.thy ===== *)
theory Channel_Graph
  imports Hopr_Base
begin

text \<open>
  The channel graph (\<open>graph/src/petgraph/graph.rs\<close>) and the slots that name its nodes in path
  identifiers (\<open>graph/src/petgraph/mod.rs\<close>). The vertices and edges live in a \<open>petgraph\<close>
  \<open>StableDiGraph\<close>: a vertex is named by the position at which it was added, and since the
  code adds an edge only where \<open>find_edge\<close> finds none, an edge is named here by its two ends.
  \<open>indices\<close> is a \<open>bimap\<close>, \<open>slots\<close> a map. The bytes of a public key and the observations of an
  edge are parameters. The abstract graph is a set of keys with a map of edges.
\<close>

section \<open>Bidirectional map\<close>

type_synonym 'k bimap = "('k \<times> nat) list"

definition by_left :: "'k bimap \<Rightarrow> 'k \<Rightarrow> nat option" where
  "by_left m k = map_of m k"

definition by_right :: "'k bimap \<Rightarrow> nat \<Rightarrow> 'k option" where
  "by_right m i = map_of (map (\<lambda>(k, i). (i, k)) m) i"

text \<open>An insertion replaces every pair that has either side.\<close>

definition bi_insert :: "'k \<Rightarrow> nat \<Rightarrow> 'k bimap \<Rightarrow> 'k bimap" where
  "bi_insert k i m = (k, i) # filter (\<lambda>(k', i'). k' \<noteq> k \<and> i' \<noteq> i) m"

definition remove_by_left :: "'k \<Rightarrow> 'k bimap \<Rightarrow> 'k bimap" where
  "remove_by_left k m = filter (\<lambda>(k', i). k' \<noteq> k) m"

definition bi_ok :: "'k bimap \<Rightarrow> bool" where
  "bi_ok m \<longleftrightarrow> distinct (map fst m) \<and> distinct (map snd m)"

lemma by_left_mem: "bi_ok m \<Longrightarrow> by_left m k = Some i \<longleftrightarrow> (k, i) \<in> set m"
  by (simp add: bi_ok_def by_left_def)

lemma by_right_mem: "bi_ok m \<Longrightarrow> by_right m i = Some k \<longleftrightarrow> (k, i) \<in> set m"
proof -
  assume "bi_ok m"
  then have "distinct (map fst (map (\<lambda>(k, i). (i, k)) m))"
    by (simp add: bi_ok_def comp_def case_prod_unfold)
  then have "by_right m i = Some k \<longleftrightarrow> (i, k) \<in> set (map (\<lambda>(k, i). (i, k)) m)"
    by (simp add: by_right_def)
  also have "\<dots> \<longleftrightarrow> (k, i) \<in> set m" by force
  finally show ?thesis .
qed

lemma by_left_None: "by_left m k = None \<longleftrightarrow> k \<notin> fst ` set m"
  by (simp add: by_left_def map_of_eq_None_iff)

lemma bi_ok_insert: "bi_ok m \<Longrightarrow> bi_ok (bi_insert k i m)"
  by (auto simp: bi_ok_def bi_insert_def distinct_map intro: inj_on_subset)

lemma bi_ok_remove: "bi_ok m \<Longrightarrow> bi_ok (remove_by_left k m)"
  by (auto simp: bi_ok_def remove_by_left_def distinct_map intro: inj_on_subset)

section \<open>The graph and its slots\<close>

record ('k, 'o) inner_graph =
  ig_nodes :: "'k list"
  ig_edges :: "((nat \<times> nat) \<times> 'o) list"
  ig_indices :: "'k bimap"
  ig_slots :: "u64 \<Rightarrow> nat list option"

definition find_edge :: "('k, 'o) inner_graph \<Rightarrow> nat \<Rightarrow> nat \<Rightarrow> (nat \<times> nat) option" where
  "find_edge g i j = (if (i, j) \<in> fst ` set (ig_edges g) then Some (i, j) else None)"

definition edge_weight :: "('k, 'o) inner_graph \<Rightarrow> nat \<times> nat \<Rightarrow> 'o option" where
  "edge_weight g e = map_of (ig_edges g) e"

text \<open>A change through \<open>edge_weight_mut\<close>; nothing where there is no such edge.\<close>

definition change_edges :: "(nat \<times> nat \<Rightarrow> bool) \<Rightarrow> ('o \<Rightarrow> 'o) \<Rightarrow> ('k, 'o) inner_graph \<Rightarrow> ('k, 'o) inner_graph" where
  "change_edges P f g = g\<lparr>ig_edges := map (\<lambda>(e, w). (e, if P e then f w else w)) (ig_edges g)\<rparr>"

abbreviation change_edge :: "nat \<times> nat \<Rightarrow> ('o \<Rightarrow> 'o) \<Rightarrow> ('k, 'o) inner_graph \<Rightarrow> ('k, 'o) inner_graph" where
  "change_edge e \<equiv> change_edges (\<lambda>e'. e' = e)"

text \<open>The leading eight bytes of the key, big-endian; \<open>0\<close> is reserved for padding.\<close>

definition encode :: "('k \<Rightarrow> u8 list) \<Rightarrow> 'k \<Rightarrow> u64" where
  "encode bytes key = (let slot = word_rcat (take 8 (bytes key)) in if slot = 0 then 1 else slot)"

definition resolve :: "('k, 'o) inner_graph \<Rightarrow> u64 \<Rightarrow> nat option" where
  "resolve g slot =
     (if slot = 0 then None
      else (case ig_slots g slot of
          Some [idx] \<Rightarrow> Some idx
        | _ \<Rightarrow> None))"

definition claim_slot :: "('k \<Rightarrow> u8 list) \<Rightarrow> 'k \<Rightarrow> nat \<Rightarrow> ('k, 'o) inner_graph \<Rightarrow> ('k, 'o) inner_graph" where
  "claim_slot bytes key idx g =
     (let claimants = unwrap_or [] (ig_slots g (encode bytes key))
      in g\<lparr>ig_slots := (ig_slots g)(encode bytes key \<mapsto>
           (if idx \<in> set claimants then claimants else claimants @ [idx]))\<rparr>)"

definition release_slot :: "('k \<Rightarrow> u8 list) \<Rightarrow> 'k \<Rightarrow> nat \<Rightarrow> ('k, 'o) inner_graph \<Rightarrow> ('k, 'o) inner_graph" where
  "release_slot bytes key idx g =
     (let slot = encode bytes key
      in (case ig_slots g slot of
            None \<Rightarrow> g
          | Some claimants \<Rightarrow>
              (let held = filter (\<lambda>i. i \<noteq> idx) claimants
               in g\<lparr>ig_slots := (ig_slots g)(slot := (if held = [] then None else Some held))\<rparr>)))"

text \<open>A new graph holds the node itself.\<close>

definition inner_new :: "('k \<Rightarrow> u8 list) \<Rightarrow> 'k \<Rightarrow> ('k, 'o) inner_graph" where
  "inner_new bytes me =
     \<lparr>ig_nodes = [me], ig_edges = [], ig_indices = bi_insert me 0 [],
      ig_slots = [encode bytes me \<mapsto> [0]]\<rparr>"

section \<open>Operations\<close>

datatype 'k graph_error = PublicKeyNodeNotFound 'k

definition new_node :: "('k \<Rightarrow> u8 list) \<Rightarrow> 'k \<Rightarrow> ('k, 'o) inner_graph \<Rightarrow> nat \<times> ('k, 'o) inner_graph" where
  "new_node bytes key g =
     (let idx = length (ig_nodes g)
      in (idx, claim_slot bytes key idx
           (g\<lparr>ig_nodes := ig_nodes g @ [key], ig_indices := bi_insert key idx (ig_indices g)\<rparr>)))"

definition add_node :: "('k \<Rightarrow> u8 list) \<Rightarrow> 'k \<Rightarrow> ('k, 'o) inner_graph \<Rightarrow> ('k, 'o) inner_graph" where
  "add_node bytes key g =
     (if by_left (ig_indices g) key = None then snd (new_node bytes key g) else g)"

text \<open>The vertex stays behind, without edges and without a key.\<close>

definition remove_node :: "('k \<Rightarrow> u8 list) \<Rightarrow> 'k \<Rightarrow> ('k, 'o) inner_graph \<Rightarrow> ('k, 'o) inner_graph" where
  "remove_node bytes key g =
     (case by_left (ig_indices g) key of
        None \<Rightarrow> g
      | Some idx \<Rightarrow>
          (let g = release_slot bytes key idx (g\<lparr>ig_indices := remove_by_left key (ig_indices g)\<rparr>)
           in g\<lparr>ig_edges := filter (\<lambda>((i, j), w). i \<noteq> idx \<and> j \<noteq> idx) (ig_edges g)\<rparr>))"

definition put_edge :: "nat \<Rightarrow> nat \<Rightarrow> 'o \<Rightarrow> ('k, 'o) inner_graph \<Rightarrow> ('k, 'o) inner_graph" where
  "put_edge i j w g =
     (if find_edge g i j = None then g\<lparr>ig_edges := ig_edges g @ [((i, j), w)]\<rparr> else g)"

definition add_edge :: "'o \<Rightarrow> 'k \<Rightarrow> 'k \<Rightarrow> ('k, 'o) inner_graph \<Rightarrow> ('k graph_error + unit) \<times> ('k, 'o) inner_graph" where
  "add_edge dflt src dest g =
     (case by_left (ig_indices g) src of
        None \<Rightarrow> (Inl (PublicKeyNodeNotFound src), g)
      | Some i \<Rightarrow> (case by_left (ig_indices g) dest of
            None \<Rightarrow> (Inl (PublicKeyNodeNotFound dest), g)
          | Some j \<Rightarrow> (Inr (), put_edge i j dflt g)))"

definition remove_edge :: "'k \<Rightarrow> 'k \<Rightarrow> ('k, 'o) inner_graph \<Rightarrow> ('k, 'o) inner_graph" where
  "remove_edge src dest g =
     (case (by_left (ig_indices g) src, by_left (ig_indices g) dest) of
        (Some i, Some j) \<Rightarrow>
          (case find_edge g i j of
             Some e \<Rightarrow> g\<lparr>ig_edges := filter (\<lambda>(e', w). e' \<noteq> e) (ig_edges g)\<rparr>
           | None \<Rightarrow> g)
      | _ \<Rightarrow> g)"

definition node_or_new :: "('k \<Rightarrow> u8 list) \<Rightarrow> 'k \<Rightarrow> ('k, 'o) inner_graph \<Rightarrow> nat \<times> ('k, 'o) inner_graph" where
  "node_or_new bytes key g =
     (case by_left (ig_indices g) key of Some i \<Rightarrow> (i, g) | None \<Rightarrow> new_node bytes key g)"

definition upsert_edge :: "('k \<Rightarrow> u8 list) \<Rightarrow> 'o \<Rightarrow> 'k \<Rightarrow> 'k \<Rightarrow> ('o \<Rightarrow> 'o) \<Rightarrow> ('k, 'o) inner_graph \<Rightarrow> ('k, 'o) inner_graph" where
  "upsert_edge bytes dflt src dest f g =
     (case node_or_new bytes src g of
        (i, g) \<Rightarrow> (case node_or_new bytes dest g of
          (j, g) \<Rightarrow> change_edge (i, j) f (put_edge i j dflt g)))"

text \<open>\<open>set_health\<close> is the setter of the observations; a health of \<open>1\<close> or more is no judgement.\<close>

definition set_node_health :: "('h \<Rightarrow> 'h option) \<Rightarrow> ('h option \<Rightarrow> 'o \<Rightarrow> 'o) \<Rightarrow> nat \<Rightarrow> 'h
    \<Rightarrow> ('k, 'o) inner_graph \<Rightarrow> ('k, 'o) inner_graph" where
  "set_node_health below_one set_health idx health g =
     change_edges (\<lambda>(i, j). j = idx) (set_health (below_one health)) g"

section \<open>Views\<close>

definition node_count :: "('k, 'o) inner_graph \<Rightarrow> nat" where
  "node_count g = length (ig_indices g)"

definition contains_node :: "('k, 'o) inner_graph \<Rightarrow> 'k \<Rightarrow> bool" where
  "contains_node g k \<longleftrightarrow> by_left (ig_indices g) k \<noteq> None"

definition graph_nodes :: "('k, 'o) inner_graph \<Rightarrow> 'k list" where
  "graph_nodes g = map fst (ig_indices g)"

definition has_edge :: "('k, 'o) inner_graph \<Rightarrow> 'k \<Rightarrow> 'k \<Rightarrow> bool" where
  "has_edge g src dest =
     (case (by_left (ig_indices g) src, by_left (ig_indices g) dest) of
        (Some i, Some j) \<Rightarrow> find_edge g i j \<noteq> None
      | _ \<Rightarrow> False)"

definition edge_between :: "('k, 'o) inner_graph \<Rightarrow> 'k \<Rightarrow> 'k \<Rightarrow> 'o option" where
  "edge_between g src dest =
     Option.bind (by_left (ig_indices g) src) (\<lambda>i.
       Option.bind (by_left (ig_indices g) dest) (\<lambda>j.
         Option.bind (find_edge g i j) (edge_weight g)))"

definition path_slot :: "('k \<Rightarrow> u8 list) \<Rightarrow> ('k, 'o) inner_graph \<Rightarrow> 'k \<Rightarrow> u64 option" where
  "path_slot bytes g k = (if by_left (ig_indices g) k \<noteq> None then Some (encode bytes k) else None)"

definition node_weight :: "('k, 'o) inner_graph \<Rightarrow> nat \<Rightarrow> 'k option" where
  "node_weight g i = (if i < length (ig_nodes g) then Some (ig_nodes g ! i) else None)"

definition keyed_edges :: "('k, 'o) inner_graph \<Rightarrow> (nat \<times> nat \<Rightarrow> bool) \<Rightarrow> ('k \<times> 'k \<times> 'o) list" where
  "keyed_edges g P = List.map_filter (\<lambda>((i, j), w).
     if P (i, j) then Option.bind (node_weight g i) (\<lambda>src. map_option (\<lambda>dst. (src, dst, w)) (node_weight g j))
     else None) (ig_edges g)"

definition connected_edges :: "('k, 'o) inner_graph \<Rightarrow> ('k \<times> 'k \<times> 'o) list" where
  "connected_edges g = keyed_edges g (\<lambda>_. True)"

text \<open>\<open>bfs\<close> is the breadth-first visit of \<open>petgraph\<close>, from a node along successors.\<close>

definition reachable_edges :: "((nat \<Rightarrow> nat list) \<Rightarrow> nat \<Rightarrow> nat list) \<Rightarrow> 'k \<Rightarrow> ('k, 'o) inner_graph \<Rightarrow> ('k \<times> 'k \<times> 'o) list" where
  "reachable_edges bfs me g =
     (case by_left (ig_indices g) me of
        None \<Rightarrow> []
      | Some i \<Rightarrow>
          (let visited = bfs (\<lambda>n. map (snd \<circ> fst) (filter (\<lambda>((a, b), w). a = n) (ig_edges g))) i
           in keyed_edges g (\<lambda>(a, b). a \<in> set visited \<and> b \<in> set visited)))"

end
