(* ===== verification/Graph_Store.thy ===== *)
theory Graph_Store
  imports Channel_Graph
begin

text \<open>
  The channel graph implements an abstract graph: a set of keys and a partial map from pairs of
  keys to observations. \<open>graph_ok\<close> is the invariant that ties the two key maps, the edges and
  the slots together; \<open>network_graph\<close> is the interface the prober and the chain follower use.
\<close>

section \<open>Invariant\<close>

text \<open>The vertices that claim a slot: those whose key is in the graph and encodes to it.\<close>

definition claimants :: "('k \<Rightarrow> u8 list) \<Rightarrow> 'k bimap \<Rightarrow> u64 \<Rightarrow> nat set" where
  "claimants bytes m s = {i. \<exists>k. (k, i) \<in> set m \<and> encode bytes k = s}"

definition slots_ok :: "('k \<Rightarrow> u8 list) \<Rightarrow> 'k bimap \<Rightarrow> (u64 \<Rightarrow> nat list option) \<Rightarrow> bool" where
  "slots_ok bytes m sl \<longleftrightarrow>
     (\<forall>s. set (unwrap_or [] (sl s)) = claimants bytes m s \<and> distinct (unwrap_or [] (sl s)) \<and> sl s \<noteq> Some [])"

definition graph_ok :: "('k \<Rightarrow> u8 list) \<Rightarrow> ('k, 'o) inner_graph \<Rightarrow> bool" where
  "graph_ok bytes g \<longleftrightarrow> bi_ok (ig_indices g) \<and>
     (\<forall>k i. (k, i) \<in> set (ig_indices g) \<longrightarrow> node_weight g i = Some k) \<and>
     distinct (map fst (ig_edges g)) \<and>
     fst ` set (ig_edges g) \<subseteq> snd ` set (ig_indices g) \<times> snd ` set (ig_indices g) \<and>
     slots_ok bytes (ig_indices g) (ig_slots g)"

lemma graph_okD:
  assumes "graph_ok bytes g"
  shows "bi_ok (ig_indices g)" "distinct (map fst (ig_edges g))" "slots_ok bytes (ig_indices g) (ig_slots g)"
    and "(k, i) \<in> set (ig_indices g) \<Longrightarrow> node_weight g i = Some k"
    and "fst ` set (ig_edges g) \<subseteq> snd ` set (ig_indices g) \<times> snd ` set (ig_indices g)"
  using assms by (simp_all add: graph_ok_def)

lemma pair_mem: "(a, b) \<in> S \<Longrightarrow> a \<in> fst ` S" "(a, b) \<in> S \<Longrightarrow> b \<in> snd ` S"
  by (simp_all add: rev_image_eqI)

lemma encode_nonzero [simp]: "encode bytes k \<noteq> 0"
  by (simp add: encode_def Let_def)

lemma distinct_singleton: "distinct l \<Longrightarrow> set l = {i} \<longleftrightarrow> l = [i]"
  by (cases l rule: remdups_adj.cases) auto

lemma resolve_unique:
  assumes "slots_ok bytes (ig_indices g) (ig_slots g)"
  shows "resolve g s = Some i \<longleftrightarrow> claimants bytes (ig_indices g) s = {i}"
proof -
  let ?l = "unwrap_or [] (ig_slots g s)"
  have c: "set ?l = claimants bytes (ig_indices g) s" "distinct ?l" using assms by (simp_all add: slots_ok_def)
  have "claimants bytes (ig_indices g) 0 = {}" by (simp add: claimants_def)
  then have "resolve g s = Some i \<longleftrightarrow> ?l = [i]"
    using c(1) by (auto simp: resolve_def unwrap_or_def split: option.splits list.splits)
  also have "\<dots> \<longleftrightarrow> set ?l = {i}" using distinct_singleton [OF c(2)] by simp
  finally show ?thesis by (simp only: c(1))
qed

section \<open>The abstract graph\<close>

definition keys :: "('k, 'o) inner_graph \<Rightarrow> 'k set" where
  "keys g = fst ` set (ig_indices g)"

definition links :: "('k, 'o) inner_graph \<Rightarrow> 'k \<times> 'k \<Rightarrow> 'o option" where
  "links g = (\<lambda>(a, b). Option.bind (by_left (ig_indices g) a) (\<lambda>i.
     Option.bind (by_left (ig_indices g) b) (\<lambda>j. map_of (ig_edges g) (i, j))))"

lemma links_at:
  assumes "graph_ok bytes g" "(a, i) \<in> set (ig_indices g)" "(b, j) \<in> set (ig_indices g)"
  shows "links g (a, b) = map_of (ig_edges g) (i, j)"
  using assms by (simp add: links_def by_left_mem [THEN iffD2] graph_okD(1))

lemma links_None: "a \<notin> keys g \<or> b \<notin> keys g \<Longrightarrow> links g (a, b) = None"
  by (auto simp: links_def keys_def simp flip: by_left_None split: bind_splits)

text \<open>Every edge of the store is a link between the keys at its ends.\<close>

lemma edge_ends:
  assumes "graph_ok bytes g" "map_of (ig_edges g) (i, j) = Some w"
  shows "\<exists>a b. (a, i) \<in> set (ig_indices g) \<and> (b, j) \<in> set (ig_indices g) \<and> links g (a, b) = Some w"
proof -
  have "(i, j) \<in> fst ` set (ig_edges g)" using map_of_SomeD [OF assms(2)] by (auto intro!: rev_image_eqI)
  then have "i \<in> snd ` set (ig_indices g)" "j \<in> snd ` set (ig_indices g)"
    using graph_okD(5) [OF assms(1)] by blast+
  then obtain a b where "(a, i) \<in> set (ig_indices g)" "(b, j) \<in> set (ig_indices g)" by auto
  then show ?thesis using links_at [OF assms(1)] assms(2) by metis
qed

section \<open>Every operation keeps the invariant and implements its abstract counterpart\<close>

lemma claimants_insert: "claimants bytes ((k, i) # m) s = (if s = encode bytes k then insert i (claimants bytes m s) else claimants bytes m s)"
  by (auto simp: claimants_def)

lemma claim_slot_ok:
  assumes "slots_ok bytes m (ig_slots g)"
  shows "slots_ok bytes ((k, i) # m) (ig_slots (claim_slot bytes k i g))"
  unfolding slots_ok_def
proof
  fix s
  have "set (unwrap_or [] (ig_slots g s)) = claimants bytes m s" "distinct (unwrap_or [] (ig_slots g s))"
    "ig_slots g s \<noteq> Some []"
    using assms by (simp_all add: slots_ok_def)
  then show "set (unwrap_or [] (ig_slots (claim_slot bytes k i g) s)) = claimants bytes ((k, i) # m) s \<and>
    distinct (unwrap_or [] (ig_slots (claim_slot bytes k i g) s)) \<and> ig_slots (claim_slot bytes k i g) s \<noteq> Some []"
    by (auto simp: claim_slot_def claimants_insert unwrap_or_def split: option.splits)
qed

lemma claimants_remove:
  assumes "bi_ok m" "(k, i) \<in> set m"
  shows "claimants bytes (remove_by_left k m) s =
    (if s = encode bytes k then claimants bytes m s - {i} else claimants bytes m s)"
proof -
  have R: "(k', i) \<in> set m \<longleftrightarrow> k' = k" for k'
    using assms(2) by_right_mem [OF assms(1)] by (metis option.inject)
  have L: "(k, i') \<in> set m \<longleftrightarrow> i' = i" for i'
    using assms(2) by_left_mem [OF assms(1)] by (metis option.inject)
  have "i' \<in> claimants bytes (remove_by_left k m) s \<longleftrightarrow> i' \<in> claimants bytes m s \<and> \<not> (s = encode bytes k \<and> i' = i)" for i'
  proof (cases "i' = i")
    case True
    then show ?thesis using R by (auto simp: claimants_def remove_by_left_def)
  next
    case False
    then show ?thesis using L by (auto simp: claimants_def remove_by_left_def)
  qed
  then show ?thesis by auto
qed

lemma release_slot_at:
  "ig_slots g s \<noteq> Some [] \<Longrightarrow> ig_slots (release_slot bytes k i g) s \<noteq> Some [] \<and>
     unwrap_or [] (ig_slots (release_slot bytes k i g) s) =
       (if s = encode bytes k then filter (\<lambda>j. j \<noteq> i) (unwrap_or [] (ig_slots g s)) else unwrap_or [] (ig_slots g s))"
  by (auto simp: release_slot_def unwrap_or_def Let_def split: option.split)

lemma release_slot_ok:
  assumes "slots_ok bytes m (ig_slots g)" "bi_ok m" "(k, i) \<in> set m"
  shows "slots_ok bytes (remove_by_left k m) (ig_slots (release_slot bytes k i g))"
  unfolding slots_ok_def
proof
  fix s
  have c: "set (unwrap_or [] (ig_slots g s)) = claimants bytes m s" "distinct (unwrap_or [] (ig_slots g s))"
    and ne: "ig_slots g s \<noteq> Some []"
    using assms(1) by (simp_all add: slots_ok_def)
  show "set (unwrap_or [] (ig_slots (release_slot bytes k i g) s)) = claimants bytes (remove_by_left k m) s \<and>
    distinct (unwrap_or [] (ig_slots (release_slot bytes k i g) s)) \<and> ig_slots (release_slot bytes k i g) s \<noteq> Some []"
    using release_slot_at [OF ne, of bytes k i] c by (auto simp: claimants_remove [OF assms(2,3)])
qed

lemma slot_fields [simp]:
  "ig_nodes (claim_slot bytes k i g) = ig_nodes g" "ig_edges (claim_slot bytes k i g) = ig_edges g"
  "ig_indices (claim_slot bytes k i g) = ig_indices g"
  "ig_nodes (release_slot bytes k i g) = ig_nodes g" "ig_edges (release_slot bytes k i g) = ig_edges g"
  "ig_indices (release_slot bytes k i g) = ig_indices g"
  by (simp_all add: claim_slot_def release_slot_def Let_def split: option.splits)

lemma index_bound: "graph_ok bytes g \<Longrightarrow> i \<in> snd ` set (ig_indices g) \<Longrightarrow> i < length (ig_nodes g)"
  using graph_okD(4) by (fastforce simp: node_weight_def split: if_splits)

lemma bi_insert_fresh: "k \<notin> fst ` set m \<Longrightarrow> i \<notin> snd ` set m \<Longrightarrow> bi_insert k i m = (k, i) # m"
  by (force simp: bi_insert_def filter_id_conv)

lemma new_node_fields:
  assumes "graph_ok bytes g" "key \<notin> keys g"
  shows "fst (new_node bytes key g) = length (ig_nodes g)"
    and "ig_indices (snd (new_node bytes key g)) = (key, length (ig_nodes g)) # ig_indices g"
    and "ig_edges (snd (new_node bytes key g)) = ig_edges g"
    and "ig_nodes (snd (new_node bytes key g)) = ig_nodes g @ [key]"
  using assms index_bound [OF assms(1)]
  by (auto simp: new_node_def Let_def keys_def intro!: bi_insert_fresh)

lemma new_node_ok:
  assumes ok: "graph_ok bytes g" and new: "key \<notin> keys g"
  shows "graph_ok bytes (snd (new_node bytes key g))"
proof -
  note F = new_node_fields [OF assms]
  have fresh: "length (ig_nodes g) \<notin> snd ` set (ig_indices g)" using index_bound [OF ok] by blast
  have "slots_ok bytes ((key, length (ig_nodes g)) # ig_indices g) (ig_slots (snd (new_node bytes key g)))"
    using claim_slot_ok [OF graph_okD(3) [OF ok], where k = key and i = "length (ig_nodes g)"]
    by (simp add: new_node_def Let_def claim_slot_def)
  moreover have "bi_ok ((key, length (ig_nodes g)) # ig_indices g)"
    using graph_okD(1) [OF ok] fresh new by (simp add: bi_ok_def keys_def)
  moreover have "node_weight (snd (new_node bytes key g)) i = Some k" if "(k, i) \<in> set ((key, length (ig_nodes g)) # ig_indices g)" for k i
    using that graph_okD(4) [OF ok, of k i] by (auto simp: node_weight_def F(4) nth_append split: if_splits)
  ultimately show ?thesis using graph_okD(2,5) [OF ok] by (auto simp: graph_ok_def F)
qed

lemma new_node_abs:
  assumes "graph_ok bytes g" "key \<notin> keys g"
  shows "keys (snd (new_node bytes key g)) = insert key (keys g)" "links (snd (new_node bytes key g)) = links g"
proof -
  note F = new_node_fields [OF assms]
  show "keys (snd (new_node bytes key g)) = insert key (keys g)" by (simp add: keys_def F)
  have iso: "map_of (ig_edges g) (i, j) = None" if "i = length (ig_nodes g) \<or> j = length (ig_nodes g)" for i j
    using graph_okD(5) [OF assms(1)] index_bound [OF assms(1)] that by (force simp: map_of_eq_None_iff)
  have "links (snd (new_node bytes key g)) (a, b) = links g (a, b)" for a b
    using assms(2) links_None [of a g b] by (cases "a = key \<or> b = key") (auto simp: links_def F by_left_def iso split: bind_splits)
  then show "links (snd (new_node bytes key g)) = links g" by auto
qed

lemma keys_by_left: "by_left (ig_indices g) k = None \<longleftrightarrow> k \<notin> keys g"
  by (simp add: by_left_None keys_def)

lemma add_node_refines:
  assumes "graph_ok bytes g"
  shows "graph_ok bytes (add_node bytes key g)" "keys (add_node bytes key g) = insert key (keys g)"
    "links (add_node bytes key g) = links g"
  using assms new_node_ok [OF assms] new_node_abs [OF assms]
  by (auto simp: add_node_def keys_by_left)

lemma node_or_new_refines:
  assumes "graph_ok bytes g" "node_or_new bytes key g = (i, g')"
  shows "graph_ok bytes g'" "keys g' = insert key (keys g)" "links g' = links g" "(key, i) \<in> set (ig_indices g')"
    "set (ig_indices g) \<subseteq> set (ig_indices g')"
proof -
  have *: "graph_ok bytes g' \<and> keys g' = insert key (keys g) \<and> links g' = links g \<and> (key, i) \<in> set (ig_indices g') \<and>
    set (ig_indices g) \<subseteq> set (ig_indices g')"
  proof (cases "by_left (ig_indices g) key")
    case None
    then have new: "key \<notin> keys g" and e: "new_node bytes key g = (i, g')"
      using assms(2) keys_by_left [of g key] by (simp_all add: node_or_new_def)
    show ?thesis
      using new_node_ok [OF assms(1) new] new_node_abs [OF assms(1) new] new_node_fields [OF assms(1) new]
      by (auto simp: e)
  next
    case (Some j)
    then have "(key, j) \<in> set (ig_indices g)" using by_left_mem [OF graph_okD(1) [OF assms(1)]] by blast
    with Some assms show ?thesis by (auto simp: node_or_new_def keys_def intro: rev_image_eqI)
  qed
  then show "graph_ok bytes g'" "keys g' = insert key (keys g)" "links g' = links g" "(key, i) \<in> set (ig_indices g')"
    "set (ig_indices g) \<subseteq> set (ig_indices g')" by blast+
qed

lemma map_of_filter_key:
  "map_of (filter (\<lambda>(e, w). P e) es) e = (if P e then map_of es e else None)"
  by (induction es) auto

lemma filter_ends:
  "fst ` set es \<subseteq> A \<times> A \<Longrightarrow> fst ` set (filter (\<lambda>(e, w). fst e \<noteq> i \<and> snd e \<noteq> i) es) \<subseteq> (A - {i}) \<times> (A - {i})"
  by (induction es) auto

lemma remove_node_refines:
  assumes ok: "graph_ok bytes g"
  shows "graph_ok bytes (remove_node bytes key g)" "keys (remove_node bytes key g) = keys g - {key}"
    "links (remove_node bytes key g) = (\<lambda>(a, b). if a = key \<or> b = key then None else links g (a, b))"
proof -
  let ?g = "remove_node bytes key g"
  have "graph_ok bytes ?g \<and> keys ?g = keys g - {key} \<and> links ?g = (\<lambda>(a, b). if a = key \<or> b = key then None else links g (a, b))"
  proof (cases "by_left (ig_indices g) key")
    case None
    then have "key \<notin> keys g" "?g = g" using keys_by_left [of g key] by (simp_all add: remove_node_def)
    then show ?thesis using ok links_None [of _ g] by auto
  next
    case (Some i)
    note bi = graph_okD(1) [OF ok]
    have ki: "(key, i) \<in> set (ig_indices g)" using Some by_left_mem [OF bi] by blast
    have only: "(k, i) \<in> set (ig_indices g) \<longleftrightarrow> k = key" "(key, j) \<in> set (ig_indices g) \<longleftrightarrow> j = i" for k j
      using ki by_right_mem [OF bi] by_left_mem [OF bi] by (metis option.inject)+
    have idx: "ig_indices ?g = remove_by_left key (ig_indices g)"
      and ed: "ig_edges ?g = filter (\<lambda>((a, b), w). a \<noteq> i \<and> b \<noteq> i) (ig_edges g)"
      and nd: "node_weight ?g = node_weight g"
      and sl: "ig_slots ?g = ig_slots (release_slot bytes key i (g\<lparr>ig_indices := remove_by_left key (ig_indices g)\<rparr>))"
      using Some by (simp_all add: remove_node_def Let_def node_weight_def fun_eq_iff)
    have ed': "ig_edges ?g = filter (\<lambda>(e, w). fst e \<noteq> i \<and> snd e \<noteq> i) (ig_edges g)"
      unfolding ed by (rule filter_cong) auto
    have snds: "snd ` set (remove_by_left key (ig_indices g)) = snd ` set (ig_indices g) - {i}"
    proof (intro set_eqI iffI)
      fix j assume "j \<in> snd ` set (remove_by_left key (ig_indices g))"
      then obtain k where k: "(k, j) \<in> set (ig_indices g)" "k \<noteq> key" by (auto simp: remove_by_left_def)
      then have "j \<noteq> i" using only(1) by blast
      with pair_mem(2) [OF k(1)] show "j \<in> snd ` set (ig_indices g) - {i}" by simp
    next
      fix j assume "j \<in> snd ` set (ig_indices g) - {i}"
      then obtain k where k: "(k, j) \<in> set (ig_indices g)" "j \<noteq> i" by auto
      then have "k \<noteq> key" using only(2) by blast
      with k have "(k, j) \<in> set (remove_by_left key (ig_indices g))" by (simp add: remove_by_left_def)
      then show "j \<in> snd ` set (remove_by_left key (ig_indices g))" by (rule pair_mem)
    qed
    have "slots_ok bytes (ig_indices ?g) (ig_slots ?g)"
      unfolding idx sl by (rule release_slot_ok) (use graph_okD(3) [OF ok] bi ki in simp_all)
    moreover have "distinct (map fst (ig_edges ?g))"
      unfolding ed by (rule distinct_map_filter [OF graph_okD(2) [OF ok]])
    moreover have "fst ` set (ig_edges ?g) \<subseteq> snd ` set (ig_indices ?g) \<times> snd ` set (ig_indices ?g)"
      unfolding idx snds ed' by (rule filter_ends [OF graph_okD(5) [OF ok]])
    moreover have "node_weight ?g j = Some k" if "(k, j) \<in> set (ig_indices ?g)" for k j
      using that graph_okD(4) [OF ok, of k j] by (simp add: idx nd remove_by_left_def)
    ultimately have "graph_ok bytes ?g" using bi_ok_remove [OF bi] by (simp add: graph_ok_def idx)
    have "keys ?g = keys g - {key}" by (auto simp: keys_def idx remove_by_left_def)
    have at: "links ?g (a, b) = (if a = key \<or> b = key then None else links g (a, b))" for a b
    proof (cases "a \<in> keys g \<and> b \<in> keys g \<and> a \<noteq> key \<and> b \<noteq> key")
      case True
      then obtain m n where mn: "(a, m) \<in> set (ig_indices g)" "(b, n) \<in> set (ig_indices g)" by (auto simp: keys_def)
      with True only have "m \<noteq> i" "n \<noteq> i" by blast+
      then have "map_of (ig_edges ?g) (m, n) = map_of (ig_edges g) (m, n)" by (simp add: ed' map_of_filter_key)
      moreover have "(a, m) \<in> set (ig_indices ?g)" "(b, n) \<in> set (ig_indices ?g)"
        using mn True unfolding idx remove_by_left_def by simp_all
      note links_at [OF \<open>graph_ok bytes ?g\<close> this]
      ultimately have "links ?g (a, b) = links g (a, b)" using links_at [OF ok mn] by simp
      with True show ?thesis by simp
    next
      case False
      then have out: "a \<notin> keys ?g \<or> b \<notin> keys ?g" unfolding \<open>keys ?g = keys g - {key}\<close> by blast
      have "links g (a, b) = None" if "\<not> (a = key \<or> b = key)"
        by (rule links_None) (use False that in blast)
      with links_None [OF out] show ?thesis by simp
    qed
    have "links ?g = (\<lambda>(a, b). if a = key \<or> b = key then None else links g (a, b))"
      by (rule ext) (simp only: at split_paired_all prod.case)
    with \<open>graph_ok bytes ?g\<close> \<open>keys ?g = keys g - {key}\<close> show ?thesis by (intro conjI)
  qed
  then show "graph_ok bytes ?g" "keys ?g = keys g - {key}" "links ?g = (\<lambda>(a, b). if a = key \<or> b = key then None else links g (a, b))"
    by blast+
qed

lemma map_of_change:
  "map_of (map (\<lambda>(e, w). (e, if P e then f w else w)) es) e = map_option (if P e then f else id) (map_of es e)"
  by (induction es) (auto simp: option.map_id)

lemma change_edges_refines:
  assumes "graph_ok bytes g"
  shows "graph_ok bytes (change_edges P f g)" "keys (change_edges P f g) = keys g"
    and "(a, i) \<in> set (ig_indices g) \<Longrightarrow> (b, j) \<in> set (ig_indices g) \<Longrightarrow>
      links (change_edges P f g) (a, b) = map_option (if P (i, j) then f else id) (links g (a, b))"
proof -
  let ?g = "change_edges P f g"
  have F: "ig_indices ?g = ig_indices g" "node_weight ?g = node_weight g" "ig_slots ?g = ig_slots g"
    by (simp_all add: change_edges_def node_weight_def fun_eq_iff)
  have fs: "map fst (ig_edges ?g) = map fst (ig_edges g)" by (simp add: change_edges_def comp_def case_prod_unfold)
  then have "fst ` set (ig_edges ?g) = fst ` set (ig_edges g)" by (metis set_map)
  with fs show ok: "graph_ok bytes ?g" using assms by (simp add: graph_ok_def F)
  show "keys ?g = keys g" by (simp add: keys_def F)
  have m: "map_of (ig_edges ?g) e = map_option (if P e then f else id) (map_of (ig_edges g) e)" for e
    by (simp add: change_edges_def map_of_change)
  assume "(a, i) \<in> set (ig_indices g)" "(b, j) \<in> set (ig_indices g)"
  with links_at [OF assms] links_at [OF ok] show "links ?g (a, b) = map_option (if P (i, j) then f else id) (links g (a, b))"
    by (simp add: F m)
qed

lemma put_edge_refines:
  assumes ok: "graph_ok bytes g" and ij: "(a, i) \<in> set (ig_indices g)" "(b, j) \<in> set (ig_indices g)"
  shows "graph_ok bytes (put_edge i j w g)" "keys (put_edge i j w g) = keys g"
    "links (put_edge i j w g) = (links g)((a, b) \<mapsto> unwrap_or w (links g (a, b)))"
proof -
  let ?g = "put_edge i j w g"
  have F: "ig_indices ?g = ig_indices g" "node_weight ?g = node_weight g" "ig_slots ?g = ig_slots g"
    by (simp_all add: put_edge_def node_weight_def fun_eq_iff)
  have m: "map_of (ig_edges ?g) e = (if e = (i, j) then Some (unwrap_or w (map_of (ig_edges g) (i, j))) else map_of (ig_edges g) e)" for e
  proof (cases "map_of (ig_edges g) (i, j)")
    case None
    then have "(i, j) \<notin> fst ` set (ig_edges g)" by (simp add: map_of_eq_None_iff)
    with None show ?thesis
      by (cases "map_of (ig_edges g) e") (auto simp: put_edge_def find_edge_def map_add_def unwrap_or_def)
  next
    case (Some x)
    from map_of_SomeD [OF this] have "(i, j) \<in> fst ` set (ig_edges g)" by (rule pair_mem)
    with Some show ?thesis by (simp add: put_edge_def find_edge_def unwrap_or_def)
  qed
  have "distinct (map fst (ig_edges ?g))"
    using graph_okD(2) [OF ok] by (auto simp: put_edge_def find_edge_def)
  moreover have "fst ` set (ig_edges ?g) \<subseteq> snd ` set (ig_indices g) \<times> snd ` set (ig_indices g)"
  proof -
    have "i \<in> snd ` set (ig_indices g)" "j \<in> snd ` set (ig_indices g)" using ij by (auto intro: rev_image_eqI)
    then show ?thesis using graph_okD(5) [OF ok] by (auto simp: put_edge_def)
  qed
  ultimately show ok': "graph_ok bytes ?g" using ok by (simp add: graph_ok_def F)
  show "keys ?g = keys g" by (simp add: keys_def F)
  have "links ?g (c, d) = (if (c, d) = (a, b) then Some (unwrap_or w (links g (a, b))) else links g (c, d))" for c d
  proof (cases "c \<in> keys g \<and> d \<in> keys g")
    case True
    then obtain m n where mn: "(c, m) \<in> set (ig_indices g)" "(d, n) \<in> set (ig_indices g)" by (auto simp: keys_def)
    have "c = a \<longleftrightarrow> m = i" "d = b \<longleftrightarrow> n = j"
      using mn ij by_right_mem [OF graph_okD(1) [OF ok]] by_left_mem [OF graph_okD(1) [OF ok]]
      by (metis option.inject)+
    with m links_at [OF ok mn] links_at [OF ok ij] links_at [OF ok', of c m d n] mn show ?thesis by (simp add: F)
  next
    case False
    then have "(c, d) \<noteq> (a, b)" using ij by (auto simp: keys_def intro: rev_image_eqI)
    with False show ?thesis using links_None [of c ?g d] links_None [of c g d] \<open>keys ?g = keys g\<close> by auto
  qed
  then show "links ?g = (links g)((a, b) \<mapsto> unwrap_or w (links g (a, b)))" by (auto simp: fun_eq_iff)
qed

lemma by_left_keys:
  assumes "graph_ok bytes g" "k \<in> keys g"
  obtains i where "by_left (ig_indices g) k = Some i" "(k, i) \<in> set (ig_indices g)"
proof (cases "by_left (ig_indices g) k")
  case None
  then show thesis using assms(2) keys_by_left [of g k] by simp
next
  case (Some i)
  with that show thesis using by_left_mem [OF graph_okD(1) [OF assms(1)]] by blast
qed

lemma add_edge_refines:
  assumes ok: "graph_ok bytes g"
  shows "fst (add_edge dflt a b g) = (if a \<notin> keys g then Inl (PublicKeyNodeNotFound a)
      else if b \<notin> keys g then Inl (PublicKeyNodeNotFound b) else Inr ())"
    and "graph_ok bytes (snd (add_edge dflt a b g))" "keys (snd (add_edge dflt a b g)) = keys g"
    and "links (snd (add_edge dflt a b g)) =
      (if a \<in> keys g \<and> b \<in> keys g then (links g)((a, b) \<mapsto> unwrap_or dflt (links g (a, b))) else links g)"
proof -
  have "fst (add_edge dflt a b g) = (if a \<notin> keys g then Inl (PublicKeyNodeNotFound a)
      else if b \<notin> keys g then Inl (PublicKeyNodeNotFound b) else Inr ()) \<and>
    graph_ok bytes (snd (add_edge dflt a b g)) \<and> keys (snd (add_edge dflt a b g)) = keys g \<and>
    links (snd (add_edge dflt a b g)) =
      (if a \<in> keys g \<and> b \<in> keys g then (links g)((a, b) \<mapsto> unwrap_or dflt (links g (a, b))) else links g)"
  proof (cases "a \<in> keys g \<and> b \<in> keys g")
    case True
    then obtain i j where i: "by_left (ig_indices g) a = Some i" "(a, i) \<in> set (ig_indices g)"
      and j: "by_left (ig_indices g) b = Some j" "(b, j) \<in> set (ig_indices g)"
      by (meson by_left_keys [OF ok])
    with True put_edge_refines [OF ok i(2) j(2)] show ?thesis by (simp add: add_edge_def)
  next
    case False
    show ?thesis
    proof (cases "a \<in> keys g")
      case True
      with False have "b \<notin> keys g" by blast
      moreover obtain i where "by_left (ig_indices g) a = Some i" using True by_left_keys [OF ok] by blast
      moreover have "by_left (ig_indices g) b = None" using \<open>b \<notin> keys g\<close> keys_by_left [of g b] by simp
      ultimately show ?thesis using True ok by (simp add: add_edge_def)
    next
      case no: False
      then have "by_left (ig_indices g) a = None" using keys_by_left [of g a] by simp
      with no ok show ?thesis by (simp add: add_edge_def)
    qed
  qed
  then show "fst (add_edge dflt a b g) = (if a \<notin> keys g then Inl (PublicKeyNodeNotFound a)
      else if b \<notin> keys g then Inl (PublicKeyNodeNotFound b) else Inr ())"
    and "graph_ok bytes (snd (add_edge dflt a b g))" "keys (snd (add_edge dflt a b g)) = keys g"
    and "links (snd (add_edge dflt a b g)) =
      (if a \<in> keys g \<and> b \<in> keys g then (links g)((a, b) \<mapsto> unwrap_or dflt (links g (a, b))) else links g)"
    by blast+
qed

text \<open>Links of a graph with the same keys agree when they agree at the ends of every pair.\<close>

lemma links_eqI:
  assumes "graph_ok bytes g" "graph_ok bytes g'" "ig_indices g' = ig_indices g"
    and "\<And>a b i j. (a, i) \<in> set (ig_indices g) \<Longrightarrow> (b, j) \<in> set (ig_indices g) \<Longrightarrow>
      map_of (ig_edges g') (i, j) = L (a, b)"
    and "\<And>a b. a \<notin> keys g \<or> b \<notin> keys g \<Longrightarrow> L (a, b) = None"
  shows "links g' = L"
proof (rule ext, clarify)
  fix a b
  show "links g' (a, b) = L (a, b)"
  proof (cases "a \<in> keys g \<and> b \<in> keys g")
    case True
    then obtain i j where "(a, i) \<in> set (ig_indices g)" "(b, j) \<in> set (ig_indices g)" by (auto simp: keys_def)
    then show ?thesis using links_at [OF assms(2), of a i b j] assms(4) by (simp add: assms(3))
  next
    case False
    then show ?thesis using links_None [of a g' b] assms(5) by (simp add: keys_def assms(3))
  qed
qed

lemma ends_iff:
  assumes "graph_ok bytes g" "(a, i) \<in> set (ig_indices g)" "(c, m) \<in> set (ig_indices g)"
  shows "i = m \<longleftrightarrow> a = c"
  using assms(2,3) by_right_mem [OF graph_okD(1) [OF assms(1)]] by_left_mem [OF graph_okD(1) [OF assms(1)]]
  by (metis option.inject)

lemma remove_edge_refines:
  assumes ok: "graph_ok bytes g"
  shows "graph_ok bytes (remove_edge a b g)" "keys (remove_edge a b g) = keys g"
    "links (remove_edge a b g) = (links g)((a, b) := None)"
proof -
  let ?g = "remove_edge a b g"
  have idx: "ig_indices ?g = ig_indices g" "ig_slots ?g = ig_slots g" "node_weight ?g = node_weight g"
    by (auto simp: remove_edge_def node_weight_def fun_eq_iff split: option.splits)
  have ed: "map_of (ig_edges ?g) (m, n) = (if by_left (ig_indices g) a = Some m \<and> by_left (ig_indices g) b = Some n
      then None else map_of (ig_edges g) (m, n))" for m n
    by (cases "map_of (ig_edges g) (m, n)")
      (auto simp: remove_edge_def find_edge_def map_of_filter_key [of "\<lambda>e. e \<noteq> (i, j)" for i j] map_of_eq_None_iff
        split: option.splits dest: map_of_SomeD pair_mem)
  have sub: "set (ig_edges ?g) \<subseteq> set (ig_edges g)" "distinct (map fst (ig_edges ?g))"
    using graph_okD(2) [OF ok] by (auto simp: remove_edge_def distinct_map_filter split: option.splits)
  then have "fst ` set (ig_edges ?g) \<subseteq> fst ` set (ig_edges g)" by blast
  with sub(2) ok show ok': "graph_ok bytes ?g"
    unfolding graph_ok_def idx by (meson order_trans)
  show "keys ?g = keys g" by (simp add: keys_def idx)
  show "links ?g = (links g)((a, b) := None)"
  proof (rule links_eqI [OF ok ok' idx(1)])
    fix c d m n assume mn: "(c, m) \<in> set (ig_indices g)" "(d, n) \<in> set (ig_indices g)"
    have "by_left (ig_indices g) a = Some m \<longleftrightarrow> c = a" "by_left (ig_indices g) b = Some n \<longleftrightarrow> d = b"
      using mn by_left_mem [OF graph_okD(1) [OF ok]] by_right_mem [OF graph_okD(1) [OF ok]] by (metis option.inject)+
    then show "map_of (ig_edges ?g) (m, n) = ((links g)((a, b) := None)) (c, d)"
      using links_at [OF ok mn] by (simp add: ed)
  qed (use links_None [of _ g] in auto)
qed

lemma upsert_edge_refines:
  assumes ok: "graph_ok bytes g"
  shows "graph_ok bytes (upsert_edge bytes dflt a b f g)" "keys (upsert_edge bytes dflt a b f g) = keys g \<union> {a, b}"
    "links (upsert_edge bytes dflt a b f g) = (links g)((a, b) \<mapsto> f (unwrap_or dflt (links g (a, b))))"
proof -
  obtain i g1 where 1: "node_or_new bytes a g = (i, g1)" by fastforce
  obtain j g2 where 2: "node_or_new bytes b g1 = (j, g2)" by fastforce
  note R1 = node_or_new_refines [OF ok 1]
  note R2 = node_or_new_refines [OF R1(1) 2]
  have ends: "(a, i) \<in> set (ig_indices g2)" "(b, j) \<in> set (ig_indices g2)" using R1(4) R2(4,5) by blast+
  let ?p = "put_edge i j dflt g2"
  note P = put_edge_refines [OF R2(1) ends, where w = dflt]
  have idx: "ig_indices ?p = ig_indices g2" by (simp add: put_edge_def)
  have u: "upsert_edge bytes dflt a b f g = change_edge (i, j) f ?p" by (simp add: upsert_edge_def 1 2)
  note C = change_edges_refines [OF P(1), where P = "\<lambda>e. e = (i, j)" and f = f]
  show ok': "graph_ok bytes (upsert_edge bytes dflt a b f g)" unfolding u by (rule C(1))
  show ks: "keys (upsert_edge bytes dflt a b f g) = keys g \<union> {a, b}" unfolding u using C(2) P(2) R1(2) R2(2) by auto
  have lp: "links ?p = (links g)((a, b) \<mapsto> unwrap_or dflt (links g (a, b)))" using P(3) R1(3) R2(3) by simp
  show "links (upsert_edge bytes dflt a b f g) = (links g)((a, b) \<mapsto> f (unwrap_or dflt (links g (a, b))))"
  proof (rule ext, clarify)
    fix c d
    show "links (upsert_edge bytes dflt a b f g) (c, d) = ((links g)((a, b) \<mapsto> f (unwrap_or dflt (links g (a, b))))) (c, d)"
    proof (cases "c \<in> keys g2 \<and> d \<in> keys g2")
      case True
      then obtain m n where mn: "(c, m) \<in> set (ig_indices g2)" "(d, n) \<in> set (ig_indices g2)" by (auto simp: keys_def)
      have "links (upsert_edge bytes dflt a b f g) (c, d) = map_option (if (m, n) = (i, j) then f else id) (links ?p (c, d))"
        unfolding u by (rule C(3)) (simp_all add: idx mn)
      with ends_iff [OF R2(1) mn(1) ends(1)] ends_iff [OF R2(1) mn(2) ends(2)] show ?thesis
        by (simp add: lp option.map_id)
    next
      case False
      then have out: "c \<notin> keys g \<union> {a, b} \<or> d \<notin> keys g \<union> {a, b}" using R1(2) R2(2) by blast
      then have "links (upsert_edge bytes dflt a b f g) (c, d) = None" by (intro links_None) (simp only: ks)
      moreover have "links g (c, d) = None" by (rule links_None) (use out in blast)
      moreover have "(c, d) \<noteq> (a, b)" using out by blast
      ultimately show ?thesis by simp
    qed
  qed
qed

lemma set_node_health_refines:
  assumes ok: "graph_ok bytes g" and c: "(c, idx) \<in> set (ig_indices g)"
  shows "graph_ok bytes (set_node_health below set_h idx h g)" "keys (set_node_health below set_h idx h g) = keys g"
    "links (set_node_health below set_h idx h g) =
      (\<lambda>(a, b). map_option (if b = c then set_h (below h) else id) (links g (a, b)))"
proof -
  let ?g = "set_node_health below set_h idx h g"
  note C = change_edges_refines [OF ok, where P = "\<lambda>(i, j). j = idx" and f = "set_h (below h)"]
  show "graph_ok bytes ?g" "keys ?g = keys g" using C(1,2) by (simp_all add: set_node_health_def)
  have "links ?g (a, b) = map_option (if b = c then set_h (below h) else id) (links g (a, b))" for a b
  proof (cases "a \<in> keys g \<and> b \<in> keys g")
    case True
    then obtain i j where ij: "(a, i) \<in> set (ig_indices g)" "(b, j) \<in> set (ig_indices g)" by (auto simp: keys_def)
    from C(3) [OF ij] ends_iff [OF ok ij(2) c] show ?thesis by (simp add: set_node_health_def)
  next
    case False
    then have "links g (a, b) = None" "links ?g (a, b) = None"
      using C(2) by (auto intro!: links_None simp: set_node_health_def)
    then show ?thesis by simp
  qed
  then show "links ?g = (\<lambda>(a, b). map_option (if b = c then set_h (below h) else id) (links g (a, b)))"
    by (intro ext) (simp only: split_paired_all prod.case)
qed

section \<open>The interface\<close>

text \<open>
  \<open>NetworkGraphWrite\<close>: what its users may rely on, over the abstract graph.
\<close>

locale network_graph =
  fixes invar :: "'g \<Rightarrow> bool"
    and ks :: "'g \<Rightarrow> 'k set"
    and ls :: "'g \<Rightarrow> 'k \<times> 'k \<Rightarrow> 'o option"
    and fresh :: 'o
    and addn :: "'k \<Rightarrow> 'g \<Rightarrow> 'g"
    and remn :: "'k \<Rightarrow> 'g \<Rightarrow> 'g"
    and adde :: "'k \<Rightarrow> 'k \<Rightarrow> 'g \<Rightarrow> ('k graph_error + unit) \<times> 'g"
    and reme :: "'k \<Rightarrow> 'k \<Rightarrow> 'g \<Rightarrow> 'g"
    and upse :: "'k \<Rightarrow> 'k \<Rightarrow> ('o \<Rightarrow> 'o) \<Rightarrow> 'g \<Rightarrow> 'g"
  assumes addn: "invar g \<Longrightarrow> invar (addn k g)" "invar g \<Longrightarrow> ks (addn k g) = insert k (ks g)" "invar g \<Longrightarrow> ls (addn k g) = ls g"
    and remn: "invar g \<Longrightarrow> invar (remn k g)" "invar g \<Longrightarrow> ks (remn k g) = ks g - {k}"
      "invar g \<Longrightarrow> ls (remn k g) = (\<lambda>(a, b). if a = k \<or> b = k then None else ls g (a, b))"
    and adde: "invar g \<Longrightarrow> invar (snd (adde a b g))" "invar g \<Longrightarrow> ks (snd (adde a b g)) = ks g"
      "invar g \<Longrightarrow> fst (adde a b g) = (if a \<notin> ks g then Inl (PublicKeyNodeNotFound a)
         else if b \<notin> ks g then Inl (PublicKeyNodeNotFound b) else Inr ())"
      "invar g \<Longrightarrow> ls (snd (adde a b g)) =
         (if a \<in> ks g \<and> b \<in> ks g then (ls g)((a, b) \<mapsto> unwrap_or fresh (ls g (a, b))) else ls g)"
    and reme: "invar g \<Longrightarrow> invar (reme a b g)" "invar g \<Longrightarrow> ks (reme a b g) = ks g"
      "invar g \<Longrightarrow> ls (reme a b g) = (ls g)((a, b) := None)"
    and upse: "invar g \<Longrightarrow> invar (upse a b f g)" "invar g \<Longrightarrow> ks (upse a b f g) = ks g \<union> {a, b}"
      "invar g \<Longrightarrow> ls (upse a b f g) = (ls g)((a, b) \<mapsto> f (unwrap_or fresh (ls g (a, b))))"
    and dom_ls: "invar g \<Longrightarrow> dom (ls g) \<subseteq> ks g \<times> ks g"
begin

text \<open>Recording an observation of both directions between two nodes.\<close>

lemma both_directions:
  assumes "invar g" "a \<noteq> b"
  shows "invar (upse b a h (upse a b f g))" "ks (upse b a h (upse a b f g)) = ks g \<union> {a, b}"
    "ls (upse b a h (upse a b f g)) =
       (ls g)((a, b) \<mapsto> f (unwrap_or fresh (ls g (a, b))), (b, a) \<mapsto> h (unwrap_or fresh (ls g (b, a))))"
  using assms by (auto simp: upse fun_eq_iff)

text \<open>A node that is removed and added again has none of its former edges.\<close>

lemma removed_forgotten:
  assumes "invar g"
  shows "ls (addn k (remn k g)) (a, b) = (if a = k \<or> b = k then None else ls g (a, b))"
  using assms by (simp add: addn remn)

end

lemma links_dom: "dom (links g) \<subseteq> keys g \<times> keys g"
proof clarify
  fix a b w assume "links g (a, b) = Some w"
  then show "a \<in> keys g \<and> b \<in> keys g" using links_None [of a g b] by fastforce
qed

interpretation ig: network_graph "graph_ok bytes" keys links dflt "add_node bytes" "remove_node bytes"
  "add_edge dflt" remove_edge "upsert_edge bytes dflt" for bytes dflt
  by unfold_locales
    (simp_all only: add_node_refines remove_node_refines add_edge_refines remove_edge_refines upsert_edge_refines links_dom)

section \<open>Runs\<close>

text \<open>The calls of the write interface, and what they do to the abstract graph.\<close>

datatype ('k, 'o, 'h) graph_op =
    AddNode 'k
  | RemoveNode 'k
  | AddEdge 'k 'k
  | RemoveEdge 'k 'k
  | UpsertEdge 'k 'k "'o \<Rightarrow> 'o"
  | NodeHealth 'k 'h

record ('k, 'o, 'h) graph_env =
  ge_bytes :: "'k \<Rightarrow> u8 list"
  ge_default :: 'o
  ge_below_one :: "'h \<Rightarrow> 'h option"
  ge_set_health :: "'h option \<Rightarrow> 'o \<Rightarrow> 'o"

fun graph_exec :: "('k, 'o, 'h) graph_env \<Rightarrow> ('k, 'o, 'h) graph_op \<Rightarrow> ('k, 'o) inner_graph \<Rightarrow> ('k, 'o) inner_graph" where
  "graph_exec E (AddNode k) g = add_node (ge_bytes E) k g"
| "graph_exec E (RemoveNode k) g = remove_node (ge_bytes E) k g"
| "graph_exec E (AddEdge a b) g = snd (add_edge (ge_default E) a b g)"
| "graph_exec E (RemoveEdge a b) g = remove_edge a b g"
| "graph_exec E (UpsertEdge a b f) g = upsert_edge (ge_bytes E) (ge_default E) a b f g"
| "graph_exec E (NodeHealth k h) g =
     (case by_left (ig_indices g) k of
        Some idx \<Rightarrow> set_node_health (ge_below_one E) (ge_set_health E) idx h g
      | None \<Rightarrow> g)"

definition graph_run :: "('k, 'o, 'h) graph_env \<Rightarrow> ('k, 'o, 'h) graph_op list \<Rightarrow> ('k, 'o) inner_graph \<Rightarrow> ('k, 'o) inner_graph" where
  "graph_run E ops g = fold (graph_exec E) ops g"

fun spec_exec :: "('k, 'o, 'h) graph_env \<Rightarrow> ('k, 'o, 'h) graph_op \<Rightarrow> 'k set \<times> ('k \<times> 'k \<Rightarrow> 'o option)
    \<Rightarrow> 'k set \<times> ('k \<times> 'k \<Rightarrow> 'o option)" where
  "spec_exec E (AddNode k) (N, L) = (insert k N, L)"
| "spec_exec E (RemoveNode k) (N, L) = (N - {k}, \<lambda>(a, b). if a = k \<or> b = k then None else L (a, b))"
| "spec_exec E (AddEdge a b) (N, L) =
     (N, if a \<in> N \<and> b \<in> N then L((a, b) \<mapsto> unwrap_or (ge_default E) (L (a, b))) else L)"
| "spec_exec E (RemoveEdge a b) (N, L) = (N, L((a, b) := None))"
| "spec_exec E (UpsertEdge a b f) (N, L) = (N \<union> {a, b}, L((a, b) \<mapsto> f (unwrap_or (ge_default E) (L (a, b)))))"
| "spec_exec E (NodeHealth k h) (N, L) =
     (N, \<lambda>(a, b). map_option (if b = k then ge_set_health E (ge_below_one E h) else id) (L (a, b)))"

lemma graph_exec_refines:
  assumes ok: "graph_ok (ge_bytes E) g"
  shows "graph_ok (ge_bytes E) (graph_exec E op g) \<and>
    (keys (graph_exec E op g), links (graph_exec E op g)) = spec_exec E op (keys g, links g)"
proof (cases op)
  case (NodeHealth k h)
  show ?thesis
  proof (cases "k \<in> keys g")
    case True
    from True obtain i where i: "by_left (ig_indices g) k = Some i" "(k, i) \<in> set (ig_indices g)"
      by (rule by_left_keys [OF ok])
    show ?thesis unfolding NodeHealth
      using set_node_health_refines [OF ok i(2), of "ge_below_one E" "ge_set_health E" h] by (simp add: i(1))
  next
    case False
    have "links g = (\<lambda>(a, b). map_option (if b = k then f else id) (links g (a, b)))" for f
      using False links_None [of _ g k] by (auto simp: fun_eq_iff option.map_id)
    with False keys_by_left [of g k] ok show ?thesis by (simp add: NodeHealth)
  qed
qed (simp_all add: add_node_refines [OF ok] remove_node_refines [OF ok] add_edge_refines [OF ok]
    remove_edge_refines [OF ok] upsert_edge_refines [OF ok])

lemma graph_run_refines:
  "graph_ok (ge_bytes E) g \<Longrightarrow> graph_ok (ge_bytes E) (graph_run E ops g) \<and>
     (keys (graph_run E ops g), links (graph_run E ops g)) = fold (spec_exec E) ops (keys g, links g)"
  by (induction ops arbitrary: g) (use graph_exec_refines in \<open>fastforce simp: graph_run_def\<close>)+

lemma inner_new_ok: "graph_ok bytes (inner_new bytes me)" "keys (inner_new bytes me) = {me}" "links (inner_new bytes me) = (\<lambda>_. None)"
  by (auto simp: graph_ok_def inner_new_def bi_insert_def bi_ok_def node_weight_def slots_ok_def claimants_def
      keys_def links_def unwrap_or_def by_left_def fun_eq_iff split: bind_splits)

section \<open>Views and slots\<close>

lemma new_run:
  "graph_ok (ge_bytes E) (graph_run E ops (inner_new (ge_bytes E) me))"
  "fold (spec_exec E) ops ({me}, \<lambda>_. None) = (keys (graph_run E ops (inner_new (ge_bytes E) me)),
     links (graph_run E ops (inner_new (ge_bytes E) me)))"
  using graph_run_refines [OF inner_new_ok(1) [of "ge_bytes E" me], of ops] by (simp_all add: inner_new_ok)

lemma view_refines:
  assumes ok: "graph_ok bytes g"
  shows "contains_node g k \<longleftrightarrow> k \<in> keys g" "set (graph_nodes g) = keys g" "distinct (graph_nodes g)"
    "node_count g = card (keys g)" "has_edge g a b \<longleftrightarrow> links g (a, b) \<noteq> None" "edge_between g a b = links g (a, b)"
    "path_slot bytes g k = (if k \<in> keys g then Some (encode bytes k) else None)"
proof -
  show "contains_node g k \<longleftrightarrow> k \<in> keys g" using keys_by_left [of g k] by (simp add: contains_node_def)
  show "path_slot bytes g k = (if k \<in> keys g then Some (encode bytes k) else None)"
    using keys_by_left [of g k] by (simp add: path_slot_def)
  show "set (graph_nodes g) = keys g" by (simp add: graph_nodes_def keys_def)
  show "distinct (graph_nodes g)" using graph_okD(1) [OF ok] by (simp add: graph_nodes_def bi_ok_def)
  then show "node_count g = card (keys g)"
    using distinct_card [of "graph_nodes g"] by (simp add: node_count_def graph_nodes_def keys_def)
  have f: "find_edge g i j \<noteq> None \<longleftrightarrow> map_of (ig_edges g) (i, j) \<noteq> None" for i j
    by (simp add: find_edge_def map_of_eq_None_iff)
  then show "has_edge g a b \<longleftrightarrow> links g (a, b) \<noteq> None"
    by (auto simp: has_edge_def links_def split: option.splits)
  have "Option.bind (find_edge g i j) (edge_weight g) = map_of (ig_edges g) (i, j)" for i j
    using f [of i j] by (cases "map_of (ig_edges g) (i, j)") (auto simp: find_edge_def edge_weight_def split: if_splits)
  then show "edge_between g a b = links g (a, b)" by (simp add: edge_between_def links_def)
qed

lemma keyed_edges_set:
  assumes ok: "graph_ok bytes g"
  shows "(a, b, w) \<in> set (keyed_edges g P) \<longleftrightarrow> (\<exists>i j. (a, i) \<in> set (ig_indices g) \<and> (b, j) \<in> set (ig_indices g) \<and>
    ((i, j), w) \<in> set (ig_edges g) \<and> P (i, j))"
proof -
  have n: "node_weight g i = Some k \<longleftrightarrow> (k, i) \<in> set (ig_indices g)" if "i \<in> snd ` set (ig_indices g)" for i k
  proof
    from that obtain k' where k': "(k', i) \<in> set (ig_indices g)" by auto
    assume "node_weight g i = Some k"
    with graph_okD(4) [OF ok k'] k' show "(k, i) \<in> set (ig_indices g)" by simp
  qed (rule graph_okD(4) [OF ok])
  have ends: "i \<in> snd ` set (ig_indices g)" "j \<in> snd ` set (ig_indices g)" if "((i, j), w) \<in> set (ig_edges g)" for i j w
    using subsetD [OF graph_okD(5) [OF ok] pair_mem(1) [OF that]] by simp_all
  have "(a, b, w) \<in> set (keyed_edges g P) \<longleftrightarrow> (\<exists>i j. ((i, j), w) \<in> set (ig_edges g) \<and> P (i, j) \<and>
      node_weight g i = Some a \<and> node_weight g j = Some b)"
    unfolding keyed_edges_def List.map_filter_def by (force simp: bind_eq_Some_conv split: if_splits)
  also have "\<dots> \<longleftrightarrow> (\<exists>i j. (a, i) \<in> set (ig_indices g) \<and> (b, j) \<in> set (ig_indices g) \<and> ((i, j), w) \<in> set (ig_edges g) \<and> P (i, j))"
    using n ends by meson
  finally show ?thesis .
qed

lemma connected_edges_set:
  assumes ok: "graph_ok bytes g"
  shows "(a, b, w) \<in> set (connected_edges g) \<longleftrightarrow> links g (a, b) = Some w"
proof
  assume "(a, b, w) \<in> set (connected_edges g)"
  then obtain i j where ij: "(a, i) \<in> set (ig_indices g)" "(b, j) \<in> set (ig_indices g)" "((i, j), w) \<in> set (ig_edges g)"
    by (auto simp: connected_edges_def keyed_edges_set [OF ok])
  with links_at [OF ok ij(1,2)] graph_okD(2) [OF ok] show "links g (a, b) = Some w" by simp
next
  assume l: "links g (a, b) = Some w"
  then have "a \<in> keys g" "b \<in> keys g" using links_dom [of g] by blast+
  then obtain i j where ij: "(a, i) \<in> set (ig_indices g)" "(b, j) \<in> set (ig_indices g)" by (auto simp: keys_def)
  with l links_at [OF ok ij] map_of_SomeD have "((i, j), w) \<in> set (ig_edges g)" by fastforce
  with ij show "(a, b, w) \<in> set (connected_edges g)" by (auto simp: connected_edges_def keyed_edges_set [OF ok])
qed

lemma resolve_iff:
  assumes ok: "graph_ok bytes g"
  shows "resolve g s = Some i \<longleftrightarrow>
    (\<exists>k. (k, i) \<in> set (ig_indices g) \<and> encode bytes k = s \<and> (\<forall>k' \<in> keys g. encode bytes k' = s \<longrightarrow> k' = k))"
proof -
  have "claimants bytes (ig_indices g) s = {i} \<longleftrightarrow>
    (\<exists>k. (k, i) \<in> set (ig_indices g) \<and> encode bytes k = s \<and> (\<forall>k' \<in> keys g. encode bytes k' = s \<longrightarrow> k' = k))" (is "?L \<longleftrightarrow> ?R")
  proof
    assume L: ?L
    then obtain k where k: "(k, i) \<in> set (ig_indices g)" "encode bytes k = s" by (force simp: claimants_def)
    have "k' = k" if "k' \<in> keys g" "encode bytes k' = s" for k'
    proof -
      from that obtain j where "(k', j) \<in> set (ig_indices g)" by (auto simp: keys_def)
      moreover then have "j \<in> claimants bytes (ig_indices g) s" using that by (auto simp: claimants_def)
      with L have "j = i" by blast
      ultimately show ?thesis using ends_iff [OF ok _ k(1)] by blast
    qed
    with k show ?R by blast
  next
    assume ?R
    then obtain k where k: "(k, i) \<in> set (ig_indices g)" "encode bytes k = s" "\<forall>k' \<in> keys g. encode bytes k' = s \<longrightarrow> k' = k"
      by blast
    have "j = i" if j: "j \<in> claimants bytes (ig_indices g) s" for j
    proof -
      from j obtain k' where k': "(k', j) \<in> set (ig_indices g)" "encode bytes k' = s" by (auto simp: claimants_def)
      then have "k' = k" using k(3) pair_mem(1) [OF k'(1)] by (auto simp: keys_def)
      then show ?thesis using ends_iff [OF ok k'(1) k(1)] by blast
    qed
    with k show ?L by (auto simp: claimants_def)
  qed
  then show ?thesis using resolve_unique [OF graph_okD(3) [OF ok]] by simp
qed

section \<open>Vertices are never reissued\<close>

definition grows :: "('k, 'o) inner_graph \<Rightarrow> ('k, 'o) inner_graph \<Rightarrow> bool" where
  "grows g g' \<longleftrightarrow> (\<exists>ks. ig_nodes g' = ig_nodes g @ ks) \<and>
     snd ` set (ig_indices g') \<subseteq> snd ` set (ig_indices g) \<union> {length (ig_nodes g)..}"

lemma grows_refl: "grows g g"
  by (simp add: grows_def)

lemma grows_trans:
  assumes "grows g g'" "grows g' g''"
  shows "grows g g''"
proof -
  let ?S = "\<lambda>g. snd ` set (ig_indices g)" and ?N = "\<lambda>g. {length (ig_nodes g)..}"
  obtain ks where "ig_nodes g' = ig_nodes g @ ks" using assms(1) by (auto simp: grows_def)
  then have N: "?N g' \<subseteq> ?N g" by simp
  have "?S g' \<subseteq> ?S g \<union> ?N g" "?S g'' \<subseteq> ?S g' \<union> ?N g'" using assms by (simp_all add: grows_def)
  with N have "?S g'' \<subseteq> ?S g \<union> ?N g" by (meson Un_least Un_upper2 order_trans)
  moreover have "\<exists>ks. ig_nodes g'' = ig_nodes g @ ks" using assms by (auto simp: grows_def)
  ultimately show ?thesis by (simp add: grows_def)
qed

lemma grows_fields: "ig_nodes g' = ig_nodes g \<Longrightarrow> set (ig_indices g') \<subseteq> set (ig_indices g) \<Longrightarrow> grows g g'"
  by (auto simp: grows_def)

lemma node_or_new_grows:
  assumes "graph_ok bytes g"
  shows "grows g (snd (node_or_new bytes k g))"
proof (cases "by_left (ig_indices g) k")
  case None
  then have "k \<notin> keys g" using keys_by_left [of g k] by simp
  from new_node_fields [OF assms this] None show ?thesis by (auto simp: node_or_new_def grows_def)
qed (simp add: node_or_new_def grows_refl)

lemma graph_exec_grows:
  assumes ok: "graph_ok (ge_bytes E) g"
  shows "grows g (graph_exec E op g)"
proof (cases op)
  case (AddNode k)
  then show ?thesis
    using node_or_new_grows [OF ok, of k] by (auto simp: add_node_def node_or_new_def grows_refl split: option.splits)
next
  case (RemoveNode k)
  then show ?thesis
    by (intro grows_fields) (auto simp: remove_node_def remove_by_left_def Let_def split: option.splits)
next
  case (UpsertEdge a b f)
  obtain i g1 where 1: "node_or_new (ge_bytes E) a g = (i, g1)" by fastforce
  obtain j g2 where 2: "node_or_new (ge_bytes E) b g1 = (j, g2)" by fastforce
  have "grows g g1" "grows g1 g2"
    using node_or_new_grows [OF ok, of a] node_or_new_grows [OF node_or_new_refines(1) [OF ok 1], of b] by (simp_all add: 1 2)
  moreover have "grows g2 (graph_exec E op g)"
    by (rule grows_fields) (simp_all add: UpsertEdge upsert_edge_def 1 2 change_edges_def put_edge_def)
  ultimately show ?thesis by (meson grows_trans)
qed (auto intro!: grows_fields simp: add_edge_def put_edge_def remove_edge_def set_node_health_def change_edges_def split: option.splits)

lemma graph_run_grows: "graph_ok (ge_bytes E) g \<Longrightarrow> grows g (graph_run E ops g)"
proof (induction ops arbitrary: g)
  case (Cons op ops)
  have "grows (graph_exec E op g) (graph_run E ops (graph_exec E op g))"
    using Cons.IH graph_exec_refines [OF Cons.prems] by blast
  with graph_exec_grows [OF Cons.prems, of op] show ?case by (simp add: graph_run_def grows_trans)
qed (simp add: graph_run_def grows_refl)

lemma grows_weight: "grows g g' \<Longrightarrow> node_weight g i = Some k \<Longrightarrow> node_weight g' i = Some k"
  by (auto simp: grows_def node_weight_def nth_append split: if_splits)

section \<open>Properties\<close>

text \<open>
  C11. The channel graph implements its abstract specification. After any sequence of calls on a
  new graph, the nodes, the edges with their observations, the counts and the answers of every
  view are those of a plain set of keys with a partial map of edges on which the same calls
  were made; an edge can be added exactly between nodes that are present, and the error names
  the first one that is not.
\<close>

theorem graph_refines:
  fixes E :: "('k, 'o, 'h) graph_env"
  shows "let g = graph_run E ops (inner_new (ge_bytes E) me); spec = fold (spec_exec E) ops ({me}, \<lambda>_. None)
    in set (graph_nodes g) = fst spec \<and> distinct (graph_nodes g) \<and> node_count g = card (fst spec) \<and>
      (\<forall>k. contains_node g k = (k \<in> fst spec)) \<and>
      (\<forall>k. path_slot (ge_bytes E) g k = (if k \<in> fst spec then Some (encode (ge_bytes E) k) else None)) \<and>
      (\<forall>a b. has_edge g a b = (snd spec (a, b) \<noteq> None)) \<and>
      (\<forall>a b. edge_between g a b = snd spec (a, b)) \<and>
      (\<forall>a b w. ((a, b, w) \<in> set (connected_edges g)) = (snd spec (a, b) = Some w)) \<and>
      (\<forall>a b. fst (add_edge (ge_default E) a b g) = (if a \<notin> fst spec then Inl (PublicKeyNodeNotFound a)
         else if b \<notin> fst spec then Inl (PublicKeyNodeNotFound b) else Inr ()))"
proof -
  let ?g = "graph_run E ops (inner_new (ge_bytes E) me)"
  note ok = new_run(1) [of E ops me]
  show ?thesis
    unfolding Let_def new_run(2) by (simp add: view_refines [OF ok] connected_edges_set [OF ok] add_edge_refines(1) [OF ok])
qed

text \<open>
  A path slot never comes to mean another node. In any reachable graph a slot resolves
  exactly to the vertex of the only present key that encodes to it; whatever happens
  afterwards, a vertex keeps the key it was made for, and a vertex whose node was removed never
  belongs to a node again.
\<close>

theorem slots_name_nodes:
  assumes "g = graph_run E ops (inner_new (ge_bytes E) me)" "g' = graph_run E later g"
  shows "(\<forall>s i. resolve g s = Some i \<longleftrightarrow> (\<exists>k. by_left (ig_indices g) k = Some i \<and> encode (ge_bytes E) k = s \<and>
      (\<forall>k' \<in> set (graph_nodes g). encode (ge_bytes E) k' = s \<longrightarrow> k' = k))) \<and>
    (\<forall>i k. node_weight g i = Some k \<longrightarrow> node_weight g' i = Some k \<and>
      (by_right (ig_indices g) i = None \<longrightarrow> by_right (ig_indices g') i = None))"
proof (intro conjI allI impI)
  have ok: "graph_ok (ge_bytes E) g" unfolding assms(1) by (rule new_run)
  then have ok': "graph_ok (ge_bytes E) g'" using graph_run_refines assms(2) by blast
  show "resolve g s = Some i \<longleftrightarrow> (\<exists>k. by_left (ig_indices g) k = Some i \<and> encode (ge_bytes E) k = s \<and>
      (\<forall>k' \<in> set (graph_nodes g). encode (ge_bytes E) k' = s \<longrightarrow> k' = k))" for s i
    by (simp add: resolve_iff [OF ok] by_left_mem [OF graph_okD(1) [OF ok]] view_refines(2) [OF ok])
  have gr: "grows g g'" using graph_run_grows [OF ok] assms(2) by simp
  fix i k assume k: "node_weight g i = Some k"
  then show "node_weight g' i = Some k" by (rule grows_weight [OF gr])
  assume none: "by_right (ig_indices g) i = None"
  have "i \<notin> snd ` set (ig_indices g)" using none by_right_mem [OF graph_okD(1) [OF ok], of i] by force
  moreover have "i < length (ig_nodes g)" using k by (simp add: node_weight_def split: if_splits)
  ultimately have "i \<notin> snd ` set (ig_indices g')" using gr by (force simp: grows_def)
  then show "by_right (ig_indices g') i = None"
    using by_right_mem [OF graph_okD(1) [OF ok'], of i] pair_mem(2) by (metis not_Some_eq)
qed

definition sample_env :: "(nat, nat, nat) graph_env" where
  "sample_env = \<lparr>ge_bytes = (\<lambda>k. replicate 7 0 @ [word_of_nat k]), ge_default = 0,
     ge_below_one = (\<lambda>h. Some h), ge_set_health = (\<lambda>h w. unwrap_or w h)\<rparr>"

theorem slots_name_nodes_witness:
  "by_right (ig_indices (graph_run sample_env [AddNode 5] (graph_run sample_env [AddNode 5, RemoveNode 5] (inner_new (ge_bytes sample_env) 3)))) 1 = None"
proof -
  let ?g = "graph_run sample_env [AddNode 5, RemoveNode 5] (inner_new (ge_bytes sample_env) 3)"
  have "node_weight ?g 1 = Some 5" "by_right (ig_indices ?g) 1 = None"
    by (simp_all add: graph_run_def sample_env_def inner_new_def add_node_def new_node_def remove_node_def by_left_def
        bi_insert_def remove_by_left_def Let_def node_weight_def by_right_def)
  from slots_name_nodes [OF refl refl, of sample_env "[AddNode 5, RemoveNode 5]" 3 "[AddNode 5]"] this show ?thesis by blast
qed

end
