(* ===== verification/Path_Search.thy ===== *)
theory Path_Search
  imports Hopr_Base
begin

text \<open>
  The search for simple paths (\<open>graph/src/petgraph/algorithm.rs\<close>):
  \<open>all_simple_paths_multi\<close> as the machine the source has, a stack of edge iterators beside
  the visited nodes and their costs, one round of its loop per step. The graph is given by
  the outgoing edges of a node, the cost by its accumulator and order, and the shuffles of
  the edge lists by a function of their number. \<open>explore\<close> is the recursive reference the
  machine is shown equal to.
\<close>

section \<open>The machine\<close>

record ('n, 'w, 'c) search =
  sr_out :: "'n \<Rightarrow> ('n \<times> 'w) list"
  sr_shuffle :: "nat \<Rightarrow> ('n \<times> 'w) list \<Rightarrow> ('n \<times> 'w) list"
  sr_to :: "'n list"
  sr_excluded :: "'n list"
  sr_min_nodes :: nat
  sr_max_nodes :: nat
  sr_min_cost :: "'c option"
  sr_less :: "'c \<Rightarrow> 'c \<Rightarrow> bool"
  sr_cost :: "'c \<Rightarrow> 'w \<Rightarrow> nat \<Rightarrow> 'c"

text \<open>The stack and the costs have their top first; the visited nodes are in order.\<close>

record ('n, 'w, 'c) search_state =
  ss_visited :: "'n list"
  ss_stack :: "('n \<times> 'w) list list"
  ss_costs :: "'c list"
  ss_rng :: nat

definition below :: "('n, 'w, 'c) search \<Rightarrow> 'c \<Rightarrow> bool" where
  "below R c = (case sr_min_cost R of Some m \<Rightarrow> sr_less R c m | None \<Rightarrow> False)"

definition blocked :: "('n, 'w, 'c) search \<Rightarrow> 'n list \<Rightarrow> 'n \<Rightarrow> bool" where
  "blocked R visited child \<longleftrightarrow> child \<in> set visited \<or> child \<in> set (sr_excluded R)"

definition reached :: "('n, 'w, 'c) search \<Rightarrow> 'n list \<Rightarrow> 'n \<Rightarrow> bool" where
  "reached R visited child \<longleftrightarrow> child \<in> set (sr_to R) \<and> length visited + 1 \<ge> sr_min_nodes R"

definition expandable :: "('n, 'w, 'c) search \<Rightarrow> 'n list \<Rightarrow> 'n \<Rightarrow> bool" where
  "expandable R visited child \<longleftrightarrow> length visited < sr_max_nodes R - 1
     \<and> list_ex (\<lambda>n. n \<noteq> child \<and> n \<notin> set visited) (sr_to R)"

definition search_step :: "('n, 'w, 'c) search \<Rightarrow> ('n, 'w, 'c) search_state
    \<Rightarrow> (('n list \<times> 'c) option \<times> ('n, 'w, 'c) search_state) option" where
  "search_step R s =
     (case ss_stack s of
        [] \<Rightarrow> None
      | [] # rest \<Rightarrow>
          Some (None, s\<lparr>ss_stack := rest, ss_visited := butlast (ss_visited s), ss_costs := tl (ss_costs s)\<rparr>)
      | ((child, w) # es) # rest \<Rightarrow>
          (let visited = ss_visited s; s = s\<lparr>ss_stack := es # rest\<rparr>
           in if blocked R visited child then Some (None, s)
              else (let new_cost = sr_cost R (hd (ss_costs s)) w (length visited - 1)
                in if below R new_cost then Some (None, s)
                   else (let valid = (if reached R visited child then Some (visited @ [child], new_cost) else None);
                             s = (if expandable R visited child
                                  then s\<lparr>ss_visited := visited @ [child],
                                         ss_stack := sr_shuffle R (ss_rng s) (sr_out R child) # ss_stack s,
                                         ss_costs := new_cost # ss_costs s, ss_rng := ss_rng s + 1\<rparr>
                                  else s)
                         in Some (valid, s)))))"

text \<open>The iterator: one call of \<open>next\<close>, and all the calls until it is exhausted.\<close>

partial_function (option) search_next :: "('n, 'w, 'c) search \<Rightarrow> ('n, 'w, 'c) search_state
    \<Rightarrow> (('n list \<times> 'c) option \<times> ('n, 'w, 'c) search_state) option" where
  "search_next R s =
     (case search_step R s of
        None \<Rightarrow> Some (None, s)
      | Some (out, s') \<Rightarrow> (case out of Some p \<Rightarrow> Some (Some p, s') | None \<Rightarrow> search_next R s'))"

partial_function (option) search_collect :: "('n, 'w, 'c) search \<Rightarrow> ('n, 'w, 'c) search_state
    \<Rightarrow> ('n list \<times> 'c) list option" where
  "search_collect R s =
     (case search_step R s of
        None \<Rightarrow> Some []
      | Some (out, s') \<Rightarrow> Option.bind (search_collect R s')
          (\<lambda>r. Some (case out of Some p \<Rightarrow> p # r | None \<Rightarrow> r)))"

definition search_init :: "('n, 'w, 'c) search \<Rightarrow> 'n \<Rightarrow> 'c \<Rightarrow> ('n, 'w, 'c) search_state" where
  "search_init R from c = \<lparr>ss_visited = [from], ss_stack = [sr_shuffle R 0 (sr_out R from)], ss_costs = [c], ss_rng = 1\<rparr>"

text \<open>The parameters of the public function; without an upper bound the number of nodes is it.\<close>

definition search_of :: "('n \<Rightarrow> ('n \<times> 'w) list) \<Rightarrow> nat \<Rightarrow> (nat \<Rightarrow> ('n \<times> 'w) list \<Rightarrow> ('n \<times> 'w) list) \<Rightarrow> 'n list
    \<Rightarrow> 'n list option \<Rightarrow> nat \<Rightarrow> nat option \<Rightarrow> 'c option \<Rightarrow> ('c \<Rightarrow> 'c \<Rightarrow> bool) \<Rightarrow> ('c \<Rightarrow> 'w \<Rightarrow> nat \<Rightarrow> 'c)
    \<Rightarrow> ('n, 'w, 'c) search" where
  "search_of out node_count shuffle to excluded min_inter max_inter min_cost lt cost =
     \<lparr>sr_out = out, sr_shuffle = shuffle, sr_to = to, sr_excluded = unwrap_or [] excluded,
      sr_min_nodes = min_inter + 2,
      sr_max_nodes = (case max_inter of Some l \<Rightarrow> l + 2 | None \<Rightarrow> node_count),
      sr_min_cost = min_cost, sr_less = lt, sr_cost = cost\<rparr>"

definition all_simple_paths :: "('n, 'w, 'c) search \<Rightarrow> 'n \<Rightarrow> 'c \<Rightarrow> ('n list \<times> 'c) list option" where
  "all_simple_paths R from c = search_collect R (search_init R from c)"

section \<open>The recursive reference\<close>

function explore :: "('n, 'w, 'c) search \<Rightarrow> 'n list \<Rightarrow> 'c \<Rightarrow> nat \<Rightarrow> ('n \<times> 'w) list \<Rightarrow> ('n list \<times> 'c) list \<times> nat" where
  "explore R vs c k [] = ([], k)"
| "explore R vs c k ((n, w) # es) =
     (let nc = sr_cost R c w (length vs - 1)
      in if blocked R vs n \<or> below R nc then explore R vs c k es
         else (let found = (if reached R vs n then [(vs @ [n], nc)] else [])
               in if expandable R vs n
                  then (case explore R (vs @ [n]) nc (k + 1) (sr_shuffle R k (sr_out R n)) of
                      (deeper, k') \<Rightarrow> (case explore R vs c k' es of (rest_found, k'') \<Rightarrow> (found @ deeper @ rest_found, k'')))
                  else (case explore R vs c k es of (rest_found, k') \<Rightarrow> (found @ rest_found, k'))))"
  by pat_completeness auto
termination
  by (relation "measures [\<lambda>(R, vs, c, k, es). sr_max_nodes R - length vs, \<lambda>(R, vs, c, k, es). length es]")
    (auto simp: expandable_def)

declare explore.simps [simp del]

lemma search_step_nil:
  "search_step R \<lparr>ss_visited = vs, ss_stack = [] # st, ss_costs = c # cs, ss_rng = k\<rparr> =
     Some (None, \<lparr>ss_visited = butlast vs, ss_stack = st, ss_costs = cs, ss_rng = k\<rparr>)"
  by (simp add: search_step_def)

lemma search_collect_step:
  "search_step R s = Some (out, s') \<Longrightarrow>
     search_collect R s = map_option (\<lambda>r. (case out of Some p \<Rightarrow> [p] | None \<Rightarrow> []) @ r) (search_collect R s')"
  by (subst search_collect.simps) (cases "search_collect R s'", auto split: option.splits)

lemma search_collect_silent: "search_step R s = Some (None, s') \<Longrightarrow> search_collect R s = search_collect R s'"
  by (subst search_collect.simps) simp

lemma explore_blocked:
  "blocked R vs n \<or> below R (sr_cost R c w (length vs - 1)) \<Longrightarrow> explore R vs c k ((n, w) # es) = explore R vs c k es"
  by (subst explore.simps) (simp add: Let_def)

definition found_at :: "('n, 'w, 'c) search \<Rightarrow> 'n list \<Rightarrow> 'n \<Rightarrow> 'c \<Rightarrow> ('n list \<times> 'c) list" where
  "found_at R vs n nc = (if reached R vs n then [(vs @ [n], nc)] else [])"

lemma explore_deeper:
  assumes "\<not> (blocked R vs n \<or> below R (sr_cost R c w (length vs - 1)))" "expandable R vs n"
    and "explore R (vs @ [n]) (sr_cost R c w (length vs - 1)) (k + 1) (sr_shuffle R k (sr_out R n)) = (deeper, k')"
    and "explore R vs c k' es = (rest_found, k'')"
  shows "explore R vs c k ((n, w) # es) =
    (found_at R vs n (sr_cost R c w (length vs - 1)) @ deeper @ rest_found, k'')"
  using assms by (subst explore.simps) (simp add: Let_def found_at_def)

lemma explore_flat:
  assumes "\<not> (blocked R vs n \<or> below R (sr_cost R c w (length vs - 1)))" "\<not> expandable R vs n"
    and "explore R vs c k es = (rest_found, k')"
  shows "explore R vs c k ((n, w) # es) = (found_at R vs n (sr_cost R c w (length vs - 1)) @ rest_found, k')"
  using assms by (subst explore.simps) (simp add: Let_def found_at_def)

text \<open>Running the machine with the edges \<open>es\<close> on top of the stack explores them and goes on below.\<close>

lemma search_collect_explore:
  "search_collect R \<lparr>ss_visited = vs, ss_stack = es # st, ss_costs = c # cs, ss_rng = k\<rparr> =
     map_option (\<lambda>r. fst (explore R vs c k es) @ r)
       (search_collect R \<lparr>ss_visited = butlast vs, ss_stack = st, ss_costs = cs, ss_rng = snd (explore R vs c k es)\<rparr>)"
proof (induction R vs c k es arbitrary: st cs rule: explore.induct)
  case (1 R vs c k)
  have "search_collect R \<lparr>ss_visited = vs, ss_stack = [] # st, ss_costs = c # cs, ss_rng = k\<rparr> =
      search_collect R \<lparr>ss_visited = butlast vs, ss_stack = st, ss_costs = cs, ss_rng = k\<rparr>"
    by (rule search_collect_silent [OF search_step_nil])
  then show ?case by (simp add: explore.simps option.map_ident)
next
  case (2 R vs c k n w es)
  let ?s = "\<lparr>ss_visited = vs, ss_stack = ((n, w) # es) # st, ss_costs = c # cs, ss_rng = k\<rparr>"
  let ?s' = "\<lparr>ss_visited = vs, ss_stack = es # st, ss_costs = c # cs, ss_rng = k\<rparr>"
  let ?nc = "sr_cost R c w (length vs - 1)"
  let ?out = "if reached R vs n then Some (vs @ [n], ?nc) else None"
  have out: "(case ?out of Some p \<Rightarrow> [p] | None \<Rightarrow> []) = found_at R vs n ?nc" by (simp add: found_at_def)
  show ?case
  proof (cases "blocked R vs n \<or> below R ?nc")
    case True
    then have "search_step R ?s = Some (None, ?s')" by (auto simp: search_step_def Let_def)
    from search_collect_silent [OF this] 2(1) [OF refl True, of st cs] show ?thesis
      by (simp only: explore_blocked [OF True])
  next
    case False
    show ?thesis
    proof (cases "expandable R vs n")
      case True
      let ?e = "sr_shuffle R k (sr_out R n)"
      let ?s2 = "\<lparr>ss_visited = vs @ [n], ss_stack = ?e # es # st, ss_costs = ?nc # c # cs, ss_rng = k + 1\<rparr>"
      obtain deeper k' where d: "explore R (vs @ [n]) ?nc (k + 1) ?e = (deeper, k')" by fastforce
      obtain rest_found k'' where m: "explore R vs c k' es = (rest_found, k'')" by fastforce
      have st: "search_step R ?s = Some (?out, ?s2)"
        using False True by (auto simp: search_step_def Let_def)
      have "search_collect R ?s2 = map_option (\<lambda>r. deeper @ r)
          (search_collect R \<lparr>ss_visited = vs, ss_stack = es # st, ss_costs = c # cs, ss_rng = k'\<rparr>)"
        using 2(2) [OF refl False refl True, of "es # st" "c # cs"] d by simp
      also have "search_collect R \<lparr>ss_visited = vs, ss_stack = es # st, ss_costs = c # cs, ss_rng = k'\<rparr> =
          map_option (\<lambda>r. rest_found @ r) (search_collect R \<lparr>ss_visited = butlast vs, ss_stack = st, ss_costs = cs, ss_rng = k''\<rparr>)"
        using 2(3) [OF refl False refl True d [symmetric], of st cs] m by simp
      finally have "search_collect R ?s2 = map_option (\<lambda>r. deeper @ rest_found @ r)
          (search_collect R \<lparr>ss_visited = butlast vs, ss_stack = st, ss_costs = cs, ss_rng = k''\<rparr>)"
        by (simp add: option.map_comp comp_def)
      then show ?thesis unfolding search_collect_step [OF st] out explore_deeper [OF False True d m]
        by (simp add: option.map_comp comp_def)
    next
      case no: False
      obtain rest_found k' where m: "explore R vs c k es = (rest_found, k')" by fastforce
      have st: "search_step R ?s = Some (?out, ?s')"
        using False no by (auto simp: search_step_def Let_def)
      from 2(4) [OF refl False refl no, of st cs] m show ?thesis
        unfolding search_collect_step [OF st] out explore_flat [OF False no m]
        by (simp add: option.map_comp comp_def)
    qed
  qed
qed

lemma all_simple_paths_explore:
  "all_simple_paths R from c = Some (fst (explore R [from] c 1 (sr_shuffle R 0 (sr_out R from))))"
proof -
  have "search_step R \<lparr>ss_visited = vs, ss_stack = [], ss_costs = cs, ss_rng = k\<rparr> = None" for vs cs k
    by (simp add: search_step_def)
  then have "search_collect R \<lparr>ss_visited = vs, ss_stack = [], ss_costs = cs, ss_rng = k\<rparr> = Some []" for vs cs k
    by (subst search_collect.simps) simp
  then show ?thesis
    by (simp add: all_simple_paths_def search_init_def search_collect_explore)
qed

end
