(* ===== verification/Path_Correct.thy ===== *)
theory Path_Correct
  imports Path_Search
begin

text \<open>
  What the path search finds: exactly the simple paths to a target within the bounds that
  avoid the excluded nodes and whose cost never drops below the threshold, each once.
\<close>

section \<open>Extensions of a path\<close>

text \<open>\<open>ext R es vs c p c'\<close>: the nodes \<open>p\<close> extend the path \<open>vs\<close> of cost \<open>c\<close>, the first by an edge of \<open>es\<close>.\<close>

fun ext :: "('n, 'w, 'c) search \<Rightarrow> ('n \<times> 'w) list \<Rightarrow> 'n list \<Rightarrow> 'c \<Rightarrow> 'n list \<Rightarrow> 'c \<Rightarrow> bool" where
  "ext R es vs c [] c' \<longleftrightarrow> False"
| "ext R es vs c (n # p) c' \<longleftrightarrow> \<not> blocked R vs n \<and>
     (\<exists>w. (n, w) \<in> set es \<and> \<not> below R (sr_cost R c w (length vs - 1)) \<and>
        (if p = [] then c' = sr_cost R c w (length vs - 1)
         else ext R (sr_out R n) (vs @ [n]) (sr_cost R c w (length vs - 1)) p c'))"

definition fits :: "('n, 'w, 'c) search \<Rightarrow> 'n list \<Rightarrow> 'n list \<Rightarrow> bool" where
  "fits R vs p \<longleftrightarrow> last p \<in> set (sr_to R) \<and> sr_min_nodes R \<le> length vs + length p
     \<and> length vs + length p \<le> sr_max_nodes R"

lemma ext_not_Nil: "ext R es vs c p c' \<Longrightarrow> p \<noteq> []"
  by (cases p) auto

lemma ext_fresh: "ext R es vs c p c' \<Longrightarrow> distinct p \<and> set p \<inter> (set vs \<union> set (sr_excluded R)) = {}"
proof (induction p arbitrary: es vs c)
  case (Cons n p)
  then obtain w where w: "\<not> blocked R vs n" "p = [] \<or> ext R (sr_out R n) (vs @ [n]) (sr_cost R c w (length vs - 1)) p c'"
    by (auto split: if_splits)
  show ?case
  proof (cases "p = []")
    case True
    with w show ?thesis by (auto simp: blocked_def)
  next
    case False
    with w have "ext R (sr_out R n) (vs @ [n]) (sr_cost R c w (length vs - 1)) p c'" by blast
    from Cons.IH [OF this] w show ?thesis by (auto simp: blocked_def)
  qed
qed simp

lemma ext_cong: "set es = set es' \<Longrightarrow> ext R es vs c p c' = ext R es' vs c p c'"
  by (cases p) auto

text \<open>The extensions over \<open>(n, w) # es\<close>: none through \<open>n\<close> when it is cut off, else \<open>n\<close> and what follows it.\<close>

lemma ext_Cons_edge:
  "ext R ((n, w) # es) vs c p c' \<longleftrightarrow> ext R es vs c p c' \<or>
     (\<not> (blocked R vs n \<or> below R (sr_cost R c w (length vs - 1))) \<and>
       (p = [n] \<and> c' = sr_cost R c w (length vs - 1) \<or>
        (\<exists>q. p = n # q \<and> ext R (sr_out R n) (vs @ [n]) (sr_cost R c w (length vs - 1)) q c')))"
proof (cases p)
  case (Cons m q)
  show ?thesis
  proof (cases "q = []")
    case False
    then show ?thesis using Cons by auto
  qed (auto simp: Cons)
qed simp

section \<open>The reference finds exactly these\<close>

definition results :: "('n, 'w, 'c) search \<Rightarrow> ('n \<times> 'w) list \<Rightarrow> 'n list \<Rightarrow> 'c \<Rightarrow> ('n list \<times> 'c) set" where
  "results R es vs c = {(vs @ p, c') | p c'. ext R es vs c p c' \<and> fits R vs p}"

lemma results_Nil [simp]: "results R [] vs c = {}"
proof -
  have "\<not> ext R [] vs c p c'" for p c' by (cases p) auto
  then show ?thesis by (simp add: results_def)
qed

lemma results_cong: "set es = set es' \<Longrightarrow> results R es vs c = results R es' vs c"
  using ext_cong [of es es' R vs c] by (simp add: results_def)

lemma results_blocked:
  "blocked R vs n \<or> below R (sr_cost R c w (length vs - 1)) \<Longrightarrow> results R ((n, w) # es) vs c = results R es vs c"
  by (simp add: results_def ext_Cons_edge)

lemma fits_deeper: "q \<noteq> [] \<Longrightarrow> fits R vs (n # q) \<longleftrightarrow> fits R (vs @ [n]) q"
  by (simp add: fits_def)

lemma results_edge:
  assumes "\<not> (blocked R vs n \<or> below R (sr_cost R c w (length vs - 1)))" and "length vs + 1 \<le> sr_max_nodes R"
  shows "results R ((n, w) # es) vs c = set (found_at R vs n (sr_cost R c w (length vs - 1)))
    \<union> results R (sr_out R n) (vs @ [n]) (sr_cost R c w (length vs - 1)) \<union> results R es vs c"
proof -
  let ?nc = "sr_cost R c w (length vs - 1)"
  have one: "(fits R vs [n]) \<longleftrightarrow> reached R vs n" using assms(2) by (auto simp: fits_def reached_def)
  have deep: "{(vs @ p, c') | p c'. (\<exists>q. p = n # q \<and> ext R (sr_out R n) (vs @ [n]) ?nc q c') \<and> fits R vs p}
      = results R (sr_out R n) (vs @ [n]) ?nc"
    unfolding results_def by (auto simp: fits_deeper dest: ext_not_Nil) (metis append.assoc append_Cons append_Nil ext_not_Nil fits_deeper)+
  have "results R ((n, w) # es) vs c =
      {(vs @ p, c') | p c'. p = [n] \<and> c' = ?nc \<and> fits R vs p} \<union>
      {(vs @ p, c') | p c'. (\<exists>q. p = n # q \<and> ext R (sr_out R n) (vs @ [n]) ?nc q c') \<and> fits R vs p} \<union>
      results R es vs c"
    using assms(1) unfolding results_def ext_Cons_edge by blast
  also have "{(vs @ p, c') | p c'. p = [n] \<and> c' = ?nc \<and> fits R vs p} = set (found_at R vs n ?nc)"
    using one by (auto simp: found_at_def)
  finally show ?thesis using deep by simp
qed

lemma results_expand: "results R (sr_out R n) (vs @ [n]) nc \<noteq> {} \<Longrightarrow> expandable R vs n"
proof -
  assume "results R (sr_out R n) (vs @ [n]) nc \<noteq> {}"
  then obtain p c' where p: "ext R (sr_out R n) (vs @ [n]) nc p c'" "fits R (vs @ [n]) p"
    by (auto simp: results_def)
  have "p \<noteq> []" by (rule ext_not_Nil [OF p(1)])
  moreover have "last p \<in> set p" using \<open>p \<noteq> []\<close> by simp
  moreover have "last p \<in> set (sr_to R)" using p(2) by (simp add: fits_def)
  moreover have "last p \<notin> set (vs @ [n])" using ext_fresh [OF p(1)] \<open>last p \<in> set p\<close> by blast
  moreover have "length vs < sr_max_nodes R - 1"
    using p(2) \<open>p \<noteq> []\<close> by (cases p) (auto simp: fits_def)
  ultimately show "expandable R vs n" by (auto simp: expandable_def list_ex_iff)
qed

lemma explore_results:
  "(\<And>k es. set (sr_shuffle R k es) = set es) \<Longrightarrow> length vs + 1 \<le> sr_max_nodes R \<Longrightarrow>
     set (fst (explore R vs c k es)) = results R es vs c"
proof (induction R vs c k es rule: explore.induct)
  case (1 R vs c k)
  then show ?case by (simp add: explore.simps)
next
  case (2 R vs c k n w es)
  let ?nc = "sr_cost R c w (length vs - 1)"
  show ?case
  proof (cases "blocked R vs n \<or> below R ?nc")
    case True
    from 2(1) [OF refl True 2(5,6)] show ?thesis
      by (simp only: explore_blocked [OF True] results_blocked [OF True])
  next
    case False
    show ?thesis
    proof (cases "expandable R vs n")
      case True
      obtain deeper k' where d: "explore R (vs @ [n]) ?nc (k + 1) (sr_shuffle R k (sr_out R n)) = (deeper, k')" by fastforce
      obtain rest_found k'' where m: "explore R vs c k' es = (rest_found, k'')" by fastforce
      have "length (vs @ [n]) + 1 \<le> sr_max_nodes R" using True unfolding expandable_def by auto
      from 2(2) [OF refl False refl True 2(5) this] d
      have "set deeper = results R (sr_shuffle R k (sr_out R n)) (vs @ [n]) ?nc" by simp
      also have "\<dots> = results R (sr_out R n) (vs @ [n]) ?nc"
        by (rule results_cong) (rule 2(5))
      finally show ?thesis
        using 2(3) [OF refl False refl True d [symmetric] 2(5,6)] m
        by (simp add: explore_deeper [OF False True d m] results_edge [OF False 2(6)] Un_assoc)
    next
      case no: False
      obtain rest_found k' where m: "explore R vs c k es = (rest_found, k')" by fastforce
      have "results R (sr_out R n) (vs @ [n]) ?nc = {}" using results_expand [of R n vs ?nc] no by blast
      with 2(4) [OF refl False refl no 2(5,6)] m show ?thesis
        by (simp add: explore_flat [OF False no m] results_edge [OF False 2(6)])
    qed
  qed
qed

section \<open>Each path is found once\<close>

lemma results_heads: "(path, c') \<in> results R es vs c \<Longrightarrow> \<exists>n q. path = vs @ n # q \<and> n \<in> fst ` set es"
proof -
  assume "(path, c') \<in> results R es vs c"
  then obtain p where p: "path = vs @ p" "ext R es vs c p c'" by (auto simp: results_def)
  then obtain n q where q: "p = n # q" using ext_not_Nil [OF p(2)] by (cases p) auto
  with p(2) have "n \<in> fst ` set es" by (auto simp: image_iff) (metis fst_conv)+
  with p(1) q show ?thesis by blast
qed

lemma explore_distinct:
  "(\<And>k es. mset (sr_shuffle R k es) = mset es) \<Longrightarrow> (\<And>n. distinct (map fst (sr_out R n))) \<Longrightarrow>
     length vs + 1 \<le> sr_max_nodes R \<Longrightarrow> distinct (map fst es) \<Longrightarrow> distinct (map fst (fst (explore R vs c k es)))"
proof (induction R vs c k es rule: explore.induct)
  case (1 R vs c k)
  show ?case by (simp add: explore.simps)
next
  case (2 R vs c k n w es)
  let ?nc = "sr_cost R c w (length vs - 1)"
  have sh: "set (sr_shuffle R k es) = set es" for k es using 2(5) [of k es] by (metis set_mset_mset)
  have n: "n \<notin> fst ` set es" and d: "distinct (map fst es)" using 2(8) by auto
  show ?case
  proof (cases "blocked R vs n \<or> below R ?nc")
    case True
    from 2(1) [OF refl True 2(5-7) d] show ?thesis by (simp only: explore_blocked [OF True])
  next
    case False
    have found: "distinct (map fst (found_at R vs n ?nc))" by (simp add: found_at_def)
    have rest: "fst ` set (fst (explore R vs c k' es)) \<inter> {path. \<exists>q. path = vs @ n # q} = {}" for k'
      using results_heads n explore_results [OF sh 2(7), of c k' es] by fastforce
    show ?thesis
    proof (cases "expandable R vs n")
      case True
      let ?e = "sr_shuffle R k (sr_out R n)"
      obtain deeper k' where dp: "explore R (vs @ [n]) ?nc (k + 1) ?e = (deeper, k')" by fastforce
      obtain rest_found k'' where m: "explore R vs c k' es = (rest_found, k'')" by fastforce
      have le: "length (vs @ [n]) + 1 \<le> sr_max_nodes R" using True unfolding expandable_def by auto
      have "mset (map fst ?e) = mset (map fst (sr_out R n))" using 2(5) [of k "sr_out R n"] by simp
      then have "distinct (map fst ?e)" using 2(6) [of n] by (metis mset_eq_imp_distinct_iff)
      from 2(2) [OF refl False refl True 2(5,6) le this] dp have d1: "distinct (map fst deeper)" by simp
      have d2: "distinct (map fst rest_found)" using 2(3) [OF refl False refl True dp [symmetric] 2(5-7) d] m by simp
      have dh: "\<exists>m q. path = vs @ n # m # q" if "path \<in> fst ` set deeper" for path
      proof -
        from that obtain c' where "(path, c') \<in> results R ?e (vs @ [n]) ?nc"
          using explore_results [OF sh le, of ?nc "k + 1" ?e] dp by auto
        from results_heads [OF this] show ?thesis by auto
      qed
      have "fst ` set (found_at R vs n ?nc) \<inter> fst ` set deeper = {}"
        using dh by (fastforce simp: found_at_def)
      moreover have "(fst ` set (found_at R vs n ?nc) \<union> fst ` set deeper) \<inter> fst ` set rest_found = {}"
        using rest [of k'] m dh by (fastforce simp: found_at_def)
      ultimately show ?thesis using d1 d2 found
        by (simp add: explore_deeper [OF False True dp m] Int_Un_distrib2 Int_Un_distrib)
    next
      case no: False
      obtain rest_found k' where m: "explore R vs c k es = (rest_found, k')" by fastforce
      have "fst ` set (found_at R vs n ?nc) \<inter> fst ` set rest_found = {}"
        using rest [of k] m by (fastforce simp: found_at_def)
      with 2(4) [OF refl False refl no 2(5-7) d] m found show ?thesis
        by (simp add: explore_flat [OF False no m])
    qed
  qed
qed

section \<open>Paths by their edges\<close>

text \<open>\<open>walk out u p ws\<close>: from \<open>u\<close> along the nodes \<open>p\<close> by edges of weights \<open>ws\<close>.\<close>

fun walk :: "('n \<Rightarrow> ('n \<times> 'w) list) \<Rightarrow> 'n \<Rightarrow> 'n list \<Rightarrow> 'w list \<Rightarrow> bool" where
  "walk out u [] ws \<longleftrightarrow> ws = []"
| "walk out u (n # p) ws \<longleftrightarrow> (\<exists>w vs. ws = w # vs \<and> (n, w) \<in> set (out u) \<and> walk out n p vs)"

fun cost_along :: "('c \<Rightarrow> 'w \<Rightarrow> nat \<Rightarrow> 'c) \<Rightarrow> 'c \<Rightarrow> nat \<Rightarrow> 'w list \<Rightarrow> 'c" where
  "cost_along f c i [] = c"
| "cost_along f c i (w # ws) = cost_along f (f c w i) (i + 1) ws"

text \<open>The accumulated cost is above the threshold after every edge.\<close>

fun never_below :: "('n, 'w, 'c) search \<Rightarrow> 'c \<Rightarrow> nat \<Rightarrow> 'w list \<Rightarrow> bool" where
  "never_below R c i [] \<longleftrightarrow> True"
| "never_below R c i (w # ws) \<longleftrightarrow> \<not> below R (sr_cost R c w i) \<and> never_below R (sr_cost R c w i) (i + 1) ws"

lemma walk_edge:
  "(\<exists>ws. walk out u (n # p) ws \<and> never_below R c i ws \<and> c' = cost_along (sr_cost R) c i ws) \<longleftrightarrow>
   (\<exists>w. (n, w) \<in> set (out u) \<and> \<not> below R (sr_cost R c w i) \<and>
      (\<exists>ws. walk out n p ws \<and> never_below R (sr_cost R c w i) (i + 1) ws \<and>
         c' = cost_along (sr_cost R) (sr_cost R c w i) (i + 1) ws))" (is "?L \<longleftrightarrow> ?R")
proof
  assume ?R
  then obtain w ws where "(n, w) \<in> set (out u)" "\<not> below R (sr_cost R c w i)" "walk out n p ws"
    "never_below R (sr_cost R c w i) (i + 1) ws" "c' = cost_along (sr_cost R) (sr_cost R c w i) (i + 1) ws" by blast
  then show ?L by (intro exI [of _ "w # ws"]) simp
next
  assume ?L
  then obtain w ws where "(n, w) \<in> set (out u)" "\<not> below R (sr_cost R c w i)" "walk out n p ws"
    "never_below R (sr_cost R c w i) (i + 1) ws" "c' = cost_along (sr_cost R) (sr_cost R c w i) (i + 1) ws" by auto
  then show ?R by blast
qed

lemma ext_walk:
  assumes "vs \<noteq> []"
  shows "ext R (sr_out R (last vs)) vs c p c' \<longleftrightarrow> p \<noteq> [] \<and> distinct p \<and> set p \<inter> (set vs \<union> set (sr_excluded R)) = {} \<and>
    (\<exists>ws. walk (sr_out R) (last vs) p ws \<and> never_below R c (length vs - 1) ws \<and> c' = cost_along (sr_cost R) c (length vs - 1) ws)"
  using assms
proof (induction p arbitrary: vs c)
  case (Cons n p)
  have len: "length (vs @ [n]) - 1 = length vs - 1 + 1" using Cons.prems by (cases vs) auto
  have IH: "ext R (sr_out R n) (vs @ [n]) nc p c' \<longleftrightarrow> p \<noteq> [] \<and> distinct p \<and> set p \<inter> (set (vs @ [n]) \<union> set (sr_excluded R)) = {} \<and>
      (\<exists>ws. walk (sr_out R) n p ws \<and> never_below R nc (length vs - 1 + 1) ws \<and> c' = cost_along (sr_cost R) nc (length vs - 1 + 1) ws)" for nc
    using Cons.IH [of "vs @ [n]" nc] by (simp only: len) simp
  show ?case
  proof (cases "p = []")
    case True
    then show ?thesis unfolding ext.simps walk_edge by (auto simp: blocked_def)
  next
    case False
    then have "ext R (sr_out R (last vs)) vs c (n # p) c' \<longleftrightarrow> \<not> blocked R vs n \<and>
        (\<exists>w. (n, w) \<in> set (sr_out R (last vs)) \<and> \<not> below R (sr_cost R c w (length vs - 1)) \<and>
           ext R (sr_out R n) (vs @ [n]) (sr_cost R c w (length vs - 1)) p c')" by simp
    also have "\<dots> \<longleftrightarrow> distinct (n # p) \<and> set (n # p) \<inter> (set vs \<union> set (sr_excluded R)) = {} \<and>
        (\<exists>ws. walk (sr_out R) (last vs) (n # p) ws \<and> never_below R c (length vs - 1) ws \<and>
           c' = cost_along (sr_cost R) c (length vs - 1) ws)"
      using False unfolding IH blocked_def walk_edge by auto
    finally show ?thesis by simp
  qed
qed simp

section \<open>What the search yields\<close>

lemma all_simple_paths_set:
  assumes "\<And>k es. mset (shuffle k es) = mset es"
    and "R = search_of out nodes shuffle to excl mn mx mc lt cost"
    and "2 \<le> sr_max_nodes R"
  shows "\<exists>rs. all_simple_paths R src c0 = Some rs \<and>
    (\<forall>path c. (path, c) \<in> set rs \<longleftrightarrow> (\<exists>p ws. path = src # p \<and> distinct path \<and> p \<noteq> [] \<and> last p \<in> set to \<and>
       set p \<inter> set (unwrap_or [] excl) = {} \<and> mn \<le> length p - 1 \<and> length p < sr_max_nodes R \<and>
       walk out src p ws \<and> never_below R c0 0 ws \<and> c = cost_along cost c0 0 ws)) \<and>
    ((\<forall>n. distinct (map fst (out n))) \<longrightarrow> distinct (map fst rs))"
proof (intro exI conjI)
  have R: "sr_out R = out" "sr_shuffle R = shuffle" "sr_to R = to" "sr_excluded R = unwrap_or [] excl"
    "sr_min_nodes R = mn + 2" "sr_cost R = cost"
    by (simp_all add: assms(2) search_of_def)
  let ?es = "sr_shuffle R 0 (sr_out R src)" and ?rs = "fst (explore R [src] c0 1 (sr_shuffle R 0 (sr_out R src)))"
  show "all_simple_paths R src c0 = Some ?rs" by (rule all_simple_paths_explore)
  have sh: "set (sr_shuffle R k es) = set es" for k es
    using assms(1) [of k es] unfolding R by (metis set_mset_mset)
  have "set ?rs = results R (sr_out R src) [src] c0"
    using explore_results [OF sh, of "[src]" c0 1 ?es] results_cong [OF sh] assms(3) by simp
  moreover have "ext R (sr_out R src) [src] c0 p c \<longleftrightarrow> p \<noteq> [] \<and> distinct p \<and> set p \<inter> ({src} \<union> set (sr_excluded R)) = {} \<and>
      (\<exists>ws. walk out src p ws \<and> never_below R c0 0 ws \<and> c = cost_along cost c0 0 ws)" for p c
    using ext_walk [of "[src]" R c0 p c] by (simp add: R)
  moreover have "fits R [src] p \<longleftrightarrow> last p \<in> set to \<and> mn \<le> length p - 1 \<and> length p < sr_max_nodes R" if "p \<noteq> []" for p
    using that by (cases p) (auto simp: fits_def R)
  ultimately show "\<forall>path c. (path, c) \<in> set ?rs \<longleftrightarrow> (\<exists>p ws. path = src # p \<and> distinct path \<and> p \<noteq> [] \<and> last p \<in> set to \<and>
       set p \<inter> set (unwrap_or [] excl) = {} \<and> mn \<le> length p - 1 \<and> length p < sr_max_nodes R \<and>
       walk out src p ws \<and> never_below R c0 0 ws \<and> c = cost_along cost c0 0 ws)"
    by (auto simp: results_def R)
  show "(\<forall>n. distinct (map fst (out n))) \<longrightarrow> distinct (map fst ?rs)"
  proof
    assume d: "\<forall>n. distinct (map fst (out n))"
    have "mset (map fst ?es) = mset (map fst (out src))" using assms(1) [of 0 "out src"] by (simp add: R)
    then have "distinct (map fst ?es)" using d by (metis mset_eq_imp_distinct_iff)
    with d assms(1,3) show "distinct (map fst ?rs)" by (intro explore_distinct) (simp_all add: R)
  qed
qed

section \<open>Properties\<close>

text \<open>
  C10. The path search is sound, complete and ends. Whatever the shuffles, exhausting the
  iterator ends and yields exactly the simple paths from the source to a target with a number
  of intermediate nodes within the bounds, that avoid the excluded nodes and along which the
  accumulated cost never drops below the threshold, each with its cost; and where the graph
  has no parallel edges, each of them once.
\<close>

theorem simple_paths_exact:
  assumes "\<And>k es. mset (shuffle k es) = mset es"
    and "R = search_of out nodes shuffle to excl mn mx mc lt cost"
    and "2 \<le> sr_max_nodes R"
  shows "\<exists>rs. all_simple_paths R from c0 = Some rs \<and>
    (\<forall>path c. (path, c) \<in> set rs \<longleftrightarrow> (\<exists>p ws. path = from # p \<and> distinct path \<and> p \<noteq> [] \<and> last p \<in> set to \<and>
       set p \<inter> set (unwrap_or [] excl) = {} \<and> mn \<le> length p - 1 \<and> length p < sr_max_nodes R \<and>
       walk out from p ws \<and> never_below R c0 0 ws \<and> c = cost_along cost c0 0 ws)) \<and>
    ((\<forall>n. distinct (map fst (out n))) \<longrightarrow> distinct (map fst rs))"
  using all_simple_paths_set [OF assms(1) assms(2,3)] .

theorem simple_paths_exact_witness:
  "\<exists>rs. all_simple_paths (search_of (\<lambda>n. [(n + 1, 2), (n + 2, 5)]) 9 (\<lambda>k. rev) [3 :: nat] None 1 (Some 2) None (<) (\<lambda>c w i. c + w)) 0 (0 :: nat)
     = Some rs \<and> ([0, 1, 3], 7) \<in> set rs"
proof -
  let ?out = "\<lambda>n. [(n + 1, 2), (n + 2, 5)] :: (nat \<times> nat) list"
  let ?R = "search_of ?out 9 (\<lambda>k. rev) [3 :: nat] None 1 (Some 2) None (<) (\<lambda>c w i. c + w)"
  have "2 \<le> sr_max_nodes ?R" by (simp add: search_of_def)
  from simple_paths_exact [OF _ refl this, of 0 0]
  obtain rs where rs: "all_simple_paths ?R 0 0 = Some rs" and
    m: "\<And>path c. (path, c) \<in> set rs \<longleftrightarrow> (\<exists>p ws. path = 0 # p \<and> distinct path \<and> p \<noteq> [] \<and> last p \<in> set [3] \<and>
       set p \<inter> set (unwrap_or [] None) = {} \<and> 1 \<le> length p - 1 \<and> length p < sr_max_nodes ?R \<and>
       walk ?out 0 p ws \<and> never_below ?R 0 0 ws \<and> c = cost_along (\<lambda>c w i. c + w) 0 0 ws)"
    by auto
  have "([0, 1, 3], 7) \<in> set rs"
    unfolding m by (rule exI [of _ "[1, 3]"], rule exI [of _ "[2, 5]"])
      (simp add: search_of_def below_def)
  with rs show ?thesis by blast
qed

end
