(* ===== verification/Graph_Paths.thy ===== *)
theory Graph_Paths
  imports Graph_Store Path_Correct
begin

text \<open>
  Paths through the channel graph (\<open>graph/src/petgraph/traverse.rs\<close>): the search of
  \<open>Path_Search\<close> run on the vertices, and its results given by public keys with the path
  identifier that names them. A value function of \<open>hopr-api\<close> is a record of its three parts;
  the length of a path identifier and the most hops of a packet are constants of that crate.
\<close>

section \<open>Definitions\<close>

record ('o, 'c) value_fn =
  vf_initial :: 'c
  vf_min :: "'c option"
  vf_cost :: "'c \<Rightarrow> 'o \<Rightarrow> nat \<Rightarrow> 'c"

record ('k, 'o) path_env =
  pe_bytes :: "'k \<Rightarrow> u8 list"
  pe_slots :: nat
  pe_max_hops :: nat
  pe_shuffle :: "nat \<Rightarrow> (nat \<times> 'o) list \<Rightarrow> (nat \<times> 'o) list"

definition min_loopback_hops :: nat where "min_loopback_hops = 2"

definition out_edges :: "('k, 'o) inner_graph \<Rightarrow> nat \<Rightarrow> (nat \<times> 'o) list" where
  "out_edges g n = map (\<lambda>((i, j), w). (j, w)) (filter (\<lambda>((i, j), w). i = n) (ig_edges g))"

fun fill_path_id :: "('k \<Rightarrow> u8 list) \<Rightarrow> ('k, 'o) inner_graph \<Rightarrow> nat \<Rightarrow> nat list \<Rightarrow> u64 list \<Rightarrow> u64 list option" where
  "fill_path_id bytes g i [] path_id = Some path_id"
| "fill_path_id bytes g i (n # ns) path_id =
     (if i \<ge> length path_id then None
      else (case by_right (ig_indices g) n of
          None \<Rightarrow> None
        | Some k \<Rightarrow> fill_path_id bytes g (i + 1) ns (path_id[i := encode bytes k])))"

definition keyed_path :: "('k, 'o) path_env \<Rightarrow> ('k, 'o) inner_graph \<Rightarrow> nat \<Rightarrow> nat list \<times> 'c
    \<Rightarrow> ('k list \<times> u64 list \<times> 'c) option" where
  "keyed_path E g len = (\<lambda>(node_indices, cost).
     (case fill_path_id (pe_bytes E) g 0 node_indices (replicate (pe_slots E) 0) of
        None \<Rightarrow> None
      | Some path_id \<Rightarrow>
          (let nodes = List.map_filter (by_right (ig_indices g)) (tl node_indices)
           in if length nodes = len then Some (nodes, path_id, cost) else None)))"

definition find_paths :: "('k, 'o) path_env \<Rightarrow> ('k, 'o) inner_graph \<Rightarrow> nat \<Rightarrow> nat list \<Rightarrow> nat \<Rightarrow> nat option
    \<Rightarrow> ('c \<Rightarrow> 'c \<Rightarrow> bool) \<Rightarrow> ('o, 'c) value_fn \<Rightarrow> ('k list \<times> u64 list \<times> 'c) list option" where
  "find_paths E g source destinations len take_count lt V =
     (if len = 0 then Some []
      else map_option (\<lambda>ps.
             (let paths = List.map_filter (keyed_path E g len) ps
              in (case take_count of Some t \<Rightarrow> take t paths | None \<Rightarrow> paths)))
           (all_simple_paths
             (search_of (out_edges g) (length (ig_nodes g)) (pe_shuffle E) destinations None
               (len - 1) (Some (len - 1)) (vf_min V) lt (vf_cost V))
             source (vf_initial V)))"

definition simple_paths :: "('k, 'o) path_env \<Rightarrow> ('k, 'o) inner_graph \<Rightarrow> 'k \<Rightarrow> 'k \<Rightarrow> nat \<Rightarrow> nat option
    \<Rightarrow> ('c \<Rightarrow> 'c \<Rightarrow> bool) \<Rightarrow> ('o, 'c) value_fn \<Rightarrow> ('k list \<times> u64 list \<times> 'c) list option" where
  "simple_paths E g source destination len take_count lt V =
     (if len = 0 then Some []
      else (case (by_left (ig_indices g) source, by_left (ig_indices g) destination) of
          (Some start, Some stop) \<Rightarrow>
            map_option (map (\<lambda>(nodes, path_id, cost). (butlast nodes, path_id, cost)))
              (find_paths E g start [stop] len take_count lt V)
        | _ \<Rightarrow> Some []))"

definition simple_paths_from :: "('k, 'o) path_env \<Rightarrow> ('k, 'o) inner_graph \<Rightarrow> 'k \<Rightarrow> nat \<Rightarrow> nat option
    \<Rightarrow> ('c \<Rightarrow> 'c \<Rightarrow> bool) \<Rightarrow> ('o, 'c) value_fn \<Rightarrow> ('k list \<times> u64 list \<times> 'c) list option" where
  "simple_paths_from E g source len take_count lt V =
     (if len = 0 then Some []
      else (case by_left (ig_indices g) source of
          Some start \<Rightarrow>
            find_paths E g start (filter (\<lambda>i. i \<noteq> start) [0..<length (ig_nodes g)]) len take_count lt V
        | None \<Rightarrow> Some []))"

text \<open>The last nodes of a loop: those with an edge back that is not known to be down.\<close>

definition connected_neighbors :: "('o \<Rightarrow> bool option) \<Rightarrow> ('k, 'o) inner_graph \<Rightarrow> nat \<Rightarrow> nat list" where
  "connected_neighbors is_connected g me_idx =
     map (fst \<circ> fst) (filter (\<lambda>((i, j), w). j = me_idx \<and> is_connected w \<noteq> Some False) (ig_edges g))"

definition close_loop :: "('k, 'o) path_env \<Rightarrow> 'k \<Rightarrow> 'k list \<times> u64 list \<times> 'c \<Rightarrow> ('k list \<times> u64 list) option" where
  "close_loop E me = (\<lambda>(nodes, path_id, cost).
     (if length nodes + 1 \<ge> length path_id then None
      else Some (nodes @ [me], path_id[length nodes + 1 := encode (pe_bytes E) me])))"

text \<open>\<open>loop_fn\<close> is the value function of the probe, for the number of edges of the closed loop.\<close>

definition simple_loopback_to_self :: "('k, 'o) path_env \<Rightarrow> ('o \<Rightarrow> bool option) \<Rightarrow> ('c \<Rightarrow> 'c \<Rightarrow> bool) \<Rightarrow> (nat \<Rightarrow> ('o, 'c) value_fn)
    \<Rightarrow> 'k \<Rightarrow> ('k, 'o) inner_graph \<Rightarrow> nat \<Rightarrow> nat option \<Rightarrow> ('k list \<times> u64 list) list option" where
  "simple_loopback_to_self E is_connected lt loop_fn me g hops take_count =
     (if min_loopback_hops \<le> hops \<and> hops \<le> pe_max_hops E then
        (case by_left (ig_indices g) me of
           Some me_idx \<Rightarrow>
             map_option (List.map_filter (close_loop E me))
               (find_paths E g me_idx (connected_neighbors is_connected g me_idx) hops take_count lt (loop_fn (hops + 1)))
         | None \<Rightarrow> Some [])
      else Some [])"

section \<open>Walks by vertices and by keys\<close>

text \<open>\<open>key_walk L a p ws\<close>: from \<open>a\<close> along the keys \<open>p\<close>, by links carrying \<open>ws\<close>.\<close>

fun key_walk :: "('k \<times> 'k \<Rightarrow> 'o option) \<Rightarrow> 'k \<Rightarrow> 'k list \<Rightarrow> 'o list \<Rightarrow> bool" where
  "key_walk L a [] ws \<longleftrightarrow> ws = []"
| "key_walk L a (b # p) ws \<longleftrightarrow> (\<exists>w vs. ws = w # vs \<and> L (a, b) = Some w \<and> key_walk L b p vs)"

definition names :: "('k, 'o) inner_graph \<Rightarrow> nat list \<Rightarrow> 'k list \<Rightarrow> bool" where
  "names g is ks \<longleftrightarrow> list_all2 (\<lambda>i k. (k, i) \<in> set (ig_indices g)) is ks"

lemma names_Cons:
  "names g (i # is) ks \<longleftrightarrow> (\<exists>k ks'. ks = k # ks' \<and> (k, i) \<in> set (ig_indices g) \<and> names g is ks')"
  "names g is (k # ks) \<longleftrightarrow> (\<exists>i is'. is = i # is' \<and> (k, i) \<in> set (ig_indices g) \<and> names g is' ks)"
  by (auto simp: names_def list_all2_Cons1 list_all2_Cons2)

lemma names_ex: "(\<exists>ks. names g (i # is) ks \<and> P ks) \<longleftrightarrow> (\<exists>k ks. (k, i) \<in> set (ig_indices g) \<and> names g is ks \<and> P (k # ks))"
  by (auto simp: names_Cons)

lemma names_Nil [simp]: "names g [] ks \<longleftrightarrow> ks = []" "names g is [] \<longleftrightarrow> is = []"
  by (auto simp: names_def)

lemma names_length: "names g is ks \<Longrightarrow> length is = length ks"
  by (auto simp: names_def dest: list_all2_lengthD)

lemma out_edges_set: "(j, w) \<in> set (out_edges g i) \<longleftrightarrow> ((i, j), w) \<in> set (ig_edges g)"
  by (auto simp: out_edges_def intro!: rev_image_eqI [of "((i, j), w)"])

lemma out_edges_link:
  assumes ok: "graph_ok bytes g" and a: "(a, i) \<in> set (ig_indices g)"
  shows "(j, w) \<in> set (out_edges g i) \<longleftrightarrow> (\<exists>b. (b, j) \<in> set (ig_indices g) \<and> links g (a, b) = Some w)"
proof
  assume "(j, w) \<in> set (out_edges g i)"
  then have e: "map_of (ig_edges g) (i, j) = Some w"
    using graph_okD(2) [OF ok] by (simp add: out_edges_set)
  then obtain a' b where "(a', i) \<in> set (ig_indices g)" "(b, j) \<in> set (ig_indices g)" using edge_ends [OF ok] by blast
  with links_at [OF ok a] e show "\<exists>b. (b, j) \<in> set (ig_indices g) \<and> links g (a, b) = Some w" by metis
next
  assume "\<exists>b. (b, j) \<in> set (ig_indices g) \<and> links g (a, b) = Some w"
  then show "(j, w) \<in> set (out_edges g i)"
    using links_at [OF ok a] by (auto simp: out_edges_set dest: map_of_SomeD)
qed

lemma walk_keys:
  assumes ok: "graph_ok bytes g"
  shows "(a, i) \<in> set (ig_indices g) \<Longrightarrow> walk (out_edges g) i is ws \<longleftrightarrow> (\<exists>ks. names g is ks \<and> key_walk (links g) a ks ws)"
proof (induction "is" arbitrary: a i ws)
  case (Cons j js)
  have "walk (out_edges g) i (j # js) ws \<longleftrightarrow> (\<exists>w vs b. ws = w # vs \<and> (b, j) \<in> set (ig_indices g) \<and> links g (a, b) = Some w \<and>
      walk (out_edges g) j js vs)"
    by (auto simp: out_edges_link [OF ok Cons.prems])
  also have "\<dots> \<longleftrightarrow> (\<exists>w vs b ks. ws = w # vs \<and> (b, j) \<in> set (ig_indices g) \<and> links g (a, b) = Some w \<and>
      names g js ks \<and> key_walk (links g) b ks vs)"
    using Cons.IH by blast
  also have "\<dots> \<longleftrightarrow> (\<exists>ks. names g (j # js) ks \<and> key_walk (links g) a ks ws)"
    unfolding names_ex key_walk.simps by blast
  finally show ?case .
qed simp

lemma key_walk_names: "graph_ok bytes g \<Longrightarrow> key_walk (links g) a ks ws \<Longrightarrow> \<exists>is. names g is ks"
proof (induction ks arbitrary: a ws)
  case (Cons k ks)
  then obtain w ws' where w: "links g (a, k) = Some w" "key_walk (links g) k ks ws'" by auto
  then have "k \<in> keys g" using links_dom [of g] by blast
  then obtain i where "(k, i) \<in> set (ig_indices g)" by (auto simp: keys_def)
  with Cons.IH [OF Cons.prems(1) w(2)] show ?case by (auto simp: names_Cons)
qed simp

section \<open>From vertices to keys\<close>

lemma names_by_right: "bi_ok (ig_indices g) \<Longrightarrow> names g is ks \<Longrightarrow> List.map_filter (by_right (ig_indices g)) is = ks"
proof (induction "is" arbitrary: ks)
  case (Cons i js)
  then obtain k ks' where ks: "ks = k # ks'" "(k, i) \<in> set (ig_indices g)" "names g js ks'" by (auto simp: names_Cons)
  then have "by_right (ig_indices g) i = Some k" using by_right_mem [OF Cons.prems(1)] by blast
  with ks Cons.IH [OF Cons.prems(1) ks(3)] show ?case by (simp add: map_filter_simps)
qed (simp add: map_filter_simps)

lemma names_distinct:
  assumes ok: "graph_ok bytes g"
  shows "names g is ks \<Longrightarrow> distinct is \<longleftrightarrow> distinct ks"
proof (induction "is" arbitrary: ks)
  case (Cons i js)
  then obtain k ks' where ks: "ks = k # ks'" "(k, i) \<in> set (ig_indices g)" "names g js ks'" by (auto simp: names_Cons)
  have "i \<in> set js \<longleftrightarrow> k \<in> set ks'"
    using ks(3)
  proof (induction js arbitrary: ks')
    case (Cons j js)
    then obtain l ls where "ks' = l # ls" "(l, j) \<in> set (ig_indices g)" "names g js ls" by (auto simp: names_Cons)
    with Cons.IH [of ls] ends_iff [OF ok ks(2), of l j] show ?case by auto
  qed simp
  with ks Cons.IH [OF ks(3)] show ?case by simp
qed simp

lemma names_last: "names g is ks \<Longrightarrow> is \<noteq> [] \<Longrightarrow> (last ks, last is) \<in> set (ig_indices g)"
proof (induction "is" arbitrary: ks)
  case (Cons i js)
  then obtain k ks' where ks: "ks = k # ks'" "(k, i) \<in> set (ig_indices g)" "names g js ks'" by (auto simp: names_Cons)
  with Cons.IH [OF ks(3)] names_length [OF ks(3)] show ?case by (cases "js = []") auto
qed simp

lemma names_unique: "graph_ok bytes g \<Longrightarrow> names g is ks \<Longrightarrow> names g js ks \<Longrightarrow> is = js"
proof (induction ks arbitrary: "is" js)
  case (Cons k ks)
  from Cons.prems obtain i is' j js' where "is = i # is'" "js = j # js'" "(k, i) \<in> set (ig_indices g)" "(k, j) \<in> set (ig_indices g)"
    "names g is' ks" "names g js' ks" by (auto simp: names_Cons)
  with Cons.IH [OF Cons.prems(1)] ends_iff [OF Cons.prems(1)] show ?case by blast
qed simp

lemma take_Suc_update: "n < length xs \<Longrightarrow> take (Suc n) (xs[n := y]) = take n xs @ [y]"
  by (simp add: take_Suc_conv_app_nth)

lemma fill_path_id_eq:
  "bi_ok (ig_indices g) \<Longrightarrow> names g is ks \<Longrightarrow> fill_path_id bytes g n is path_id =
     (if n + length is \<le> length path_id \<or> is = [] then Some (take n path_id @ map (encode bytes) ks @ drop (n + length is) path_id) else None)"
proof (induction "is" arbitrary: ks n path_id)
  case (Cons i js)
  then obtain k ks' where ks: "ks = k # ks'" "(k, i) \<in> set (ig_indices g)" "names g js ks'" by (auto simp: names_Cons)
  then have "by_right (ig_indices g) i = Some k" using by_right_mem [OF Cons.prems(1)] by blast
  with Cons.IH [OF Cons.prems(1) ks(3), of "n + 1" "path_id[n := encode bytes k]"] ks show ?case
    by (auto simp: take_Suc_update)
qed simp

definition padded :: "('k, 'o) path_env \<Rightarrow> 'k list \<Rightarrow> u64 list" where
  "padded E ks = map (encode (pe_bytes E)) ks @ replicate (pe_slots E - length ks) 0"

lemma keyed_path_eq:
  assumes ok: "graph_ok bytes g" and n: "names g (i # is) (k # ks)"
  shows "keyed_path E g len (i # is, c) =
    (if length ks = len \<and> len + 1 \<le> pe_slots E then Some (ks, padded E (k # ks), c) else None)"
proof -
  note bi = graph_okD(1) [OF ok]
  have "names g is ks" using n by (simp add: names_Cons)
  then show ?thesis
    using fill_path_id_eq [OF bi n, where bytes = "pe_bytes E" and n = 0 and path_id = "replicate (pe_slots E) 0"]
      names_by_right [OF bi \<open>names g is ks\<close>] names_length [OF n]
    by (auto simp: keyed_path_def padded_def)
qed

section \<open>What \<open>find_paths\<close> yields\<close>

text \<open>The accumulated value never drops below the minimum.\<close>

fun stays_above :: "('c \<Rightarrow> 'c \<Rightarrow> bool) \<Rightarrow> ('o, 'c) value_fn \<Rightarrow> 'c \<Rightarrow> nat \<Rightarrow> 'o list \<Rightarrow> bool" where
  "stays_above lt V c i [] \<longleftrightarrow> True"
| "stays_above lt V c i (w # ws) \<longleftrightarrow>
     (case vf_min V of Some m \<Rightarrow> \<not> lt (vf_cost V c w i) m | None \<Rightarrow> True) \<and> stays_above lt V (vf_cost V c w i) (i + 1) ws"

lemma never_below_eq:
  "sr_min_cost R = vf_min V \<Longrightarrow> sr_less R = lt \<Longrightarrow> sr_cost R = vf_cost V \<Longrightarrow> never_below R c i ws \<longleftrightarrow> stays_above lt V c i ws"
  by (induction ws arbitrary: c i) (auto simp: below_def split: option.split)

lemma successors_distinct:
  "distinct (map fst es) \<Longrightarrow> distinct (map fst (map (\<lambda>((i, j), w). (j, w)) (filter (\<lambda>((i, j), w). i = n) es)))"
  by (induction es) (auto intro: rev_image_eqI)

lemma out_edges_distinct: "distinct (map fst (ig_edges g)) \<Longrightarrow> distinct (map fst (out_edges g n))"
  unfolding out_edges_def by (rule successors_distinct)

lemma distinct_fst_map_filter:
  "distinct (map fst xs) \<Longrightarrow>
   (\<And>x y u v. x \<in> set xs \<Longrightarrow> y \<in> set xs \<Longrightarrow> f x = Some u \<Longrightarrow> f y = Some v \<Longrightarrow> fst u = fst v \<Longrightarrow> fst x = fst y) \<Longrightarrow>
   distinct (map fst (List.map_filter f xs))"
proof (induction xs)
  case (Cons x xs)
  have IH: "distinct (map fst (List.map_filter f xs))"
    by (rule Cons.IH) (use Cons.prems in auto)
  show ?case
  proof (cases "f x")
    case (Some u)
    have "fst u \<notin> fst ` set (List.map_filter f xs)"
    proof
      assume "fst u \<in> fst ` set (List.map_filter f xs)"
      then obtain y v where "y \<in> set xs" "f y = Some v" "fst u = fst v"
        by (auto simp: List.map_filter_def)
      with Cons.prems(2) [of x y u v] Some have "fst x \<in> fst ` set xs" by auto
      with Cons.prems(1) show False by simp
    qed
    with IH Some show ?thesis by (simp add: map_filter_simps)
  qed (simp add: IH map_filter_simps)
qed (simp add: map_filter_simps)

lemma map_filter_set: "y \<in> set (List.map_filter f xs) \<longleftrightarrow> (\<exists>x \<in> set xs. f x = Some y)"
  by (force simp: List.map_filter_def)

definition ends_in :: "('k, 'o) inner_graph \<Rightarrow> nat list \<Rightarrow> 'k \<Rightarrow> bool" where
  "ends_in g D k \<longleftrightarrow> (\<exists>j \<in> set D. (k, j) \<in> set (ig_indices g))"

lemma find_paths_set:
  assumes ok: "graph_ok (pe_bytes E) g" and a: "(a, i) \<in> set (ig_indices g)" and "0 < len"
    and sh: "\<And>k es. mset (pe_shuffle E k es) = mset es"
  shows "\<exists>rs. find_paths E g i D len None lt V = Some rs \<and>
    (\<forall>t. find_paths E g i D len (Some t) lt V = Some (take t rs)) \<and> distinct (map fst rs) \<and>
    (\<forall>ns pid c. (ns, pid, c) \<in> set rs \<longleftrightarrow> len < pe_slots E \<and> length ns = len \<and> distinct (a # ns) \<and>
       ends_in g D (last ns) \<and> pid = padded E (a # ns) \<and>
       (\<exists>ws. key_walk (links g) a ns ws \<and> stays_above lt V (vf_initial V) 0 ws \<and> c = cost_along (vf_cost V) (vf_initial V) 0 ws))"
proof -
  let ?R = "search_of (out_edges g) (length (ig_nodes g)) (pe_shuffle E) D None (len - 1) (Some (len - 1)) (vf_min V) lt (vf_cost V)"
  let ?Q = "\<lambda>ws c. stays_above lt V (vf_initial V) 0 ws \<and> c = cost_along (vf_cost V) (vf_initial V) 0 ws"
  have mx: "sr_max_nodes ?R = len + 1" using \<open>0 < len\<close> by (simp add: search_of_def)
  have nb: "never_below ?R (vf_initial V) 0 ws \<longleftrightarrow> stays_above lt V (vf_initial V) 0 ws" for ws
    by (rule never_below_eq) (simp_all add: search_of_def)
  from mx \<open>0 < len\<close> have "2 \<le> sr_max_nodes ?R" by simp
  from all_simple_paths_set [OF sh refl this, where src = i and ?c0.0 = "vf_initial V"] obtain ps
    where ps: "all_simple_paths ?R i (vf_initial V) = Some ps"
      and path0: "\<And>path c. (path, c) \<in> set ps \<longleftrightarrow> (\<exists>p ws. path = i # p \<and> distinct path \<and> p \<noteq> [] \<and> last p \<in> set D \<and>
         set p \<inter> set (unwrap_or [] None) = {} \<and> len - 1 \<le> length p - 1 \<and> length p < sr_max_nodes ?R \<and>
         walk (out_edges g) i p ws \<and> never_below ?R (vf_initial V) 0 ws \<and> c = cost_along (vf_cost V) (vf_initial V) 0 ws)"
      and dist: "(\<forall>n. distinct (map fst (out_edges g n))) \<longrightarrow> distinct (map fst ps)"
    by blast
  have len: "p \<noteq> [] \<and> len - 1 \<le> length p - 1 \<and> length p < sr_max_nodes ?R \<longleftrightarrow> length p = len" for p :: "nat list"
    using \<open>0 < len\<close> unfolding mx by (cases p) auto
  have path: "(path, c) \<in> set ps \<longleftrightarrow> (\<exists>p ks ws. path = i # p \<and> names g p ks \<and> distinct (a # ks) \<and> length ks = len \<and> last p \<in> set D \<and>
      key_walk (links g) a ks ws \<and> ?Q ws c)" for path c
  proof -
    have "(path, c) \<in> set ps \<longleftrightarrow> (\<exists>p ws. path = i # p \<and> distinct path \<and> length p = len \<and> last p \<in> set D \<and> walk (out_edges g) i p ws \<and> ?Q ws c)"
      unfolding path0 nb using len by auto
    also have "\<dots> \<longleftrightarrow> (\<exists>p ks ws. path = i # p \<and> distinct (i # p) \<and> length p = len \<and> last p \<in> set D \<and> names g p ks \<and> key_walk (links g) a ks ws \<and> ?Q ws c)"
      unfolding walk_keys [OF ok a] by blast
    also have "\<dots> \<longleftrightarrow> (\<exists>p ks ws. path = i # p \<and> names g p ks \<and> distinct (a # ks) \<and> length ks = len \<and> last p \<in> set D \<and> key_walk (links g) a ks ws \<and> ?Q ws c)"
    proof -
      have "distinct (i # p) \<longleftrightarrow> distinct (a # ks)" "length p = length ks" if "names g p ks" for p ks
        using names_distinct [OF ok, of "i # p" "a # ks"] names_length [OF that] that a by (simp_all add: names_Cons)
      note dd = this
      show ?thesis by (intro ex_cong1) (use dd in metis)
    qed
    finally show ?thesis .
  qed
  let ?rs = "List.map_filter (keyed_path E g len) ps"
  have kp: "keyed_path E g len (i # p, c) = (if length ks = len \<and> len + 1 \<le> pe_slots E then Some (ks, padded E (a # ks), c) else None)"
    if "names g p ks" for p ks c
    by (rule keyed_path_eq [OF ok]) (use that a in \<open>simp add: names_Cons\<close>)
  have last_in: "last p \<in> set D \<longleftrightarrow> ends_in g D (last ks)" if "names g p ks" "length ks = len" for p ks
  proof -
    have "p \<noteq> []" using that \<open>0 < len\<close> by auto
    from names_last [OF that(1) this] have l: "(last ks, last p) \<in> set (ig_indices g)" .
    then show ?thesis using ends_iff [OF ok l] by (auto simp: ends_in_def)
  qed
  have mem: "(ns, pid, c) \<in> set ?rs \<longleftrightarrow> len < pe_slots E \<and> length ns = len \<and> distinct (a # ns) \<and> ends_in g D (last ns) \<and>
      pid = padded E (a # ns) \<and> (\<exists>ws. key_walk (links g) a ns ws \<and> ?Q ws c)" (is "_ \<longleftrightarrow> ?M") for ns pid c
  proof
    assume "(ns, pid, c) \<in> set ?rs"
    then obtain x c' where x: "(x, c') \<in> set ps" "keyed_path E g len (x, c') = Some (ns, pid, c)" by (auto simp: map_filter_set)
    from x(1) obtain p ks ws where p: "x = i # p" "names g p ks" "distinct (a # ks)" "length ks = len" "last p \<in> set D"
      "key_walk (links g) a ks ws" "?Q ws c'" unfolding path by blast
    from x(2) kp [OF p(2), of c'] p(1,4) have "ns = ks" "pid = padded E (a # ks)" "c = c'" "len < pe_slots E" by (auto split: if_splits)
    with p last_in [OF p(2,4)] show ?M by blast
  next
    assume M: ?M
    then obtain ws where ws: "key_walk (links g) a ns ws" "?Q ws c" by blast
    from M obtain p where p: "names g p ns" using walk_keys [OF ok a] ws(1) key_walk_names [OF ok ws(1)] by blast
    have "(i # p, c) \<in> set ps" unfolding path using M ws p last_in [OF p] by blast
    moreover have "keyed_path E g len (i # p, c) = Some (ns, pid, c)" using kp [OF p, of c] M by simp
    ultimately show "(ns, pid, c) \<in> set ?rs" by (auto simp: map_filter_set)
  qed
  have "distinct (map fst ?rs)"
  proof (rule distinct_fst_map_filter)
    show "distinct (map fst ps)" using dist out_edges_distinct [OF graph_okD(2) [OF ok]] by blast
    fix x y u v assume x: "x \<in> set ps" and y: "y \<in> set ps" and u: "keyed_path E g len x = Some u"
      and v: "keyed_path E g len y = Some v" and uv: "fst u = fst v"
    obtain px kx cx where x': "x = (i # px, cx)" "names g px kx" "length kx = len" using x path [of "fst x" "snd x"] by (metis prod.collapse)
    obtain py ky cy where y': "y = (i # py, cy)" "names g py ky" "length ky = len" using y path [of "fst y" "snd y"] by (metis prod.collapse)
    have "fst u = kx" using u unfolding x'(1) kp [OF x'(2)] by (auto split: if_splits)
    moreover have "fst v = ky" using v unfolding y'(1) kp [OF y'(2)] by (auto split: if_splits)
    ultimately have "kx = ky" using uv by simp
    with x' y' names_unique [OF ok x'(2), of py] show "fst x = fst y" by simp
  qed
  moreover have "find_paths E g i D len None lt V = Some ?rs" "\<And>t. find_paths E g i D len (Some t) lt V = Some (take t ?rs)"
    using \<open>0 < len\<close> ps by (simp_all add: find_paths_def Let_def)
  ultimately show ?thesis using mem by blast
qed

section \<open>Loops\<close>

lemma ends_in_single: "graph_ok bytes g \<Longrightarrow> (b, j) \<in> set (ig_indices g) \<Longrightarrow> ends_in g [j] k \<longleftrightarrow> k = b"
  using ends_iff by (fastforce simp: ends_in_def)

lemma ends_in_others:
  assumes ok: "graph_ok bytes g" and a: "(a, i) \<in> set (ig_indices g)"
  shows "ends_in g (filter (\<lambda>j. j \<noteq> i) [0..<length (ig_nodes g)]) k \<longleftrightarrow> k \<in> keys g \<and> k \<noteq> a"
proof
  assume "ends_in g (filter (\<lambda>j. j \<noteq> i) [0..<length (ig_nodes g)]) k"
  then obtain j where j: "j \<noteq> i" "(k, j) \<in> set (ig_indices g)" by (auto simp: ends_in_def)
  then show "k \<in> keys g \<and> k \<noteq> a" using ends_iff [OF ok j(2) a] pair_mem(1) [OF j(2)] by (simp add: keys_def)
next
  assume k: "k \<in> keys g \<and> k \<noteq> a"
  then obtain j where j: "(k, j) \<in> set (ig_indices g)" by (auto simp: keys_def)
  with index_bound [OF ok pair_mem(2) [OF j]] k ends_iff [OF ok j a] show "ends_in g (filter (\<lambda>j. j \<noteq> i) [0..<length (ig_nodes g)]) k"
    by (auto simp: ends_in_def)
qed

lemma ends_in_neighbors:
  assumes ok: "graph_ok bytes g" and me: "(me, i) \<in> set (ig_indices g)"
  shows "ends_in g (connected_neighbors up g i) k \<longleftrightarrow> (\<exists>w. links g (k, me) = Some w \<and> up w \<noteq> Some False)"
proof -
  have n: "j \<in> set (connected_neighbors up g i) \<longleftrightarrow> (\<exists>w. map_of (ig_edges g) (j, i) = Some w \<and> up w \<noteq> Some False)" for j
  proof -
    have "j \<in> set (connected_neighbors up g i) \<longleftrightarrow> (\<exists>w. ((j, i), w) \<in> set (ig_edges g) \<and> up w \<noteq> Some False)"
      by (force simp: connected_neighbors_def)
    then show ?thesis using graph_okD(2) [OF ok] by simp
  qed
  show ?thesis
  proof
    assume "ends_in g (connected_neighbors up g i) k"
    then obtain j w where j: "(k, j) \<in> set (ig_indices g)" "map_of (ig_edges g) (j, i) = Some w" "up w \<noteq> Some False"
      by (auto simp: ends_in_def n)
    with links_at [OF ok j(1) me] show "\<exists>w. links g (k, me) = Some w \<and> up w \<noteq> Some False" by simp
  next
    assume "\<exists>w. links g (k, me) = Some w \<and> up w \<noteq> Some False"
    then obtain w where w: "links g (k, me) = Some w" "up w \<noteq> Some False" by blast
    then have "k \<in> keys g" using links_dom [of g] by blast
    then obtain j where j: "(k, j) \<in> set (ig_indices g)" by (auto simp: keys_def)
    with w links_at [OF ok j me] have "j \<in> set (connected_neighbors up g i)" by (simp add: n)
    with j show "ends_in g (connected_neighbors up g i) k" unfolding ends_in_def by blast
  qed
qed

lemma replicate_update_0: "0 < n \<Longrightarrow> (replicate n x)[0 := y] = y # replicate (n - 1) x"
  by (cases n) auto

lemma close_loop_eq:
  "length ms < pe_slots E \<Longrightarrow> close_loop E me (ms, padded E (me # ms), c) =
     (if length ms + 1 < pe_slots E then Some (ms @ [me], padded E (me # ms @ [me])) else None)"
  by (auto simp: close_loop_def padded_def list_update_append replicate_update_0)

lemma loopback_set:
  assumes ok: "graph_ok (pe_bytes E) g" and me: "me \<in> keys g"
    and sh: "\<And>k es. mset (pe_shuffle E k es) = mset es"
  shows "\<exists>rs. simple_loopback_to_self E up lt LF me g hops None = Some rs \<and> distinct (map fst rs) \<and>
    (\<forall>ns pid. (ns, pid) \<in> set rs \<longleftrightarrow> min_loopback_hops \<le> hops \<and> hops \<le> pe_max_hops E \<and> hops + 1 < pe_slots E \<and>
      (\<exists>ms ws. ns = ms @ [me] \<and> pid = padded E (me # ms @ [me]) \<and> length ms = hops \<and> distinct (me # ms) \<and>
         key_walk (links g) me ms ws \<and> stays_above lt (LF (hops + 1)) (vf_initial (LF (hops + 1))) 0 ws \<and>
         (\<exists>w. links g (last ms, me) = Some w \<and> up w \<noteq> Some False)))"
proof (cases "min_loopback_hops \<le> hops \<and> hops \<le> pe_max_hops E")
  case True
  then have "0 < hops" by (simp add: min_loopback_hops_def)
  obtain i where i: "by_left (ig_indices g) me = Some i" "(me, i) \<in> set (ig_indices g)" by (rule by_left_keys [OF ok me])
  let ?V = "LF (hops + 1)"
  from find_paths_set [OF ok i(2) \<open>0 < hops\<close> sh, of "connected_neighbors up g i" lt ?V] obtain rs
    where rs: "find_paths E g i (connected_neighbors up g i) hops None lt ?V = Some rs" "distinct (map fst rs)"
      and mem: "\<And>ns pid c. (ns, pid, c) \<in> set rs \<longleftrightarrow> hops < pe_slots E \<and> length ns = hops \<and> distinct (me # ns) \<and>
       ends_in g (connected_neighbors up g i) (last ns) \<and> pid = padded E (me # ns) \<and>
       (\<exists>ws. key_walk (links g) me ns ws \<and> stays_above lt ?V (vf_initial ?V) 0 ws \<and> c = cost_along (vf_cost ?V) (vf_initial ?V) 0 ws)"
    by blast
  let ?ls = "List.map_filter (close_loop E me) rs"
  have res: "simple_loopback_to_self E up lt LF me g hops None = Some ?ls"
    using True rs(1) i(1) by (simp add: simple_loopback_to_self_def)
  have cl: "close_loop E me x = (if hops + 1 < pe_slots E then Some (fst x @ [me], padded E (me # fst x @ [me])) else None)"
    if "x \<in> set rs" for x
  proof -
    obtain ns pid c where x: "x = (ns, pid, c)" by (cases x) auto
    with that have m: "(ns, pid, c) \<in> set rs" by simp
    have "pid = padded E (me # ns)" "length ns < pe_slots E" "length ns = hops" using m [unfolded mem] by simp_all
    then show ?thesis using close_loop_eq [of ns E me c] by (simp add: x)
  qed
  have "distinct (map fst ?ls)"
  proof (rule distinct_fst_map_filter [OF rs(2)])
    fix x y u v
    assume x: "x \<in> set rs" "close_loop E me x = Some u" and y: "y \<in> set rs" "close_loop E me y = Some v" and uv: "fst u = fst v"
    have "fst u = fst x @ [me]" using x(2) unfolding cl [OF x(1)] by (auto split: if_splits)
    moreover have "fst v = fst y @ [me]" using y(2) unfolding cl [OF y(1)] by (auto split: if_splits)
    ultimately show "fst x = fst y" using uv by simp
  qed
  moreover have "(ns, pid) \<in> set ?ls \<longleftrightarrow> hops + 1 < pe_slots E \<and>
      (\<exists>ms ws. ns = ms @ [me] \<and> pid = padded E (me # ms @ [me]) \<and> length ms = hops \<and> distinct (me # ms) \<and>
         key_walk (links g) me ms ws \<and> stays_above lt ?V (vf_initial ?V) 0 ws \<and>
         (\<exists>w. links g (last ms, me) = Some w \<and> up w \<noteq> Some False))" (is "_ \<longleftrightarrow> ?M") for ns pid
  proof
    assume "(ns, pid) \<in> set ?ls"
    then obtain x where x: "x \<in> set rs" "close_loop E me x = Some (ns, pid)" by (auto simp: map_filter_set)
    obtain ms p c where xe: "x = (ms, p, c)" by (cases x) auto
    from x(2) cl [OF x(1)] have "hops + 1 < pe_slots E" "ns = ms @ [me]" "pid = padded E (me # ms @ [me])"
      by (auto simp: xe split: if_splits)
    moreover from x(1) have "length ms = hops" "distinct (me # ms)"
      "\<exists>ws. key_walk (links g) me ms ws \<and> stays_above lt ?V (vf_initial ?V) 0 ws"
      "\<exists>w. links g (last ms, me) = Some w \<and> up w \<noteq> Some False"
      unfolding xe mem ends_in_neighbors [OF ok i(2)] by blast+
    ultimately show ?M by blast
  next
    assume ?M
    then obtain ms ws where M: "hops + 1 < pe_slots E" "ns = ms @ [me]" "pid = padded E (me # ms @ [me])" "length ms = hops" "distinct (me # ms)"
      "key_walk (links g) me ms ws" "stays_above lt ?V (vf_initial ?V) 0 ws"
      "\<exists>w. links g (last ms, me) = Some w \<and> up w \<noteq> Some False" by blast
    let ?x = "(ms, padded E (me # ms), cost_along (vf_cost ?V) (vf_initial ?V) 0 ws)"
    have "?x \<in> set rs" unfolding mem ends_in_neighbors [OF ok i(2)] using M by auto
    moreover from cl [OF this] M have "close_loop E me ?x = Some (ns, pid)" by simp
    ultimately show "(ns, pid) \<in> set ?ls" by (auto simp: map_filter_set)
  qed
  ultimately show ?thesis using res True by blast
next
  case False
  then have "simple_loopback_to_self E up lt LF me g hops None = Some []" by (auto simp: simple_loopback_to_self_def)
  with False show ?thesis by auto
qed

section \<open>Properties\<close>

text \<open>
  C12. Path selection by keys is exact. In a well-formed graph, between two of its nodes and for
  a positive length, the search returns exactly the sequences of distinct intermediate nodes
  that connect them in that many edges and along which the value never drops below the
  minimum, each once, with its value and with the identifier that has the slots of all its
  nodes and zero after them; a bound on their number takes as many of them.
\<close>

theorem graph_paths_exact:
  assumes ok: "graph_ok (pe_bytes E) g" and "a \<in> keys g" "b \<in> keys g" and "0 < len"
    and sh: "\<And>k es. mset (pe_shuffle E k es) = mset es"
  shows "\<exists>rs. simple_paths E g a b len None lt V = Some rs \<and> distinct (map fst rs) \<and>
    (\<forall>t. simple_paths E g a b len (Some t) lt V = Some (take t rs)) \<and>
    (\<forall>ns pid c. (ns, pid, c) \<in> set rs \<longleftrightarrow> len < pe_slots E \<and> length ns = len - 1 \<and> distinct (a # ns @ [b]) \<and>
       pid = padded E (a # ns @ [b]) \<and>
       (\<exists>ws. key_walk (links g) a (ns @ [b]) ws \<and> stays_above lt V (vf_initial V) 0 ws \<and> c = cost_along (vf_cost V) (vf_initial V) 0 ws))"
proof -
  obtain i j where i: "by_left (ig_indices g) a = Some i" "(a, i) \<in> set (ig_indices g)"
    and j: "by_left (ig_indices g) b = Some j" "(b, j) \<in> set (ig_indices g)"
    using assms(2,3) by (meson by_left_keys [OF ok])
  let ?f = "\<lambda>(nodes, path_id, cost). (butlast nodes, path_id, cost)"
  from find_paths_set [OF ok i(2) \<open>0 < len\<close> sh, of "[j]" lt V] obtain rs
    where rs: "find_paths E g i [j] len None lt V = Some rs" "\<forall>t. find_paths E g i [j] len (Some t) lt V = Some (take t rs)"
        "distinct (map fst rs)"
      and mem: "\<And>ns pid c. (ns, pid, c) \<in> set rs \<longleftrightarrow> len < pe_slots E \<and> length ns = len \<and> distinct (a # ns) \<and>
       ends_in g [j] (last ns) \<and> pid = padded E (a # ns) \<and>
       (\<exists>ws. key_walk (links g) a ns ws \<and> stays_above lt V (vf_initial V) 0 ws \<and> c = cost_along (vf_cost V) (vf_initial V) 0 ws)"
    by blast
  have nodes: "ns = butlast ns @ [b]" if "(ns, pid, c) \<in> set rs" for ns pid c
  proof -
    from that have "last ns = b" "length ns = len" unfolding mem ends_in_single [OF ok j(2)] by simp_all
    with \<open>0 < len\<close> show ?thesis by (metis append_butlast_last_id length_greater_0_conv)
  qed
  have "simple_paths E g a b len None lt V = Some (map ?f rs)" "\<forall>t. simple_paths E g a b len (Some t) lt V = Some (take t (map ?f rs))"
    using \<open>0 < len\<close> rs i(1) j(1) by (simp_all add: simple_paths_def take_map)
  moreover have "distinct (map fst (map ?f rs))"
  proof -
    have "map fst (map ?f rs) = map butlast (map fst rs)" by (simp add: case_prod_unfold)
    moreover have "inj_on butlast (set (map fst rs))"
    proof (rule inj_onI)
      fix x y assume "x \<in> set (map fst rs)" "y \<in> set (map fst rs)" "butlast x = butlast y"
      moreover from this(1,2) have "x = butlast x @ [b]" "y = butlast y @ [b]" using nodes by (auto simp del: append_butlast_last_id)
      ultimately show "x = y" by simp
    qed
    ultimately show ?thesis using rs(3) distinct_map [of butlast "map fst rs"] by metis
  qed
  moreover have "(ns, pid, c) \<in> set (map ?f rs) \<longleftrightarrow> (ns @ [b], pid, c) \<in> set rs" for ns pid c
  proof
    assume "(ns, pid, c) \<in> set (map ?f rs)"
    then obtain ms where m: "(ms, pid, c) \<in> set rs" "ns = butlast ms" by auto
    with nodes [OF m(1)] show "(ns @ [b], pid, c) \<in> set rs" by simp
  qed force
  moreover have "(ns @ [b], pid, c) \<in> set rs \<longleftrightarrow> len < pe_slots E \<and> length ns = len - 1 \<and> distinct (a # ns @ [b]) \<and>
       pid = padded E (a # ns @ [b]) \<and>
       (\<exists>ws. key_walk (links g) a (ns @ [b]) ws \<and> stays_above lt V (vf_initial V) 0 ws \<and> c = cost_along (vf_cost V) (vf_initial V) 0 ws)" for ns pid c
    unfolding mem ends_in_single [OF ok j(2)] using \<open>0 < len\<close> by auto
  ultimately show ?thesis by (intro exI [of _ "map ?f rs"]) simp
qed

definition sample_paths :: "(nat, nat) path_env" where
  "sample_paths = \<lparr>pe_bytes = ge_bytes sample_env, pe_slots = 5, pe_max_hops = 3, pe_shuffle = (\<lambda>_. rev)\<rparr>"

definition sample_graph :: "(nat, nat) inner_graph" where
  "sample_graph = graph_run sample_env
     [UpsertEdge 3 5 ((+) 2), UpsertEdge 5 6 ((+) 4), UpsertEdge 6 3 ((+) 1), UpsertEdge 3 6 ((+) 9)]
     (inner_new (ge_bytes sample_env) 3)"

lemma sample_graph_ok: "graph_ok (pe_bytes sample_paths) sample_graph"
  unfolding sample_graph_def sample_paths_def by (simp add: new_run)

lemma sample_graph_spec:
  "keys sample_graph = {3, 5, 6}"
  "links sample_graph = [(3, 5) \<mapsto> 2, (5, 6) \<mapsto> 4, (6, 3) \<mapsto> 1, (3, 6) \<mapsto> 9]"
proof -
  have "fold (spec_exec sample_env) [UpsertEdge 3 5 ((+) 2), UpsertEdge 5 6 ((+) 4), UpsertEdge 6 3 ((+) 1), UpsertEdge 3 6 ((+) 9)] ({3}, \<lambda>_. None) =
      ({3, 5, 6}, [(3, 5) \<mapsto> 2, (5, 6) \<mapsto> 4, (6, 3) \<mapsto> 1, (3, 6) \<mapsto> 9])"
    by (simp add: unwrap_or_def sample_env_def insert_commute)
  from trans [OF this [symmetric] new_run(2)] show "keys sample_graph = {3, 5, 6}"
    "links sample_graph = [(3, 5) \<mapsto> 2, (5, 6) \<mapsto> 4, (6, 3) \<mapsto> 1, (3, 6) \<mapsto> 9]"
    unfolding sample_graph_def by (simp_all only: prod.inject)
qed

theorem graph_paths_exact_witness:
  "\<exists>rs. simple_paths sample_paths sample_graph 3 6 2 None (<) \<lparr>vf_initial = 0, vf_min = None, vf_cost = (\<lambda>c w i. c + w)\<rparr> = Some rs \<and>
     ([5], padded sample_paths [3, 5, 6], 6) \<in> set rs"
proof -
  let ?V = "\<lparr>vf_initial = 0, vf_min = None, vf_cost = (\<lambda>c w i. c + w)\<rparr> :: (nat, nat) value_fn"
  have "3 \<in> keys sample_graph" "6 \<in> keys sample_graph" by (simp_all add: sample_graph_spec)
  from graph_paths_exact [OF sample_graph_ok this, of 2 "(<)" ?V]
  obtain rs where "simple_paths sample_paths sample_graph 3 6 2 None (<) ?V = Some rs"
    and m: "\<And>ns pid c. (ns, pid, c) \<in> set rs \<longleftrightarrow> 2 < pe_slots sample_paths \<and> length ns = 2 - 1 \<and> distinct (3 # ns @ [6]) \<and>
       pid = padded sample_paths (3 # ns @ [6]) \<and>
       (\<exists>ws. key_walk (links sample_graph) 3 (ns @ [6]) ws \<and> stays_above (<) ?V 0 0 ws \<and> c = cost_along (\<lambda>c w i. c + w) 0 0 ws)"
    by (auto simp: sample_paths_def)
  moreover have "([5], padded sample_paths [3, 5, 6], 6) \<in> set rs"
    unfolding m by (simp add: sample_graph_spec sample_paths_def)
  ultimately show ?thesis by blast
qed

end
