(* ===== verification/Edge_Weight.thy ===== *)
theory Edge_Weight
  imports Hopr_Base
begin

text \<open>
  The observations of an edge (\<open>graph/src/weight.rs\<close>). A double is a value of type \<open>'f\<close> whose
  arithmetic is the record \<open>floats\<close>; the exponential moving average and the windowed ratio
  are types of \<open>hopr_utils\<close> and are given by their operations as well. A duration and an
  instant are numbers of nanoseconds, and the two clocks read at a call are its argument.
\<close>

section \<open>Numbers and statistics\<close>

record ('f, 'e, 'r) floats =
  fl_lit :: "nat \<Rightarrow> nat \<Rightarrow> 'f"
  fl_of_u64 :: "u64 \<Rightarrow> 'f"
  fl_add :: "'f \<Rightarrow> 'f \<Rightarrow> 'f"
  fl_mul :: "'f \<Rightarrow> 'f \<Rightarrow> 'f"
  fl_div :: "'f \<Rightarrow> 'f \<Rightarrow> 'f"
  fl_min :: "'f \<Rightarrow> 'f \<Rightarrow> 'f"
  fl_max :: "'f \<Rightarrow> 'f \<Rightarrow> 'f"
  fl_less :: "'f \<Rightarrow> 'f \<Rightarrow> bool"
  fl_ge :: "'f \<Rightarrow> 'f \<Rightarrow> bool"
  fl_powf :: "'f \<Rightarrow> 'f \<Rightarrow> 'f"
  fl_clamp :: "'f \<Rightarrow> 'f \<Rightarrow> 'f \<Rightarrow> 'f"
  as_secs_f64 :: "nat \<Rightarrow> 'f"
  from_secs_f64 :: "'f \<Rightarrow> nat"
  ema_new :: "nat \<Rightarrow> 'e"
  ema_update :: "'f \<Rightarrow> 'e \<Rightarrow> 'e"
  ema_get :: "'e \<Rightarrow> 'f"
  wr_new :: "nat \<Rightarrow> nat \<Rightarrow> nat \<Rightarrow> 'r"
  wr_expected :: "u64 \<Rightarrow> nat \<Rightarrow> 'r \<Rightarrow> 'r"
  wr_observed :: "u64 \<Rightarrow> nat \<Rightarrow> 'r \<Rightarrow> 'r"
  wr_value :: "'r \<Rightarrow> nat \<Rightarrow> 'f option"
  wr_recent_value :: "'r \<Rightarrow> nat \<Rightarrow> nat \<Rightarrow> 'f option"
  wr_window :: "'r \<Rightarrow> nat"

abbreviation fl_zero :: "('f, 'e, 'r) floats \<Rightarrow> 'f" where "fl_zero F \<equiv> fl_lit F 0 1"
abbreviation fl_one :: "('f, 'e, 'r) floats \<Rightarrow> 'f" where "fl_one F \<equiv> fl_lit F 1 1"

text \<open>The time of day and the monotonic clock, in nanoseconds.\<close>

record clocks =
  ck_wall :: nat
  ck_instant :: nat

definition as_millis :: "nat \<Rightarrow> nat" where
  "as_millis d = d div 1000000"

section \<open>Probes of a link\<close>

record 'e link =
  lk_latency :: "'e option"
  lk_rate :: 'e
  lk_samples :: u64

definition link_default :: "('f, 'e, 'r) floats \<Rightarrow> 'e link" where
  "link_default F = \<lparr>lk_latency = None, lk_rate = ema_new F 5, lk_samples = 0\<rparr>"

type_synonym measurement = "unit + nat"

definition link_record :: "('f, 'e, 'r) floats \<Rightarrow> measurement \<Rightarrow> 'e link \<Rightarrow> 'e link" where
  "link_record F m l =
     (let l = l\<lparr>lk_samples := sat_add (lk_samples l) 1\<rparr>
      in (case m of
            Inr latency \<Rightarrow>
              l\<lparr>lk_latency := Some (ema_update F (fl_mul F (as_secs_f64 F latency) (fl_lit F 1000 1))
                   (unwrap_or (ema_new F 3) (lk_latency l))),
                lk_rate := ema_update F (fl_one F) (lk_rate l)\<rparr>
          | Inl () \<Rightarrow> l\<lparr>lk_rate := ema_update F (fl_zero F) (lk_rate l)\<rparr>))"

definition link_latency :: "('f, 'e, 'r) floats \<Rightarrow> 'e link \<Rightarrow> nat option" where
  "link_latency F l =
     map_option (\<lambda>avg. from_secs_f64 F (fl_div F (fl_max F (ema_get F avg) (fl_zero F)) (fl_lit F 1000 1))) (lk_latency l)"

definition link_probe_rate :: "('f, 'e, 'r) floats \<Rightarrow> 'e link \<Rightarrow> 'f option" where
  "link_probe_rate F l = (if 0 < lk_samples l then Some (ema_get F (lk_rate l)) else None)"

definition latency_score :: "('f, 'e, 'r) floats \<Rightarrow> nat \<Rightarrow> 'f" where
  "latency_score F latency =
     (let ms = as_millis latency
      in if ms \<le> 75 then fl_one F else if ms \<le> 125 then fl_lit F 7 10
         else if ms \<le> 200 then fl_lit F 3 10 else fl_lit F 15 100)"

definition no_latency_floor :: "('f, 'e, 'r) floats \<Rightarrow> 'f" where
  "no_latency_floor F = fl_lit F 5 100"

definition link_score :: "('f, 'e, 'r) floats \<Rightarrow> 'e link \<Rightarrow> 'f option" where
  "link_score F l =
     map_option (\<lambda>rate. fl_mul F rate (case link_latency F l of None \<Rightarrow> no_latency_floor F | Some d \<Rightarrow> latency_score F d))
       (link_probe_rate F l)"

section \<open>The two streams of an edge\<close>

record ('f, 'e) immediates =
  im_link :: "'e link"
  im_connected :: "bool option"
  im_sent :: 'f
  im_acks :: 'f

definition immediates_default :: "('f, 'e, 'r) floats \<Rightarrow> ('f, 'e) immediates" where
  "immediates_default F = \<lparr>im_link = link_default F, im_connected = None, im_sent = fl_zero F, im_acks = fl_zero F\<rparr>"

definition ack_decay :: "('f, 'e, 'r) floats \<Rightarrow> 'f" where "ack_decay F = fl_lit F 9 10"
definition min_ack_sample_volume :: "('f, 'e, 'r) floats \<Rightarrow> 'f" where "min_ack_sample_volume F = fl_one F"

definition ack_rate :: "('f, 'e, 'r) floats \<Rightarrow> ('f, 'e) immediates \<Rightarrow> 'f option" where
  "ack_rate F i = (if fl_ge F (im_sent i) (min_ack_sample_volume F)
     then Some (fl_clamp F (fl_div F (im_acks i) (im_sent i)) (fl_zero F) (fl_one F)) else None)"

definition surb_bucket_width :: nat where "surb_bucket_width = 2 * 10 ^ 9"
definition surb_buckets :: nat where "surb_buckets = 12"
definition surb_window :: nat where "surb_window = surb_bucket_width div 10 ^ 9 * surb_buckets * 10 ^ 9"
definition surb_recent_slices :: nat where "surb_recent_slices = 2"
definition surb_trend_floor :: "('f, 'e, 'r) floats \<Rightarrow> 'f" where "surb_trend_floor F = fl_lit F 5 10"

text \<open>A peak is its value with the instant it was set.\<close>

record ('f, 'e, 'r, 'b) intermediates =
  it_link :: "'e link"
  it_balance :: "'b option"
  it_surb :: 'r
  it_peak :: "('f \<times> nat) option"

definition intermediates_default :: "('f, 'e, 'r) floats \<Rightarrow> nat \<Rightarrow> ('f, 'e, 'r, 'b) intermediates" where
  "intermediates_default F now = \<lparr>it_link = link_default F, it_balance = None,
     it_surb = wr_new F surb_buckets surb_bucket_width now, it_peak = None\<rparr>"

definition peak_at :: "('f, 'e, 'r) floats \<Rightarrow> ('f, 'e, 'r, 'b) intermediates \<Rightarrow> nat \<Rightarrow> 'f option" where
  "peak_at F t now =
     map_option (\<lambda>(peak, at). fl_mul F peak (fl_powf F (fl_lit F 5 10)
       (fl_div F (as_secs_f64 F (now - at)) (as_secs_f64 F (wr_window F (it_surb t)))))) (it_peak t)"

definition record_surb_round_trips_at :: "('f, 'e, 'r) floats \<Rightarrow> u64 \<Rightarrow> u64 \<Rightarrow> nat
    \<Rightarrow> ('f, 'e, 'r, 'b) intermediates \<Rightarrow> ('f, 'e, 'r, 'b) intermediates" where
  "record_surb_round_trips_at F expected observed now t =
     (let t = t\<lparr>it_surb := wr_observed F observed now (wr_expected F expected now (it_surb t))\<rparr>
      in (case wr_value F (it_surb t) now of
            Some v \<Rightarrow> t\<lparr>it_peak := Some (fl_max F (unwrap_or (fl_zero F) (peak_at F t now)) v, now)\<rparr>
          | None \<Rightarrow> t))"

definition surb_trend_at :: "('f, 'e, 'r) floats \<Rightarrow> ('f, 'e, 'r, 'b) intermediates \<Rightarrow> nat \<Rightarrow> 'f option" where
  "surb_trend_at F t now =
     Option.bind (wr_value F (it_surb t) now) (\<lambda>whole.
       Option.bind (wr_recent_value F (it_surb t) surb_recent_slices now) (\<lambda>recent.
         if fl_less F (fl_zero F) whole then Some (fl_clamp F (fl_div F recent whole) (fl_zero F) (fl_one F)) else None))"

definition surb_delivery_rate_at :: "('f, 'e, 'r) floats \<Rightarrow> ('f, 'e, 'r, 'b) intermediates \<Rightarrow> nat \<Rightarrow> 'f option" where
  "surb_delivery_rate_at F t now =
     Option.bind (wr_value F (it_surb t) now) (\<lambda>v.
       Option.bind (peak_at F t now) (\<lambda>peak.
         if fl_less F (fl_zero F) peak
         then (let against_peak = fl_clamp F (fl_div F v peak) (fl_zero F) (fl_one F)
               in (case surb_trend_at F t now of
                     Some trend \<Rightarrow> Some (if fl_less F trend (surb_trend_floor F) then fl_mul F against_peak trend else against_peak)
                   | None \<Rightarrow> Some against_peak))
         else None))"

text \<open>The worse of the two delivery signals, over whichever of them carry evidence.\<close>

definition intermediate_probe_rate :: "('f, 'e, 'r) floats \<Rightarrow> nat \<Rightarrow> ('f, 'e, 'r, 'b) intermediates \<Rightarrow> 'f option" where
  "intermediate_probe_rate F now t =
     (case (surb_delivery_rate_at F t now, link_probe_rate F (it_link t)) of
        (Some surb, Some probe) \<Rightarrow> Some (fl_min F surb probe)
      | (Some surb, None) \<Rightarrow> Some surb
      | (None, probe) \<Rightarrow> probe)"

definition intermediate_score :: "('f, 'e, 'r) floats \<Rightarrow> nat \<Rightarrow> ('f, 'e, 'r, 'b) intermediates \<Rightarrow> 'f option" where
  "intermediate_score F now t =
     map_option (\<lambda>rate. case link_latency F (it_link t) of None \<Rightarrow> rate | Some d \<Rightarrow> fl_mul F rate (latency_score F d))
       (intermediate_probe_rate F now t)"

section \<open>Observations\<close>

record ('f, 'e, 'r, 'b) observations =
  ob_last_update :: nat
  ob_immediate :: "('f, 'e) immediates option"
  ob_intermediate :: "('f, 'e, 'r, 'b) intermediates option"
  ob_health :: "'f option"

definition observations_default :: "('f, 'e, 'r, 'b) observations" where
  "observations_default = \<lparr>ob_last_update = 0, ob_immediate = None, ob_intermediate = None, ob_health = None\<rparr>"

definition set_health :: "'f option \<Rightarrow> ('f, 'e, 'r, 'b) observations \<Rightarrow> ('f, 'e, 'r, 'b) observations" where
  "set_health h ob = ob\<lparr>ob_health := h\<rparr>"

definition edge_connected :: "('f, 'e, 'r, 'b) observations \<Rightarrow> bool option" where
  "edge_connected ob = Option.bind (ob_immediate ob) im_connected"

text \<open>A health of \<open>1.0\<close> or more clears the judgement.\<close>

definition judged_health :: "('f, 'e, 'r) floats \<Rightarrow> 'f \<Rightarrow> 'f option" where
  "judged_health F health = (if fl_less F health (fl_one F) then Some (fl_max F health (fl_zero F)) else None)"

datatype 'b edge_weight_type =
    Immediate measurement
  | Intermediate measurement
  | Balance "'b option"
  | Connected bool
  | SurbRoundTrips u64 u64
  | ImmediateProtocolConformance u64 u64

definition observe :: "('f, 'e, 'r) floats \<Rightarrow> clocks \<Rightarrow> 'b edge_weight_type
    \<Rightarrow> ('f, 'e, 'r, 'b) observations \<Rightarrow> ('f, 'e, 'r, 'b) observations" where
  "observe F now m ob =
     (let ob = ob\<lparr>ob_last_update := ck_wall now\<rparr>;
          imm = unwrap_or (immediates_default F) (ob_immediate ob);
          mid = unwrap_or (intermediates_default F (ck_instant now)) (ob_intermediate ob)
      in (case m of
            Immediate result \<Rightarrow> ob\<lparr>ob_immediate := Some (imm\<lparr>im_link := link_record F result (im_link imm)\<rparr>)\<rparr>
          | Intermediate result \<Rightarrow> ob\<lparr>ob_intermediate := Some (mid\<lparr>it_link := link_record F result (it_link mid)\<rparr>)\<rparr>
          | Balance b \<Rightarrow> ob\<lparr>ob_intermediate := Some (mid\<lparr>it_balance := b\<rparr>)\<rparr>
          | Connected c \<Rightarrow> ob\<lparr>ob_immediate := Some (imm\<lparr>im_connected := Some c\<rparr>)\<rparr>
          | SurbRoundTrips expected observed \<Rightarrow>
              ob\<lparr>ob_intermediate := Some (record_surb_round_trips_at F expected observed (ck_instant now) mid)\<rparr>
          | ImmediateProtocolConformance num_packets num_acks \<Rightarrow>
              ob\<lparr>ob_immediate := Some (imm\<lparr>
                im_sent := fl_add F (fl_mul F (im_sent imm) (ack_decay F)) (fl_of_u64 F num_packets),
                im_acks := fl_add F (fl_mul F (im_acks imm) (ack_decay F)) (fl_of_u64 F num_acks)\<rparr>)\<rparr>))"

definition observed_score :: "('f, 'e, 'r) floats \<Rightarrow> nat \<Rightarrow> ('f, 'e, 'r, 'b) observations \<Rightarrow> 'f option" where
  "observed_score F now ob =
     (case (Option.bind (ob_immediate ob) (\<lambda>i. link_score F (im_link i)),
            Option.bind (ob_intermediate ob) (intermediate_score F now)) of
        (Some immediate, Some intermediate) \<Rightarrow> Some (fl_div F (fl_add F immediate intermediate) (fl_lit F 2 1))
      | (Some only, None) \<Rightarrow> Some only
      | (None, only) \<Rightarrow> only)"

section \<open>When an edge has a score\<close>

definition observe_all :: "('f, 'e, 'r) floats \<Rightarrow> (clocks \<times> 'b edge_weight_type) list
    \<Rightarrow> ('f, 'e, 'r, 'b) observations \<Rightarrow> ('f, 'e, 'r, 'b) observations" where
  "observe_all F ms ob = fold (\<lambda>(now, m). observe F now m) ms ob"

fun is_immediate :: "'b edge_weight_type \<Rightarrow> bool" where
  "is_immediate (Immediate _) = True"
| "is_immediate _ = False"

fun is_intermediate :: "'b edge_weight_type \<Rightarrow> bool" where
  "is_intermediate (Intermediate _) = True"
| "is_intermediate _ = False"

fun is_surb :: "'b edge_weight_type \<Rightarrow> bool" where
  "is_surb (SurbRoundTrips _ _) = True"
| "is_surb _ = False"

definition probed :: "'e link option \<Rightarrow> bool" where
  "probed l \<longleftrightarrow> (case l of None \<Rightarrow> False | Some l \<Rightarrow> 0 < lk_samples l)"

abbreviation immediate_link :: "('f, 'e, 'r, 'b) observations \<Rightarrow> 'e link option" where
  "immediate_link ob \<equiv> map_option im_link (ob_immediate ob)"

abbreviation intermediate_link :: "('f, 'e, 'r, 'b) observations \<Rightarrow> 'e link option" where
  "intermediate_link ob \<equiv> map_option it_link (ob_intermediate ob)"

definition peak_of :: "('f, 'e, 'r, 'b) observations \<Rightarrow> ('f \<times> nat) option" where
  "peak_of ob = Option.bind (ob_intermediate ob) it_peak"

lemma sat_inc_pos: "0 < sat_add (n :: u64) 1"
  by (simp add: word_less_nat_alt sat_simps)

lemma samples_record [simp]: "0 < lk_samples (link_record F m l)"
  by (cases m) (simp_all add: link_record_def Let_def sat_inc_pos split: unit.splits)

lemma samples_default [simp]: "lk_samples (link_default F) = 0"
  by (simp add: link_default_def)

lemma link_score_None: "link_score F l = None \<longleftrightarrow> \<not> 0 < lk_samples l"
  by (simp add: link_score_def link_probe_rate_def)

lemma surb_link [simp]: "it_link (record_surb_round_trips_at F e ob now t) = it_link t"
  by (simp add: record_surb_round_trips_at_def Let_def split: option.split)

lemma observe_probed:
  "probed (immediate_link (observe F now m ob)) \<longleftrightarrow> is_immediate m \<or> probed (immediate_link ob)"
  "probed (intermediate_link (observe F now m ob)) \<longleftrightarrow> is_intermediate m \<or> probed (intermediate_link ob)"
  by (cases m; cases "ob_immediate ob"; cases "ob_intermediate ob";
      simp add: observe_def Let_def probed_def unwrap_or_def immediates_default_def intermediates_default_def)+

lemma observe_peak: "\<not> is_surb m \<Longrightarrow> peak_of (observe F now m ob) = peak_of ob"
  by (cases m; cases "ob_intermediate ob")
    (simp_all add: observe_def Let_def peak_of_def unwrap_or_def intermediates_default_def)

lemma observe_all_probed:
  "probed (immediate_link (observe_all F ms ob)) \<longleftrightarrow> list_ex (is_immediate \<circ> snd) ms \<or> probed (immediate_link ob)"
  "probed (intermediate_link (observe_all F ms ob)) \<longleftrightarrow> list_ex (is_intermediate \<circ> snd) ms \<or> probed (intermediate_link ob)"
  by (induction ms arbitrary: ob) (auto simp: observe_all_def observe_probed)

lemma observe_all_peak:
  "\<not> list_ex (is_surb \<circ> snd) ms \<Longrightarrow> peak_of (observe_all F ms ob) = peak_of ob"
  by (induction ms arbitrary: ob) (auto simp: observe_all_def observe_peak)

definition delivery_of :: "('f, 'e, 'r) floats \<Rightarrow> nat \<Rightarrow> ('f, 'e, 'r, 'b) observations \<Rightarrow> 'f option" where
  "delivery_of F now ob = Option.bind (ob_intermediate ob) (\<lambda>t. surb_delivery_rate_at F t now)"

lemma delivery_peak: "peak_of ob = None \<Longrightarrow> delivery_of F now ob = None"
  by (cases "ob_intermediate ob")
    (simp_all add: delivery_of_def peak_of_def surb_delivery_rate_at_def peak_at_def split: bind_splits)

lemma intermediate_score_None:
  "intermediate_score F now t = None \<longleftrightarrow> surb_delivery_rate_at F t now = None \<and> \<not> 0 < lk_samples (it_link t)"
  by (auto simp: intermediate_score_def intermediate_probe_rate_def link_probe_rate_def split: option.splits if_splits)

lemma observed_score_None:
  "observed_score F now ob = None \<longleftrightarrow>
     \<not> probed (immediate_link ob) \<and> \<not> probed (intermediate_link ob) \<and> delivery_of F now ob = None"
proof -
  have "observed_score F now ob = None \<longleftrightarrow> Option.bind (ob_immediate ob) (\<lambda>i. link_score F (im_link i)) = None \<and>
      Option.bind (ob_intermediate ob) (intermediate_score F now) = None"
    by (simp add: observed_score_def split: option.split)
  also have "Option.bind (ob_immediate ob) (\<lambda>i. link_score F (im_link i)) = None \<longleftrightarrow> \<not> probed (immediate_link ob)"
    by (cases "ob_immediate ob") (simp_all add: probed_def link_score_None)
  also have "Option.bind (ob_intermediate ob) (intermediate_score F now) = None \<longleftrightarrow>
      \<not> probed (intermediate_link ob) \<and> delivery_of F now ob = None"
    by (cases "ob_intermediate ob") (auto simp: probed_def delivery_of_def intermediate_score_None)
  finally show ?thesis by blast
qed

text \<open>
  An edge has a score exactly when there is evidence for one. Whatever was recorded, in
  whatever order and however often, the score is absent exactly when no probe of either kind
  was recorded and the SURB traffic yields no delivery rate; reports of balance, of
  connectivity and of acknowledgements alone never give a score, and without a SURB report
  there is no delivery rate.
\<close>

theorem score_needs_evidence:
  fixes F :: "('f, 'e, 'r) floats" and ms :: "(clocks \<times> 'b edge_weight_type) list"
  defines "ob \<equiv> observe_all F ms observations_default"
  shows "(observed_score F now ob = None \<longleftrightarrow>
      \<not> list_ex (is_immediate \<circ> snd) ms \<and> \<not> list_ex (is_intermediate \<circ> snd) ms \<and> delivery_of F now ob = None) \<and>
    (\<not> list_ex (is_surb \<circ> snd) ms \<longrightarrow> delivery_of F now ob = None)"
proof -
  let ?ob = "observations_default :: ('f, 'e, 'r, 'b) observations"
  have "\<not> probed (immediate_link ?ob)" "\<not> probed (intermediate_link ?ob)" "peak_of ?ob = None"
    by (simp_all add: observations_default_def probed_def peak_of_def)
  then show ?thesis
    unfolding ob_def observed_score_None observe_all_probed by (simp add: observe_all_peak delivery_peak)
qed

theorem score_needs_evidence_witness:
  "\<forall>(F :: (nat, nat, nat) floats) ck. delivery_of F 9 (observe_all F [(ck, Balance (Some (5 :: nat))), (ck, Intermediate (Inr 3))] observations_default) = None"
proof (intro allI)
  fix F :: "(nat, nat, nat) floats" and ck
  show "delivery_of F 9 (observe_all F [(ck, Balance (Some (5 :: nat))), (ck, Intermediate (Inr 3))] observations_default) = None"
    using score_needs_evidence [of F 9 "[(ck, Balance (Some (5 :: nat))), (ck, Intermediate (Inr 3))]"] by simp
qed

end
