(* ===== verification/Edge_Attribution.thy ===== *)
theory Edge_Attribution
  imports Graph_Paths Edge_Weight
begin

text \<open>
  How measurements reach the edges (\<open>graph/src/petgraph/update.rs\<close>): the path identifier a
  telemetry report carries is resolved to the edges it traversed, and the observation is
  recorded on them. A report that cannot be attributed changes nothing. \<open>tick n\<close> are the clocks
  at the \<open>n\<close>-th reading of a call.
\<close>

section \<open>Bytes of a path identifier\<close>

definition from_le_bytes :: "u8 list \<Rightarrow> u64" where
  "from_le_bytes bs = word_of_nat (foldr (\<lambda>b acc. unat b + 256 * acc) bs 0)"

definition to_le_bytes :: "u64 \<Rightarrow> u8 list" where
  "to_le_bytes w = map (\<lambda>i. word_of_nat (unat w div 256 ^ i)) [0..<8]"

text \<open>\<open>chunks_exact(8)\<close>: a shorter rest is left out.\<close>

fun chunks8 :: "'a list \<Rightarrow> 'a list list" where
  "chunks8 bs = (if length bs < 8 then [] else take 8 bs # chunks8 (drop 8 bs))"

declare chunks8.simps [simp del]

lemma le_digits: "foldr (\<lambda>d acc. d + 256 * acc) (map (\<lambda>i. x div 256 ^ i mod 256) [0..<n]) 0 = x mod 256 ^ n"
  for x :: nat
proof (induction n arbitrary: x)
  case (Suc n)
  have "[0..<Suc n] = 0 # map Suc [0..<n]" by (simp add: map_Suc_upt upt_conv_Cons del: upt_Suc)
  then have "foldr (\<lambda>d acc. d + 256 * acc) (map (\<lambda>i. x div 256 ^ i mod 256) [0..<Suc n]) 0 =
      x mod 256 + 256 * foldr (\<lambda>d acc. d + 256 * acc) (map (\<lambda>i. (x div 256) div 256 ^ i mod 256) [0..<n]) 0"
    by (simp add: comp_def div_mult2_eq)
  also have "\<dots> = x mod 256 ^ Suc n" unfolding Suc.IH by (simp add: mod_mult2_eq)
  finally show ?case .
qed simp

lemma from_to_le_bytes [simp]: "from_le_bytes (to_le_bytes w) = w"
proof -
  have "foldr (\<lambda>b acc. unat b + 256 * acc) (to_le_bytes w) 0 = foldr (\<lambda>d acc. d + 256 * acc) (map unat (to_le_bytes w)) 0"
    by (simp add: foldr_map comp_def)
  also have "map unat (to_le_bytes w) = map (\<lambda>i. unat w div 256 ^ i mod 256) [0..<8]"
    by (simp add: to_le_bytes_def unat_of_nat)
  also have "foldr (\<lambda>d acc. d + 256 * acc) \<dots> 0 = unat w mod 256 ^ 8" by (rule le_digits)
  also have "\<dots> = unat w" using unat_less_len [of w] by simp
  finally show ?thesis by (simp add: from_le_bytes_def)
qed

lemma length_to_le_bytes [simp]: "length (to_le_bytes w) = 8"
  by (simp add: to_le_bytes_def)

lemma chunks8_concat: "chunks8 (concat (map to_le_bytes ws)) = map to_le_bytes ws"
  by (induction ws) (simp_all add: chunks8.simps)

section \<open>Resolving a report\<close>

fun position :: "('a \<Rightarrow> bool) \<Rightarrow> 'a list \<Rightarrow> nat option" where
  "position P [] = None"
| "position P (x # xs) = (if P x then Some 0 else map_option Suc (position P xs))"

text \<open>Consecutive slots: both have to resolve and be connected.\<close>

fun pair_edges :: "('k, 'o) inner_graph \<Rightarrow> u64 list \<Rightarrow> (nat \<times> nat) list option" where
  "pair_edges g (a # b # slots) =
     (case (resolve g a, resolve g b) of
        (Some i, Some j) \<Rightarrow>
          (case find_edge g i j of
             Some e \<Rightarrow> map_option ((#) e) (pair_edges g (b # slots))
           | None \<Rightarrow> None)
      | _ \<Rightarrow> None)"
| "pair_edges g _ = Some []"

definition resolve_loopback_edges :: "('k, 'o) path_env \<Rightarrow> ('k, 'o) inner_graph \<Rightarrow> 'k \<Rightarrow> u8 list \<Rightarrow> (nat \<times> nat) list option" where
  "resolve_loopback_edges E g me path_bytes =
     (if length path_bytes \<noteq> 8 * pe_slots E then None
      else (let path_id = map from_le_bytes (chunks8 path_bytes); me_val = encode (pe_bytes E) me
            in (case path_id of
                  [] \<Rightarrow> None
                | first # rest \<Rightarrow>
                    if first \<noteq> me_val then None
                    else (case position (\<lambda>v. v = me_val) rest of
                        None \<Rightarrow> None
                      | Some p \<Rightarrow>
                          (let end_pos = p + 1
                           in if list_ex (\<lambda>slot. slot \<noteq> 0) (drop (end_pos + 1) path_id) then None
                              else (case pair_edges g (take (end_pos + 1) path_id) of
                                  None \<Rightarrow> None
                                | Some edges \<Rightarrow>
                                    if length edges \<noteq> end_pos then None
                                    else if length edges < 2 then None else Some edges))))))"

definition resolve_round_trip_edges :: "('k, 'o) path_env \<Rightarrow> ('k, 'o) inner_graph \<Rightarrow> 'k \<Rightarrow> u64 list \<Rightarrow> u64 list \<Rightarrow> (nat \<times> nat) list option" where
  "resolve_round_trip_edges E g me forward reply =
     (let me_val = encode (pe_bytes E) me; replier = hd reply
      in if hd forward \<noteq> me_val then None
         else (case position (\<lambda>v. v = replier) forward of
             None \<Rightarrow> None
           | Some forward_end \<Rightarrow>
               (case position (\<lambda>v. v = me_val) (tl reply) of
                  None \<Rightarrow> None
                | Some p \<Rightarrow>
                    (case pair_edges g (take (forward_end + 1) forward @ take (p + 1) (tl reply)) of
                       Some edges \<Rightarrow> if edges = [] then None else Some edges
                     | None \<Rightarrow> None))))"

text \<open>A path identifier is an array: neither is ever empty.\<close>

section \<open>The graph with its parameters\<close>

record ('k, 'f, 'e, 'r, 'b) channel_graph =
  cg_me :: 'k
  cg_edge_penalty :: 'f
  cg_min_ack_rate :: 'f
  cg_max_rtt :: nat
  cg_face_value :: "'b option"
  cg_inner :: "('k, ('f, 'e, 'r, 'b) observations) inner_graph"

definition with_edge_params :: "('k \<Rightarrow> u8 list) \<Rightarrow> 'k \<Rightarrow> 'f \<Rightarrow> 'f \<Rightarrow> nat \<Rightarrow> ('k, 'f, 'e, 'r, 'b) channel_graph" where
  "with_edge_params bytes me penalty ack max_rtt =
     \<lparr>cg_me = me, cg_edge_penalty = penalty, cg_min_ack_rate = ack, cg_max_rtt = max_rtt, cg_face_value = None,
      cg_inner = inner_new bytes me\<rparr>"

definition graph_new :: "('f, 'e, 'r) floats \<Rightarrow> ('k \<Rightarrow> u8 list) \<Rightarrow> 'k \<Rightarrow> ('k, 'f, 'e, 'r, 'b) channel_graph" where
  "graph_new F bytes me = with_edge_params bytes me (fl_lit F 5 10) (fl_lit F 1 10) (30 * 10 ^ 9)"

definition set_ticket_face_value :: "'b \<Rightarrow> ('k, 'f, 'e, 'r, 'b) channel_graph \<Rightarrow> ('k, 'f, 'e, 'r, 'b) channel_graph" where
  "set_ticket_face_value v G = G\<lparr>cg_face_value := Some v\<rparr>"

definition record_nodes_health :: "('f, 'e, 'r) floats \<Rightarrow> ('k \<times> 'f) list
    \<Rightarrow> ('k, 'f, 'e, 'r, 'b) channel_graph \<Rightarrow> ('k, 'f, 'e, 'r, 'b) channel_graph" where
  "record_nodes_health F healths G = G\<lparr>cg_inner := fold (\<lambda>(node, health) g.
     case by_left (ig_indices g) node of
       Some idx \<Rightarrow> set_node_health (judged_health F) set_health idx health g
     | None \<Rightarrow> g) healths (cg_inner G)\<rparr>"

definition record_node :: "('k \<Rightarrow> u8 list) \<Rightarrow> 'k \<Rightarrow> ('k, 'f, 'e, 'r, 'b) channel_graph \<Rightarrow> ('k, 'f, 'e, 'r, 'b) channel_graph" where
  "record_node bytes k G = G\<lparr>cg_inner := add_node bytes k (cg_inner G)\<rparr>"

section \<open>Recording an edge measurement\<close>

datatype ('k, 'b) measurable_edge =
    Surb (me_expected: u64) (me_observed: u64) (me_timestamp: nat) (me_forward: "u64 list") (me_reply: "u64 list")
  | ProbeNeighbor 'k nat
  | ProbeLoopback "u8 list" nat
  | ProbeNeighborTimeout 'k
  | ProbeLoopbackTimeout "u8 list"
  | BalanceUpdate 'k 'k "'b option"
  | ConnectionStatus 'k bool

definition latency_of :: "('f, 'e, 'r) floats \<Rightarrow> ('f, 'e, 'r, 'b) observations \<Rightarrow> nat option" where
  "latency_of F w =
     (case Option.bind (ob_intermediate w) (\<lambda>q. link_latency F (it_link q)) of
        Some d \<Rightarrow> Some d
      | None \<Rightarrow> Option.bind (ob_immediate w) (\<lambda>q. link_latency F (im_link q)))"

definition known_latency :: "('f, 'e, 'r) floats \<Rightarrow> ('k, ('f, 'e, 'r, 'b) observations) inner_graph \<Rightarrow> (nat \<times> nat) list \<Rightarrow> nat \<Rightarrow> nat" where
  "known_latency F g edges target =
     sum_list (map (\<lambda>i. if i = target then 0
       else unwrap_or 0 (Option.bind (edge_weight g (edges ! i)) (latency_of F))) [0..<length edges])"

text \<open>What is left of the round trip for the target, or what it carries already, or nothing.\<close>

definition attributed_duration :: "('f, 'e, 'r) floats \<Rightarrow> ('k, ('f, 'e, 'r, 'b) observations) inner_graph
    \<Rightarrow> (nat \<times> nat) list \<Rightarrow> nat \<Rightarrow> nat \<Rightarrow> nat option" where
  "attributed_duration F g edges target total_rtt =
     (let known = known_latency F g edges target
      in if known \<le> total_rtt then Some (total_rtt - known)
         else Option.bind (edge_weight g (edges ! target)) (\<lambda>w. Option.bind (ob_intermediate w) (\<lambda>q. link_latency F (it_link q))))"

definition observe_both :: "('k \<Rightarrow> u8 list) \<Rightarrow> ('f, 'e, 'r) floats \<Rightarrow> (nat \<Rightarrow> clocks) \<Rightarrow> 'k \<Rightarrow> 'k \<Rightarrow> 'b edge_weight_type list
    \<Rightarrow> ('k, ('f, 'e, 'r, 'b) observations) inner_graph \<Rightarrow> ('k, ('f, 'e, 'r, 'b) observations) inner_graph" where
  "observe_both bytes F tick me peer ms g =
     (let n = length ms
      in upsert_edge bytes observations_default peer me (observe_all F (zip (map tick [n..<2 * n]) ms))
           (upsert_edge bytes observations_default me peer (observe_all F (zip (map tick [0..<n]) ms)) g))"

definition record_surb :: "('k, ('f, 'e, 'r, 'b) observations) path_env \<Rightarrow> ('f, 'e, 'r) floats \<Rightarrow> (nat \<Rightarrow> clocks) \<Rightarrow> nat
    \<Rightarrow> u64 \<Rightarrow> u64 \<Rightarrow> nat \<Rightarrow> u64 list \<Rightarrow> u64 list \<Rightarrow> ('k, 'f, 'e, 'r, 'b) channel_graph \<Rightarrow> ('k, 'f, 'e, 'r, 'b) channel_graph" where
  "record_surb E F tick now_ms expected observed timestamp forward reply G =
     (let g = cg_inner G; me = cg_me G
      in (if now_ms < timestamp \<or> as_millis surb_window < now_ms - timestamp then G
        else if by_left (ig_indices g) me = None then G
        else (case resolve_round_trip_edges E g me forward reply of
            None \<Rightarrow> G
          | Some edges \<Rightarrow>
              G\<lparr>cg_inner := fold (\<lambda>(t, e). change_edge e (observe F t (SurbRoundTrips expected observed)))
                   (zip (map tick [1..<length edges + 1]) edges) g\<rparr>)))"

definition record_loopback :: "('k, ('f, 'e, 'r, 'b) observations) path_env \<Rightarrow> ('f, 'e, 'r) floats \<Rightarrow> (nat \<Rightarrow> clocks) \<Rightarrow> nat
    \<Rightarrow> u8 list \<Rightarrow> nat \<Rightarrow> ('k, 'f, 'e, 'r, 'b) channel_graph \<Rightarrow> ('k, 'f, 'e, 'r, 'b) channel_graph" where
  "record_loopback E F tick now_ms path timestamp G =
     (let g = cg_inner G; me = cg_me G
      in (if by_left (ig_indices g) me = None then G
        else (case resolve_loopback_edges E g me path of
            None \<Rightarrow> G
          | Some edges \<Rightarrow>
              (let target = length edges - 2;
                   total_rtt = ((now_ms - timestamp) mod 2 ^ 64) * 1000000
               in if now_ms < timestamp \<or> cg_max_rtt G < total_rtt then G
                  else (case attributed_duration F g edges target total_rtt of
                      None \<Rightarrow> G
                    | Some d \<Rightarrow> G\<lparr>cg_inner := change_edge (edges ! target) (observe F (tick 1) (Intermediate (Inr d))) g\<rparr>)))))"

definition record_loopback_timeout :: "('k, ('f, 'e, 'r, 'b) observations) path_env \<Rightarrow> ('f, 'e, 'r) floats \<Rightarrow> (nat \<Rightarrow> clocks)
    \<Rightarrow> u8 list \<Rightarrow> ('k, 'f, 'e, 'r, 'b) channel_graph \<Rightarrow> ('k, 'f, 'e, 'r, 'b) channel_graph" where
  "record_loopback_timeout E F tick path G =
     (let g = cg_inner G; me = cg_me G
      in (if by_left (ig_indices g) me = None then G
        else (case resolve_loopback_edges E g me path of
            None \<Rightarrow> G
          | Some edges \<Rightarrow>
              G\<lparr>cg_inner := change_edge (edges ! (length edges - 2)) (observe F (tick 0) (Intermediate (Inl ()))) g\<rparr>)))"

definition record_neighbor :: "('k \<Rightarrow> u8 list) \<Rightarrow> ('f, 'e, 'r) floats \<Rightarrow> (nat \<Rightarrow> clocks) \<Rightarrow> 'k \<Rightarrow> nat
    \<Rightarrow> ('k, 'f, 'e, 'r, 'b) channel_graph \<Rightarrow> ('k, 'f, 'e, 'r, 'b) channel_graph" where
  "record_neighbor bytes F tick peer rtt G =
     G\<lparr>cg_inner := observe_both bytes F tick (cg_me G) peer [Connected True, Immediate (Inr (rtt div 2))] (cg_inner G)\<rparr>"

definition record_neighbor_timeout :: "('k \<Rightarrow> u8 list) \<Rightarrow> ('f, 'e, 'r) floats \<Rightarrow> (nat \<Rightarrow> clocks) \<Rightarrow> 'k
    \<Rightarrow> ('k, 'f, 'e, 'r, 'b) channel_graph \<Rightarrow> ('k, 'f, 'e, 'r, 'b) channel_graph" where
  "record_neighbor_timeout bytes F tick peer G =
     G\<lparr>cg_inner := observe_both bytes F tick (cg_me G) peer [Immediate (Inl ())] (cg_inner G)\<rparr>"

definition record_balance :: "('k \<Rightarrow> u8 list) \<Rightarrow> ('f, 'e, 'r) floats \<Rightarrow> (nat \<Rightarrow> clocks) \<Rightarrow> 'k \<Rightarrow> 'k \<Rightarrow> 'b option
    \<Rightarrow> ('k, 'f, 'e, 'r, 'b) channel_graph \<Rightarrow> ('k, 'f, 'e, 'r, 'b) channel_graph" where
  "record_balance bytes F tick src dest balance G =
     G\<lparr>cg_inner := upsert_edge bytes observations_default src dest (observe F (tick 0) (Balance balance)) (cg_inner G)\<rparr>"

definition record_connection :: "('k \<Rightarrow> u8 list) \<Rightarrow> ('f, 'e, 'r) floats \<Rightarrow> (nat \<Rightarrow> clocks) \<Rightarrow> 'k \<Rightarrow> bool
    \<Rightarrow> ('k, 'f, 'e, 'r, 'b) channel_graph \<Rightarrow> ('k, 'f, 'e, 'r, 'b) channel_graph" where
  "record_connection bytes F tick peer connected G =
     G\<lparr>cg_inner := observe_both bytes F tick (cg_me G) peer [Connected connected] (cg_inner G)\<rparr>"

definition record_edge :: "('k, ('f, 'e, 'r, 'b) observations) path_env \<Rightarrow> ('f, 'e, 'r) floats \<Rightarrow> (nat \<Rightarrow> clocks)
    \<Rightarrow> ('k, 'b) measurable_edge \<Rightarrow> ('k, 'f, 'e, 'r, 'b) channel_graph \<Rightarrow> ('k, 'f, 'e, 'r, 'b) channel_graph" where
  "record_edge E F tick update G =
     (let bytes = pe_bytes E; now_ms = as_millis (ck_wall (tick 0))
      in (case update of
            Surb expected observed timestamp forward reply \<Rightarrow> record_surb E F tick now_ms expected observed timestamp forward reply G
          | ProbeNeighbor peer rtt \<Rightarrow> record_neighbor bytes F tick peer rtt G
          | ProbeLoopback path timestamp \<Rightarrow> record_loopback E F tick now_ms path timestamp G
          | ProbeNeighborTimeout peer \<Rightarrow> record_neighbor_timeout bytes F tick peer G
          | ProbeLoopbackTimeout path \<Rightarrow> record_loopback_timeout E F tick path G
          | BalanceUpdate src dest balance \<Rightarrow> record_balance bytes F tick src dest balance G
          | ConnectionStatus peer connected \<Rightarrow> record_connection bytes F tick peer connected G))"

section \<open>Resolution by keys\<close>

fun linked :: "('k \<times> 'k \<Rightarrow> 'o option) \<Rightarrow> 'k list \<Rightarrow> bool" where
  "linked L (a # b # ks) \<longleftrightarrow> L (a, b) \<noteq> None \<and> linked L (b # ks)"
| "linked L _ \<longleftrightarrow> True"

definition edge_id :: "('k, 'o) inner_graph \<Rightarrow> 'k \<Rightarrow> 'k \<Rightarrow> nat \<times> nat" where
  "edge_id g a b = (the (by_left (ig_indices g) a), the (by_left (ig_indices g) b))"

fun edge_ids :: "('k, 'o) inner_graph \<Rightarrow> 'k list \<Rightarrow> (nat \<times> nat) list" where
  "edge_ids g (a # b # ks) = edge_id g a b # edge_ids g (b # ks)"
| "edge_ids g _ = []"

lemma position_at: "v \<notin> set xs \<Longrightarrow> position (\<lambda>x. x = v) (xs @ v # ys) = Some (length xs)"
  by (induction xs) auto

lemma length_edge_ids [simp]: "length (edge_ids g ks) = length ks - 1"
  by (induction g ks rule: edge_ids.induct) auto

lemma edge_ids_snoc: "edge_ids g (ks @ [a, b]) = edge_ids g (ks @ [a]) @ [edge_id g a b]"
  by (induction g ks rule: edge_ids.induct) auto

lemma resolve_key:
  assumes ok: "graph_ok bytes g" and inj: "inj_on (encode bytes) (insert a (keys g))"
  shows "resolve g (encode bytes a) = by_left (ig_indices g) a"
proof -
  have "resolve g (encode bytes a) = Some i \<longleftrightarrow> by_left (ig_indices g) a = Some i" for i
  proof -
    have u: "k = a" if "k \<in> keys g" "encode bytes k = encode bytes a" for k
      using inj_onD [OF inj, of k a] that by blast
    have "resolve g (encode bytes a) = Some i \<longleftrightarrow> (a, i) \<in> set (ig_indices g)"
    proof
      assume "resolve g (encode bytes a) = Some i"
      then obtain k where k: "(k, i) \<in> set (ig_indices g)" "encode bytes k = encode bytes a" by (auto simp: resolve_iff [OF ok])
      with u [of k] pair_mem(1) [OF k(1)] show "(a, i) \<in> set (ig_indices g)" by (simp add: keys_def)
    qed (use u resolve_iff [OF ok] in blast)
    then show ?thesis using by_left_mem [OF graph_okD(1) [OF ok]] by simp
  qed
  then show ?thesis by (metis not_Some_eq)
qed

lemma find_edge_link:
  assumes ok: "graph_ok bytes g" and "by_left (ig_indices g) a = Some i" "by_left (ig_indices g) b = Some j"
  shows "find_edge g i j = (if links g (a, b) \<noteq> None then Some (i, j) else None)"
proof -
  have "links g (a, b) = map_of (ig_edges g) (i, j)"
    using assms by_left_mem [OF graph_okD(1) [OF ok]] by (intro links_at [OF ok]) blast+
  then show ?thesis by (simp add: find_edge_def map_of_eq_None_iff)
qed

lemma pair_edges_keys:
  assumes ok: "graph_ok bytes g" and inj: "inj_on (encode bytes) (keys g \<union> set ks)"
  shows "pair_edges g (map (encode bytes) ks) = (if linked (links g) ks then Some (edge_ids g ks) else None)"
  using inj
proof (induction "links g" ks rule: linked.induct)
  case (1 a b ks)
  have "inj_on (encode bytes) (keys g \<union> set (b # ks))" by (rule inj_on_subset [OF 1(2)]) auto
  note IH = 1(1) [OF this]
  have ra: "resolve g (encode bytes a) = by_left (ig_indices g) a"
    by (rule resolve_key [OF ok inj_on_subset [OF 1(2)]]) auto
  have rb: "resolve g (encode bytes b) = by_left (ig_indices g) b"
    by (rule resolve_key [OF ok inj_on_subset [OF 1(2)]]) auto
  show ?case
  proof (cases "a \<in> keys g \<and> b \<in> keys g")
    case True
    then obtain i j where ij: "by_left (ig_indices g) a = Some i" "by_left (ig_indices g) b = Some j"
      by (meson by_left_keys [OF ok])
    then show ?thesis using IH find_edge_link [OF ok ij] by (simp add: ra rb edge_id_def)
  next
    case False
    then have "links g (a, b) = None" using links_None [of a g b] by blast
    moreover have "by_left (ig_indices g) a = None \<or> by_left (ig_indices g) b = None"
      using False keys_by_left [of g a] keys_by_left [of g b] by simp
    ultimately show ?thesis by (auto simp: ra rb split: option.split)
  qed
qed simp_all

lemma length_padded: "length ks \<le> pe_slots E \<Longrightarrow> length (padded E ks) = pe_slots E"
  by (simp add: padded_def)

lemma bytes_back: "map from_le_bytes (chunks8 (concat (map to_le_bytes ws))) = ws"
  by (simp add: chunks8_concat comp_def)

lemma encode_notin:
  "inj_on (encode bytes) (A \<union> set ms \<union> {me}) \<Longrightarrow> me \<notin> set ms \<Longrightarrow> encode bytes me \<notin> encode bytes ` set ms"
proof
  assume inj: "inj_on (encode bytes) (A \<union> set ms \<union> {me})" and me: "me \<notin> set ms" and "encode bytes me \<in> encode bytes ` set ms"
  then obtain k where "k \<in> set ms" "encode bytes me = encode bytes k" by auto
  with inj_onD [OF inj, of me k] me show False by auto
qed

lemma resolve_loop:
  assumes ok: "graph_ok (pe_bytes E) g" and inj: "inj_on (encode (pe_bytes E)) (keys g \<union> set ms \<union> {me})"
    and me: "me \<notin> set ms" "ms \<noteq> []" and fits: "length ms + 2 \<le> pe_slots E"
  shows "resolve_loopback_edges E g me (concat (map to_le_bytes (padded E (me # ms @ [me])))) =
    (if linked (links g) (me # ms @ [me]) then Some (edge_ids g (me # ms @ [me])) else None)"
proof -
  let ?e = "encode (pe_bytes E)" and ?n = "pe_slots E - Suc (Suc (length ms))"
  let ?pid = "padded E (me # ms @ [me])"
  have pid: "?pid = ?e me # (map ?e ms @ ?e me # replicate ?n 0)" using fits by (simp add: padded_def)
  have len: "length (concat (map to_le_bytes ?pid)) = 8 * pe_slots E"
  proof -
    have "length (concat (map to_le_bytes ws)) = 8 * length ws" for ws by (induction ws) auto
    moreover have "length ?pid = pe_slots E" using fits by (intro length_padded) simp
    ultimately show ?thesis by (simp only:)
  qed
  have pos: "position (\<lambda>v. v = ?e me) (map ?e ms @ ?e me # replicate ?n 0) = Some (length ms)"
    using position_at [of "?e me" "map ?e ms"] encode_notin [OF inj me(1)] by simp
  have rest: "drop (length ms + 1 + 1) ?pid = replicate ?n 0" "take (length ms + 1 + 1) ?pid = map ?e (me # ms @ [me])"
    by (simp_all add: pid)
  have pe: "pair_edges g (map ?e (me # ms @ [me])) = (if linked (links g) (me # ms @ [me]) then Some (edge_ids g (me # ms @ [me])) else None)"
    by (rule pair_edges_keys [OF ok]) (rule inj_on_subset [OF inj], auto)
  have z: "\<not> list_ex (\<lambda>slot. slot \<noteq> 0) (replicate ?n (0 :: u64))" by (simp add: list_ex_iff)
  have l: "length ms + 1 \<ge> 2" using me(2) by (cases ms) auto
  show ?thesis
    unfolding resolve_loopback_edges_def bytes_back Let_def len
    using rest pe z l me(2) by (simp add: pid pos del: list_ex_iff)
qed

text \<open>Both legs of a round trip: out along \<open>fs\<close> to \<open>r\<close>, back along \<open>bs\<close>.\<close>

lemma resolve_round_trip:
  assumes ok: "graph_ok (pe_bytes E) g" and inj: "inj_on (encode (pe_bytes E)) (keys g \<union> set fs \<union> set bs \<union> {me, r})"
    and "me \<noteq> r" "r \<notin> set fs" "me \<notin> set bs" and "length fs + 2 \<le> pe_slots E" "length bs + 2 \<le> pe_slots E"
  shows "resolve_round_trip_edges E g me (padded E (me # fs @ [r])) (padded E (r # bs @ [me])) =
    (if linked (links g) (me # fs @ r # bs @ [me]) then Some (edge_ids g (me # fs @ r # bs @ [me])) else None)"
proof -
  let ?e = "encode (pe_bytes E)"
  let ?f = "padded E (me # fs @ [r])" and ?b = "padded E (r # bs @ [me])"
  have f: "?f = map ?e (me # fs) @ ?e r # replicate (pe_slots E - (length fs + 2)) 0"
    and b: "?b = ?e r # (map ?e bs @ ?e me # replicate (pe_slots E - (length bs + 2)) 0)"
    by (simp_all add: padded_def)
  have "?e r \<notin> ?e ` set (me # fs)"
    by (rule encode_notin [where A = "keys g"]) (rule inj_on_subset [OF inj], use assms(3,4) in auto)
  then have p1: "position (\<lambda>v. v = ?e r) ?f = Some (length fs + 1)"
    unfolding f using position_at [of "?e r" "map ?e (me # fs)"] by simp
  have "?e me \<notin> ?e ` set bs"
    by (rule encode_notin [where A = "keys g"]) (rule inj_on_subset [OF inj], use assms(5) in auto)
  then have p2: "position (\<lambda>v. v = ?e me) (tl ?b) = Some (length bs)"
    unfolding b using position_at [of "?e me" "map ?e bs"] by simp
  have nodes: "take (length fs + 1 + 1) ?f @ take (length bs + 1) (tl ?b) = map ?e (me # fs @ r # bs @ [me])"
    by (simp add: f b)
  have pe: "pair_edges g (map ?e (me # fs @ r # bs @ [me])) =
      (if linked (links g) (me # fs @ r # bs @ [me]) then Some (edge_ids g (me # fs @ r # bs @ [me])) else None)"
    by (rule pair_edges_keys [OF ok]) (rule inj_on_subset [OF inj], auto)
  have ne: "edge_ids g (me # fs @ r # bs @ [me]) \<noteq> []" by (simp flip: length_greater_0_conv)
  have h: "hd ?f = ?e me" "hd ?b = ?e r" by (simp_all add: f b)
  show ?thesis
    unfolding resolve_round_trip_edges_def Let_def h p1 p2
    unfolding option.case nodes pe using ne by simp
qed

section \<open>Attribution by keys\<close>

lemma edge_id_at: "graph_ok bytes g \<Longrightarrow> (a, i) \<in> set (ig_indices g) \<Longrightarrow> (b, j) \<in> set (ig_indices g) \<Longrightarrow> edge_id g a b = (i, j)"
  by (simp add: edge_id_def by_left_mem [THEN iffD2] graph_okD(1))

lemma link_ends:
  assumes "graph_ok bytes g" "links g (a, b) \<noteq> None"
  obtains i j where "(a, i) \<in> set (ig_indices g)" "(b, j) \<in> set (ig_indices g)" "edge_id g a b = (i, j)"
    "edge_weight g (edge_id g a b) = links g (a, b)"
proof -
  have "(a, b) \<in> dom (links g)" using assms(2) by (simp add: domIff)
  then have "a \<in> keys g" "b \<in> keys g" using links_dom [of g] by blast+
  then obtain i j where ij: "(a, i) \<in> set (ig_indices g)" "(b, j) \<in> set (ig_indices g)" by (auto simp: keys_def)
  show thesis
    by (rule that [OF ij edge_id_at [OF assms(1) ij]])
      (simp add: edge_id_at [OF assms(1) ij] edge_weight_def links_at [OF assms(1) ij])
qed

lemma change_edge_links:
  assumes ok: "graph_ok bytes g" and l: "links g (a, b) = Some w"
  shows "graph_ok bytes (change_edge (edge_id g a b) f g)" "keys (change_edge (edge_id g a b) f g) = keys g"
    "links (change_edge (edge_id g a b) f g) = (links g)((a, b) \<mapsto> f w)"
proof -
  let ?g = "change_edge (edge_id g a b) f g"
  note C = change_edges_refines [OF ok, where P = "\<lambda>e. e = edge_id g a b" and f = f]
  show "graph_ok bytes ?g" "keys ?g = keys g" by (rule C)+
  obtain i j where ij: "(a, i) \<in> set (ig_indices g)" "(b, j) \<in> set (ig_indices g)" "edge_id g a b = (i, j)"
  proof -
    have "links g (a, b) \<noteq> None" using l by simp
    then show thesis using that by (rule link_ends [OF ok])
  qed
  have idx: "ig_indices ?g = ig_indices g" by (simp add: change_edges_def)
  show "links ?g = (links g)((a, b) \<mapsto> f w)"
  proof (rule links_eqI [OF ok C(1) idx])
    fix c d m n assume mn: "(c, m) \<in> set (ig_indices g)" "(d, n) \<in> set (ig_indices g)"
    have "map_of (ig_edges ?g) (m, n) = links ?g (c, d)" by (rule links_at [OF C(1), symmetric]) (simp_all add: idx mn)
    then show "map_of (ig_edges ?g) (m, n) = ((links g)((a, b) \<mapsto> f w)) (c, d)"
      using C(3) [OF mn] ends_iff [OF ok mn(1) ij(1)] ends_iff [OF ok mn(2) ij(2)] l by (simp add: ij(3) option.map_id)
  next
    fix c d assume "c \<notin> keys g \<or> d \<notin> keys g"
    with links_None [of c g d] l show "((links g)((a, b) \<mapsto> f w)) (c, d) = None" by auto
  qed
qed

fun loop_latency :: "('f, 'e, 'r) floats \<Rightarrow> ('k \<times> 'k \<Rightarrow> ('f, 'e, 'r, 'b) observations option) \<Rightarrow> 'k list \<Rightarrow> nat" where
  "loop_latency F L (a # b # ks) = unwrap_or 0 (Option.bind (L (a, b)) (latency_of F)) + loop_latency F L (b # ks)"
| "loop_latency F L _ = 0"

lemma edge_ids_latency:
  assumes ok: "graph_ok bytes g"
  shows "linked (links g) ks \<Longrightarrow>
    sum_list (map (\<lambda>e. unwrap_or 0 (Option.bind (edge_weight g e) (latency_of F))) (edge_ids g ks)) = loop_latency F (links g) ks"
proof (induction "links g" ks rule: linked.induct)
  case (1 a b ks)
  from 1(2) have "links g (a, b) \<noteq> None" "linked (links g) (b # ks)" by simp_all
  from link_ends [OF ok this(1)] have "edge_weight g (edge_id g a b) = links g (a, b)" by metis
  with 1(1) [OF \<open>linked (links g) (b # ks)\<close>] show ?case by simp
qed simp_all

lemma sum_but_one:
  "sum_list (map (\<lambda>i. if i = length xs then 0 else h ((xs @ [x, y]) ! i)) [0..<length (xs @ [x, y])]) = sum_list (map h xs) + (h y :: nat)"
proof -
  have "[0..<length (xs @ [x, y])] = [0..<length xs] @ [length xs, Suc (length xs)]" by simp
  moreover have "map (\<lambda>i. if i = length xs then 0 else h ((xs @ [x, y]) ! i)) [0..<length xs] = map h xs"
    by (rule nth_equalityI) (auto simp: nth_append)
  ultimately show ?thesis by (simp only: map_append sum_list.append) (simp add: nth_append)
qed

lemma linked_snoc: "linked L (ks @ [a, b]) \<longleftrightarrow> linked L (ks @ [a]) \<and> L (a, b) \<noteq> None"
  by (induction L ks rule: linked.induct) auto

lemma known_latency_eq:
  assumes ok: "graph_ok bytes g" and l: "linked (links g) (me # ms @ [me])" and ms: "ms = xs @ [b]"
  shows "known_latency F g (edge_ids g (me # ms @ [me])) (length (edge_ids g (me # ms @ [me])) - 2) =
      loop_latency F (links g) (me # xs) + unwrap_or 0 (Option.bind (links g (b, me)) (latency_of F))"
    and "edge_ids g (me # ms @ [me]) ! (length (edge_ids g (me # ms @ [me])) - 2) = edge_id g (last (me # xs)) b"
proof -
  let ?h = "\<lambda>e. unwrap_or 0 (Option.bind (edge_weight g e) (latency_of F))"
  let ?a = "last (me # xs)" and ?es = "edge_ids g (me # xs)"
  obtain c z where c: "me # xs = c @ [z]" by (metis append_butlast_last_id list.distinct(1))
  then have z: "?a = z" by simp
  have all: "me # ms @ [me] = (me # xs) @ [b, me]" by (simp add: ms)
  have "edge_ids g ((me # xs) @ [b]) = ?es @ [edge_id g z b]" unfolding c by (simp add: edge_ids_snoc)
  then have es: "edge_ids g (me # ms @ [me]) = ?es @ [edge_id g ?a b, edge_id g b me]"
    unfolding all edge_ids_snoc z by simp
  have "linked (links g) ((me # xs) @ [b])" "links g (b, me) \<noteq> None" using l unfolding all linked_snoc by simp_all
  then have lx: "linked (links g) (me # xs)" "links g (b, me) \<noteq> None" unfolding c by (simp_all add: linked_snoc)
  have "length ?es + 2 = length (edge_ids g (me # ms @ [me]))" unfolding es by simp
  then have t: "length (edge_ids g (me # ms @ [me])) - 2 = length ?es" by simp
  show "edge_ids g (me # ms @ [me]) ! (length (edge_ids g (me # ms @ [me])) - 2) = edge_id g ?a b"
    unfolding t by (simp add: es del: length_edge_ids)
  have "known_latency F g (edge_ids g (me # ms @ [me])) (length (edge_ids g (me # ms @ [me])) - 2) = sum_list (map ?h ?es) + ?h (edge_id g b me)"
    unfolding known_latency_def t unfolding es by (rule sum_but_one)
  also have "sum_list (map ?h ?es) = loop_latency F (links g) (me # xs)" by (rule edge_ids_latency [OF ok lx(1)])
  also have "edge_weight g (edge_id g b me) = links g (b, me)" using link_ends [OF ok lx(2)] by metis
  finally show "known_latency F g (edge_ids g (me # ms @ [me])) (length (edge_ids g (me # ms @ [me])) - 2) =
      loop_latency F (links g) (me # xs) + unwrap_or 0 (Option.bind (links g (b, me)) (latency_of F))" .
qed

section \<open>Properties\<close>

lemma find_paths_take:
  "find_paths E g i D len (Some t) lt V = map_option (take t) (find_paths E g i D len None lt V)"
  by (simp add: find_paths_def option.map_comp comp_def Let_def)

lemma loopback_take:
  assumes "simple_loopback_to_self E up lt LF me g hops cnt = Some rs" "x \<in> set rs"
  shows "\<exists>all. simple_loopback_to_self E up lt LF me g hops None = Some all \<and> x \<in> set all"
proof (cases cnt)
  case (Some t)
  have "set (List.map_filter f (take t xs)) \<subseteq> set (List.map_filter f xs)" for f :: "'k list \<times> u64 list \<times> 'z \<Rightarrow> ('k list \<times> u64 list) option" and xs
    by (rule subsetI) (metis in_set_takeD map_filter_set)
  with assms show ?thesis
    unfolding simple_loopback_to_self_def Some find_paths_take by (auto split: if_splits option.splits)
qed (use assms in blast)

lemma key_walk_linked: "key_walk L a ks ws \<Longrightarrow> linked L (a # ks)"
  by (induction ks arbitrary: a ws) auto

lemma linked_keys: "linked (links g) (a # ks) \<Longrightarrow> set ks \<subseteq> keys g"
proof (induction ks arbitrary: a)
  case (Cons b ks)
  then have "links g (a, b) \<noteq> None" "linked (links g) (b # ks)" by simp_all
  with Cons.IH [of b] links_None [of a g b] show ?case by auto
qed simp

lemma linked_end: "linked L (a # ms) \<Longrightarrow> ms \<noteq> [] \<Longrightarrow> L (last ms, c) \<noteq> None \<Longrightarrow> linked L (a # ms @ [c])"
  by (cases ms rule: rev_cases) (use linked_snoc [of L "a # ys" y c for ys y] in simp_all)

text \<open>
  C13. A loop that was probed is attributed to its own edges or not at all. Every loop the
  generator emits is a chain of existing edges of the requested length; and at any later time,
  whatever happened to the graph, its identifier resolves to exactly the edges between its
  nodes when all of them still exist, and to nothing otherwise, as long as the keys present
  then and now have distinct slots.
\<close>

theorem probes_resolve:
  assumes ok: "graph_ok (pe_bytes E) g" and me: "me \<in> keys g"
    and sh: "\<And>k es. mset (pe_shuffle E k es) = mset es"
    and emitted: "simple_loopback_to_self E up lt LF me g hops cnt = Some rs" "(ns, pid) \<in> set rs"
    and later: "g' = graph_run Env later g" "ge_bytes Env = pe_bytes E"
    and inj: "inj_on (encode (pe_bytes E)) (keys g \<union> keys g')"
  shows "linked (links g) (me # ns) \<and> length ns = hops + 1 \<and> last ns = me \<and>
    resolve_loopback_edges E g' me (concat (map to_le_bytes pid)) =
      (if linked (links g') (me # ns) then Some (edge_ids g' (me # ns)) else None)"
proof -
  obtain all where "simple_loopback_to_self E up lt LF me g hops None = Some all" "(ns, pid) \<in> set all"
    using loopback_take [OF emitted] by blast
  with loopback_set [OF ok me sh, of up lt LF hops] obtain ms ws w where
    ms: "min_loopback_hops \<le> hops" "hops + 1 < pe_slots E" "ns = ms @ [me]" "pid = padded E (me # ms @ [me])"
      "length ms = hops" "distinct (me # ms)" "key_walk (links g) me ms ws" "links g (last ms, me) = Some w"
    by (metis option.inject)
  have ne: "ms \<noteq> []" using ms(1,5) by (auto simp: min_loopback_hops_def)
  have l: "linked (links g) (me # ms)" by (rule key_walk_linked [OF ms(7)])
  have chain: "linked (links g) (me # ns) \<and> length ns = hops + 1 \<and> last ns = me"
    using linked_end [OF l ne, of me] ms(3,5,8) by simp
  have ok': "graph_ok (pe_bytes E) g'" using graph_run_refines [of Env g later] ok later by simp
  have "inj_on (encode (pe_bytes E)) (keys g' \<union> set ms \<union> {me})"
    by (rule inj_on_subset [OF inj]) (use linked_keys [OF l] me in auto)
  from resolve_loop [OF ok' this _ ne] ms(2,5,6)
  have "resolve_loopback_edges E g' me (concat (map to_le_bytes pid)) =
      (if linked (links g') (me # ns) then Some (edge_ids g' (me # ns)) else None)"
    unfolding ms(3,4) by simp
  with chain show ?thesis by simp
qed

text \<open>
  C14. What a returned loopback probe teaches. For a loop of existing edges, with a plausible
  time stamp, the only observation that changes is that of the edge into the last relay. It
  gets the round trip less the latencies known of all the other edges, so never more than the
  round trip; when those already exceed it, it is credited with the latency it carries, or
  nothing changes when it carries none. A probe that timed out is recorded as a failure of that
  same edge. Nodes and edges stay what they are.
\<close>

theorem loopback_attributed:
  fixes G :: "('k, 'f, 'e, 'r, 'b) channel_graph" and tick :: "nat \<Rightarrow> clocks" and timestamp :: nat
  defines "L \<equiv> links (cg_inner G)" and "rtt \<equiv> (as_millis (ck_wall (tick 0)) - timestamp) * 1000000"
  assumes ok: "graph_ok (pe_bytes E) (cg_inner G)"
    and inj: "inj_on (encode (pe_bytes E)) (keys (cg_inner G) \<union> set (xs @ [b]) \<union> {cg_me G})"
    and loop: "path = concat (map to_le_bytes (padded E (cg_me G # xs @ [b, cg_me G])))"
      "cg_me G \<notin> set (xs @ [b])" "length xs + 3 \<le> pe_slots E" "linked L (cg_me G # xs @ [b, cg_me G])"
    and a: "a = last (cg_me G # xs)" "L (a, b) = Some w"
    and known: "known = loop_latency F L (cg_me G # xs) + unwrap_or 0 (Option.bind (L (b, cg_me G)) (latency_of F))"
    and time: "timestamp \<le> as_millis (ck_wall (tick 0))" "as_millis (ck_wall (tick 0)) < 2 ^ 64" "rtt \<le> cg_max_rtt G"
  shows "links (cg_inner (record_edge E F tick (ProbeLoopback path timestamp) G)) =
      (if known \<le> rtt then L((a, b) \<mapsto> observe F (tick 1) (Intermediate (Inr (rtt - known))) w)
       else (case Option.bind (ob_intermediate w) (\<lambda>q. link_latency F (it_link q)) of
           Some d \<Rightarrow> L((a, b) \<mapsto> observe F (tick 1) (Intermediate (Inr d)) w)
         | None \<Rightarrow> L)) \<and>
    links (cg_inner (record_edge E F tick (ProbeLoopbackTimeout path) G)) =
      L((a, b) \<mapsto> observe F (tick 0) (Intermediate (Inl ())) w) \<and>
    keys (cg_inner (record_edge E F tick (ProbeLoopback path timestamp) G)) = keys (cg_inner G)"
proof (intro conjI)
  let ?g = "cg_inner G" and ?me = "cg_me G" and ?ms = "xs @ [b]"
  let ?es = "edge_ids ?g (?me # ?ms @ [?me])"
  have lk: "linked (links ?g) (?me # ?ms @ [?me])" using loop(4) by (simp add: L_def)
  have res: "resolve_loopback_edges E ?g ?me path = Some ?es"
    using resolve_loop [OF ok inj loop(2)] loop(1,3) lk by simp
  have ex: "by_left (ig_indices ?g) ?me \<noteq> None"
  proof -
    have "L (b, ?me) \<noteq> None" using lk linked_snoc [of "links ?g" "?me # xs" b ?me] by (simp add: L_def)
    then have "(b, ?me) \<in> dom (links ?g)" by (simp add: L_def domIff)
    then have "?me \<in> keys ?g" using links_dom [of ?g] by blast
    then show ?thesis using keys_by_left [of ?g ?me] by simp
  qed
  note K = known_latency_eq [OF ok lk refl]
  note target = K(2) [folded a(1)]
  have kn: "known_latency F ?g ?es (length ?es - 2) = known" using K(1) [of F] by (simp add: known L_def)
  have lw: "links ?g (a, b) = Some w" using a(2) by (simp add: L_def)
  have ew: "edge_weight ?g (edge_id ?g a b) = Some w"
  proof -
    have "links ?g (a, b) \<noteq> None" using lw by simp
    then show ?thesis using link_ends [OF ok, of a b] lw by metis
  qed
  have el: "(as_millis (ck_wall (tick 0)) - timestamp) mod 2 ^ 64 * 1000000 = rtt" using time(1,2) by (simp add: rtt_def)
  have ad: "attributed_duration F ?g ?es (length ?es - 2) rtt =
      (if known \<le> rtt then Some (rtt - known) else Option.bind (ob_intermediate w) (\<lambda>q. link_latency F (it_link q)))"
    unfolding attributed_duration_def kn target ew Let_def by simp
  have R: "cg_inner (record_edge E F tick (ProbeLoopback path timestamp) G) =
      (case attributed_duration F ?g ?es (length ?es - 2) rtt of None \<Rightarrow> ?g
       | Some d \<Rightarrow> change_edge (edge_id ?g a b) (observe F (tick 1) (Intermediate (Inr d))) ?g)"
    unfolding record_edge_def record_loopback_def Let_def measurable_edge.case res option.case el target using ex time by (auto split: option.split)
  note C = change_edge_links [OF ok lw]
  show "links (cg_inner (record_edge E F tick (ProbeLoopback path timestamp) G)) =
      (if known \<le> rtt then L((a, b) \<mapsto> observe F (tick 1) (Intermediate (Inr (rtt - known))) w)
       else (case Option.bind (ob_intermediate w) (\<lambda>q. link_latency F (it_link q)) of
           Some d \<Rightarrow> L((a, b) \<mapsto> observe F (tick 1) (Intermediate (Inr d)) w)
         | None \<Rightarrow> L))"
    unfolding R ad by (auto simp: C L_def split: option.split)
  show "keys (cg_inner (record_edge E F tick (ProbeLoopback path timestamp) G)) = keys ?g"
    unfolding R by (auto simp: C split: option.split)
  have "cg_inner (record_edge E F tick (ProbeLoopbackTimeout path) G) =
      change_edge (edge_id ?g a b) (observe F (tick 0) (Intermediate (Inl ()))) ?g"
    unfolding record_edge_def record_loopback_timeout_def Let_def measurable_edge.case res option.case target using ex by auto
  then show "links (cg_inner (record_edge E F tick (ProbeLoopbackTimeout path) G)) =
      L((a, b) \<mapsto> observe F (tick 0) (Intermediate (Inl ())) w)"
    by (simp add: C L_def)
qed

lemma change_edge_same [simp]:
  "edge_ids (change_edges P f g) ks = edge_ids g ks"
  by (induction ks rule: induct_list012) (auto simp: edge_id_def change_edges_def)

lemma linked_mono: "dom L \<subseteq> dom L' \<Longrightarrow> linked L ks \<Longrightarrow> linked L' ks"
  by (induction L ks rule: linked.induct) auto

text \<open>Recording on every edge of a chain in which no edge repeats.\<close>

lemma record_all_links:
  fixes f :: "'t \<Rightarrow> 'o \<Rightarrow> 'o" and g :: "('k, 'o) inner_graph"
  shows "graph_ok bytes g \<Longrightarrow> linked (links g) ks \<Longrightarrow> distinct (zip ks (tl ks)) \<Longrightarrow> length ts = length ks - 1 \<Longrightarrow>
    keys (fold (\<lambda>(t, e). change_edge e (f t)) (zip ts (edge_ids g ks)) g) = keys g \<and>
    links (fold (\<lambda>(t, e). change_edge e (f t)) (zip ts (edge_ids g ks)) g) =
      (\<lambda>p. case map_of (zip (zip ks (tl ks)) ts) p of Some t \<Rightarrow> map_option (f t) (links g p) | None \<Rightarrow> links g p)"
proof (induction ks arbitrary: g ts rule: induct_list012)
  case (3 a b ks)
  then obtain t ts' where ts: "ts = t # ts'" "length ts' = length (b # ks) - 1" by (cases ts) auto
  from 3(4) obtain w where w: "links g (a, b) = Some w" and l: "linked (links g) (b # ks)" by auto
  let ?g = "change_edge (edge_id g a b) (f t) g"
  note C = change_edge_links [OF 3(3) w, of "f t"]
  have "linked (links ?g) (b # ks)" by (rule linked_mono [OF _ l]) (auto simp: C(3))
  moreover have d: "(a, b) \<notin> set (zip (b # ks) ks)" "distinct (zip (b # ks) (tl (b # ks)))" using 3(5) by simp_all
  ultimately have IH: "keys (fold (\<lambda>(t, e). change_edge e (f t)) (zip ts' (edge_ids g (b # ks))) ?g) = keys g"
    "links (fold (\<lambda>(t, e). change_edge e (f t)) (zip ts' (edge_ids g (b # ks))) ?g) =
      (\<lambda>p. case map_of (zip (zip (b # ks) ks) ts') p of Some t \<Rightarrow> map_option (f t) (links ?g p) | None \<Rightarrow> links ?g p)"
    using 3(2) [OF C(1), of ts'] ts(2) C(2) by simp_all
  have n: "map_of (zip (zip (b # ks) ks) ts') (a, b) = None"
    using d(1) by (auto simp: map_of_eq_None_iff dest: set_zip_leftD)
  have "(case map_of (zip (zip (b # ks) ks) ts') p of Some t \<Rightarrow> map_option (f t) (links ?g p) | None \<Rightarrow> links ?g p) =
      (case map_of (zip (zip (a # b # ks) (tl (a # b # ks))) ts) p of Some t \<Rightarrow> map_option (f t) (links g p) | None \<Rightarrow> links g p)" for p
    unfolding C(3) by (cases "p = (a, b)") (simp_all add: n ts(1) w split: option.split)
  then show ?case using IH by (simp add: ts(1))
qed simp_all

text \<open>
  What a report of delivered packets and a report on a neighbour change. A recent round trip
  out to the replier and back, over existing edges none of which it uses
  twice, is recorded once on every edge of the loop and on no other; one older than the window
  or from the future changes nothing. A probe of a neighbour, its failure and a change of its
  connection are recorded in both directions, which exist afterwards, and on no other edge.
\<close>

theorem reports_recorded:
  fixes G :: "('k, 'f, 'e, 'r, 'b) channel_graph" and tick :: "nat \<Rightarrow> clocks"
  defines "L \<equiv> links (cg_inner G)" and "me \<equiv> cg_me G"
  assumes ok: "graph_ok (pe_bytes E) (cg_inner G)"
  shows "(inj_on (encode (pe_bytes E)) (keys (cg_inner G) \<union> set fs \<union> set bs \<union> {me, r}) \<and>
      me \<noteq> r \<and> r \<notin> set fs \<and> me \<notin> set bs \<and> length fs + 2 \<le> pe_slots E \<and> length bs + 2 \<le> pe_slots E \<and>
      ks = me # fs @ r # bs @ [me] \<and> linked L ks \<and> distinct (zip ks (tl ks)) \<longrightarrow>
      links (cg_inner (record_edge E F tick (Surb expected observed timestamp (padded E (me # fs @ [r])) (padded E (r # bs @ [me]))) G)) =
        (if timestamp \<le> as_millis (ck_wall (tick 0)) \<and> as_millis (ck_wall (tick 0)) \<le> timestamp + 24000
         then (\<lambda>p. case map_of (zip (zip ks (tl ks)) (map tick [1..<length ks])) p of
             Some t \<Rightarrow> map_option (observe F t (SurbRoundTrips expected observed)) (L p) | None \<Rightarrow> L p)
         else L)) \<and>
    (peer \<noteq> me \<and> (update, ms) \<in> {(ProbeNeighbor peer rtt, [Connected True, Immediate (Inr (rtt div 2))]),
         (ProbeNeighborTimeout peer, [Immediate (Inl ())]), (ConnectionStatus peer up, [Connected up])} \<longrightarrow>
      keys (cg_inner (record_edge E F tick update G)) = keys (cg_inner G) \<union> {me, peer} \<and>
      links (cg_inner (record_edge E F tick update G)) = L(
        (me, peer) \<mapsto> observe_all F (zip (map tick [0..<length ms]) ms) (unwrap_or observations_default (L (me, peer))),
        (peer, me) \<mapsto> observe_all F (zip (map tick [length ms..<2 * length ms]) ms) (unwrap_or observations_default (L (peer, me)))))"
proof (rule conjI; rule impI; elim conjE)
  let ?g = "cg_inner G"
  assume inj: "inj_on (encode (pe_bytes E)) (keys ?g \<union> set fs \<union> set bs \<union> {me, r})"
    and a: "me \<noteq> r" "r \<notin> set fs" "me \<notin> set bs" "length fs + 2 \<le> pe_slots E" "length bs + 2 \<le> pe_slots E"
    and ks: "ks = me # fs @ r # bs @ [me]" and l: "linked L ks" and d: "distinct (zip ks (tl ks))"
  have res: "resolve_round_trip_edges E ?g me (padded E (me # fs @ [r])) (padded E (r # bs @ [me])) = Some (edge_ids ?g ks)"
    using resolve_round_trip [OF ok inj a] l by (simp add: L_def ks)
  have "last (fs @ r # bs @ [me]) \<in> keys ?g"
    using linked_keys [of ?g me "fs @ r # bs @ [me]"] l by (auto simp: L_def ks)
  then have ex: "by_left (ig_indices ?g) me \<noteq> None" using keys_by_left [of ?g me] by simp
  have w: "as_millis surb_window = 24000"
    by (simp add: as_millis_def surb_window_def surb_bucket_width_def surb_buckets_def)
  have n: "length ks - 1 + 1 = length ks" by (simp add: ks)
  have "links (fold (\<lambda>(t, e). change_edge e (observe F t (SurbRoundTrips expected observed))) (zip (map tick [1..<length ks]) (edge_ids ?g ks)) ?g) =
      (\<lambda>p. case map_of (zip (zip ks (tl ks)) (map tick [1..<length ks])) p of
             Some t \<Rightarrow> map_option (observe F t (SurbRoundTrips expected observed)) (L p) | None \<Rightarrow> L p)"
    unfolding L_def using l d record_all_links [OF ok, of ks "map tick [1..<length ks]" "\<lambda>t. observe F t (SurbRoundTrips expected observed)"]
    by (simp add: L_def)
  then show "links (cg_inner (record_edge E F tick (Surb expected observed timestamp (padded E (me # fs @ [r])) (padded E (r # bs @ [me]))) G)) =
        (if timestamp \<le> as_millis (ck_wall (tick 0)) \<and> as_millis (ck_wall (tick 0)) \<le> timestamp + 24000
         then (\<lambda>p. case map_of (zip (zip ks (tl ks)) (map tick [1..<length ks])) p of
             Some t \<Rightarrow> map_option (observe F t (SurbRoundTrips expected observed)) (L p) | None \<Rightarrow> L p)
         else L)"
    using ex unfolding record_edge_def record_surb_def Let_def measurable_edge.case me_def [symmetric] res option.case length_edge_ids n w
    by (auto simp: L_def)
next
  assume ne: "peer \<noteq> me" and u: "(update, ms) \<in> {(ProbeNeighbor peer rtt, [Connected True, Immediate (Inr (rtt div 2))]),
         (ProbeNeighborTimeout peer, [Immediate (Inl ())]), (ConnectionStatus peer up, [Connected up])}"
  have "cg_inner (record_edge E F tick update G) = observe_both (pe_bytes E) F tick me peer ms (cg_inner G)"
    using u by (auto simp: record_edge_def record_neighbor_def record_neighbor_timeout_def record_connection_def me_def)
  then show "keys (cg_inner (record_edge E F tick update G)) = keys (cg_inner G) \<union> {me, peer} \<and>
      links (cg_inner (record_edge E F tick update G)) = L(
        (me, peer) \<mapsto> observe_all F (zip (map tick [0..<length ms]) ms) (unwrap_or observations_default (L (me, peer))),
        (peer, me) \<mapsto> observe_all F (zip (map tick [length ms..<2 * length ms]) ms) (unwrap_or observations_default (L (peer, me))))"
    unfolding observe_both_def Let_def L_def using ig.both_directions [OF ok ne [symmetric]] by simp
qed

section \<open>Concrete instances\<close>

lemma horner_zeros: "horner_sum uint b (replicate n 0) = 0"
  by (induction n) auto

lemma sample_slots:
  "encode (ge_bytes sample_env) 3 = 3" "encode (ge_bytes sample_env) 5 = 5" "encode (ge_bytes sample_env) 6 = 6"
  by (simp_all add: encode_def sample_env_def word_rcat_def horner_zeros)

lemma sample_inj: "inj_on (encode (ge_bytes sample_env)) {3, 5, 6}"
  by (simp add: inj_on_def sample_slots)

definition sample_floats :: "(nat, nat, nat) floats" where
  "sample_floats = \<lparr>fl_lit = (\<lambda>n d. n), fl_of_u64 = unat, fl_add = (+), fl_mul = (*), fl_div = (div), fl_min = min, fl_max = max,
     fl_less = (<), fl_ge = (\<ge>), fl_powf = (^), fl_clamp = (\<lambda>x l h. max l (min x h)), as_secs_f64 = id, from_secs_f64 = id,
     ema_new = (\<lambda>_. 0), ema_update = (\<lambda>x a. x), ema_get = id, wr_new = (\<lambda>_ _ _. 0), wr_expected = (\<lambda>n _ r. r),
     wr_observed = (\<lambda>n _ r. r + unat n), wr_value = (\<lambda>r _. Some r), wr_recent_value = (\<lambda>r _ _. Some r), wr_window = (\<lambda>_. 24)\<rparr>"

definition obs_env :: "(nat, (nat, nat, nat, nat) observations, nat) graph_env" where
  "obs_env = \<lparr>ge_bytes = ge_bytes sample_env, ge_default = observations_default, ge_below_one = judged_health sample_floats,
     ge_set_health = set_health\<rparr>"

definition obs_paths :: "(nat, (nat, nat, nat, nat) observations) path_env" where
  "obs_paths = \<lparr>pe_bytes = ge_bytes sample_env, pe_slots = 5, pe_max_hops = 3, pe_shuffle = (\<lambda>_ es. es)\<rparr>"

definition obs_graph :: "(nat, nat, nat, nat, nat) channel_graph" where
  "obs_graph = (graph_new sample_floats (ge_bytes sample_env) 3)\<lparr>cg_inner :=
     graph_run obs_env [UpsertEdge 3 5 id, UpsertEdge 5 6 id, UpsertEdge 6 3 id, UpsertEdge 5 3 id]
       (cg_inner (graph_new sample_floats (ge_bytes sample_env) 3))\<rparr>"

lemma obs_graph_fields:
  "cg_me obs_graph = 3" "cg_max_rtt obs_graph = 30 * 10 ^ 9" "graph_ok (pe_bytes obs_paths) (cg_inner obs_graph)"
  "keys (cg_inner obs_graph) = {3, 5, 6}"
  "links (cg_inner obs_graph) = [(3, 5) \<mapsto> observations_default, (5, 6) \<mapsto> observations_default,
     (6, 3) \<mapsto> observations_default, (5, 3) \<mapsto> observations_default]"
proof -
  show "cg_me obs_graph = 3" "cg_max_rtt obs_graph = 30 * 10 ^ 9"
    by (simp_all add: obs_graph_def graph_new_def with_edge_params_def)
  let ?ops = "[UpsertEdge 3 5 id, UpsertEdge 5 6 id, UpsertEdge 6 3 id, UpsertEdge 5 3 id] :: (nat, (nat, nat, nat, nat) observations, nat) graph_op list"
  have inner: "cg_inner obs_graph = graph_run obs_env ?ops (inner_new (ge_bytes obs_env) 3)"
    by (simp add: obs_graph_def graph_new_def with_edge_params_def obs_env_def)
  show "graph_ok (pe_bytes obs_paths) (cg_inner obs_graph)"
    using new_run(1) [of obs_env ?ops 3] by (simp add: inner obs_paths_def obs_env_def)
  have "fold (spec_exec obs_env) ?ops ({3}, \<lambda>_. None) = ({3, 5, 6}, [(3, 5) \<mapsto> observations_default, (5, 6) \<mapsto> observations_default,
     (6, 3) \<mapsto> observations_default, (5, 3) \<mapsto> observations_default])"
    by (simp add: unwrap_or_def obs_env_def insert_commute)
  from trans [OF this [symmetric] new_run(2)] show "keys (cg_inner obs_graph) = {3, 5, 6}"
    "links (cg_inner obs_graph) = [(3, 5) \<mapsto> observations_default, (5, 6) \<mapsto> observations_default,
     (6, 3) \<mapsto> observations_default, (5, 3) \<mapsto> observations_default]"
    unfolding inner by (simp_all only: prod.inject)
qed

theorem probes_resolve_witness:
  "\<exists>rs. simple_loopback_to_self sample_paths (\<lambda>_. None) (<) (\<lambda>_. \<lparr>vf_initial = 0, vf_min = None, vf_cost = (\<lambda>c w i. c + w)\<rparr>) 3 sample_graph 2 None = Some rs \<and>
     ([5, 6, 3], padded sample_paths [3, 5, 6, 3]) \<in> set rs \<and>
     resolve_loopback_edges sample_paths (graph_run sample_env [RemoveNode 5] sample_graph) 3
       (concat (map to_le_bytes (padded sample_paths [3, 5, 6, 3]))) = None"
proof -
  let ?LF = "\<lambda>_. \<lparr>vf_initial = 0, vf_min = None, vf_cost = (\<lambda>c w i. c + w)\<rparr> :: (nat, nat) value_fn"
  let ?g' = "graph_run sample_env [RemoveNode 5] sample_graph"
  have sh: "mset (pe_shuffle sample_paths k es) = mset es" for k es by (simp add: sample_paths_def)
  have me: "3 \<in> keys sample_graph" by (simp add: sample_graph_spec)
  from loopback_set [OF sample_graph_ok me sh, of "\<lambda>_. None" "(<)" ?LF 2] obtain rs
    where rs: "simple_loopback_to_self sample_paths (\<lambda>_. None) (<) ?LF 3 sample_graph 2 None = Some rs"
      and m: "\<And>ns pid. (ns, pid) \<in> set rs \<longleftrightarrow> min_loopback_hops \<le> 2 \<and> 2 \<le> pe_max_hops sample_paths \<and> 2 + 1 < pe_slots sample_paths \<and>
      (\<exists>ms ws. ns = ms @ [3] \<and> pid = padded sample_paths (3 # ms @ [3]) \<and> length ms = 2 \<and> distinct (3 # ms) \<and>
         key_walk (links sample_graph) 3 ms ws \<and> stays_above (<) (?LF (2 + 1)) (vf_initial (?LF (2 + 1))) 0 ws \<and>
         (\<exists>w. links sample_graph (last ms, 3) = Some w \<and> (\<lambda>_. None) w \<noteq> Some False))"
    by blast
  have "([5, 6, 3], padded sample_paths [3, 5, 6, 3]) \<in> set rs"
    unfolding m by (intro conjI exI [of _ "[5, 6]"] exI [of _ "[2, 4]"])
      (simp_all add: sample_paths_def min_loopback_hops_def sample_graph_spec)
  note in_rs = this
  have ks: "keys ?g' = {3, 6}" "links ?g' (3, 5) = None"
  proof -
    have g': "?g' = remove_node (pe_bytes sample_paths) 5 sample_graph" by (simp add: graph_run_def sample_paths_def)
    show "keys ?g' = {3, 6}" unfolding g' remove_node_refines(2) [OF sample_graph_ok] sample_graph_spec(1) by auto
    show "links ?g' (3, 5) = None" unfolding g' remove_node_refines(3) [OF sample_graph_ok] by simp
  qed
  have "inj_on (encode (pe_bytes sample_paths)) (keys sample_graph \<union> keys ?g')"
    using sample_inj by (simp add: ks(1) sample_graph_spec sample_paths_def insert_commute)
  from probes_resolve [OF sample_graph_ok me sh rs in_rs refl _ this] ks(2) rs in_rs show ?thesis
    by (simp add: sample_paths_def)
qed

theorem loopback_attributed_witness:
  "links (cg_inner (record_edge obs_paths sample_floats (\<lambda>_. \<lparr>ck_wall = 9000000, ck_instant = 1\<rparr>)
       (ProbeLoopback (concat (map to_le_bytes (padded obs_paths [3, 5, 6, 3]))) 4) obs_graph)) (5, 6) =
     Some (observe sample_floats \<lparr>ck_wall = 9000000, ck_instant = 1\<rparr> (Intermediate (Inr 5000000)) observations_default)"
proof -
  let ?tick = "\<lambda>_ :: nat. \<lparr>ck_wall = 9000000, ck_instant = 1\<rparr>"
  have inj: "inj_on (encode (pe_bytes obs_paths)) (keys (cg_inner obs_graph) \<union> set ([5] @ [6]) \<union> {cg_me obs_graph})"
    using sample_inj by (simp add: obs_graph_fields obs_paths_def insert_commute)
  have lat: "latency_of sample_floats observations_default = None" by (simp add: latency_of_def observations_default_def)
  show ?thesis
    using loopback_attributed [OF obs_graph_fields(3) inj, of "concat (map to_le_bytes (padded obs_paths [3, 5, 6, 3]))" 5
        observations_default 0 sample_floats 4 ?tick]
    by (simp add: obs_graph_fields(1,2,5) obs_paths_def as_millis_def lat unwrap_or_def)
qed

theorem reports_recorded_witness:
  "links (cg_inner (record_edge obs_paths sample_floats (\<lambda>_. \<lparr>ck_wall = 9000000, ck_instant = 1\<rparr>)
       (Surb 2 1 4 (padded obs_paths [3, 5]) (padded obs_paths [5, 3])) obs_graph)) (3, 5) =
     Some (observe sample_floats \<lparr>ck_wall = 9000000, ck_instant = 1\<rparr> (SurbRoundTrips 2 1) observations_default) \<and>
   keys (cg_inner (record_edge obs_paths sample_floats (\<lambda>_. \<lparr>ck_wall = 9000000, ck_instant = 1\<rparr>) (ConnectionStatus 6 True) obs_graph)) = {3, 5, 6}"
proof
  let ?tick = "\<lambda>_ :: nat. \<lparr>ck_wall = 9000000, ck_instant = 1\<rparr>"
  have "inj_on (encode (pe_bytes obs_paths)) (keys (cg_inner obs_graph) \<union> set [] \<union> set [] \<union> {cg_me obs_graph, 5})"
    using sample_inj by (simp add: obs_graph_fields obs_paths_def insert_commute)
  from reports_recorded [OF obs_graph_fields(3), of "[]" "[]" 5 "[3, 5, 3]" sample_floats ?tick 2 1 4] this
  show "links (cg_inner (record_edge obs_paths sample_floats ?tick (Surb 2 1 4 (padded obs_paths [3, 5]) (padded obs_paths [5, 3])) obs_graph)) (3, 5) =
     Some (observe sample_floats \<lparr>ck_wall = 9000000, ck_instant = 1\<rparr> (SurbRoundTrips 2 1) observations_default)"
    by (simp add: obs_graph_fields(1,5) obs_paths_def as_millis_def upt_rec)
  have "6 \<noteq> cg_me obs_graph" by (simp add: obs_graph_fields)
  from reports_recorded [OF obs_graph_fields(3), where update = "ConnectionStatus 6 True" and ms = "[Connected True]" and F = sample_floats and tick = ?tick and peer = 6 and up = True] this
  show "keys (cg_inner (record_edge obs_paths sample_floats ?tick (ConnectionStatus 6 True) obs_graph)) = {3, 5, 6}"
    by (simp add: obs_graph_fields insert_commute insert_absorb)
qed

end
