(* ===== verification/Graph_Render.thy ===== *)
theory Graph_Render
  imports Edge_Attribution Rust_Text
begin

text \<open>
  The channel graph as DOT text (\<open>graph/src/render.rs\<close>). The printing of a double with two
  decimals and of a balance belong to the standard library and to \<open>hopr_api\<close>; both are parameters,
  as is the label of a key. The score reads the monotonic clock once per edge: \<open>clock i\<close> is its
  reading at edge \<open>i\<close>. The text is read back by a reader of this file's line format, which the
  program has no counterpart of.
\<close>

section \<open>Rendering\<close>

abbreviation quote_mark :: char where "quote_mark \<equiv> CHR 0x22"
abbreviation newline :: char where "newline \<equiv> CHR 0x0A"

record ('f, 'b) shown =
  show_2 :: "'f \<Rightarrow> string"
  show_balance :: "'b \<Rightarrow> string"

definition edge_attrs ::
  "('f, 'e, 'r) floats \<Rightarrow> ('f, 'b) shown \<Rightarrow> nat \<Rightarrow> ('f, 'e, 'r, 'b) observations \<Rightarrow> string list"
where
  "edge_attrs F D now obs =
    [case observed_score F now obs of Some s \<Rightarrow> ''score='' @ show_2 D s | None \<Rightarrow> ''score=unobserved''] @
    (case Option.bind (ob_immediate obs) (\<lambda>imm. link_latency F (im_link imm)) of
       Some latency \<Rightarrow> [''lat='' @ digits (as_millis latency) @ ''ms''] | None \<Rightarrow> []) @
    (case Option.bind (ob_intermediate obs) it_balance of
       Some b \<Rightarrow> [''bal='' @ show_balance D b] | None \<Rightarrow> []) @
    (case ob_health obs of Some h \<Rightarrow> [''health='' @ show_2 D h] | None \<Rightarrow> [])"

definition edge_line :: "string \<Rightarrow> string \<Rightarrow> string \<Rightarrow> string" where
  "edge_line src_label dst_label label =
    ''  '' @ [quote_mark] @ src_label @ [quote_mark] @ '' -> '' @ [quote_mark] @ dst_label @ [quote_mark] @
    '' [label='' @ [quote_mark] @ label @ [quote_mark] @ ''];'' @ [newline]"

definition render_edges_as_dot ::
  "('f, 'e, 'r) floats \<Rightarrow> ('f, 'b) shown \<Rightarrow> (nat \<Rightarrow> nat) \<Rightarrow> ('k \<times> 'k \<times> ('f, 'e, 'r, 'b) observations) list \<Rightarrow>
    ('k \<Rightarrow> string) \<Rightarrow> string"
where
  "render_edges_as_dot F D clock edges label_fn =
    ''digraph hopr {'' @ [newline] @
    concat (map (\<lambda>(i, src, dst, obs).
      edge_line (label_fn src) (label_fn dst) (join_with CHR '' '' (edge_attrs F D (clock i) obs))) (enumerate 0 edges)) @
    ''}'' @ [newline]"

definition render_dot_with_labels ::
  "('f, 'e, 'r) floats \<Rightarrow> ('f, 'b) shown \<Rightarrow> (nat \<Rightarrow> nat) \<Rightarrow> ('k, ('f, 'e, 'r, 'b) observations) inner_graph \<Rightarrow>
    ('k \<Rightarrow> string) \<Rightarrow> string"
where
  "render_dot_with_labels F D clock g label_fn = render_edges_as_dot F D clock (connected_edges g) label_fn"

definition render_dot ::
  "('f, 'e, 'r) floats \<Rightarrow> ('f, 'b) shown \<Rightarrow> (nat \<Rightarrow> nat) \<Rightarrow> ('k \<Rightarrow> string) \<Rightarrow>
    ('k, ('f, 'e, 'r, 'b) observations) inner_graph \<Rightarrow> string"
where
  "render_dot F D clock show_key g = render_dot_with_labels F D clock g show_key"

definition render_dot_reachable_with_labels ::
  "('f, 'e, 'r) floats \<Rightarrow> ('f, 'b) shown \<Rightarrow> (nat \<Rightarrow> nat) \<Rightarrow> ((nat \<Rightarrow> nat list) \<Rightarrow> nat \<Rightarrow> nat list) \<Rightarrow> 'k \<Rightarrow>
    ('k, ('f, 'e, 'r, 'b) observations) inner_graph \<Rightarrow> ('k \<Rightarrow> string) \<Rightarrow> string"
where
  "render_dot_reachable_with_labels F D clock bfs me g label_fn =
    render_edges_as_dot F D clock (reachable_edges bfs me g) label_fn"

section \<open>Reading the text back\<close>

text \<open>A line of an edge has its three texts between the first six quotes.\<close>

definition read_line :: "string \<Rightarrow> (string \<times> string \<times> string) option" where
  "read_line s =
    (case split_on quote_mark s of
       [_, src, _, dst, _, label, _] \<Rightarrow> Some (src, dst, label)
     | _ \<Rightarrow> None)"

definition read_dot :: "string \<Rightarrow> (string \<times> string \<times> string) list" where
  "read_dot s = List.map_filter read_line (split_on newline s)"

definition clean :: "string \<Rightarrow> bool" where
  "clean s \<longleftrightarrow> quote_mark \<notin> set s \<and> newline \<notin> set s"

lemma clean_append [simp]: "clean (s @ t) \<longleftrightarrow> clean s \<and> clean t" and clean_Nil [simp]: "clean []"
  and clean_Cons [simp]: "clean (c # s) \<longleftrightarrow> c \<noteq> quote_mark \<and> c \<noteq> newline \<and> clean s"
  by (auto simp: clean_def)

lemma clean_digits [simp]: "clean (digits n)"
  using digits_are_digits [of _ n] by (force simp: clean_def is_digit_def)

lemma clean_join: "(\<And>w. w \<in> set ws \<Longrightarrow> clean w) \<Longrightarrow> clean (join_with CHR '' '' ws)"
  by (induction "CHR '' ''" ws rule: join_with.induct) simp_all

lemma clean_attrs:
  assumes "\<And>x. clean (show_2 D x)" and "\<And>b. clean (show_balance D b)" and "w \<in> set (edge_attrs F D now obs)"
  shows "clean w"
  using assms(3) by (auto simp: edge_attrs_def assms(1,2) split: option.splits)

lemma read_line_edge:
  assumes "clean s" and "clean d" and "clean l"
  shows "read_line (butlast (edge_line s d l)) = Some (s, d, l)"
proof -
  have "split_on quote_mark (butlast (edge_line s d l)) = [''  '', s, '' -> '', d, '' [label='', l, ''];'']"
    using assms by (simp add: edge_line_def butlast_append clean_def split_on_append)
  then show ?thesis by (simp add: read_line_def)
qed

lemma split_edge_line:
  assumes "clean s" and "clean d" and "clean l"
  shows "split_on newline (edge_line s d l @ rest) = butlast (edge_line s d l) # split_on newline rest"
proof -
  have "edge_line s d l = butlast (edge_line s d l) @ [newline]" by (simp add: edge_line_def butlast_append)
  moreover have "newline \<notin> set (butlast (edge_line s d l))"
    using assms by (simp add: edge_line_def butlast_append clean_def)
  ultimately show ?thesis by (metis append.assoc append_Cons append_Nil split_on_append)
qed

lemma read_lines:
  assumes "\<And>x. x \<in> set xs \<Longrightarrow> clean (f x) \<and> clean (g x) \<and> clean (h x)"
  shows "read_dot (concat (map (\<lambda>x. edge_line (f x) (g x) (h x)) xs) @ ''}'' @ [newline]) = map (\<lambda>x. (f x, g x, h x)) xs"
  using assms
proof (induction xs)
  case Nil
  have "split_on newline (''}'' @ [newline]) = [''}'', []]" by simp
  then show ?case by (simp add: read_dot_def read_line_def List.map_filter_simps)
next
  case (Cons x xs)
  then show ?case
    by (simp add: read_dot_def split_edge_line read_line_edge List.map_filter_simps)
qed

lemma read_dot_head: "read_dot (''digraph hopr {'' @ [newline] @ s) = read_dot s"
proof -
  have "newline \<notin> set ''digraph hopr {''" by simp
  then have "split_on newline (''digraph hopr {'' @ newline # s) = ''digraph hopr {'' # split_on newline s"
    by (rule split_on_append)
  moreover have "read_line ''digraph hopr {'' = None" by (simp add: read_line_def)
  ultimately show ?thesis by (simp only: read_dot_def append_Cons append_Nil List.map_filter_simps) simp
qed

section \<open>What the text says\<close>

lemma dot_reads_back:
  assumes "\<And>k. clean (label_fn k)" and "\<And>x. clean (show_2 D x)" and "\<And>b. clean (show_balance D b)"
  shows "read_dot (render_edges_as_dot F D clock edges label_fn) =
    map (\<lambda>(i, src, dst, obs). (label_fn src, label_fn dst, join_with CHR '' '' (edge_attrs F D (clock i) obs))) (enumerate 0 edges)"
proof -
  have lines: "(\<lambda>(i, src, dst, obs). edge_line (label_fn src) (label_fn dst) (join_with CHR '' '' (edge_attrs F D (clock i) obs))) =
      (\<lambda>x. edge_line (label_fn (fst (snd x))) (label_fn (fst (snd (snd x))))
        (join_with CHR '' '' (edge_attrs F D (clock (fst x)) (snd (snd (snd x))))))"
    by (simp add: fun_eq_iff)
  have "read_dot (render_edges_as_dot F D clock edges label_fn) =
      map (\<lambda>x. (label_fn (fst (snd x)), label_fn (fst (snd (snd x))),
        join_with CHR '' '' (edge_attrs F D (clock (fst x)) (snd (snd (snd x)))))) (enumerate 0 edges)"
    unfolding render_edges_as_dot_def read_dot_head lines
    by (rule read_lines) (metis assms clean_attrs clean_join)
  then show ?thesis by (simp add: case_prod_unfold)
qed

lemma set_enumerate_snd: "snd ` set (enumerate n xs) = set xs"
  by (metis list.set_map map_snd_enumerate)

lemma index_reach:
  assumes ok: "graph_ok enc g" and k: "(k, i) \<in> set (ig_indices g)"
  shows "(l, j) \<in> set (ig_indices g) \<Longrightarrow> (i, j) \<in> (fst ` set (ig_edges g))\<^sup>* \<longleftrightarrow> (k, l) \<in> {e. links g e \<noteq> None}\<^sup>*"
proof
  assume "(i, j) \<in> (fst ` set (ig_edges g))\<^sup>*" and "(l, j) \<in> set (ig_indices g)"
  then show "(k, l) \<in> {e. links g e \<noteq> None}\<^sup>*"
  proof (induction arbitrary: l rule: rtrancl_induct)
    case base
    with graph_okD(4) [OF ok k] graph_okD(4) [OF ok base] show ?case by simp
  next
    case (step m j)
    then obtain l' where l': "(l', m) \<in> set (ig_indices g)" using graph_okD(5) [OF ok] by fastforce
    have "map_of (ig_edges g) (m, j) \<noteq> None" using step(2) by (simp add: map_of_eq_None_iff)
    with links_at [OF ok l' step(4)] have "(l', l) \<in> {e. links g e \<noteq> None}" by simp
    with step(3) [OF l'] show ?case by (rule rtrancl_into_rtrancl)
  qed
next
  assume "(k, l) \<in> {e. links g e \<noteq> None}\<^sup>*" and "(l, j) \<in> set (ig_indices g)"
  then show "(i, j) \<in> (fst ` set (ig_edges g))\<^sup>*"
  proof (induction arbitrary: j rule: rtrancl_induct)
    case base
    with k graph_okD(1) [OF ok] have "i = j" by (metis by_left_mem option.inject)
    then show ?case by simp
  next
    case (step l' l)
    from step(2) links_dom [of g] obtain m where m: "(l', m) \<in> set (ig_indices g)" by (force simp: keys_def)
    from step(2) links_at [OF ok m step(4)] have "map_of (ig_edges g) (m, j) \<noteq> None" by simp
    then have "(m, j) \<in> fst ` set (ig_edges g)" by (metis map_of_eq_None_iff)
    with step(3) [OF m] show ?case by (rule rtrancl_into_rtrancl)
  qed
qed

text \<open>The edges of the reachable rendering, when \<open>bfs\<close> visits what can be reached.\<close>

lemma reachable_edges_set:
  assumes ok: "graph_ok enc g"
    and bfs: "\<And>i. i \<in> snd ` set (ig_indices g) \<Longrightarrow>
      set (bfs (\<lambda>n. map (snd \<circ> fst) (filter (\<lambda>((a, b), w). a = n) (ig_edges g))) i) = {j. (i, j) \<in> (fst ` set (ig_edges g))\<^sup>*}"
  shows "(a, b, w) \<in> set (reachable_edges bfs me g) \<longleftrightarrow>
    links g (a, b) = Some w \<and> (me, a) \<in> {e. links g e \<noteq> None}\<^sup>*"
proof (cases "by_left (ig_indices g) me")
  case None
  then have "me \<notin> keys g" using keys_by_left [of g me] by simp
  then have "(me, a) \<in> {e. links g e \<noteq> None}\<^sup>* \<Longrightarrow> a = me" using links_dom [of g] by (auto elim: converse_rtranclE)
  moreover have "links g (me, b) = None" using \<open>me \<notin> keys g\<close> links_dom [of g] by blast
  ultimately show ?thesis using None by (auto simp: reachable_edges_def)
next
  case (Some i)
  then have i: "(me, i) \<in> set (ig_indices g)" using graph_okD(1) [OF ok] by (simp add: by_left_mem)
  have visited: "set (bfs (\<lambda>n. map (snd \<circ> fst) (filter (\<lambda>((a, b), w). a = n) (ig_edges g))) i) = {j. (i, j) \<in> (fst ` set (ig_edges g))\<^sup>*}"
    using i by (intro bfs) force
  have onward: "((x, y), v) \<in> set (ig_edges g) \<Longrightarrow> (i, x) \<in> (fst ` set (ig_edges g))\<^sup>* \<Longrightarrow>
      (i, y) \<in> (fst ` set (ig_edges g))\<^sup>*" for x y v
    by (metis pair_mem(1) rtrancl_into_rtrancl)
  have "(a, b, w) \<in> set (reachable_edges bfs me g) \<longleftrightarrow> (\<exists>x y. (a, x) \<in> set (ig_indices g) \<and> (b, y) \<in> set (ig_indices g) \<and>
      ((x, y), w) \<in> set (ig_edges g) \<and> (i, x) \<in> (fst ` set (ig_edges g))\<^sup>*)"
    unfolding reachable_edges_def Some option.case Let_def keyed_edges_set [OF ok] visited
    using onward by simp blast
  also have "\<dots> \<longleftrightarrow> (\<exists>x y. (a, x) \<in> set (ig_indices g) \<and> (b, y) \<in> set (ig_indices g) \<and>
      ((x, y), w) \<in> set (ig_edges g) \<and> (me, a) \<in> {e. links g e \<noteq> None}\<^sup>*)"
    using index_reach [OF ok i] by blast
  also have "\<dots> \<longleftrightarrow> (a, b, w) \<in> set (connected_edges g) \<and> (me, a) \<in> {e. links g e \<noteq> None}\<^sup>*"
    by (auto simp: connected_edges_def keyed_edges_set [OF ok])
  finally show ?thesis by (simp add: connected_edges_set [OF ok])
qed

text \<open>
  C39. The DOT text says what the graph holds: read back line by line, the rendering of the part
  that can be reached names, for labels and numbers without quotes and line breaks, exactly the
  links whose source can be reached from ourselves along links, each with its two labels.
\<close>

theorem dot_reachable_exact:
  assumes "graph_ok enc g"
    and "\<And>i. i \<in> snd ` set (ig_indices g) \<Longrightarrow>
      set (bfs (\<lambda>n. map (snd \<circ> fst) (filter (\<lambda>((a, b), w). a = n) (ig_edges g))) i) = {j. (i, j) \<in> (fst ` set (ig_edges g))\<^sup>*}"
    and "\<And>k. clean (label_fn k)" and "\<And>x. clean (show_2 D x)" and "\<And>b. clean (show_balance D b)"
  shows "(\<lambda>(src, dst, _). (src, dst)) ` set (read_dot (render_dot_reachable_with_labels F D clock bfs me g label_fn)) =
    {(label_fn a, label_fn b) | a b. links g (a, b) \<noteq> None \<and> (me, a) \<in> {e. links g e \<noteq> None}\<^sup>*}"
proof -
  let ?es = "reachable_edges bfs me g"
  have reach: "(a, b, w) \<in> set ?es \<longleftrightarrow> links g (a, b) = Some w \<and> (me, a) \<in> {e. links g e \<noteq> None}\<^sup>*" for a b w
    by (rule reachable_edges_set [OF assms(1)]) (rule assms(2))
  have "(\<lambda>(src, dst, _). (src, dst)) ` set (read_dot (render_dot_reachable_with_labels F D clock bfs me g label_fn)) =
      (\<lambda>(a, b, _). (label_fn a, label_fn b)) ` snd ` set (enumerate 0 ?es)"
    by (force simp: render_dot_reachable_with_labels_def dot_reads_back [OF assms(3-5)] image_image case_prod_unfold)
  also have "\<dots> = {(label_fn a, label_fn b) | a b w. (a, b, w) \<in> set ?es}"
    unfolding set_enumerate_snd by force
  also have "\<dots> = {(label_fn a, label_fn b) | a b. links g (a, b) \<noteq> None \<and> (me, a) \<in> {e. links g e \<noteq> None}\<^sup>*}"
    unfolding reach not_None_eq by blast
  finally show ?thesis .
qed

text \<open>Two links: from ourselves (7) to 8, and from 9, which cannot be reached, to us.\<close>

definition dot_env :: "(nat, (nat, nat, nat, nat) observations, nat) graph_env" where
  "dot_env = \<lparr>ge_bytes = (\<lambda>k. [of_nat k]), ge_default = observations_default, ge_below_one = Some,
    ge_set_health = set_health\<rparr>"

definition dot_graph :: "(nat, (nat, nat, nat, nat) observations) inner_graph" where
  "dot_graph = graph_run dot_env [UpsertEdge 7 8 id, UpsertEdge 9 7 id] (inner_new (ge_bytes dot_env) 7)"

definition dot_bfs :: "(nat \<Rightarrow> nat list) \<Rightarrow> nat \<Rightarrow> nat list" where
  "dot_bfs succ i = remdups (i # succ i @ concat (map succ (succ i)))"

lemma dot_graph_eval:
  "ig_indices dot_graph = [(9, 2), (8, 1), (7, 0)]"
  "ig_edges dot_graph = [((0, 1), observations_default), ((2, 0), observations_default)]"
  by code_simp+

lemma dot_reach: "{j. (i, j) \<in> {(0, Suc 0), (2, 0)}\<^sup>*} = (if i = 2 then {2, 0, Suc 0} else if i = 0 then {0, Suc 0} else {i})"
proof -
  let ?R = "{(0, Suc 0), (2, 0)}"
  have "(0, Suc 0) \<in> ?R\<^sup>*" "(2, 0) \<in> ?R\<^sup>*" by (rule r_into_rtrancl, simp)+
  moreover from this have "(2, Suc 0) \<in> ?R\<^sup>*" by (rule rtrancl_trans [rotated])
  moreover have within: "j \<in> (if i = 2 then {2, 0, Suc 0} else if i = 0 then {0, Suc 0} else {i})" if "(i, j) \<in> ?R\<^sup>*" for j
    using that by (induction rule: rtrancl_induct) (auto split: if_splits)
  ultimately have "(if i = 2 then {2, 0, Suc 0} else if i = 0 then {0, Suc 0} else {i}) \<subseteq> {j. (i, j) \<in> ?R\<^sup>*}" by simp
  moreover have "{j. (i, j) \<in> ?R\<^sup>*} \<subseteq> (if i = 2 then {2, 0, Suc 0} else if i = 0 then {0, Suc 0} else {i})"
    using within by blast
  ultimately show ?thesis by (intro subset_antisym)
qed

theorem dot_reachable_exact_witness:
  "(\<lambda>(src, dst, _). (src, dst)) ` set (read_dot (render_dot_reachable_with_labels sample_floats
      \<lparr>show_2 = digits, show_balance = digits\<rparr> (\<lambda>_. 0) dot_bfs 7 dot_graph digits)) = {(''7'', ''8'')}"
proof -
  have ok: "graph_ok (ge_bytes dot_env) dot_graph" unfolding dot_graph_def by (rule new_run(1))
  have bfs: "set (dot_bfs (\<lambda>n. map (snd \<circ> fst) (filter (\<lambda>((a, b), w). a = n) (ig_edges dot_graph))) i) =
      {j. (i, j) \<in> (fst ` set (ig_edges dot_graph))\<^sup>*}" if "i \<in> snd ` set (ig_indices dot_graph)" for i
    using that by (auto simp: dot_graph_eval dot_bfs_def dot_reach)
  have links: "links dot_graph = [(7, 8) \<mapsto> observations_default, (9, 7) \<mapsto> observations_default]"
    using new_run(2) [of dot_env "[UpsertEdge 7 8 id, UpsertEdge 9 7 id]" 7]
    by (simp add: dot_graph_def dot_env_def unwrap_or_def)
  then have dom: "{e. links dot_graph e \<noteq> None} = {(7, 8), (9, 7)}" by (auto split: if_splits)
  have "a \<in> {7, 8}" if "(7, a) \<in> {(7, 8), (9, 7)}\<^sup>*" for a :: nat
    using that by (induction rule: rtrancl_induct) auto
  then have "(7, 9 :: nat) \<notin> {(7, 8), (9, 7)}\<^sup>*" by force
  moreover have "links dot_graph (a, b) \<noteq> None \<longleftrightarrow> (a, b) \<in> {(7, 8), (9, 7)}" for a b using dom by blast
  ultimately have "{(digits a, digits b) | a b. links dot_graph (a, b) \<noteq> None \<and> (7, a) \<in> {e. links dot_graph e \<noteq> None}\<^sup>*} =
      {(digits 7, digits 8)}"
    unfolding dom by auto
  moreover have "digits 7 = ''7''" "digits 8 = ''8''" by code_simp+
  ultimately show ?thesis
    using dot_reachable_exact [where bfs = dot_bfs and me = 7 and F = sample_floats and clock = "\<lambda>_. 0"
      and label_fn = digits and D = "\<lparr>show_2 = digits, show_balance = digits\<rparr>", OF ok bfs] by simp
qed

end
