(* ===== verification/Connector_Errors.thy ===== *)
theory Connector_Errors
  imports Ticket_Types
begin

text \<open>
  The errors of the chain connector (\<open>connector/src/errors.rs\<close>): what the connector reports,
  and how it reads the outcome of a submission to Blokli out of a client error. The kinds of the
  client library that the connector tells apart are the constructors of \<open>error_kind\<close>; all
  others are \<open>OtherKind\<close>. Durations are in nanoseconds.
\<close>

section \<open>Error kinds of the client\<close>

type_synonym duration = nat

definition from_secs :: "nat \<Rightarrow> duration" where
  "from_secs n = n * 1000000000"

datatype tracking_kind = Reverted | ValidationFailed | OtherTracking string

datatype error_kind =
    TrackingError tracking_kind
  | HoprActionRejected string string
  | HoprActionThrottled duration
  | BlokliError (kind: string) (code: string)
  | OtherKind string

section \<open>Connector errors\<close>

datatype connector_error =
    InvalidArguments string
  | InvalidState string
  | ServerNotHealthy
  | AccountDoesNotExist string
  | SafeDoesNotExist address
  | ChannelDoesNotExist channel_id
  | BadTicket
  | ChannelClosed channel_id
  | InnerTxFailed string
  | TypeConversion string
  | ConnectionTimeout
  | BackendError string
  | CacheError connector_error
  | ClientError error_kind
  | GeneralError string
  | ChainTypesError string
  | CoreTypesError string
  | IoError string
  | OtherError string

fun client_error_kind :: "connector_error \<Rightarrow> error_kind option" where
  "client_error_kind (ClientError k) = Some k"
| "client_error_kind (CacheError inner) = client_error_kind inner"
| "client_error_kind _ = None"

definition blokli_overloaded_retry_after :: duration where
  "blokli_overloaded_retry_after = from_secs 5"

definition as_transaction_rejection_error :: "connector_error \<Rightarrow> tracking_kind option" where
  "as_transaction_rejection_error e =
    (case client_error_kind e of
       Some (TrackingError Reverted) \<Rightarrow> Some Reverted
     | Some (TrackingError ValidationFailed) \<Rightarrow> Some ValidationFailed
     | _ \<Rightarrow> None)"

definition as_hopr_action_rejection :: "connector_error \<Rightarrow> (string \<times> string) option" where
  "as_hopr_action_rejection e =
    (case client_error_kind e of
       Some (HoprActionRejected operation reason) \<Rightarrow> Some (operation, reason)
     | _ \<Rightarrow> None)"

definition retry_after :: "connector_error \<Rightarrow> duration option" where
  "retry_after e =
    (case client_error_kind e of
       Some (HoprActionThrottled d) \<Rightarrow> Some d
     | Some (BlokliError k c) \<Rightarrow> if k = ''overloaded'' then Some blokli_overloaded_retry_after else None
     | _ \<Rightarrow> None)"

definition is_refused_before_broadcast :: "connector_error \<Rightarrow> bool" where
  "is_refused_before_broadcast e \<longleftrightarrow>
    as_hopr_action_rejection e \<noteq> None \<or> retry_after e \<noteq> None \<or>
    (case client_error_kind e of
       Some (BlokliError k c) \<Rightarrow> k = ''contract not allowed'' \<or> k = ''function not allowed''
     | _ \<Rightarrow> False)"

definition rpc_rejection_code :: "connector_error \<Rightarrow> string option" where
  "rpc_rejection_code e =
    (case client_error_kind e of
       Some (BlokliError k c) \<Rightarrow> if k = ''rpc error'' then Some c else None
     | _ \<Rightarrow> None)"

lemmas error_reading_defs =
  as_transaction_rejection_error_def as_hopr_action_rejection_def retry_after_def
  is_refused_before_broadcast_def rpc_rejection_code_def

text \<open>The readings of an error look through any number of cached layers.\<close>

lemma cached_reading [simp]:
  "as_transaction_rejection_error (CacheError e) = as_transaction_rejection_error e"
  "as_hopr_action_rejection (CacheError e) = as_hopr_action_rejection e"
  "retry_after (CacheError e) = retry_after e"
  "is_refused_before_broadcast (CacheError e) = is_refused_before_broadcast e"
  "rpc_rejection_code (CacheError e) = rpc_rejection_code e"
  by (simp_all add: error_reading_defs)

text \<open>A refusal before the broadcast never carries a code of the RPC node, nor a rejection by the chain.\<close>

lemma refused_no_rpc_code:
  assumes "is_refused_before_broadcast e"
  shows "rpc_rejection_code e = None" and "as_transaction_rejection_error e = None"
  using assms
  by (auto simp: error_reading_defs split: option.splits error_kind.splits if_splits)

end
