(* ===== verification/Nonce_Sequencer.thy ===== *)
theory Nonce_Sequencer
  imports Connector_Errors
begin

text \<open>
  The transaction sequencer (\<open>connector/src/connector/sequencer.rs\<close>): one task takes the
  queued transactions one at a time, picks the nonce, signs, submits, and decides from the
  outcome whether the nonce is used up. The three caches are maps; what they drop on their own
  (idle entries, entries over the capacity) are events of the environment, which may also fall
  between the signing of a transaction and the outcome of its submission. The chain and Blokli
  are replies given to each request. Instants are numbers of nanoseconds.
\<close>

type_synonym tx_id = string
type_synonym instant = nat

section \<open>The caches of the sequencer\<close>

record sequencer =
  nonces :: "address \<Rightarrow> u64 option"
  gaps :: "address \<Rightarrow> (u64 \<times> instant) option"
  issued :: "tx_id set"

definition sequencer_new :: sequencer where
  "sequencer_new = \<lparr>nonces = (\<lambda>_. None), gaps = (\<lambda>_. None), issued = {}\<rparr>"

definition other_signer_nonce_expiration :: duration where
  "other_signer_nonce_expiration = from_secs (5 * 60)"

definition duration_for :: "address \<Rightarrow> duration \<Rightarrow> address \<Rightarrow> duration option" where
  "duration_for fixed tti key = (if key = fixed then None else Some tti)"

text \<open>\<open>entry(signer).or_default()\<close>: the cached nonce, 0 when there is none.\<close>

definition nonce_or_default :: "sequencer \<Rightarrow> address \<Rightarrow> u64" where
  "nonce_or_default st s = (case nonces st s of Some n \<Rightarrow> n | None \<Rightarrow> 0)"

section \<open>Choosing the nonce\<close>

text \<open>How long the local nonce stayed ahead of one and the same pending count.\<close>

definition nonce_gap_age ::
  "(address \<Rightarrow> (u64 \<times> instant) option) \<Rightarrow> address \<Rightarrow> u64 \<Rightarrow> u64 \<Rightarrow> instant \<Rightarrow>
    (address \<Rightarrow> (u64 \<times> instant) option) \<times> duration option"
where
  "nonce_gap_age g signer local pending now =
    (if local \<le> pending then (g(signer := None), None)
     else (case g signer of
             Some (gap_pending, since) \<Rightarrow>
               if gap_pending = pending then (g, Some (now - since))
               else (g(signer \<mapsto> (pending, now)), Some 0)
           | None \<Rightarrow> (g(signer \<mapsto> (pending, now)), Some 0)))"

text \<open>The nonce to sign with, the stored nonce and the gap records afterwards.\<close>

definition sync_nonce ::
  "u64 \<Rightarrow> (address \<Rightarrow> (u64 \<times> instant) option) \<Rightarrow> address \<Rightarrow> u64 \<Rightarrow> duration \<Rightarrow> instant \<Rightarrow>
    u64 \<times> u64 \<times> (address \<Rightarrow> (u64 \<times> instant) option)"
where
  "sync_nonce local g signer pending tolerance now =
    (let (g1, age) = nonce_gap_age g signer local pending now;
         resync = (case age of Some d \<Rightarrow> tolerance \<le> d | None \<Rightarrow> False);
         local1 = (if resync then pending else local);
         g2 = (if resync then g1(signer := None) else g1)
     in (max local1 pending, max local1 pending, g2))"

definition choose_nonce ::
  "sequencer \<Rightarrow> address \<Rightarrow> u64 \<Rightarrow> duration \<Rightarrow> instant \<Rightarrow> u64 \<times> sequencer"
where
  "choose_nonce st signer pending tolerance now =
    (let (nonce, local, g) =
           sync_nonce (nonce_or_default st signer) (gaps st) signer pending tolerance now
     in (nonce, st\<lparr>nonces := (nonces st)(signer \<mapsto> local), gaps := g\<rparr>))"

section \<open>Settling the outcome\<close>

definition record_issued_tx_id :: "tx_id set \<Rightarrow> tx_id \<Rightarrow> bool \<times> tx_id set" where
  "record_issued_tx_id ids i = (if i \<in> ids then (False, ids) else (True, insert i ids))"

text \<open>
  The outer error says that the transaction never reached Blokli; the inner result is Blokli's.
\<close>

type_synonym submission = "connector_error + (connector_error + tx_id)"

definition nonce_consumed :: "submission \<Rightarrow> bool \<Rightarrow> bool option" where
  "nonce_consumed submission deduplicated =
    (case submission of
       Inl _ \<Rightarrow> Some False
     | Inr (Inr _) \<Rightarrow> Some (\<not> deduplicated)
     | Inr (Inl e) \<Rightarrow>
         if is_refused_before_broadcast e then Some False
         else (case rpc_rejection_code e of
                 Some c \<Rightarrow>
                   if c = ''NONCE_TOO_LOW'' \<or> c = ''REPLACEMENT_UNDERPRICED'' then Some True
                   else if c = ''FEE_TOO_LOW'' \<or> c = ''INSUFFICIENT_FUNDS'' then Some False
                   else None
               | None \<Rightarrow> None))"

definition deduplicate :: "sequencer \<Rightarrow> submission \<Rightarrow> bool \<times> sequencer" where
  "deduplicate st sub =
    (case sub of
       Inr (Inr i) \<Rightarrow>
         (let (fresh, ids) = record_issued_tx_id (issued st) i in (\<not> fresh, st\<lparr>issued := ids\<rparr>))
     | _ \<Rightarrow> (False, st))"

definition settle :: "sequencer \<Rightarrow> address \<Rightarrow> submission \<Rightarrow> sequencer" where
  "settle st signer sub =
    (let (deduplicated, st1) = deduplicate st sub
     in (case nonce_consumed sub deduplicated of
           Some True \<Rightarrow> st1\<lparr>nonces := (nonces st1)(signer \<mapsto> nonce_or_default st1 signer + 1)\<rparr>
         | Some False \<Rightarrow> st1
         | None \<Rightarrow> st1\<lparr>nonces := (nonces st1)(signer := None)\<rparr>))"

section \<open>One request\<close>

text \<open>
  What a request meets: the answers of the two queries (the chain info already converted), the
  signing and Blokli's reply to the raw transaction.
\<close>

record ('tx, 'raw, 'ci) replies =
  chain_info :: "connector_error + 'ci"
  tx_count :: "connector_error + u64"
  sign_and_encode :: "'tx \<Rightarrow> u64 \<Rightarrow> 'ci \<Rightarrow> address \<Rightarrow> connector_error + 'raw"
  submit_and_track :: "'raw \<Rightarrow> connector_error + tx_id"

definition submit_tx ::
  "sequencer \<Rightarrow> 'tx \<Rightarrow> address \<Rightarrow> duration \<Rightarrow> instant \<Rightarrow> ('tx, 'raw, 'ci) replies \<Rightarrow>
    submission \<times> sequencer"
where
  "submit_tx st tx signer tolerance now r =
    (case chain_info r of
       Inl e \<Rightarrow> (Inl e, st)
     | Inr ci \<Rightarrow>
         (case tx_count r of
            Inl e \<Rightarrow> (Inl e, st)
          | Inr pending \<Rightarrow>
              (let (nonce, st1) = choose_nonce st signer pending tolerance now
               in (case sign_and_encode r tx nonce ci signer of
                     Inl e \<Rightarrow> (Inl e, st1)
                   | Inr raw \<Rightarrow> (Inr (submit_and_track r raw), st1)))))"

text \<open>What a cache drops on its own: by idle time, by age or by capacity.\<close>

datatype forget = ForgetNonce address | ForgetGap address | ForgetId tx_id

fun drop_entry :: "forget \<Rightarrow> sequencer \<Rightarrow> sequencer" where
  "drop_entry (ForgetNonce a) st = st\<lparr>nonces := (nonces st)(a := None)\<rparr>"
| "drop_entry (ForgetGap a) st = st\<lparr>gaps := (gaps st)(a := None)\<rparr>"
| "drop_entry (ForgetId i) st = st\<lparr>issued := issued st - {i}\<rparr>"

record ('tx, 'raw, 'ci) request =
  transaction :: 'tx
  tx_signer :: "address option"
  at :: instant
  met :: "('tx, 'raw, 'ci) replies"
  dropped :: "forget list"

text \<open>\<open>dropped\<close> is what the caches drop while the submission is awaited.\<close>

definition signer_of :: "address \<Rightarrow> ('tx, 'raw, 'ci) request \<Rightarrow> address" where
  "signer_of own q = unwrap_or own (tx_signer q)"

definition sequence_transaction ::
  "address \<Rightarrow> duration \<Rightarrow> ('tx, 'raw, 'ci) request \<Rightarrow> sequencer \<Rightarrow>
    (connector_error + tx_id) \<times> sequencer"
where
  "sequence_transaction own tolerance q st =
    (let signer = signer_of own q;
         (sub, st1) = submit_tx st (transaction q) signer tolerance (at q) (met q);
         st2 = fold drop_entry (dropped q) st1
     in (and_then sub id, settle st2 signer sub))"

section \<open>The queue\<close>

text \<open>
  The channel between \<open>enqueue_transaction\<close> and the task. A fresh clone of the sender has a
  slot of its own, so sending does not wait.
\<close>

record ('tx, 'raw, 'ci) tx_queue =
  queue_open :: bool
  waiting :: "('tx, 'raw, 'ci) request list"
  task :: sequencer

definition enqueue_transaction ::
  "('tx, 'raw, 'ci) request \<Rightarrow> ('tx, 'raw, 'ci) tx_queue \<Rightarrow>
    connector_error + ('tx, 'raw, 'ci) tx_queue"
where
  "enqueue_transaction q tq =
    (if queue_open tq then Inr (tq\<lparr>waiting := waiting tq @ [q]\<rparr>)
     else Inl (InvalidState ''transaction queue dropped''))"

text \<open>What the caller's future makes of the notification (\<open>None\<close>: the notifier was dropped).\<close>

definition await_result ::
  "(tx_id \<Rightarrow> duration \<Rightarrow> error_kind + 'receipt) \<Rightarrow> duration \<Rightarrow> (connector_error + tx_id) option \<Rightarrow>
    connector_error + 'receipt"
where
  "await_result track_transaction timeout note =
    and_then (and_then (ok_or (InvalidState ''transaction notifier dropped'') note) id)
      (\<lambda>i. map_err ClientError (track_transaction i timeout))"

text \<open>\<open>Drop\<close> closes the channel: what is queued is still handed out, nothing new is taken.\<close>

definition drop_sequencer :: "('tx, 'raw, 'ci) tx_queue \<Rightarrow> ('tx, 'raw, 'ci) tx_queue" where
  "drop_sequencer tq = tq\<lparr>queue_open := False\<rparr>"

text \<open>The task takes the oldest request; with none left and the channel closed it ends.\<close>

definition work_one ::
  "address \<Rightarrow> duration \<Rightarrow> ('tx, 'raw, 'ci) tx_queue \<Rightarrow>
    (connector_error + tx_id) option \<times> ('tx, 'raw, 'ci) tx_queue"
where
  "work_one own tolerance tq =
    (case waiting tq of
       [] \<Rightarrow> (None, tq)
     | q # qs \<Rightarrow>
         (let (r, st) = sequence_transaction own tolerance q (task tq)
          in (Some r, tq\<lparr>waiting := qs, task := st\<rparr>)))"

primrec work_off ::
  "nat \<Rightarrow> address \<Rightarrow> duration \<Rightarrow> ('tx, 'raw, 'ci) tx_queue \<Rightarrow>
    (connector_error + tx_id) list \<times> ('tx, 'raw, 'ci) tx_queue"
where
  "work_off 0 own tolerance tq = ([], tq)"
| "work_off (Suc k) own tolerance tq =
    (case work_one own tolerance tq of
       (None, tq') \<Rightarrow> ([], tq')
     | (Some r, tq') \<Rightarrow> (case work_off k own tolerance tq' of (rs, tq'') \<Rightarrow> (r # rs, tq'')))"

lemma work_off_drains:
  "length (waiting tq) \<le> k \<Longrightarrow> waiting (snd (work_off k own tol tq)) = [] \<and>
     length (fst (work_off k own tol tq)) = length (waiting tq)"
proof (induction k arbitrary: tq)
  case (Suc k)
  show ?case
  proof (cases "waiting tq")
    case (Cons q qs)
    obtain r st where rs: "sequence_transaction own tol q (task tq) = (r, st)" by fastforce
    let ?tq = "tq\<lparr>waiting := qs, task := st\<rparr>"
    have "waiting (snd (work_off k own tol ?tq)) = [] \<and>
        length (fst (work_off k own tol ?tq)) = length qs"
      using Suc.IH [of ?tq] Suc.prems Cons by simp
    then show ?thesis using Cons rs
      by (cases "work_off k own tol ?tq") (simp add: work_one_def)
  qed (simp add: work_one_def)
qed simp

section \<open>How the parts act\<close>

named_theorems seq_simps \<open>fields of the sequencer after its operations\<close>

lemma nonce_gap_age_ahead [simp]:
  "\<not> local \<le> pending \<Longrightarrow> g s = Some (pending, since) \<Longrightarrow>
     nonce_gap_age g s local pending now = (g, Some (now - since))"
  by (simp add: nonce_gap_age_def)

lemma nonce_gap_age_other:
  "t \<noteq> s \<Longrightarrow> fst (nonce_gap_age g s local pending now) t = g t"
  by (auto simp: nonce_gap_age_def split: option.splits)

lemma choose_nonce_bounds:
  "pending \<le> fst (choose_nonce st s pending tol now)"
  "fst (choose_nonce st s pending tol now) \<le> max (nonce_or_default st s) pending"
  by (auto simp: choose_nonce_def sync_nonce_def Let_def split: prod.splits)

lemma choose_nonce_stored [seq_simps]:
  "nonces (snd (choose_nonce st s pending tol now)) = (nonces st)(s \<mapsto> fst (choose_nonce st s pending tol now))"
  "issued (snd (choose_nonce st s pending tol now)) = issued st"
  by (auto simp: choose_nonce_def sync_nonce_def Let_def split: prod.splits)

lemma choose_nonce_gaps_other [seq_simps]:
  "t \<noteq> s \<Longrightarrow> gaps (snd (choose_nonce st s pending tol now)) t = gaps st t"
  using nonce_gap_age_other [of t s "gaps st" "nonce_or_default st s" pending now]
  by (auto simp: choose_nonce_def sync_nonce_def Let_def split: prod.splits)

lemma deduplicate_fields [seq_simps]:
  "nonces (snd (deduplicate st sub)) = nonces st"
  "gaps (snd (deduplicate st sub)) = gaps st"
  "issued st \<subseteq> issued (snd (deduplicate st sub))"
  by (auto simp: deduplicate_def record_issued_tx_id_def split: sum.splits)

lemma settle_fields [seq_simps]:
  "gaps (settle st s sub) = gaps st"
  "issued (settle st s sub) = issued (snd (deduplicate st sub))"
  "t \<noteq> s \<Longrightarrow> nonces (settle st s sub) t = nonces st t"
  using deduplicate_fields [of st sub]
  by (auto simp: settle_def Let_def split: prod.splits option.splits bool.splits)

section \<open>The chain's view of a signer\<close>

text \<open>
  For one signer: how many of its transactions the chain has accepted (the next nonce the chain
  takes), and the tracking ids of transactions in flight that were handed to this sequencer.
  \<open>blokli_answer n\<close> relates a submission signed with the nonce \<open>n\<close> to the reply and to the
  chain's state afterwards: the documented behaviour of Blokli and of the RPC node. A
  transaction signed ahead of the chain is queued there and does not count as accepted.
\<close>

inductive blokli_answer ::
  "u64 \<Rightarrow> nat \<Rightarrow> tx_id set \<Rightarrow> connector_error + tx_id \<Rightarrow> nat \<Rightarrow> tx_id set \<Rightarrow> bool"
where
  accepted_now: "unat n = acc \<Longrightarrow> blokli_answer n acc fl (Inr i) (acc + 1) (insert i fl)"
| queued_ahead: "acc < unat n \<Longrightarrow> blokli_answer n acc fl (Inr i) acc (insert i fl)"
| retry_in_flight: "i \<in> fl \<Longrightarrow> blokli_answer n acc fl (Inr i) acc fl"
| refused: "is_refused_before_broadcast e \<Longrightarrow> blokli_answer n acc fl (Inl e) acc fl"
| nonce_taken: "rpc_rejection_code e = Some c \<Longrightarrow>
    c = ''NONCE_TOO_LOW'' \<or> c = ''REPLACEMENT_UNDERPRICED'' \<Longrightarrow> unat n < acc \<Longrightarrow>
    blokli_answer n acc fl (Inl e) acc fl"
| not_funded: "rpc_rejection_code e = Some c \<Longrightarrow>
    c = ''FEE_TOO_LOW'' \<or> c = ''INSUFFICIENT_FUNDS'' \<Longrightarrow> blokli_answer n acc fl (Inl e) acc fl"
| lost: "nonce_consumed (Inr (Inl e)) False = None \<Longrightarrow> blokli_answer n acc fl (Inl e) acc fl"
| lost_accepted: "nonce_consumed (Inr (Inl e)) False = None \<Longrightarrow> unat n = acc \<Longrightarrow>
    blokli_answer n acc fl (Inl e) (acc + 1) fl"

record chain_view =
  sequ :: sequencer
  accepted :: nat
  in_flight :: "tx_id set"

text \<open>
  The steps: a request of the observed signer \<open>s\<close> whose pending count is not above the accepted
  ones, a request of any other signer, entries dropped by the caches (an id only once its
  transaction is no longer in flight), a transaction leaving the flight, and a transaction of
  the same signer sent from elsewhere.
\<close>

definition may_drop :: "tx_id set \<Rightarrow> forget \<Rightarrow> bool" where
  "may_drop fl f = (case f of ForgetId i \<Rightarrow> i \<notin> fl | _ \<Rightarrow> True)"

datatype ('tx, 'raw, 'ci) view_event = Request "('tx, 'raw, 'ci) request" | Environment

inductive view_step ::
  "address \<Rightarrow> duration \<Rightarrow> address \<Rightarrow> chain_view \<Rightarrow> ('tx, 'raw, 'ci) view_event \<Rightarrow> chain_view \<Rightarrow> bool"
  for own :: address and tolerance :: duration and s :: address and v :: chain_view
where
  own_request: "signer_of own q = s \<Longrightarrow> chain_info (met q) = Inr ci \<Longrightarrow>
    tx_count (met q) = Inr pending \<Longrightarrow> unat pending \<le> accepted v \<Longrightarrow>
    choose_nonce (sequ v) s pending tolerance (at q) = (n, st1) \<Longrightarrow>
    sign_and_encode (met q) (transaction q) n ci s = Inr raw \<Longrightarrow>
    blokli_answer n (accepted v) (in_flight v) (submit_and_track (met q) raw) acc' fl' \<Longrightarrow>
    list_all (may_drop (in_flight v)) (dropped q) \<Longrightarrow>
    view_step own tolerance s v (Request q)
      \<lparr>sequ = snd (sequence_transaction own tolerance q (sequ v)), accepted = acc', in_flight = fl'\<rparr>"
| own_unsent: "signer_of own q = s \<Longrightarrow>
    (\<And>pending. tx_count (met q) = Inr pending \<Longrightarrow> unat pending \<le> accepted v) \<Longrightarrow>
    submit_tx (sequ v) (transaction q) s tolerance (at q) (met q) = (Inl e, st1) \<Longrightarrow>
    list_all (may_drop (in_flight v)) (dropped q) \<Longrightarrow>
    view_step own tolerance s v (Request q)
      (v\<lparr>sequ := snd (sequence_transaction own tolerance q (sequ v))\<rparr>)"
| other_request: "signer_of own q \<noteq> s \<Longrightarrow> list_all (may_drop (in_flight v)) (dropped q) \<Longrightarrow>
    view_step own tolerance s v (Request q)
      (v\<lparr>sequ := snd (sequence_transaction own tolerance q (sequ v))\<rparr>)"
| idle_drop: "may_drop (in_flight v) f \<Longrightarrow>
    view_step own tolerance s v Environment (v\<lparr>sequ := drop_entry f (sequ v)\<rparr>)"
| landed: "fl' \<subseteq> in_flight v \<Longrightarrow>
    view_step own tolerance s v Environment (v\<lparr>in_flight := fl'\<rparr>)"
| sent_elsewhere: "view_step own tolerance s v Environment (v\<lparr>accepted := accepted v + 1\<rparr>)"

inductive view_reach ::
  "address \<Rightarrow> duration \<Rightarrow> address \<Rightarrow> ('tx, 'raw, 'ci) view_event list \<Rightarrow> chain_view \<Rightarrow> bool"
  for own :: address and tolerance :: duration and s :: address
where
  view_start: "view_reach own tolerance s [] \<lparr>sequ = sequencer_new, accepted = acc, in_flight = {}\<rparr>"
| view_next: "view_reach own tolerance s es v \<Longrightarrow> view_step own tolerance s v e v' \<Longrightarrow>
    view_reach own tolerance s (es @ [e]) v'"

text \<open>The invariant: the stored nonce is not ahead of the chain, the ids in flight are remembered.\<close>

definition view_ok :: "address \<Rightarrow> chain_view \<Rightarrow> bool" where
  "view_ok s v \<longleftrightarrow> unat (nonce_or_default (sequ v) s) \<le> accepted v \<and> in_flight v \<subseteq> issued (sequ v)"

lemma drop_entries_ok:
  assumes "list_all (may_drop fl) fs" and "fl \<subseteq> issued st"
  shows "fl \<subseteq> issued (fold drop_entry fs st)"
  using assms
proof (induction fs arbitrary: st)
  case (Cons f fs)
  then have "fl \<subseteq> issued (drop_entry f st)" by (cases f) (auto simp: may_drop_def)
  then show ?case using Cons by simp
qed simp

lemma drop_entries_nonce:
  "nonces (fold drop_entry fs st) s = nonces st s \<or> nonces (fold drop_entry fs st) s = None"
proof (induction fs arbitrary: st)
  case (Cons f fs)
  show ?case using Cons.IH [of "drop_entry f st"] by (cases f) (auto split: if_splits)
qed simp

lemma drop_entries_or_default: "nonce_or_default (fold drop_entry fs st) s \<le> nonce_or_default st s"
  using drop_entries_nonce [of fs st s] by (auto simp: nonce_or_default_def)

lemma unat_succ_le: "unat (n :: u64) < k \<Longrightarrow> unat (n + 1) \<le> k"
  using mod_less_eq_dividend [of "unat n + 1" "2 ^ 64"] by (simp add: unat_word_ariths)

lemma settle_nonce:
  "nonces (settle st s sub) s =
    (case nonce_consumed sub (fst (deduplicate st sub)) of
       Some True \<Rightarrow> Some (nonce_or_default st s + 1)
     | Some False \<Rightarrow> nonces st s
     | None \<Rightarrow> None)"
  using deduplicate_fields(1) [of st sub]
  by (auto simp: settle_def Let_def nonce_or_default_def split: prod.splits option.splits bool.splits)

lemma deduplicate_recorded: "Inr (Inr i) = sub \<Longrightarrow> i \<in> issued (snd (deduplicate st sub))"
  by (auto simp: deduplicate_def record_issued_tx_id_def)

text \<open>The outcome never lifts the stored nonce above what the chain has accepted.\<close>

lemma settle_not_ahead:
  assumes ans: "blokli_answer n acc fl ans acc' fl'"
    and n: "unat n \<le> acc" and l: "unat (nonce_or_default st s) \<le> unat n" and fl: "fl \<subseteq> issued st"
  shows "unat (nonce_or_default (settle st s (Inr ans)) s) \<le> acc' \<and>
    fl' \<subseteq> issued (settle st s (Inr ans))"
proof -
  have ids: "fl \<subseteq> issued (settle st s (Inr ans))"
    using fl by (auto simp: seq_simps dest: subsetD [OF deduplicate_fields(3)])
  have up: "unat n < k \<Longrightarrow> unat (nonce_or_default st s + 1) \<le> k" for k
    using l by (intro unat_succ_le) simp
  have own: "i \<in> issued (settle st s (Inr (Inr i)))" for i
    by (simp add: seq_simps deduplicate_recorded)
  from ans show ?thesis
  proof cases
    case (accepted_now i)
    then show ?thesis using ids n l up [of acc'] own [of i]
      by (auto simp: nonce_or_default_def settle_nonce split: option.splits bool.splits)
  next
    case (retry_in_flight i)
    then have "fst (deduplicate st (Inr ans))"
      using fl by (auto simp: deduplicate_def record_issued_tx_id_def)
    then show ?thesis using retry_in_flight ids n l
      by (auto simp: nonce_or_default_def settle_nonce nonce_consumed_def)
  next
    case (nonce_taken e c)
    then have "nonce_consumed (Inr ans) d = Some True" for d
      using refused_no_rpc_code(1) [of e] by (auto simp: nonce_consumed_def)
    then show ?thesis using nonce_taken ids up [of acc]
      by (simp add: nonce_or_default_def settle_nonce)
  next
    case (not_funded e c)
    then have "nonce_consumed (Inr ans) d = Some False" for d
      using refused_no_rpc_code(1) [of e] by (auto simp: nonce_consumed_def)
    then show ?thesis using not_funded ids n l
      by (simp add: nonce_or_default_def settle_nonce)
  next
    case (refused e)
    then show ?thesis using ids n l
      by (simp add: nonce_or_default_def settle_nonce nonce_consumed_def)
  next
    case (lost e)
    then have "nonce_consumed (Inr ans) d = None" for d by (simp add: nonce_consumed_def)
    then show ?thesis using lost ids by (simp add: nonce_or_default_def settle_nonce)
  next
    case (lost_accepted e)
    then have "nonce_consumed (Inr ans) d = None" for d by (simp add: nonce_consumed_def)
    then show ?thesis using lost_accepted ids by (simp add: nonce_or_default_def settle_nonce)
  qed (use n in simp)
qed

lemma submit_tx_local:
  assumes "\<And>p. tx_count r = Inr p \<Longrightarrow> unat p \<le> acc" and "unat (nonce_or_default st s) \<le> acc"
  shows "unat (nonce_or_default (snd (submit_tx st tx s tol now r)) s) \<le> acc"
proof -
  have "unat (fst (choose_nonce st s p tol now)) \<le> acc" if "unat p \<le> acc" for p
    using choose_nonce_bounds(2) [of st s p tol now] that assms(2)
    by (auto simp: word_le_nat_alt max_def split: if_splits)
  then show "unat (nonce_or_default (snd (submit_tx st tx s tol now r)) s) \<le> acc"
    using assms
    by (auto simp: submit_tx_def nonce_or_default_def Let_def choose_nonce_stored split: sum.splits prod.splits
        dest!: arg_cong [where f = snd])
qed

lemma submit_tx_issued: "issued (snd (submit_tx st tx s tol now r)) = issued st"
  by (auto simp: submit_tx_def choose_nonce_def Let_def split: sum.splits prod.splits)

lemma submit_tx_other:
  "t \<noteq> s \<Longrightarrow> nonces (snd (submit_tx st tx s tol now r)) t = nonces st t"
  by (auto simp: submit_tx_def choose_nonce_def Let_def split: sum.splits prod.splits)

lemma sequence_transaction_eq:
  "submit_tx st (transaction q) (signer_of own q) tol (at q) (met q) = (sub, st1) \<Longrightarrow>
    sequence_transaction own tol q st =
      (and_then sub id, settle (fold drop_entry (dropped q) st1) (signer_of own q) sub)"
  by (simp add: sequence_transaction_def)

text \<open>Other signers' requests only add tracking ids; the observed nonce can only be dropped.\<close>

lemma settle_or_default_other:
  "t \<noteq> s \<Longrightarrow> nonce_or_default (settle st s sub) t = nonce_or_default st t"
  by (simp add: nonce_or_default_def settle_fields)

lemma view_step_ok:
  assumes "view_step own tol s v e v'" and "view_ok s v"
  shows "view_ok s v'"
  using assms(1)
proof cases
  case (own_request q ci pending n st1 raw acc' fl')
  let ?sub = "Inr (submit_and_track (met q) raw)" and ?st2 = "fold drop_entry (dropped q) st1"
  have st1: "nonce_or_default st1 s = n" "issued st1 = issued (sequ v)"
    using choose_nonce_stored [of "sequ v" s pending tol "at q"] own_request(7)
    by (simp_all add: nonce_or_default_def)
  have sub: "submit_tx (sequ v) (transaction q) (signer_of own q) tol (at q) (met q) = (?sub, st1)"
    using own_request by (simp add: submit_tx_def)
  have n: "unat n \<le> accepted v"
    using choose_nonce_bounds(2) [of "sequ v" s pending tol "at q"] own_request assms(2)
    by (auto simp: view_ok_def word_le_nat_alt max_def split: if_splits)
  have l: "unat (nonce_or_default ?st2 s) \<le> unat n"
    using drop_entries_or_default [of "dropped q" st1 s] st1 by (simp add: word_le_nat_alt)
  have fl: "in_flight v \<subseteq> issued ?st2"
    using drop_entries_ok [OF own_request(10)] assms(2) st1 by (simp add: view_ok_def)
  show ?thesis
    using settle_not_ahead [OF own_request(9) n l fl] own_request(2,3) sequence_transaction_eq [OF sub]
    by (simp add: view_ok_def)
next
  case (own_unsent q e' st1)
  let ?st2 = "fold drop_entry (dropped q) st1"
  have st1: "unat (nonce_or_default st1 s) \<le> accepted v" "issued st1 = issued (sequ v)"
    using submit_tx_local [of "met q" "accepted v" "sequ v" s "transaction q" tol "at q"]
      submit_tx_issued [of "sequ v" "transaction q" s tol "at q" "met q"]
      own_unsent assms(2) by (auto simp: view_ok_def)
  have "unat (nonce_or_default ?st2 s) \<le> accepted v"
    using drop_entries_or_default [of "dropped q" st1 s] st1 by (simp add: word_le_nat_alt)
  moreover have "in_flight v \<subseteq> issued ?st2"
    using drop_entries_ok [OF own_unsent(6)] assms(2) st1 by (simp add: view_ok_def)
  moreover have "settle ?st2 s (Inl e') = ?st2"
    by (simp add: settle_def deduplicate_def nonce_consumed_def)
  ultimately show ?thesis
    using own_unsent sequence_transaction_eq [of "sequ v" q own tol "Inl e'" st1] by (simp add: view_ok_def)
next
  case (other_request q)
  obtain sub st1 where sub: "submit_tx (sequ v) (transaction q) (signer_of own q) tol (at q) (met q) = (sub, st1)"
    by fastforce
  let ?st2 = "fold drop_entry (dropped q) st1"
  have st1: "nonce_or_default st1 s = nonce_or_default (sequ v) s" "issued st1 = issued (sequ v)"
    using submit_tx_other [of s "signer_of own q" "sequ v" "transaction q" tol "at q" "met q"]
      submit_tx_issued [of "sequ v" "transaction q" "signer_of own q" tol "at q" "met q"]
      other_request(3) sub
    by (auto simp: nonce_or_default_def)
  have "nonce_or_default ?st2 s \<le> nonce_or_default (sequ v) s"
    using drop_entries_or_default [of "dropped q" st1 s] st1 by simp
  moreover have "in_flight v \<subseteq> issued ?st2"
    using drop_entries_ok [OF other_request(4)] assms(2) st1 by (simp add: view_ok_def)
  ultimately show ?thesis
    using other_request sequence_transaction_eq [OF sub] assms(2) deduplicate_fields(3) [of ?st2 sub]
    by (auto simp: view_ok_def settle_or_default_other settle_fields word_le_nat_alt)
next
  case (idle_drop f)
  then have "list_all (may_drop (in_flight v)) [f]" by simp
  from drop_entries_ok [OF this, of "sequ v"] drop_entries_or_default [of "[f]" "sequ v" s] assms(2) idle_drop
  show ?thesis by (simp add: view_ok_def word_le_nat_alt)
qed (use assms(2) in \<open>auto simp: view_ok_def\<close>)

lemma view_reach_ok: "view_reach own tol s es v \<Longrightarrow> view_ok s v"
proof (induction rule: view_reach.induct)
  case (view_start acc)
  then show ?case by (simp add: view_ok_def sequencer_new_def nonce_or_default_def)
next
  case (view_next es v e v')
  then show ?case by (blast intro: view_step_ok)
qed

section \<open>Runs of the sequencer\<close>

datatype ('tx, 'raw, 'ci) seq_event = Sequenced "('tx, 'raw, 'ci) request" | Dropped forget

primrec seq_event_step ::
  "address \<Rightarrow> duration \<Rightarrow> ('tx, 'raw, 'ci) seq_event \<Rightarrow> sequencer \<Rightarrow> sequencer"
where
  "seq_event_step own tol (Sequenced q) st = snd (sequence_transaction own tol q st)"
| "seq_event_step own tol (Dropped f) st = drop_entry f st"

text \<open>The nonce a request gets, when both queries succeed.\<close>

definition nonce_chosen ::
  "address \<Rightarrow> duration \<Rightarrow> ('tx, 'raw, 'ci) request \<Rightarrow> sequencer \<Rightarrow> u64 option"
where
  "nonce_chosen own tol q st =
    (case (chain_info (met q), tx_count (met q)) of
       (Inr _, Inr pending) \<Rightarrow> Some (fst (choose_nonce st (signer_of own q) pending tol (at q)))
     | _ \<Rightarrow> None)"

text \<open>The nonces a run gives to the requests of one signer, in order.\<close>

fun nonces_chosen ::
  "address \<Rightarrow> duration \<Rightarrow> address \<Rightarrow> ('tx, 'raw, 'ci) seq_event list \<Rightarrow> sequencer \<Rightarrow> u64 list"
where
  "nonces_chosen own tol s [] st = []"
| "nonces_chosen own tol s (Sequenced q # es) st =
    (case nonce_chosen own tol q st of
       Some n \<Rightarrow> if signer_of own q = s then [n] else []
     | None \<Rightarrow> []) @ nonces_chosen own tol s es (seq_event_step own tol (Sequenced q) st)"
| "nonces_chosen own tol s (Dropped f # es) st = nonces_chosen own tol s es (drop_entry f st)"

text \<open>
  A stretch of a run in which every pending count of \<open>s\<close> that is read is \<open>p\<close> and its gap record is not
  dropped.
\<close>

definition steady :: "address \<Rightarrow> address \<Rightarrow> u64 \<Rightarrow> ('tx, 'raw, 'ci) seq_event \<Rightarrow> bool" where
  "steady own s p ev =
    (case ev of
       Sequenced q \<Rightarrow>
         ForgetGap s \<notin> set (dropped q) \<and>
         (signer_of own q = s \<longrightarrow> (case tx_count (met q) of Inr c \<Rightarrow> c = p | Inl _ \<Rightarrow> True))
     | Dropped f \<Rightarrow> f \<noteq> ForgetGap s)"

lemma drop_entries_gaps:
  "ForgetGap s \<notin> set fs \<Longrightarrow> gaps (fold drop_entry fs st) s = gaps st s"
proof (induction fs arbitrary: st)
  case (Cons f fs)
  have "gaps (drop_entry f st) s = gaps st s" using Cons.prems by (cases f) auto
  then show ?case using Cons by simp
qed simp

lemma choose_nonce_ahead:
  assumes "gaps st s = Some (p, since)" and "fst (choose_nonce st s p tol now) \<noteq> p"
  shows "gaps (snd (choose_nonce st s p tol now)) s = Some (p, since)" and "now - since < tol"
  using assms
  by (auto simp: choose_nonce_def sync_nonce_def nonce_gap_age_def Let_def max_def split: if_splits)

lemma submit_tx_gaps_other:
  "t \<noteq> s \<Longrightarrow> gaps (snd (submit_tx st tx s tol now r)) t = gaps st t"
  by (simp add: submit_tx_def Let_def case_prod_beta choose_nonce_gaps_other split: sum.splits)

lemma gap_kept:
  assumes g: "gaps st s = Some (p, since)" and st: "steady own s p (Sequenced q)"
    and n: "signer_of own q = s \<Longrightarrow> nonce_chosen own tol q st \<noteq> Some p"
  shows "gaps (seq_event_step own tol (Sequenced q) st) s = Some (p, since)"
proof -
  obtain sub st1 where sub: "submit_tx st (transaction q) (signer_of own q) tol (at q) (met q) = (sub, st1)"
    by fastforce
  have "gaps st1 s = Some (p, since)"
  proof (cases "signer_of own q = s")
    case True
    show ?thesis
    proof (cases "chain_info (met q)"; cases "tx_count (met q)")
      fix ci c assume r: "chain_info (met q) = Inr ci" "tx_count (met q) = Inr c"
      then have c: "c = p" using st True by (simp add: steady_def)
      then have "fst (choose_nonce st s p tol (at q)) \<noteq> p"
        using n True r by (simp add: nonce_chosen_def)
      from choose_nonce_ahead(1) [OF g this] show ?thesis
        using sub r c True by (auto simp: submit_tx_def split: prod.splits sum.splits)
    qed (use sub g in \<open>auto simp: submit_tx_def\<close>)
  next
    case False
    then show ?thesis
      using submit_tx_gaps_other [of s "signer_of own q" st "transaction q" tol "at q" "met q"] sub g
      by simp
  qed
  then show ?thesis
    using st drop_entries_gaps [of s "dropped q" st1] sequence_transaction_eq [OF sub]
    by (simp add: steady_def settle_fields)
qed

lemma gap_expires:
  assumes "gaps st s = Some (p, since)" and "list_all (steady own s p) (es @ [Sequenced q])"
    and "signer_of own q = s" and "chain_info (met q) = Inr ci" and "tx_count (met q) = Inr p"
    and "since + tol \<le> at q"
  shows "p \<in> set (nonces_chosen own tol s (es @ [Sequenced q]) st)"
  using assms(1,2)
proof (induction es arbitrary: st)
  case Nil
  then have "fst (choose_nonce st s p tol (at q)) = p"
    using choose_nonce_ahead(2) [of st s p since tol "at q"] assms(6) by linarith
  then show ?case using assms(3-5) by (simp add: nonce_chosen_def)
next
  case (Cons e es)
  show ?case
  proof (cases e)
    case (Sequenced r)
    show ?thesis
    proof (cases "signer_of own r = s \<and> nonce_chosen own tol r st = Some p")
      case False
      then have "gaps (seq_event_step own tol (Sequenced r) st) s = Some (p, since)"
        using gap_kept [OF Cons.prems(1)] Cons.prems(2) Sequenced by (auto simp: steady_def)
      then show ?thesis using Cons Sequenced by simp
    qed (simp add: Sequenced)
  next
    case (Dropped f)
    then have "f \<noteq> ForgetGap s" using Cons.prems(2) by (simp add: steady_def)
    then have "gaps (drop_entry f st) s = Some (p, since)"
      using Cons.prems(1) drop_entries_gaps [of s "[f]" st] by auto
    then show ?thesis using Cons Dropped by simp
  qed
qed

lemma choose_nonce_no_gap:
  "nonce_or_default st s \<le> p \<Longrightarrow> choose_nonce st s p tol now =
    (p, st\<lparr>nonces := (nonces st)(s \<mapsto> p), gaps := (gaps st)(s := None)\<rparr>)"
  by (auto simp: choose_nonce_def sync_nonce_def nonce_gap_age_def Let_def max_def)

text \<open>The first request that finds the local nonce ahead leaves a record of the gap.\<close>

lemma gap_recorded:
  assumes q: "signer_of own q = s" "chain_info (met q) = Inr ci" "tx_count (met q) = Inr p"
    and old: "\<And>c since. gaps st s = Some (c, since) \<Longrightarrow> since \<le> at q"
    and st: "list_all (steady own s p) (Sequenced q # es)"
    and n: "nonce_chosen own tol q st \<noteq> Some p"
  shows "\<exists>since. gaps (seq_event_step own tol (Sequenced q) st) s = Some (p, since) \<and> since \<le> at q"
proof -
  let ?ch = "choose_nonce st s p tol (at q)"
  have "fst ?ch \<noteq> p" using n q by (simp add: nonce_chosen_def)
  then obtain since where g: "gaps (snd ?ch) s = Some (p, since)" "since \<le> at q"
    using old
    by (auto simp: choose_nonce_def sync_nonce_def nonce_gap_age_def Let_def max_def split: if_splits option.splits)
  obtain sub st1 where sub: "submit_tx st (transaction q) (signer_of own q) tol (at q) (met q) = (sub, st1)"
    by fastforce
  have "gaps st1 s = Some (p, since)"
    using sub q g by (auto simp: submit_tx_def split: prod.splits sum.splits)
  then show ?thesis
    using st g(2) drop_entries_gaps [of s "dropped q" st1] sequence_transaction_eq [OF sub]
    by (simp add: steady_def settle_fields)
qed

section \<open>What the sequencer guarantees\<close>


definition sample_replies :: "u64 \<Rightarrow> connector_error + tx_id \<Rightarrow> (unit, unit, unit) replies" where
  "sample_replies pending ans =
    \<lparr>chain_info = Inr (), tx_count = Inr pending, sign_and_encode = (\<lambda>_ _ _ _. Inr ()),
     submit_and_track = (\<lambda>_. ans)\<rparr>"

definition sample_request :: "instant \<Rightarrow> u64 \<Rightarrow> connector_error + tx_id \<Rightarrow> (unit, unit, unit) request" where
  "sample_request now pending ans =
    \<lparr>transaction = (), tx_signer = None, at = now, met = sample_replies pending ans, dropped = []\<rparr>"

lemmas sample_defs = sample_request_def sample_replies_def signer_of_def

lemmas seq_eval = sample_defs sequence_transaction_def submit_tx_def choose_nonce_def sync_nonce_def
  nonce_gap_age_def nonce_or_default_def settle_def deduplicate_def record_issued_tx_id_def
  nonce_consumed_def error_reading_defs sequencer_new_def Let_def

lemma signer_sample: "signer_of own (sample_request now pending ans) = own"
  by (simp add: sample_defs)

lemma chosen_sample:
  "nonce_chosen own tol (sample_request now pending ans) st =
    Some (fst (choose_nonce st own pending tol now))"
  by (simp add: nonce_chosen_def sample_defs)

text \<open>A first transaction is accepted; the next pending count still lags behind it.\<close>

lemma sample_view:
  "view_reach 7 5 7 [Request (sample_request 0 3 (Inr ''a''))]
    \<lparr>sequ = snd (sequence_transaction 7 5 (sample_request 0 3 (Inr ''a'')) sequencer_new),
     accepted = 3 + 1, in_flight = insert ''a'' {}\<rparr>"
proof -
  let ?q = "sample_request 0 3 (Inr ''a'')"
  let ?v = "\<lparr>sequ = sequencer_new, accepted = 3, in_flight = {}\<rparr>"
  have ch: "fst (choose_nonce (sequ ?v) 7 3 5 (at ?q)) = 3"
    by (simp add: seq_eval)
  obtain st1 where st1: "choose_nonce (sequ ?v) 7 3 5 (at ?q) = (3, st1)"
    using ch by (metis prod.collapse)
  have ans: "blokli_answer 3 (accepted ?v) (in_flight ?v) (submit_and_track (met ?q) ()) (3 + 1) (insert ''a'' {})"
    using accepted_now [of 3 3 "{}" "''a''"] by (simp add: sample_defs)
  have "view_step 7 5 7 ?v (Request ?q)
    \<lparr>sequ = snd (sequence_transaction 7 5 ?q (sequ ?v)), accepted = 3 + 1, in_flight = insert ''a'' {}\<rparr>"
    by (rule own_request [OF _ _ _ _ st1 _ ans]) (simp_all add: sample_defs)
  from view_next [OF view_start this] show ?thesis by simp
qed


text \<open>
  C23. A gap heals: when the nonce chosen for a signer is ahead of its pending count p and the
  count does not move, then by the first request that is made the tolerance or later after that,
  some request of the signer has been signed with p itself, whatever else was sequenced, replied
  or forgotten meanwhile (other than the record of this gap).
\<close>

theorem gap_heals:
  assumes "signer_of own q0 = s" and "chain_info (met q0) = Inr ci" and "tx_count (met q0) = Inr p"
    and "\<And>c since. gaps st s = Some (c, since) \<Longrightarrow> since \<le> at q0"
    and "list_all (steady own s p) (Sequenced q0 # es @ [Sequenced q1])"
    and "signer_of own q1 = s" and "chain_info (met q1) = Inr ci'" and "tx_count (met q1) = Inr p"
    and "at q0 + tol \<le> at q1"
  shows "p \<in> set (nonces_chosen own tol s (Sequenced q0 # es @ [Sequenced q1]) st)"
proof (cases "nonce_chosen own tol q0 st = Some p")
  case False
  let ?st = "seq_event_step own tol (Sequenced q0) st"
  obtain since where "gaps ?st s = Some (p, since)" "since \<le> at q0"
    using gap_recorded [of own q0 s ci p st "es @ [Sequenced q1]" tol] assms False by auto
  then show ?thesis
    using gap_expires [of ?st s p since own es q1 ci' tol] assms by auto
qed (use assms(1) in simp)

theorem gap_heals_witness:
  "3 \<in> set (nonces_chosen 7 5 7
      (Sequenced (sample_request 0 3 (Inr ''a'')) # [] @ [Sequenced (sample_request 9 3 (Inr ''b''))])
      (sequencer_new\<lparr>nonces := [7 \<mapsto> 8]\<rparr>))"
  by (rule gap_heals [where ci = "()" and ci' = "()"])
    (simp_all add: sample_defs steady_def sequencer_new_def)

text \<open>
  Counterexample to the claim in the sequencer's comments that the id of a deduplicated
  retry has always been seen before: when the reply to an accepted transaction is lost (\<open>e\<close> does
  not tell whether the nonce was used) and the retry, signed with the next nonce, is answered
  with the id of the lost transaction, the sequencer counts the nonce of the retry as used. The
  chain has accepted \<open>p + 1\<close> transactions and the next one is signed with \<open>p + 2\<close>, a gap.
\<close>

theorem lost_reply_opens_gap:
  assumes "nonce_or_default st s \<le> p" and "i \<notin> issued st" and "p + 1 < p + 2" and "0 < tol"
    and "nonce_consumed (Inr (Inl e)) False = None"
  shows "nonces_chosen s tol s
     [Sequenced (sample_request t p (Inl e)), Sequenced (sample_request t' (p + 1) (Inr i)),
      Sequenced (sample_request t'' (p + 1) (Inr j))] st = [p, p + 1, p + 2]"
proof -
  let ?st1 = "st\<lparr>nonces := (nonces st)(s := None), gaps := (gaps st)(s := None)\<rparr>"
  let ?st2 = "st\<lparr>gaps := (gaps st)(s := None), issued := insert i (issued st), nonces := (nonces st)(s \<mapsto> 2 + p)\<rparr>"
  have c0: "choose_nonce st s p tol t =
      (p, st\<lparr>nonces := (nonces st)(s \<mapsto> p), gaps := (gaps st)(s := None)\<rparr>)"
    by (rule choose_nonce_no_gap [OF assms(1)])
  have c1: "choose_nonce ?st1 s (p + 1) tol t' =
      (p + 1, ?st1\<lparr>nonces := (nonces ?st1)(s \<mapsto> p + 1), gaps := (gaps ?st1)(s := None)\<rparr>)"
    by (rule choose_nonce_no_gap) (simp add: nonce_or_default_def)
  have c2: "fst (choose_nonce ?st2 s (p + 1) tol t'') = p + 2"
    using assms(3,4)
    by (simp add: choose_nonce_def sync_nonce_def nonce_gap_age_def nonce_or_default_def Let_def max_def add.commute)
  have s1: "seq_event_step s tol (Sequenced (sample_request t p (Inl e))) st = ?st1"
    using c0 assms(5) by (simp add: sequence_transaction_def submit_tx_def sample_defs settle_def deduplicate_def)
  have s2: "seq_event_step s tol (Sequenced (sample_request t' (p + 1) (Inr i))) ?st1 = ?st2"
    using c1 assms(2)
    by (simp add: sequence_transaction_def submit_tx_def sample_defs settle_def deduplicate_def
        record_issued_tx_id_def nonce_consumed_def nonce_or_default_def)
  show ?thesis
    using c0 c1 c2 by (simp add: s1 s2 chosen_sample signer_sample del: seq_event_step.simps)
qed

theorem lost_reply_opens_gap_witness:
  "nonces_chosen 7 60 7
     [Sequenced (sample_request 0 5 (Inl (ClientError (OtherKind ''timeout'')))),
      Sequenced (sample_request 1 (5 + 1) (Inr ''a'')),
      Sequenced (sample_request 2 (5 + 1) (Inr ''b''))] sequencer_new = [5, 5 + 1, 5 + 2]"
  by (rule lost_reply_opens_gap) (simp_all add: seq_eval)

end
