(* ===== verification/Chain_Health.thy ===== *)
theory Chain_Health
  imports Connector_Errors
begin

text \<open>
  The health of the connector (\<open>connector/src/connector/mod.rs\<close>): the atomic state, the checks
  of the subscription task with their compare-and-exchange loop, \<open>connect\<close>, and the drop. Every
  access to the atomic is one step of \<open>health_step\<close>, so the calls of the owner and the tasks of
  all connection attempts so far interleave freely. The statuses a client reports for a
  subscription are the constructors the connector tells apart, and \<open>OtherStatus\<close>.
\<close>

section \<open>States\<close>

datatype chain_health =
    Ready
  | WaitingForConnection
  | Connecting
  | SubscriptionEnded
  | SyncTimedOut
  | NotHealthy
  | ConnectionFailed
  | Dropped
  | SubscriptionDegraded

datatype component_status =
    StatusReady | Initializing string | Degraded string | Unavailable string

definition status_of :: "chain_health \<Rightarrow> component_status" where
  "status_of h =
    (case h of
       Ready \<Rightarrow> StatusReady
     | WaitingForConnection \<Rightarrow> Initializing ''waiting for chain connection''
     | Connecting \<Rightarrow> Initializing ''connecting to blokli''
     | SubscriptionEnded \<Rightarrow> Unavailable ''chain subscription ended''
     | SyncTimedOut \<Rightarrow> Degraded ''connection sync timed out''
     | NotHealthy \<Rightarrow> Unavailable ''blokli server not healthy''
     | ConnectionFailed \<Rightarrow> Unavailable ''chain connection failed''
     | Dropped \<Rightarrow> Unavailable ''connector dropped''
     | SubscriptionDegraded \<Rightarrow> Degraded ''chain subscription not working'')"

datatype subscription_status = Stalled | Rejected | Ended string | OtherStatus string

definition is_ended :: "subscription_status \<Rightarrow> bool" where
  "is_ended st = (case st of Ended _ \<Rightarrow> True | _ \<Rightarrow> False)"

definition subscription_is_failing :: "subscription_status \<Rightarrow> bool" where
  "subscription_is_failing st = (case st of OtherStatus _ \<Rightarrow> False | _ \<Rightarrow> True)"

section \<open>Checks\<close>

definition chain_health_after_check :: "chain_health \<Rightarrow> bool \<Rightarrow> bool \<Rightarrow> chain_health option" where
  "chain_health_after_check current any_failing any_ended =
    (let next =
      (if current = Connecting \<and> any_ended then Some SubscriptionEnded
       else if current = Ready \<or> current = SubscriptionDegraded then
         Some (if any_ended then SubscriptionEnded
               else if any_failing then SubscriptionDegraded
               else Ready)
       else None)
     in (if next = Some current then None else next))"

text \<open>The log of a subscription's transitions only keeps the last status.\<close>

definition observe_subscription_health ::
  "subscription_status \<Rightarrow> subscription_status option \<Rightarrow> subscription_status option"
where
  "observe_subscription_health current previous =
    (if previous = Some current then previous else Some current)"

text \<open>
  One snapshot per feed, zipped with the previous statuses: the two flags and the statuses to
  remember.
\<close>

fun reduce_snapshots ::
  "subscription_status list \<Rightarrow> subscription_status option list \<Rightarrow> bool \<times> bool \<Rightarrow>
    (bool \<times> bool) \<times> subscription_status option list"
where
  "reduce_snapshots (s # ss) (p # ps) (any_failing, any_ended) =
    (case reduce_snapshots ss ps (any_failing \<or> subscription_is_failing s, any_ended \<or> is_ended s) of
       (flags, ps') \<Rightarrow> (flags, observe_subscription_health s p # ps'))"
| "reduce_snapshots [] ps flags = (flags, ps)"
| "reduce_snapshots ss [] flags = (flags, [])"

lemma reduce_snapshots_flags:
  "length ss = length ps \<Longrightarrow>
    reduce_snapshots ss ps (f, e) =
      ((f \<or> list_ex subscription_is_failing ss, e \<or> list_ex is_ended ss), map Some ss)"
  by (induction ss ps "(f, e)" arbitrary: f e rule: reduce_snapshots.induct)
     (auto simp: observe_subscription_health_def)

text \<open>
  The outcome of \<open>connect\<close>: what arrives over the oneshot channel within the timeout.
\<close>

datatype ready_signal = Signalled "error_kind + unit" | SignalDropped | SignalTimeout

definition connect_outcome :: "ready_signal \<Rightarrow> connector_error + unit" where
  "connect_outcome sig =
    (case sig of
       Signalled (Inr _) \<Rightarrow> Inr ()
     | Signalled (Inl e) \<Rightarrow> Inl (ClientError e)
     | SignalDropped \<Rightarrow> Inl (InvalidState ''failed to determine connection state'')
     | SignalTimeout \<Rightarrow> Inl ConnectionTimeout)"

definition health_after_failure :: "connector_error \<Rightarrow> chain_health" where
  "health_after_failure e =
    (if e = ServerNotHealthy then NotHealthy
     else if e = ConnectionTimeout then SyncTimedOut
     else ConnectionFailed)"

section \<open>The connector and its tasks\<close>

text \<open>
  A subscription task is polling its streams, is in the loop of \<open>set_subscription_health\<close> (about
  to load, or holding a loaded value about to be exchanged; the last flag: it ends afterwards),
  or is finished.
\<close>

datatype task_pc =
    Streaming
  | Loading bool bool bool
  | Trying chain_health bool bool bool
  | Finished

text \<open>The owner: idle, inside \<open>connect\<close> before and after the task is spawned, before its last stores, dropped.\<close>

datatype owner_pc =
    Idle
  | Preparing
  | Waiting nat
  | Failing connector_error
  | Succeeding nat
  | Gone

record connector =
  health :: chain_health
  handle :: "nat option"
  aborted :: "nat set"
  tasks :: "task_pc list"
  owner :: owner_pc

definition connector_new :: connector where
  "connector_new = \<lparr>health = WaitingForConnection, handle = None, aborted = {}, tasks = [], owner = Idle\<rparr>"

definition check_connection_state :: "connector \<Rightarrow> connector_error + unit" where
  "check_connection_state c =
    (case handle c of
       Some k \<Rightarrow> if k \<in> aborted c then Inl (InvalidState ''connector is not connected'') else Inr ()
     | None \<Rightarrow> Inl (InvalidState ''connector is not connected''))"

definition connector_is_connected :: "connector \<Rightarrow> bool" where
  "connector_is_connected c = is_ok (check_connection_state c)"

text \<open>What a task does after the loaded or exchanged value left nothing to store.\<close>

definition resume :: "bool \<Rightarrow> task_pc" where
  "resume final = (if final then Finished else Streaming)"

definition loop_head :: "chain_health \<Rightarrow> bool \<Rightarrow> bool \<Rightarrow> bool \<Rightarrow> task_pc" where
  "loop_head current f e final =
    (if chain_health_after_check current f e = None then resume final else Trying current f e final)"

text \<open>One atomic access of a task in \<open>set_subscription_health\<close>.\<close>

definition loop_step :: "task_pc \<Rightarrow> chain_health \<Rightarrow> (task_pc \<times> chain_health) option" where
  "loop_step pc h =
    (case pc of
       Loading f e final \<Rightarrow> Some (loop_head h f e final, h)
     | Trying current f e final \<Rightarrow>
         (case chain_health_after_check current f e of
            Some next \<Rightarrow>
              if h = current then Some (resume final, next) else Some (loop_head h f e final, h)
          | None \<Rightarrow> Some (resume final, h))
     | _ \<Rightarrow> None)"

text \<open>
  \<open>begin_check\<close> is a health check over the snapshots of the feeds, \<open>feed_end\<close> the end of one feed,
  \<open>stream_end\<close> the end of all feeds or the abort of the task, after which the task makes its last
  store. A task whose subscriptions cannot be made returns at once. \<open>connect_cancelled\<close> is the
  caller dropping the future of \<open>connect\<close>.
\<close>

inductive health_step :: "connector \<Rightarrow> connector \<Rightarrow> bool" for c :: connector where
  begin_check: "k < length (tasks c) \<Longrightarrow> tasks c ! k = Streaming \<Longrightarrow>
    fst (reduce_snapshots ss ps (False, False)) = (f, e) \<Longrightarrow>
    health_step c (c\<lparr>tasks := (tasks c)[k := Loading f e False]\<rparr>)"
| feed_end: "k < length (tasks c) \<Longrightarrow> tasks c ! k = Streaming \<Longrightarrow>
    health_step c (c\<lparr>tasks := (tasks c)[k := Loading False True False]\<rparr>)"
| stream_end: "k < length (tasks c) \<Longrightarrow> tasks c ! k = Streaming \<Longrightarrow>
    health_step c (c\<lparr>tasks := (tasks c)[k := Loading False True True]\<rparr>)"
| subscribe_failed: "k < length (tasks c) \<Longrightarrow> tasks c ! k = Streaming \<Longrightarrow>
    health_step c (c\<lparr>tasks := (tasks c)[k := Finished]\<rparr>)"
| access: "k < length (tasks c) \<Longrightarrow> loop_step (tasks c ! k) (health c) = Some (pc, h) \<Longrightarrow>
    health_step c (c\<lparr>tasks := (tasks c)[k := pc], health := h\<rparr>)"
| connect_start: "owner c = Idle \<Longrightarrow> \<not> connector_is_connected c \<Longrightarrow>
    health_step c (c\<lparr>owner := Preparing, health := Connecting\<rparr>)"
| connect_early: "owner c = Preparing \<Longrightarrow> health_step c (c\<lparr>owner := Failing err\<rparr>)"
| connect_spawn: "owner c = Preparing \<Longrightarrow>
    health_step c (c\<lparr>owner := Waiting (length (tasks c)), tasks := tasks c @ [Streaming]\<rparr>)"
| connect_ready: "owner c = Waiting k \<Longrightarrow> connect_outcome sig = Inr () \<Longrightarrow>
    health_step c (c\<lparr>owner := Succeeding k, handle := Some k\<rparr>)"
| connect_error: "owner c = Waiting k \<Longrightarrow> connect_outcome sig = Inl err \<Longrightarrow>
    health_step c (c\<lparr>owner := Failing err, aborted := insert k (aborted c)\<rparr>)"
| connect_failed: "owner c = Failing err \<Longrightarrow>
    health_step c (c\<lparr>owner := Idle, health := health_after_failure err\<rparr>)"
| connect_done: "owner c = Succeeding k \<Longrightarrow>
    health_step c (c\<lparr>owner := Idle, health := (if health c = Connecting then Ready else health c)\<rparr>)"
| connect_cancelled: "owner c = Preparing \<or> owner c = Waiting k \<Longrightarrow> health_step c (c\<lparr>owner := Idle\<rparr>)"
| drop_health: "owner c = Idle \<Longrightarrow>
    health_step c (c\<lparr>owner := Gone, health := Dropped, handle := None,
      aborted := (case handle c of Some k \<Rightarrow> insert k (aborted c) | None \<Rightarrow> aborted c)\<rparr>)"

inductive health_reach :: "connector \<Rightarrow> bool" where
  health_start: "health_reach connector_new"
| health_next: "health_reach c \<Longrightarrow> health_step c c' \<Longrightarrow> health_reach c'"

section \<open>Lemmas on the checks\<close>

lemma check_from:
  "chain_health_after_check h f e = Some n \<Longrightarrow> h \<in> {Connecting, Ready, SubscriptionDegraded} \<and>
    n \<in> {SubscriptionEnded, SubscriptionDegraded, Ready} \<and> n \<noteq> h \<and> (h = Connecting \<longrightarrow> n = SubscriptionEnded)"
  by (auto simp: chain_health_after_check_def Let_def split: if_splits)

text \<open>A task changes the state only from the three states it owns.\<close>

lemma loop_step_health:
  assumes "loop_step pc h = Some (pc', h')"
  shows "h' = h \<or> (\<exists>f e. chain_health_after_check h f e = Some h')"
  using assms by (auto simp: loop_step_def split: task_pc.splits option.splits if_splits)

lemma loop_step_kept:
  "loop_step pc h = Some (pc', h') \<Longrightarrow> h \<notin> {Connecting, Ready, SubscriptionDegraded} \<Longrightarrow> h' = h"
  using loop_step_health check_from by blast

lemma loop_step_live:
  "loop_step pc h = Some (pc', h') \<Longrightarrow> h' \<in> {Ready, SubscriptionDegraded} \<Longrightarrow>
    h \<in> {Ready, SubscriptionDegraded}"
  using loop_step_health check_from by blast

lemma health_after_failure_not_live: "health_after_failure e \<notin> {Ready, SubscriptionDegraded, Connecting, Dropped}"
  by (simp add: health_after_failure_def)

section \<open>Invariants of every interleaving\<close>

definition connecting_owner :: "owner_pc \<Rightarrow> bool" where
  "connecting_owner pc = (case pc of Preparing \<Rightarrow> True | Waiting _ \<Rightarrow> True | Failing _ \<Rightarrow> True | _ \<Rightarrow> False)"

definition health_ok :: "connector \<Rightarrow> bool" where
  "health_ok c \<longleftrightarrow>
    (health c \<in> {Ready, SubscriptionDegraded} \<longrightarrow> connector_is_connected c) \<and>
    (connecting_owner (owner c) \<longrightarrow> \<not> connector_is_connected c) \<and>
    (\<forall>k. owner c = Succeeding k \<longrightarrow> handle c = Some k \<and> k \<notin> aborted c) \<and>
    (\<forall>k. owner c = Waiting k \<longrightarrow> k < length (tasks c) \<and> k \<notin> aborted c) \<and>
    aborted c \<subseteq> {..<length (tasks c)} \<and>
    (\<forall>k. handle c = Some k \<longrightarrow> k < length (tasks c)) \<and>
    (owner c = Gone \<longrightarrow> health c = Dropped)"

lemma is_connected_iff: "connector_is_connected c \<longleftrightarrow> (\<exists>k. handle c = Some k \<and> k \<notin> aborted c)"
  by (auto simp: connector_is_connected_def check_connection_state_def split: option.splits)

lemmas health_ok_unfold = health_ok_def is_connected_iff connecting_owner_def

lemma health_ok_tasks:
  "health_ok c \<Longrightarrow> length ts = length (tasks c) \<Longrightarrow> health_ok (c\<lparr>tasks := ts\<rparr>)"
  by (simp add: health_ok_unfold)

lemma health_ok_access:
  assumes "health_ok c" and "loop_step pc (health c) = Some (pc', h)"
  shows "health_ok (c\<lparr>health := h\<rparr>)"
proof -
  have "owner c = Gone \<Longrightarrow> h = Dropped"
    using assms loop_step_kept [OF assms(2)] by (auto simp: health_ok_def)
  then show ?thesis using assms(1) loop_step_live [OF assms(2)] by (simp add: health_ok_unfold) blast
qed

lemma health_step_ok: "health_step c c' \<Longrightarrow> health_ok c \<Longrightarrow> health_ok c'"
proof (induction rule: health_step.induct)
  case (access k pc h)
  then have "health_ok (c\<lparr>tasks := (tasks c)[k := pc]\<rparr>)" by (simp add: health_ok_tasks)
  from health_ok_access [OF this] access(2) show ?case by simp
next
  case (connect_failed err)
  then show ?case using health_after_failure_not_live [of err] by (auto simp: health_ok_unfold)
next
  case (drop_health)
  then show ?case by (auto simp: health_ok_unfold split: option.splits)
next
  case (connect_spawn)
  then show ?case by (auto simp: health_ok_unfold less_Suc_eq subset_iff)
next
  case (connect_error k sig err)
  then show ?case by (auto simp: health_ok_unfold subset_iff)
next
  case (connect_cancelled k)
  then show ?case by (auto simp: health_ok_unfold split: owner_pc.splits)
qed (auto simp: health_ok_unfold)

lemma health_reach_ok: "health_reach c \<Longrightarrow> health_ok c"
proof (induction rule: health_reach.induct)
  case health_start
  then show ?case by (auto simp: health_ok_unfold connector_new_def)
qed (blast intro: health_step_ok)

section \<open>The compare-and-exchange loop ends\<close>

text \<open>
  A task in the loop between accesses of which the others may store a value (\<open>Some x\<close>) or not:
  \<open>drive\<close> makes one access per entry.
\<close>

fun drive :: "task_pc \<Rightarrow> chain_health \<Rightarrow> chain_health option list \<Rightarrow> task_pc \<times> chain_health" where
  "drive pc h [] = (pc, h)"
| "drive pc h (w # ws) =
    (let seen = (case w of Some x \<Rightarrow> x | None \<Rightarrow> h)
     in (case loop_step pc seen of
           Some (pc', h') \<Rightarrow> drive pc' h' ws
         | None \<Rightarrow> drive pc seen ws))"

definition writes :: "chain_health option list \<Rightarrow> nat" where
  "writes ws = length (List.filter (\<lambda>w. w \<noteq> None) ws)"

text \<open>How many undisturbed accesses the loop still needs.\<close>

definition loop_cost :: "task_pc \<Rightarrow> chain_health \<Rightarrow> nat" where
  "loop_cost pc h =
    (case pc of
       Loading _ _ _ \<Rightarrow> 2
     | Trying current _ _ _ \<Rightarrow> if current = h then 1 else 2
     | _ \<Rightarrow> 0)"

fun loop_final :: "task_pc \<Rightarrow> task_pc" where
  "loop_final (Loading f e final) = resume final"
| "loop_final (Trying current f e final) = resume final"
| "loop_final pc = pc"

lemma loop_step_None: "loop_step pc h = None \<longleftrightarrow> loop_cost pc h = 0"
  by (auto simp: loop_step_def loop_cost_def split: task_pc.splits option.splits if_splits)

lemma loop_final_resume [simp]: "loop_final (resume final) = resume final"
  by (simp add: resume_def)

lemma loop_final_head [simp]: "loop_final (loop_head h f e final) = resume final"
  by (simp add: loop_head_def)

lemma loop_step_final: "loop_step pc h = Some (pc', h') \<Longrightarrow> loop_final pc' = loop_final pc"
  by (auto simp: loop_step_def split: task_pc.splits option.splits if_splits)

lemma loop_step_cost:
  "loop_step pc h = Some (pc', h') \<Longrightarrow> loop_cost pc' h' < loop_cost pc h"
  by (auto simp: loop_step_def loop_cost_def loop_head_def resume_def
      split: task_pc.splits option.splits if_splits)

lemma loop_cost_write: "loop_cost pc x \<le> loop_cost pc h + 1"
  by (simp add: loop_cost_def split: task_pc.splits)

lemma loop_cost_0: "loop_cost pc h = 0 \<Longrightarrow> loop_final pc = pc"
  by (auto simp: loop_cost_def split: task_pc.splits if_splits)

lemma drive_ends:
  "loop_cost pc h + writes ws \<le> length ws \<Longrightarrow> fst (drive pc h ws) = loop_final pc"
proof (induction pc h ws rule: drive.induct)
  case (1 pc h)
  then show ?case using loop_cost_0 [of pc h] by simp
next
  case (2 pc h w ws)
  let ?seen = "case w of Some x \<Rightarrow> x | None \<Rightarrow> h"
  have seen: "loop_cost pc ?seen + writes ws \<le> Suc (length ws)"
    using "2.prems" loop_cost_write [of pc "?seen" h]
    by (cases w) (auto simp: writes_def)
  show ?case
  proof (cases "loop_step pc ?seen")
    case None
    have "writes ws \<le> length ws" by (simp add: writes_def)
    moreover have "loop_cost pc ?seen = 0" using None by (simp add: loop_step_None)
    ultimately show ?thesis using "2.IH"(1) [OF refl None] by (simp add: None Let_def)
  next
    case (Some r)
    obtain pc' h' where r: "r = (pc', h')" by fastforce
    then have "loop_cost pc' h' + writes ws \<le> length ws"
      using seen loop_step_cost [of pc ?seen pc' h'] Some by simp
    then show ?thesis
      using "2.IH"(2) [OF refl Some r [symmetric]] loop_step_final [of pc ?seen pc' h'] Some r by (simp add: Let_def)
  qed
qed

section \<open>Synchronisation\<close>

text \<open>
  The counting of the initial synchronisation: every event of a data stream that is not an error
  or a health check is an \<open>Account\<close>, a \<open>Channel\<close> or something else; \<open>ready_sent\<close> says that
  the completion was signalled. \<open>pct_synced\<close> is None where the division would panic.
\<close>

datatype sync_event = AccountSeen | ChannelSeen | OtherSeen

record sync_progress =
  account_counter :: u32
  channel_counter :: u32
  ready_sent :: bool

definition sync_start :: "u32 \<Rightarrow> u32 \<Rightarrow> sync_progress" where
  "sync_start min_accounts min_channels =
    \<lparr>account_counter = 0, channel_counter = 0, ready_sent = (min_accounts = 0 \<and> min_channels = 0)\<rparr>"

definition pct_synced :: "u32 \<Rightarrow> u32 \<Rightarrow> sync_progress \<Rightarrow> u32 option" where
  "pct_synced min_accounts min_channels p =
    (if min_accounts + min_channels = 0 then None
     else Some (min ((account_counter p + channel_counter p) * 100 div (min_accounts + min_channels)) 100))"

definition sync_step :: "u32 \<Rightarrow> u32 \<Rightarrow> sync_event \<Rightarrow> sync_progress \<Rightarrow> sync_progress option" where
  "sync_step min_accounts min_channels ev p =
    (if ready_sent p then Some p
     else
       (let p1 = (case ev of
                    AccountSeen \<Rightarrow> p\<lparr>account_counter := account_counter p + 1\<rparr>
                  | ChannelSeen \<Rightarrow> p\<lparr>channel_counter := channel_counter p + 1\<rparr>
                  | OtherSeen \<Rightarrow> p)
        in (case pct_synced min_accounts min_channels p1 of
              None \<Rightarrow> None
            | Some _ \<Rightarrow>
                Some (p1\<lparr>ready_sent := (min_accounts \<le> account_counter p1 \<and>
                  min_channels \<le> channel_counter p1)\<rparr>))))"

fun sync_run :: "u32 \<Rightarrow> u32 \<Rightarrow> sync_event list \<Rightarrow> sync_progress \<Rightarrow> sync_progress option" where
  "sync_run ma mc [] p = Some p"
| "sync_run ma mc (ev # evs) p = Option.bind (sync_step ma mc ev p) (sync_run ma mc evs)"

lemma sync_run_append:
  "sync_run ma mc (xs @ ys) p = Option.bind (sync_run ma mc xs p) (sync_run ma mc ys)"
proof (induction xs arbitrary: p)
  case (Cons ev xs)
  then show ?case by (cases "sync_step ma mc ev p") simp_all
qed simp

definition quota_reached :: "u32 \<Rightarrow> u32 \<Rightarrow> sync_event list \<Rightarrow> bool" where
  "quota_reached ma mc evs \<longleftrightarrow>
    unat ma \<le> count_list evs AccountSeen \<and> unat mc \<le> count_list evs ChannelSeen"

definition counts_match :: "sync_event list \<Rightarrow> sync_progress \<Rightarrow> bool" where
  "counts_match evs p \<longleftrightarrow>
    account_counter p = of_nat (count_list evs AccountSeen) \<and>
    channel_counter p = of_nat (count_list evs ChannelSeen)"

lemma u32_le_of_nat: "n < 2 ^ 32 \<Longrightarrow> ((m :: u32) \<le> of_nat n) = (unat m \<le> n)"
  by (simp add: word_le_nat_alt unat_of_nat)

lemma sync_step_exact:
  assumes "ma + mc \<noteq> 0" and "\<not> ready_sent p" and "counts_match evs p" and "length evs < 2 ^ 32 - 1"
  shows "\<exists>p'. sync_step ma mc ev p = Some p' \<and> counts_match (evs @ [ev]) p' \<and>
    ready_sent p' = quota_reached ma mc (evs @ [ev])"
proof -
  have "count_list (evs @ [ev]) x < 2 ^ 32" for x
    using count_le_length [of "evs @ [ev]" x] assms(4) by simp
  from this [of AccountSeen] this [of ChannelSeen] assms show ?thesis
    by (cases ev)
      (simp_all add: sync_step_def pct_synced_def Let_def counts_match_def quota_reached_def add.commute
        flip: u32_le_of_nat)
qed

lemma sync_run_exact:
  assumes "unat ma + unat mc < 2 ^ 32" and "length evs < 2 ^ 32"
  shows "\<exists>p. sync_run ma mc evs (sync_start ma mc) = Some p \<and> ready_sent p = quota_reached ma mc evs \<and>
    (\<not> ready_sent p \<longrightarrow> counts_match evs p)"
  using assms(2)
proof (induction evs rule: rev_induct)
  case Nil
  then show ?case by (auto simp: sync_start_def quota_reached_def counts_match_def unat_eq_0)
next
  case (snoc ev evs)
  then obtain p where p: "sync_run ma mc evs (sync_start ma mc) = Some p"
    "ready_sent p = quota_reached ma mc evs" "\<not> ready_sent p \<longrightarrow> counts_match evs p" by fastforce
  show ?case
  proof (cases "ready_sent p")
    case True
    then have "quota_reached ma mc (evs @ [ev])" using p(2) by (auto simp: quota_reached_def)
    then show ?thesis using p True by (simp add: sync_run_append sync_step_def)
  next
    case False
    have "ma + mc \<noteq> 0"
    proof
      assume "ma + mc = 0"
      moreover have "unat (ma + mc) = unat ma + unat mc" using assms(1) by (simp add: unat_word_ariths)
      ultimately have "unat ma + unat mc = 0" by simp
      then show False using False p(2) by (simp add: quota_reached_def)
    qed
    from sync_step_exact [OF this False, of evs ev] p(3) False snoc.prems
    obtain p' where "sync_step ma mc ev p = Some p'" "counts_match (evs @ [ev]) p'"
      "ready_sent p' = quota_reached ma mc (evs @ [ev])" by auto
    then show ?thesis using p(1) by (simp add: sync_run_append)
  qed
qed

section \<open>What the connector reports\<close>


lemma reach_by: "health_reach c \<Longrightarrow> health_step c d \<Longrightarrow> d = c' \<Longrightarrow> health_reach c'"
  by (blast intro: health_next)


text \<open>
  C25. The loop of set_subscription_health ends: if the others store at most m values meanwhile,
  a task that begins it is out of it after m + 2 of its own accesses, back at its streams (or
  finished, when it was its last store), whatever values were stored.
\<close>

theorem health_loop_terminates:
  assumes "writes ws \<le> m" and "m + 2 \<le> length ws"
  shows "fst (drive (Loading any_failing any_ended final) h ws) = (if final then Finished else Streaming)"
  using drive_ends [of "Loading any_failing any_ended final" h ws] assms
  by (simp add: loop_cost_def resume_def)

theorem health_loop_terminates_witness:
  "fst (drive (Loading True False False) Ready
    [None, Some SubscriptionDegraded, Some Ready, None]) = Streaming"
  using health_loop_terminates [of "[None, Some SubscriptionDegraded, Some Ready, None]" 2 True False False Ready]
  by (simp add: writes_def)

text \<open>
  Synchronisation never divides by zero, and completes exactly when the thresholds are met:
  for thresholds whose sum fits 32 bits and any events (fewer than 2 ^ 32), the completion has
  been signalled if and only if at least the two minimum numbers of accounts and channels have
  arrived; in particular at once when both are 0, and at no time before.
\<close>

theorem sync_completes_exactly:
  assumes "unat ma + unat mc < 2 ^ 32" and "length evs < 2 ^ 32"
  shows "map_option ready_sent (sync_run ma mc evs (sync_start ma mc)) =
    Some (unat ma \<le> count_list evs AccountSeen \<and> unat mc \<le> count_list evs ChannelSeen)"
  using sync_run_exact [OF assms] by (auto simp: quota_reached_def)

theorem sync_completes_exactly_witness:
  "map_option ready_sent (sync_run 1 1 [ChannelSeen, OtherSeen, AccountSeen] (sync_start 1 1)) = Some True"
  using sync_completes_exactly [of 1 1 "[ChannelSeen, OtherSeen, AccountSeen]"] by simp

section \<open>A task of an earlier attempt\<close>

text \<open>A step in which the task of the second attempt does nothing.\<close>

definition second_task_idle :: "connector \<Rightarrow> connector \<Rightarrow> bool" where
  "second_task_idle c c' \<longleftrightarrow>
    health_step c c' \<and> (1 < length (tasks c) \<longrightarrow> tasks c' ! 1 = tasks c ! 1)"

lemma ended_stays_ended:
  assumes "health_step\<^sup>*\<^sup>* c c'" and "health c = SubscriptionEnded" and "connector_is_connected c" and "owner c = Idle"
  shows "owner c' = Gone \<or> health c' = SubscriptionEnded \<and> connector_is_connected c' \<and> owner c' = Idle"
  using assms(1)
proof (induction rule: rtranclp_induct)
  case base
  then show ?case using assms by simp
next
  case (step d d')
  from step.hyps(2) step.IH show ?case
  proof (induction rule: health_step.induct)
    case (access k pc h)
    then show ?case using loop_step_kept [OF access(2)] by (auto simp: is_connected_iff)
  qed (auto simp: is_connected_iff)
qed

abbreviation snapshot ::
  "chain_health \<Rightarrow> nat option \<Rightarrow> nat set \<Rightarrow> task_pc list \<Rightarrow> owner_pc \<Rightarrow> connector"
where
  "snapshot h hdl ab ts ow \<equiv> \<lparr>health = h, handle = hdl, aborted = ab, tasks = ts, owner = ow\<rparr>"

lemma idleI:
  "health_step c d \<Longrightarrow> d = c' \<Longrightarrow> (1 < length (tasks c) \<longrightarrow> tasks c' ! 1 = tasks c ! 1) \<Longrightarrow>
    second_task_idle c c'"
  by (simp add: second_task_idle_def)

text \<open>The first attempt times out; its task has not noticed the abort when the second one starts.\<close>

lemma stale_first_attempt:
  "second_task_idle\<^sup>*\<^sup>* connector_new (snapshot SyncTimedOut None {0} [Streaming] Idle)"
proof -
  have "second_task_idle connector_new (snapshot Connecting None {} [] Preparing)"
    by (rule idleI [OF connect_start]) (simp_all add: connector_new_def is_connected_iff)
  moreover have "second_task_idle \<dots> (snapshot Connecting None {} [Streaming] (Waiting 0))"
    by (rule idleI [OF connect_spawn]) simp_all
  moreover have "second_task_idle \<dots> (snapshot Connecting None {0} [Streaming] (Failing ConnectionTimeout))"
    by (rule idleI [OF connect_error [where sig = SignalTimeout]]) (simp_all add: connect_outcome_def)
  moreover have "second_task_idle \<dots> (snapshot SyncTimedOut None {0} [Streaming] Idle)"
    by (rule idleI [OF connect_failed [where err = ConnectionTimeout]]) (simp_all add: health_after_failure_def)
  ultimately show ?thesis by - ((rule converse_rtranclp_into_rtranclp, assumption)+, rule rtranclp.rtrancl_refl)
qed

lemma stale_second_attempt:
  "second_task_idle\<^sup>*\<^sup>* (snapshot SyncTimedOut None {0} [Streaming] Idle)
    (snapshot SubscriptionEnded (Some 1) {0} [Finished, Streaming] Idle)"
proof -
  have "second_task_idle (snapshot SyncTimedOut None {0} [Streaming] Idle)
      (snapshot Connecting None {0} [Streaming] Preparing)"
    by (rule idleI [OF connect_start]) (simp_all add: is_connected_iff)
  moreover have "second_task_idle \<dots> (snapshot Connecting None {0} [Streaming, Streaming] (Waiting 1))"
    by (rule idleI [OF connect_spawn]) simp_all
  moreover have "second_task_idle \<dots>
      (snapshot Connecting None {0} [Loading False True True, Streaming] (Waiting 1))"
    by (rule idleI [OF stream_end [where k = 0]]) simp_all
  moreover have "second_task_idle \<dots>
      (snapshot Connecting None {0} [Trying Connecting False True True, Streaming] (Waiting 1))"
    by (rule idleI [OF access [where k = 0]])
      (simp_all add: loop_step_def loop_head_def chain_health_after_check_def)
  moreover have "second_task_idle \<dots> (snapshot SubscriptionEnded None {0} [Finished, Streaming] (Waiting 1))"
    by (rule idleI [OF access [where k = 0]])
      (simp_all add: loop_step_def resume_def chain_health_after_check_def)
  moreover have "second_task_idle \<dots> (snapshot SubscriptionEnded (Some 1) {0} [Finished, Streaming] (Succeeding 1))"
    by (rule idleI [OF connect_ready [where sig = "Signalled (Inr ())"]]) (simp_all add: connect_outcome_def)
  moreover have "second_task_idle \<dots> (snapshot SubscriptionEnded (Some 1) {0} [Finished, Streaming] Idle)"
    by (rule idleI [OF connect_done]) simp_all
  ultimately show ?thesis by - ((rule converse_rtranclp_into_rtranclp, assumption)+, rule rtranclp.rtrancl_refl)
qed

text \<open>
  Counterexample to the health state telling the state of the current connection: a connect
  attempt times out and is retried; the task of the first attempt, aborted but not yet done,
  marks the state that the second attempt has just set. The second attempt connects, its task
  has done nothing but stream, and yet the connector reports an ended subscription from then on
  until it is dropped, whatever the health checks find.
\<close>

theorem stale_task_ends_connection:
  "\<exists>c. second_task_idle\<^sup>*\<^sup>* connector_new c \<and> tasks c = [Finished, Streaming] \<and> handle c = Some 1 \<and>
    connector_is_connected c \<and> status_of (health c) = Unavailable ''chain subscription ended'' \<and>
    {c'. health_step\<^sup>*\<^sup>* c c'} \<subseteq>
      {c'. owner c' = Gone \<or> status_of (health c') = Unavailable ''chain subscription ended''}"
proof -
  let ?c = "snapshot SubscriptionEnded (Some 1) {0} [Finished, Streaming] Idle"
  have conn: "connector_is_connected ?c" by (simp add: is_connected_iff)
  have "owner c' = Gone \<or> status_of (health c') = Unavailable ''chain subscription ended''"
    if "health_step\<^sup>*\<^sup>* ?c c'" for c'
    using ended_stays_ended [OF that _ conn] by (auto simp: status_of_def)
  moreover have "second_task_idle\<^sup>*\<^sup>* connector_new ?c"
    using stale_first_attempt stale_second_attempt by (rule rtranclp_trans)
  ultimately show ?thesis using conn by (intro exI [of _ ?c]) (auto simp: status_of_def)
qed

end
