(* ===== verification/Chain_Backend.thy ===== *)
theory Chain_Backend
  imports Ticket_Types "HOL-Library.AList"
begin

text \<open>
  The chain index of the connector (\<open>connector/src/backend\<close>): accounts and channels as the
  connector last saw them, in memory (\<open>backend/mod.rs\<close>) or in a temporary database
  (\<open>backend/tempdb.rs\<close>). The contract a client of a backend may rely on is the locale
  \<open>account_index\<close>; both backends are interpretations of it. Packet keys are values of the type
  \<open>'k\<close>, multiaddresses of the type \<open>'m\<close>; \<open>postcard\<close>'s codec is a parameter.
\<close>

section \<open>Entries\<close>

type_synonym key_id = u32

datatype 'm account_type = NotAnnounced | Announced "'m list"

record ('k, 'm) account_entry =
  public_key :: 'k
  chain_addr :: address
  acc_id :: key_id
  entry_type :: "'m account_type"
  safe_address :: "address option"

text \<open>\<open>AccountEntry::has_announced_with_routing_info\<close>: announced with at least one multiaddress.\<close>

definition has_announced_with_routing_info :: "('k, 'm) account_entry \<Rightarrow> bool" where
  "has_announced_with_routing_info a = (case entry_type a of Announced ms \<Rightarrow> ms \<noteq> [] | NotAnnounced \<Rightarrow> False)"

record chain_channel = channel_entry +
  ch_source :: address

section \<open>The in-memory backend\<close>

text \<open>
  The two concurrent maps, each as the list of its entries. The order of an iteration over such
  a map is not specified: it is the parameter \<open>scan\<close> of the searches.
\<close>

record ('k, 'm) mem_backend =
  mb_accounts :: "(key_id \<times> ('k, 'm) account_entry) list"
  mb_channels :: "(channel_id \<times> chain_channel) list"

definition mb_default :: "('k, 'm) mem_backend" where
  "mb_default = \<lparr>mb_accounts = [], mb_channels = []\<rparr>"

definition mb_insert_account ::
  "('k, 'm) account_entry \<Rightarrow> ('k, 'm) mem_backend \<Rightarrow> ('k, 'm) account_entry option \<times> ('k, 'm) mem_backend"
where
  "mb_insert_account a b =
    (map_of (mb_accounts b) (acc_id a), b\<lparr>mb_accounts := AList.update (acc_id a) a (mb_accounts b)\<rparr>)"

definition mb_insert_channel ::
  "chain_channel \<Rightarrow> ('k, 'm) mem_backend \<Rightarrow> chain_channel option \<times> ('k, 'm) mem_backend"
where
  "mb_insert_channel c b =
    (map_of (mb_channels b) (ch_id c), b\<lparr>mb_channels := AList.update (ch_id c) c (mb_channels b)\<rparr>)"

definition mb_account_by_id :: "('k, 'm) mem_backend \<Rightarrow> key_id \<Rightarrow> ('k, 'm) account_entry option" where
  "mb_account_by_id b i = map_of (mb_accounts b) i"

definition mb_account_by_key ::
  "(('k, 'm) account_entry list \<Rightarrow> ('k, 'm) account_entry list) \<Rightarrow> ('k, 'm) mem_backend \<Rightarrow> 'k \<Rightarrow> ('k, 'm) account_entry option"
where
  "mb_account_by_key scan b k = List.find (\<lambda>a. public_key a = k) (scan (map snd (mb_accounts b)))"

definition mb_account_by_address ::
  "(('k, 'm) account_entry list \<Rightarrow> ('k, 'm) account_entry list) \<Rightarrow> ('k, 'm) mem_backend \<Rightarrow> address \<Rightarrow> ('k, 'm) account_entry option"
where
  "mb_account_by_address scan b d = List.find (\<lambda>a. chain_addr a = d) (scan (map snd (mb_accounts b)))"

definition mb_channel_by_id :: "('k, 'm) mem_backend \<Rightarrow> channel_id \<Rightarrow> chain_channel option" where
  "mb_channel_by_id b c = map_of (mb_channels b) c"

section \<open>The temporary database\<close>

datatype tempdb_error = TdDatabase | TdSerialization | TdIo

text \<open>
  Four tables; a transaction that fails (\<open>td_fault\<close>) leaves all of them as they were. Values are
  serialized: \<open>ser\<close> and \<open>de\<close> are \<open>postcard\<close>.
\<close>

record ('k, 'b) tempdb =
  td_fault :: bool
  td_accounts :: "key_id \<Rightarrow> 'b option"
  td_channels :: "channel_id \<Rightarrow> 'b option"
  td_addresses :: "address \<Rightarrow> key_id option"
  td_keys :: "'k \<Rightarrow> key_id option"

definition td_new :: "('k, 'b) tempdb" where
  "td_new = \<lparr>td_fault = False, td_accounts = (\<lambda>_. None), td_channels = (\<lambda>_. None),
    td_addresses = (\<lambda>_. None), td_keys = (\<lambda>_. None)\<rparr>"

text \<open>\<open>.map(from_bytes).transpose()\<close>.\<close>

definition read_back :: "('b \<Rightarrow> 'a option) \<Rightarrow> 'b option \<Rightarrow> tempdb_error + 'a option" where
  "read_back de v =
    (case v of
       None \<Rightarrow> Inr None
     | Some b \<Rightarrow> map_ok Some (ok_or TdSerialization (de b)))"

definition remove_entry :: "'a \<Rightarrow> ('a \<Rightarrow> 'b option) \<Rightarrow> 'a \<Rightarrow> 'b option" where
  "remove_entry k m = m(k := None)"

definition td_insert_account ::
  "(('k, 'm) account_entry \<Rightarrow> 'b option) \<Rightarrow> ('b \<Rightarrow> ('k, 'm) account_entry option) \<Rightarrow> ('k, 'm) account_entry \<Rightarrow>
    ('k, 'b) tempdb \<Rightarrow> (tempdb_error + ('k, 'm) account_entry option) \<times> ('k, 'b) tempdb"
where
  "td_insert_account ser de a db =
    (if td_fault db then (Inl TdDatabase, db)
     else
       (case ser a of
          None \<Rightarrow> (Inl TdSerialization, db)
        | Some bytes \<Rightarrow>
            (case read_back de (td_accounts db (acc_id a)) of
               Inl err \<Rightarrow> (Inl err, db)
             | Inr old \<Rightarrow>
                 (let addrs = (case old of Some oa \<Rightarrow> remove_entry (chain_addr oa) (td_addresses db)
                                         | None \<Rightarrow> td_addresses db);
                      keys = (case old of Some oa \<Rightarrow> remove_entry (public_key oa) (td_keys db)
                                        | None \<Rightarrow> td_keys db)
                  in (Inr old, db\<lparr>td_accounts := (td_accounts db)(acc_id a \<mapsto> bytes),
                       td_addresses := addrs(chain_addr a \<mapsto> acc_id a),
                       td_keys := keys(public_key a \<mapsto> acc_id a)\<rparr>)))))"

definition td_insert_channel ::
  "(chain_channel \<Rightarrow> 'b option) \<Rightarrow> ('b \<Rightarrow> chain_channel option) \<Rightarrow> chain_channel \<Rightarrow>
    ('k, 'b) tempdb \<Rightarrow> (tempdb_error + chain_channel option) \<times> ('k, 'b) tempdb"
where
  "td_insert_channel ser de c db =
    (if td_fault db then (Inl TdDatabase, db)
     else
       (case ser c of
          None \<Rightarrow> (Inl TdSerialization, db)
        | Some bytes \<Rightarrow>
            (case read_back de (td_channels db (ch_id c)) of
               Inl err \<Rightarrow> (Inl err, db)
             | Inr old \<Rightarrow> (Inr old, db\<lparr>td_channels := (td_channels db)(ch_id c \<mapsto> bytes)\<rparr>))))"

definition td_account_by_id ::
  "('b \<Rightarrow> ('k, 'm) account_entry option) \<Rightarrow> ('k, 'b) tempdb \<Rightarrow> key_id \<Rightarrow> tempdb_error + ('k, 'm) account_entry option"
where
  "td_account_by_id de db i =
    (if td_fault db then Inl TdDatabase else read_back de (td_accounts db i))"

definition td_account_by_key ::
  "('b \<Rightarrow> ('k, 'm) account_entry option) \<Rightarrow> ('k, 'b) tempdb \<Rightarrow> 'k \<Rightarrow> tempdb_error + ('k, 'm) account_entry option"
where
  "td_account_by_key de db k =
    (if td_fault db then Inl TdDatabase
     else (case td_keys db k of None \<Rightarrow> Inr None | Some i \<Rightarrow> read_back de (td_accounts db i)))"

definition td_account_by_address ::
  "('b \<Rightarrow> ('k, 'm) account_entry option) \<Rightarrow> ('k, 'b) tempdb \<Rightarrow> address \<Rightarrow> tempdb_error + ('k, 'm) account_entry option"
where
  "td_account_by_address de db d =
    (if td_fault db then Inl TdDatabase
     else (case td_addresses db d of None \<Rightarrow> Inr None | Some i \<Rightarrow> read_back de (td_accounts db i)))"

definition td_channel_by_id ::
  "('b \<Rightarrow> chain_channel option) \<Rightarrow> ('k, 'b) tempdb \<Rightarrow> channel_id \<Rightarrow> tempdb_error + chain_channel option"
where
  "td_channel_by_id de db c =
    (if td_fault db then Inl TdDatabase else read_back de (td_channels db c))"

section \<open>The contract of a backend\<close>

text \<open>
  The accounts by id. \<open>identities\<close>: no two ids share a packet key or an address. \<open>own_identity\<close>:
  an account may be stored without taking the key or the address of another id.
\<close>

type_synonym ('k, 'm) accounts = "key_id \<Rightarrow> ('k, 'm) account_entry option"

definition identities :: "('k, 'm) accounts \<Rightarrow> bool" where
  "identities m \<longleftrightarrow> (\<forall>i a. m i = Some a \<longrightarrow> acc_id a = i) \<and>
    inj_on public_key (ran m) \<and> inj_on chain_addr (ran m)"

definition own_identity :: "('k, 'm) accounts \<Rightarrow> ('k, 'm) account_entry \<Rightarrow> bool" where
  "own_identity m a \<longleftrightarrow> (\<forall>b\<in>ran m. acc_id b \<noteq> acc_id a \<longrightarrow>
    public_key b \<noteq> public_key a \<and> chain_addr b \<noteq> chain_addr a)"

lemma identities_id: "identities m \<Longrightarrow> m i = Some a \<Longrightarrow> acc_id a = i"
  by (simp add: identities_def)

lemma identities_key:
  "identities m \<Longrightarrow> m i = Some a \<Longrightarrow> m j = Some b \<Longrightarrow> public_key a = public_key b \<Longrightarrow> a = b"
  unfolding identities_def by (meson inj_onD ranI)

lemma identities_addr:
  "identities m \<Longrightarrow> m i = Some a \<Longrightarrow> m j = Some b \<Longrightarrow> chain_addr a = chain_addr b \<Longrightarrow> a = b"
  unfolding identities_def by (meson inj_onD ranI)

lemma ran_put:
  "identities m \<Longrightarrow> ran (m(acc_id a \<mapsto> a)) = insert a {b \<in> ran m. acc_id b \<noteq> acc_id a}"
  by (auto simp: ran_def dest: identities_id split: if_splits)

lemma identities_update:
  assumes "identities m" and "own_identity m a"
  shows "identities (m(acc_id a \<mapsto> a))"
proof -
  let ?others = "{b \<in> ran m. acc_id b \<noteq> acc_id a}"
  have "inj_on f (insert a ?others)" if "inj_on f (ran m)" "\<forall>b\<in>?others. f b \<noteq> f a"
    for f :: "('a, 'b) account_entry \<Rightarrow> 'c"
    using that by (auto simp: inj_on_def)
  then have "inj_on public_key (insert a ?others)" "inj_on chain_addr (insert a ?others)"
    using assms by (auto simp: identities_def own_identity_def inj_on_def)
  then show ?thesis using assms(1) by (simp add: identities_def ran_put [OF assms(1)])
qed

lemma identities_empty [simp]: "identities (\<lambda>_. None)"
  by (simp add: identities_def)

text \<open>The account of the only id with a property.\<close>

definition holder :: "('k, 'm) accounts \<Rightarrow> (('k, 'm) account_entry \<Rightarrow> bool) \<Rightarrow> ('k, 'm) account_entry option \<Rightarrow> bool" where
  "holder m P r \<longleftrightarrow> (case r of Some a \<Rightarrow> P a \<and> m (acc_id a) = Some a | None \<Rightarrow> (\<forall>i a. m i = Some a \<longrightarrow> \<not> P a))"

fun own_run :: "('k, 'm) accounts \<Rightarrow> ('k, 'm) account_entry list \<Rightarrow> bool" where
  "own_run m [] \<longleftrightarrow> True"
| "own_run m (a # as) \<longleftrightarrow> own_identity m a \<and> own_run (m(acc_id a \<mapsto> a)) as"

locale account_index =
  fixes put :: "('k, 'm) account_entry \<Rightarrow> 's \<Rightarrow> ('k, 'm) account_entry option \<times> 's"
    and by_id :: "'s \<Rightarrow> key_id \<Rightarrow> ('k, 'm) account_entry option"
    and by_key :: "'s \<Rightarrow> 'k \<Rightarrow> ('k, 'm) account_entry option"
    and by_address :: "'s \<Rightarrow> address \<Rightarrow> ('k, 'm) account_entry option"
    and ok :: "'s \<Rightarrow> bool"
  assumes put_ok: "ok s \<Longrightarrow> identities (by_id s) \<Longrightarrow> own_identity (by_id s) a \<Longrightarrow> ok (snd (put a s))"
    and put_old: "ok s \<Longrightarrow> fst (put a s) = by_id s (acc_id a)"
    and put_by_id: "ok s \<Longrightarrow> by_id (snd (put a s)) = (by_id s)(acc_id a \<mapsto> a)"
    and key_holder: "ok s \<Longrightarrow> identities (by_id s) \<Longrightarrow> holder (by_id s) (\<lambda>a. public_key a = k) (by_key s k)"
    and address_holder:
      "ok s \<Longrightarrow> identities (by_id s) \<Longrightarrow> holder (by_id s) (\<lambda>a. chain_addr a = d) (by_address s d)"
begin

text \<open>What a lookup finds after an insertion.\<close>

lemma put_identities:
  "ok s \<Longrightarrow> identities (by_id s) \<Longrightarrow> own_identity (by_id s) a \<Longrightarrow> identities (by_id (snd (put a s)))"
  by (simp add: put_by_id identities_update)

text \<open>A sequence of insertions, none of which takes the key or address another id has then.\<close>

lemma put_all:
  "ok s \<Longrightarrow> identities (by_id s) \<Longrightarrow> own_run (by_id s) as \<Longrightarrow>
    ok (fold (\<lambda>a s. snd (put a s)) as s) \<and>
    identities (by_id (fold (\<lambda>a s. snd (put a s)) as s)) \<and>
    by_id (fold (\<lambda>a s. snd (put a s)) as s) = fold (\<lambda>a m. m(acc_id a \<mapsto> a)) as (by_id s)"
proof (induction as arbitrary: s)
  case (Cons a as)
  have own: "own_identity (by_id s) a" "own_run ((by_id s)(acc_id a \<mapsto> a)) as"
    using Cons.prems(3) by simp_all
  note eq = put_by_id [OF Cons.prems(1), of a]
  note IH = Cons.IH [OF put_ok put_identities, OF Cons.prems(1,2) own(1) Cons.prems(1,2) own(1)]
  show ?case using IH own(2) unfolding eq fold_Cons o_apply by blast
qed simp

lemma put_all_fresh:
  assumes "ok s" and "by_id s = (\<lambda>_. None)" and "own_run (\<lambda>_. None) as"
  shows "ok (fold (\<lambda>a s. snd (put a s)) as s)"
    and "identities (fold (\<lambda>a m. m(acc_id a \<mapsto> a)) as (\<lambda>_. None))"
    and "by_id (fold (\<lambda>a s. snd (put a s)) as s) = fold (\<lambda>a m. m(acc_id a \<mapsto> a)) as (\<lambda>_. None)"
proof -
  note all = put_all [OF assms(1), of as, unfolded assms(2), OF identities_empty assms(3)]
  show "ok (fold (\<lambda>a s. snd (put a s)) as s)" using all by (rule conjunct1)
  show eq: "by_id (fold (\<lambda>a s. snd (put a s)) as s) = fold (\<lambda>a m. m(acc_id a \<mapsto> a)) as (\<lambda>_. None)"
    using all by (elim conjE)
  show "identities (fold (\<lambda>a m. m(acc_id a \<mapsto> a)) as (\<lambda>_. None))"
    using all unfolding eq by (elim conjE)
qed

end

lemma holder_key_unique:
  assumes "identities m" and "holder m (\<lambda>a. public_key a = k) r" and "holder m (\<lambda>a. public_key a = k) r'"
  shows "r = r'"
proof (cases r; cases r')
  fix a b
  assume "r = Some a" "r' = Some b"
  with assms(2,3) identities_key [OF assms(1), of "acc_id a" a "acc_id b" b]
  show ?thesis by (simp add: holder_def)
qed (use assms(2,3) in \<open>auto simp: holder_def\<close>)

lemma holder_addr_unique:
  assumes "identities m" and "holder m (\<lambda>a. chain_addr a = k) r" and "holder m (\<lambda>a. chain_addr a = k) r'"
  shows "r = r'"
proof (cases r; cases r')
  fix a b
  assume "r = Some a" "r' = Some b"
  with assms(2,3) identities_addr [OF assms(1), of "acc_id a" a "acc_id b" b]
  show ?thesis by (simp add: holder_def)
qed (use assms(2,3) in \<open>auto simp: holder_def\<close>)

section \<open>Both backends keep the contract\<close>

text \<open>The entries of the in-memory map: one per id.\<close>

definition mb_ok :: "('k, 'm) mem_backend \<Rightarrow> bool" where
  "mb_ok b \<longleftrightarrow> distinct (map fst (mb_accounts b))"

definition scans :: "('a list \<Rightarrow> 'a list) \<Rightarrow> bool" where
  "scans scan \<longleftrightarrow> (\<forall>xs. set (scan xs) = set xs)"

lemma find_holder:
  assumes "distinct (map fst es)" and "identities (map_of es)" and "scans scan"
  shows "holder (map_of es) P (List.find P (scan (map snd es)))"
proof -
  have all: "set (scan (map snd es)) = ran (map_of es)"
    using assms(1,3) by (simp add: scans_def ran_distinct)
  show ?thesis
  proof (cases "List.find P (scan (map snd es))")
    case None
    then have "\<forall>a\<in>ran (map_of es). \<not> P a" by (simp add: find_None_iff all)
    then show ?thesis unfolding None by (auto simp: holder_def intro: ranI)
  next
    case (Some a)
    then have "a \<in> ran (map_of es)" "P a" by (auto simp: find_Some_iff simp flip: all)
    then obtain i where "map_of es i = Some a" by (auto simp: ran_def)
    moreover from this have "acc_id a = i" by (rule identities_id [OF assms(2)])
    ultimately show ?thesis using Some \<open>P a\<close> by (simp add: holder_def)
  qed
qed

lemma mem_backend_contract:
  assumes "scans scan"
  shows "account_index mb_insert_account mb_account_by_id (mb_account_by_key scan) (mb_account_by_address scan) mb_ok"
proof
  fix s :: "('a, 'b) mem_backend" and a k d
  show "mb_ok (snd (mb_insert_account a s))" if "mb_ok s"
    using that by (simp add: mb_ok_def mb_insert_account_def distinct_update)
  show "fst (mb_insert_account a s) = mb_account_by_id s (acc_id a)"
    by (simp add: mb_insert_account_def mb_account_by_id_def)
  show "mb_account_by_id (snd (mb_insert_account a s)) = (mb_account_by_id s)(acc_id a \<mapsto> a)"
    by (rule ext) (simp add: mb_account_by_id_def mb_insert_account_def update_conv')
  have eq: "mb_account_by_id s = map_of (mb_accounts s)" by (rule ext) (simp add: mb_account_by_id_def)
  show "holder (mb_account_by_id s) (\<lambda>a. public_key a = k) (mb_account_by_key scan s k)"
    if "mb_ok s" "identities (mb_account_by_id s)"
    using that find_holder [OF _ _ assms] unfolding eq mb_account_by_key_def mb_ok_def by blast
  show "holder (mb_account_by_id s) (\<lambda>a. chain_addr a = d) (mb_account_by_address scan s d)"
    if "mb_ok s" "identities (mb_account_by_id s)"
    using that find_holder [OF _ _ assms] unfolding eq mb_account_by_address_def mb_ok_def by blast
qed

interpretation mb: account_index mb_insert_account mb_account_by_id "mb_account_by_key rev"
    "mb_account_by_address rev" mb_ok
  by (rule mem_backend_contract) (simp add: scans_def)

text \<open>
  The database without a fault, over a codec that reads back what it wrote: the accounts it
  stands for, and the invariant that the two index tables hold exactly the identities of the
  stored accounts.
\<close>

definition faithful_codec :: "('a \<Rightarrow> 'b option) \<Rightarrow> ('b \<Rightarrow> 'a option) \<Rightarrow> bool" where
  "faithful_codec ser de \<longleftrightarrow> (\<forall>a. \<exists>b. ser a = Some b \<and> de b = Some a)"

definition td_view :: "('b \<Rightarrow> ('k, 'm) account_entry option) \<Rightarrow> ('k, 'b) tempdb \<Rightarrow> ('k, 'm) accounts" where
  "td_view de db i = Option.bind (td_accounts db i) de"

definition td_ok :: "('b \<Rightarrow> ('k, 'm) account_entry option) \<Rightarrow> ('k, 'b) tempdb \<Rightarrow> bool" where
  "td_ok de db \<longleftrightarrow> \<not> td_fault db \<and>
    (\<forall>i b. td_accounts db i = Some b \<longrightarrow> de b \<noteq> None) \<and>
    (\<forall>d i. td_addresses db d = Some i \<longleftrightarrow> (\<exists>a. td_view de db i = Some a \<and> chain_addr a = d)) \<and>
    (\<forall>k i. td_keys db k = Some i \<longleftrightarrow> (\<exists>a. td_view de db i = Some a \<and> public_key a = k))"

lemma read_back_ok:
  "td_ok de db \<Longrightarrow> read_back de (td_accounts db i) = Inr (td_view de db i)"
proof (cases "td_accounts db i")
  case (Some b)
  moreover assume "td_ok de db"
  ultimately have "de b \<noteq> None" unfolding td_ok_def by blast
  then show ?thesis using Some by (auto simp: read_back_def td_view_def)
qed (simp add: read_back_def td_view_def)

text \<open>What a lookup hands on to the connector when nothing fails; faults are treated apart.\<close>

definition answer :: "tempdb_error + 'a option \<Rightarrow> 'a option" where
  "answer r = (case r of Inr v \<Rightarrow> v | Inl _ \<Rightarrow> None)"

text \<open>The index of one kind of identity after an insertion.\<close>

lemma index_put:
  fixes ident :: "('k, 'm) account_entry \<Rightarrow> 'x"
  assumes m: "identities m"
    and other: "\<And>b. b \<in> ran m \<Longrightarrow> acc_id b \<noteq> acc_id a \<Longrightarrow> ident b \<noteq> ident a"
    and idx: "\<And>x i. t x = Some i \<longleftrightarrow> (\<exists>b. m i = Some b \<and> ident b = x)"
  shows "((case m (acc_id a) of Some oa \<Rightarrow> remove_entry (ident oa) t | None \<Rightarrow> t)(ident a \<mapsto> acc_id a)) x = Some i
    \<longleftrightarrow> (\<exists>b. (m(acc_id a \<mapsto> a)) i = Some b \<and> ident b = x)"
proof (cases "i = acc_id a")
  case True
  have "t x = Some (acc_id a) \<Longrightarrow> \<exists>oa. m (acc_id a) = Some oa \<and> ident oa = x" using idx by simp
  then show ?thesis using True by (auto simp: remove_entry_def split: option.splits)
next
  case False
  have rest: "(\<exists>b. (m(acc_id a \<mapsto> a)) i = Some b \<and> ident b = x) \<longleftrightarrow> t x = Some i"
    using False idx by simp
  have "x \<noteq> ident a" if "t x = Some i"
    using that idx [of x i] other identities_id [OF m] False by (metis ranI)
  moreover have "x \<noteq> ident oa" if "t x = Some i" "m (acc_id a) = Some oa" for oa
  proof
    assume "x = ident oa"
    then have "t x = Some (acc_id a)" using idx that(2) by blast
    then show False using that(1) False by simp
  qed
  ultimately show ?thesis using False rest
    by (cases "t x") (auto simp: remove_entry_def split: option.splits)
qed

lemma td_insert_account_eq:
  assumes "td_ok de db" and "ser a = Some bytes"
  shows "td_insert_account ser de a db =
    (Inr (td_view de db (acc_id a)), db\<lparr>td_accounts := (td_accounts db)(acc_id a \<mapsto> bytes),
       td_addresses := (case td_view de db (acc_id a) of Some oa \<Rightarrow> remove_entry (chain_addr oa) (td_addresses db)
                          | None \<Rightarrow> td_addresses db)(chain_addr a \<mapsto> acc_id a),
       td_keys := (case td_view de db (acc_id a) of Some oa \<Rightarrow> remove_entry (public_key oa) (td_keys db)
                     | None \<Rightarrow> td_keys db)(public_key a \<mapsto> acc_id a)\<rparr>)"
  using assms read_back_ok [OF assms(1)] by (simp add: td_insert_account_def td_ok_def Let_def)

lemma td_view_put:
  "de bytes = Some a \<Longrightarrow>
    td_view de (db\<lparr>td_accounts := (td_accounts db)(acc_id a \<mapsto> bytes), td_addresses := x, td_keys := y\<rparr>) =
    (td_view de db)(acc_id a \<mapsto> a)"
  by (rule ext) (simp add: td_view_def)

lemma td_insert_account_view:
  assumes "td_ok de db" and "faithful_codec ser de"
  shows "td_view de (snd (td_insert_account ser de a db)) = (td_view de db)(acc_id a \<mapsto> a)"
    and "fst (td_insert_account ser de a db) = Inr (td_view de db (acc_id a))"
proof -
  obtain bytes where b: "ser a = Some bytes" "de bytes = Some a"
    using assms(2) by (auto simp: faithful_codec_def)
  show "td_view de (snd (td_insert_account ser de a db)) = (td_view de db)(acc_id a \<mapsto> a)"
    using td_insert_account_eq [where a = a and ser = ser and bytes = bytes, OF assms(1) b(1)] td_view_put [where de = de and bytes = bytes and a = a, OF b(2)] by simp
  show "fst (td_insert_account ser de a db) = Inr (td_view de db (acc_id a))"
    using td_insert_account_eq [where a = a and ser = ser and bytes = bytes, OF assms(1) b(1)] by simp
qed

lemma td_insert_account_ok:
  assumes ok: "td_ok de db" and codec: "faithful_codec ser de"
    and ids: "identities (td_view de db)" and own: "own_identity (td_view de db) a"
  shows "td_ok de (snd (td_insert_account ser de a db))"
proof -
  obtain bytes where b: "ser a = Some bytes" "de bytes = Some a"
    using codec by (auto simp: faithful_codec_def)
  note eq = td_insert_account_eq [where a = a and ser = ser and bytes = bytes, OF ok b(1)] and view = td_insert_account_view(1) [OF ok codec, of a]
  have addr: "td_addresses db x = Some i \<longleftrightarrow> (\<exists>c. td_view de db i = Some c \<and> chain_addr c = x)" for x i
    using ok by (simp add: td_ok_def)
  have key: "td_keys db x = Some i \<longleftrightarrow> (\<exists>c. td_view de db i = Some c \<and> public_key c = x)" for x i
    using ok by (simp add: td_ok_def)
  have "td_addresses (snd (td_insert_account ser de a db)) x = Some i \<longleftrightarrow>
      (\<exists>c. td_view de (snd (td_insert_account ser de a db)) i = Some c \<and> chain_addr c = x)" for x i
    unfolding view using index_put [where a = a and ident = chain_addr, OF ids _ addr] own
    by (simp add: eq own_identity_def)
  moreover have "td_keys (snd (td_insert_account ser de a db)) x = Some i \<longleftrightarrow>
      (\<exists>c. td_view de (snd (td_insert_account ser de a db)) i = Some c \<and> public_key c = x)" for x i
    unfolding view using index_put [where a = a and ident = public_key, OF ids _ key] own
    by (simp add: eq own_identity_def)
  moreover have "td_accounts (snd (td_insert_account ser de a db)) i = Some v \<Longrightarrow> de v \<noteq> None" for i v
    using ok b by (auto simp: eq td_ok_def split: if_splits)
  ultimately show ?thesis using ok by (simp add: td_ok_def eq)
qed

lemma td_lookup_holder:
  assumes ok: "td_ok de db" and ids: "identities (td_view de db)"
    and idx: "\<And>i. t x = Some i \<longleftrightarrow> (\<exists>c. td_view de db i = Some c \<and> ident c = x)"
  shows "holder (td_view de db) (\<lambda>a. ident a = x)
    (answer (case t x of None \<Rightarrow> Inr None | Some i \<Rightarrow> read_back de (td_accounts db i)))"
proof (cases "t x")
  case None
  then have "td_view de db i = Some c \<Longrightarrow> ident c \<noteq> x" for i c using idx [of i] by auto
  then show ?thesis by (auto simp: None answer_def holder_def)
next
  case (Some i)
  then obtain c where "td_view de db i = Some c" "ident c = x" using idx by blast
  then show ?thesis using identities_id [OF ids, of i c] Some
    by (simp add: answer_def holder_def read_back_ok [OF ok])
qed

text \<open>Reading back needs less than the invariant: no fault and decodable values.\<close>

definition td_readable :: "('b \<Rightarrow> ('k, 'm) account_entry option) \<Rightarrow> ('k, 'b) tempdb \<Rightarrow> bool" where
  "td_readable de db \<longleftrightarrow> \<not> td_fault db \<and> (\<forall>i b. td_accounts db i = Some b \<longrightarrow> de b \<noteq> None)"

lemma td_readable_view:
  assumes "td_readable de db"
  shows "(\<lambda>i. answer (td_account_by_id de db i)) = td_view de db"
proof (rule ext)
  fix i
  show "answer (td_account_by_id de db i) = td_view de db i"
  proof (cases "td_accounts db i")
    case (Some b)
    then obtain c where "de b = Some c" using assms unfolding td_readable_def by blast
    then show ?thesis using Some assms
      by (auto simp: td_readable_def td_account_by_id_def read_back_def answer_def td_view_def)
  qed (use assms in \<open>simp add: td_readable_def td_account_by_id_def read_back_def answer_def td_view_def\<close>)
qed

lemma td_insert_account_readable:
  assumes "td_ok de db" and "faithful_codec ser de"
  shows "td_readable de (snd (td_insert_account ser de a db))"
proof -
  obtain bytes where b: "ser a = Some bytes" "de bytes = Some a"
    using assms(2) by (auto simp: faithful_codec_def)
  show ?thesis using assms(1) b td_insert_account_eq [where a = a and ser = ser and bytes = bytes, OF assms(1) b(1)]
    by (auto simp: td_readable_def td_ok_def)
qed

lemma tempdb_contract:
  fixes ser :: "('k, 'm) account_entry \<Rightarrow> 'b option"
  assumes "faithful_codec ser de"
  shows "account_index (\<lambda>a db. map_prod answer id (td_insert_account ser de a db))
    (\<lambda>db i. answer (td_account_by_id de db i)) (\<lambda>db k. answer (td_account_by_key de db k))
    (\<lambda>db d. answer (td_account_by_address de db d)) (td_ok de)"
proof
  fix s :: "('k, 'b) tempdb" and a k d
  let ?view = "\<lambda>db i. answer (td_account_by_id de db i)"
  have view: "?view s = td_view de s" if "td_ok de s"
    using that by (intro td_readable_view) (simp add: td_readable_def td_ok_def)
  show "td_ok de (snd (map_prod answer id (td_insert_account ser de a s)))"
    if "td_ok de s" "identities (?view s)" "own_identity (?view s) a"
    using td_insert_account_ok [OF that(1) assms] that(2,3) view [OF that(1)] by simp
  show "fst (map_prod answer id (td_insert_account ser de a s)) = ?view s (acc_id a)" if "td_ok de s"
    using td_insert_account_view(2) [OF that assms, of a] fun_cong [OF view [OF that], of "acc_id a"]
    by (simp add: answer_def)
  show "?view (snd (map_prod answer id (td_insert_account ser de a s))) = (?view s)(acc_id a \<mapsto> a)"
    if "td_ok de s"
    using td_readable_view [OF td_insert_account_readable [OF that assms, of a]]
      td_insert_account_view(1) [OF that assms, of a] view [OF that] by simp
  show "holder (?view s) (\<lambda>a. public_key a = k) (answer (td_account_by_key de s k))"
    if "td_ok de s" "identities (?view s)"
    using td_lookup_holder [where de = de and db = s and t = "td_keys s" and x = k and ident = public_key]
      that view [OF that(1)]
    by (simp add: td_account_by_key_def td_ok_def)
  show "holder (?view s) (\<lambda>a. chain_addr a = d) (answer (td_account_by_address de s d))"
    if "td_ok de s" "identities (?view s)"
    using td_lookup_holder [where de = de and db = s and t = "td_addresses s" and x = d and ident = chain_addr]
      that view [OF that(1)]
    by (simp add: td_account_by_address_def td_ok_def)
qed

interpretation td: account_index "\<lambda>a db. map_prod answer id (td_insert_account Some Some a db)"
    "\<lambda>db i. answer (td_account_by_id Some db i)" "\<lambda>db k. answer (td_account_by_key Some db k)"
    "\<lambda>db d. answer (td_account_by_address Some db d)" "td_ok Some"
  by (rule tempdb_contract) (simp add: faithful_codec_def)

lemma mb_default_ok: "mb_ok mb_default" "mb_account_by_id mb_default = (\<lambda>_. None)"
  by (simp_all add: mb_ok_def mb_default_def mb_account_by_id_def fun_eq_iff)

lemma td_new_ok: "td_ok de td_new" "(\<lambda>i. answer (td_account_by_id de td_new i)) = (\<lambda>_. None)"
  by (auto simp: td_ok_def td_new_def td_view_def td_account_by_id_def read_back_def answer_def)

text \<open>
  C26. The temporary database answers every lookup as the in-memory backend does, whatever the
  order in which the in-memory map is searched: after any sequence of account insertions, none
  of which takes the packet key or the address that another account holds at that time, all
  three lookups agree, over any codec that reads back what it wrote.
\<close>

theorem account_backends_agree:
  fixes as :: "('k, 'm) account_entry list" and ser :: "('k, 'm) account_entry \<Rightarrow> 'b option"
  assumes "faithful_codec ser de" and "scans scan" and "own_run (\<lambda>_. None) as"
    and "b = fold (\<lambda>a s. snd (mb_insert_account a s)) as mb_default"
    and "db = fold (\<lambda>a s. snd (td_insert_account ser de a s)) as td_new"
  shows "answer (td_account_by_id de db i) = mb_account_by_id b i \<and>
    answer (td_account_by_key de db k) = mb_account_by_key scan b k \<and>
    answer (td_account_by_address de db d) = mb_account_by_address scan b d"
proof -
  let ?m = "fold (\<lambda>a m. m(acc_id a \<mapsto> a)) as (\<lambda>_. None)"
  have mem: "account_index mb_insert_account mb_account_by_id (mb_account_by_key scan)
      (mb_account_by_address scan) (mb_ok :: ('k, 'm) mem_backend \<Rightarrow> bool)"
    by (rule mem_backend_contract [OF assms(2)])
  note tdb = tempdb_contract [OF assms(1)]
  have td_fold: "(\<lambda>a s. snd (map_prod answer id (td_insert_account ser de a s))) =
      (\<lambda>a s. snd (td_insert_account ser de a s))" by (intro ext) simp
  note b = account_index.put_all_fresh [OF mem mb_default_ok assms(3), folded assms(4)]
  note db = account_index.put_all_fresh [OF tdb td_new_ok assms(3), unfolded td_fold, folded assms(5)]
  note hold = account_index.key_holder [OF mem b(1), unfolded b(3), OF b(2), of k]
    account_index.key_holder [OF tdb db(1), unfolded db(3), OF db(2), of k]
    account_index.address_holder [OF mem b(1), unfolded b(3), OF b(2), of d]
    account_index.address_holder [OF tdb db(1), unfolded db(3), OF db(2), of d]
  show ?thesis
    using holder_key_unique [OF b(2) hold(2) hold(1)] holder_addr_unique [OF b(2) hold(4) hold(3)]
      fun_cong [OF trans [OF db(3) b(3) [symmetric]], of i] by blast
qed

definition sample_account :: "key_id \<Rightarrow> nat \<Rightarrow> address \<Rightarrow> (nat, nat) account_entry" where
  "sample_account i k d =
    \<lparr>public_key = k, chain_addr = d, acc_id = i, entry_type = NotAnnounced, safe_address = None\<rparr>"

theorem account_backends_agree_witness:
  "answer (td_account_by_id Some (fold (\<lambda>a s. snd (td_insert_account Some Some a s))
       [sample_account 1 1 10, sample_account 2 2 20, sample_account 1 3 30] td_new) 1) =
     mb_account_by_id (fold (\<lambda>a s. snd (mb_insert_account a s))
       [sample_account 1 1 10, sample_account 2 2 20, sample_account 1 3 30] mb_default) 1 \<and>
   answer (td_account_by_key Some (fold (\<lambda>a s. snd (td_insert_account Some Some a s))
       [sample_account 1 1 10, sample_account 2 2 20, sample_account 1 3 30] td_new) 1) =
     mb_account_by_key rev (fold (\<lambda>a s. snd (mb_insert_account a s))
       [sample_account 1 1 10, sample_account 2 2 20, sample_account 1 3 30] mb_default) 1 \<and>
   answer (td_account_by_address Some (fold (\<lambda>a s. snd (td_insert_account Some Some a s))
       [sample_account 1 1 10, sample_account 2 2 20, sample_account 1 3 30] td_new) 20) =
     mb_account_by_address rev (fold (\<lambda>a s. snd (mb_insert_account a s))
       [sample_account 1 1 10, sample_account 2 2 20, sample_account 1 3 30] mb_default) 20"
  by (rule account_backends_agree [OF _ _ _ refl refl])
    (auto simp: faithful_codec_def scans_def own_identity_def ran_def sample_account_def split: if_splits)

text \<open>
  Without that condition the database forgets: when an address is reported for a second id
  before the first id moves on, storing the first id's new address removes the entry that now
  belongs to the second. The account is still stored, but no longer found by its address.
\<close>

theorem moved_address_lost:
  fixes db :: "(nat, (nat, nat) account_entry) tempdb"
  assumes "db = fold (\<lambda>a s. snd (td_insert_account Some Some a s))
      [sample_account 1 1 10, sample_account 2 2 10, sample_account 1 1 30] td_new"
  shows "td_account_by_id Some db 2 = Inr (Some (sample_account 2 2 10)) \<and>
    td_account_by_address Some db 10 = Inr None"
  unfolding assms
  by (simp add: td_insert_account_def td_new_def read_back_def remove_entry_def sample_account_def
      td_account_by_id_def td_account_by_address_def)

end
