(* ===== verification/Chain_Index.thy ===== *)
theory Chain_Index
  imports Chain_Backend Connector_Errors
begin

text \<open>
  The connector's view of accounts and channels (\<open>connector/src/connector/mod.rs\<close>,
  \<open>keys.rs\<close>, \<open>accounts.rs\<close>, \<open>channels.rs\<close>): a backend behind six caches and the channel
  graph, the handlers of the account and graph subscriptions that keep them up to date, and the
  lookups and streams that read them. A cache maps a key to nothing, to a cached absence
  (\<open>Some None\<close>) or to a cached value; entries it drops on its own are the operation \<open>Expire\<close>.
  The lookups run atomically. \<open>old.diff(new)\<close> of a channel is a parameter.
\<close>

section \<open>The backend trait\<close>

text \<open>The errors of a backend, as the text the connector wraps.\<close>

record ('k, 'm, 's) backend_ops =
  insert_account :: "('k, 'm) account_entry \<Rightarrow> 's \<Rightarrow> (string + ('k, 'm) account_entry option) \<times> 's"
  insert_channel :: "chain_channel \<Rightarrow> 's \<Rightarrow> (string + chain_channel option) \<times> 's"
  get_account_by_id :: "'s \<Rightarrow> key_id \<Rightarrow> string + ('k, 'm) account_entry option"
  get_account_by_key :: "'s \<Rightarrow> 'k \<Rightarrow> string + ('k, 'm) account_entry option"
  get_account_by_address :: "'s \<Rightarrow> address \<Rightarrow> string + ('k, 'm) account_entry option"
  get_channel_by_id :: "'s \<Rightarrow> channel_id \<Rightarrow> string + chain_channel option"

definition mem_backend_ops ::
  "(('k, 'm) account_entry list \<Rightarrow> ('k, 'm) account_entry list) \<Rightarrow> ('k, 'm, ('k, 'm) mem_backend) backend_ops"
where
  "mem_backend_ops scan =
    \<lparr>insert_account = (\<lambda>a b. map_prod Inr id (mb_insert_account a b)),
     insert_channel = (\<lambda>c b. map_prod Inr id (mb_insert_channel c b)),
     get_account_by_id = (\<lambda>b i. Inr (mb_account_by_id b i)),
     get_account_by_key = (\<lambda>b k. Inr (mb_account_by_key scan b k)),
     get_account_by_address = (\<lambda>b d. Inr (mb_account_by_address scan b d)),
     get_channel_by_id = (\<lambda>b c. Inr (mb_channel_by_id b c))\<rparr>"

text \<open>The codecs of accounts and of channels, and the text of a database error.\<close>

record ('k, 'm, 'b) codecs =
  ser_account :: "('k, 'm) account_entry \<Rightarrow> 'b option"
  de_account :: "'b \<Rightarrow> ('k, 'm) account_entry option"
  ser_channel :: "chain_channel \<Rightarrow> 'b option"
  de_channel :: "'b \<Rightarrow> chain_channel option"
  error_text :: "tempdb_error \<Rightarrow> string"

definition tempdb_ops :: "('k, 'm, 'b) codecs \<Rightarrow> ('k, 'm, ('k, 'b) tempdb) backend_ops" where
  "tempdb_ops cs =
    \<lparr>insert_account = (\<lambda>a db. map_prod (map_err (error_text cs)) id (td_insert_account (ser_account cs) (de_account cs) a db)),
     insert_channel = (\<lambda>c db. map_prod (map_err (error_text cs)) id (td_insert_channel (ser_channel cs) (de_channel cs) c db)),
     get_account_by_id = (\<lambda>db i. map_err (error_text cs) (td_account_by_id (de_account cs) db i)),
     get_account_by_key = (\<lambda>db k. map_err (error_text cs) (td_account_by_key (de_account cs) db k)),
     get_account_by_address = (\<lambda>db d. map_err (error_text cs) (td_account_by_address (de_account cs) db d)),
     get_channel_by_id = (\<lambda>db c. map_err (error_text cs) (td_channel_by_id (de_channel cs) db c))\<rparr>"

section \<open>Caches and graph\<close>

type_synonym ('a, 'b) cache = "'a \<Rightarrow> 'b option"

record ('k, 'm, 's) chain_index =
  store :: 's
  key_to_id :: "('k, key_id option) cache"
  id_to_key :: "(key_id, 'k option) cache"
  chain_to_packet :: "(address, 'k option) cache"
  packet_to_chain :: "('k, address option) cache"
  channels_by_id :: "(channel_id, chain_channel option) cache"
  channels_by_parties :: "(address \<times> address, chain_channel option) cache"
  index_nodes :: "key_id list"
  index_edges :: "((key_id \<times> key_id) \<times> channel_id) list"

definition index_new :: "'s \<Rightarrow> ('k, 'm, 's) chain_index" where
  "index_new s = \<lparr>store = s, key_to_id = (\<lambda>_. None), id_to_key = (\<lambda>_. None), chain_to_packet = (\<lambda>_. None),
    packet_to_chain = (\<lambda>_. None), channels_by_id = (\<lambda>_. None), channels_by_parties = (\<lambda>_. None),
    index_nodes = [], index_edges = []\<rparr>"

text \<open>\<open>DiGraphMap::add_index_node\<close> and \<open>add_edge\<close>, which adds the end points and replaces the weight.\<close>

definition add_index_node :: "key_id \<Rightarrow> key_id list \<Rightarrow> key_id list" where
  "add_index_node i ns = (if i \<in> set ns then ns else ns @ [i])"

text \<open>\<open>invalidate_caches\<close>: the two caches of the key mapper are not among them.\<close>

definition invalidate_caches :: "('k, 'm, 's) chain_index \<Rightarrow> ('k, 'm, 's) chain_index" where
  "invalidate_caches ix = ix\<lparr>channels_by_parties := (\<lambda>_. None), channels_by_id := (\<lambda>_. None),
    packet_to_chain := (\<lambda>_. None), chain_to_packet := (\<lambda>_. None)\<rparr>"

section \<open>Handlers of the subscriptions\<close>

definition drop_if :: "bool \<Rightarrow> 'a \<Rightarrow> ('a, 'b) cache \<Rightarrow> ('a, 'b) cache" where
  "drop_if b k c = (if b then c(k := None) else c)"

text \<open>An account event: the caches and the graph are written before the backend.\<close>

definition cache_account :: "('k, 'm) account_entry \<Rightarrow> ('k, 'm, 's) chain_index \<Rightarrow> ('k, 'm, 's) chain_index" where
  "cache_account a ix = ix\<lparr>
    key_to_id := (key_to_id ix)(public_key a \<mapsto> Some (acc_id a)),
    id_to_key := (id_to_key ix)(acc_id a \<mapsto> Some (public_key a)),
    chain_to_packet := (chain_to_packet ix)(chain_addr a \<mapsto> Some (public_key a)),
    packet_to_chain := (packet_to_chain ix)(public_key a \<mapsto> Some (chain_addr a)),
    index_nodes := add_index_node (acc_id a) (index_nodes ix)\<rparr>"

definition apply_account ::
  "('k, 'm, 's) backend_ops \<Rightarrow> ('k, 'm) account_entry \<Rightarrow> ('k, 'm, 's) chain_index \<Rightarrow>
    (connector_error + ('k, 'm) account_entry \<times> ('k, 'm) account_entry option) \<times> ('k, 'm, 's) chain_index"
where
  "apply_account ops a ix =
    (let ix1 = cache_account a ix
     in (case insert_account ops a (store ix1) of
           (Inl e, s) \<Rightarrow> (Inl (BackendError e), ix1\<lparr>store := s\<rparr>)
         | (Inr None, s) \<Rightarrow> (Inr (a, None), ix1\<lparr>store := s\<rparr>)
         | (Inr (Some oa), s) \<Rightarrow>
             (Inr (a, Some oa), ix1\<lparr>store := s,
                chain_to_packet := drop_if (chain_addr oa \<noteq> chain_addr a) (chain_addr oa) (chain_to_packet ix1),
                packet_to_chain := drop_if (public_key oa \<noteq> public_key a) (public_key oa) (packet_to_chain ix1)\<rparr>)))"

text \<open>A graph event: the edge first, then the backend, and the caches only if that succeeds.\<close>

definition add_channel_edge ::
  "key_id \<Rightarrow> key_id \<Rightarrow> channel_id \<Rightarrow> ('k, 'm, 's) chain_index \<Rightarrow> ('k, 'm, 's) chain_index"
where
  "add_channel_edge src dst c ix = ix\<lparr>index_nodes := add_index_node dst (add_index_node src (index_nodes ix)),
    index_edges := AList.update (src, dst) c (index_edges ix)\<rparr>"

definition apply_channel ::
  "('k, 'm, 's) backend_ops \<Rightarrow> (chain_channel \<Rightarrow> chain_channel \<Rightarrow> 'd list) \<Rightarrow> key_id \<Rightarrow> key_id \<Rightarrow> chain_channel \<Rightarrow>
    ('k, 'm, 's) chain_index \<Rightarrow>
    (connector_error + chain_channel \<times> 'd list option) \<times> ('k, 'm, 's) chain_index"
where
  "apply_channel ops diff src dst c ix =
    (let ix1 = add_channel_edge src dst (ch_id c) ix
     in (case insert_channel ops c (store ix1) of
           (Inl e, s) \<Rightarrow> (Inl (BackendError e), ix1\<lparr>store := s\<rparr>)
         | (Inr old, s) \<Rightarrow>
             (Inr (c, map_option (\<lambda>oc. diff oc c) old), ix1\<lparr>store := s,
                channels_by_id := (channels_by_id ix1)(ch_id c \<mapsto> Some c),
                channels_by_parties :=
                  (channels_by_parties ix1)((ch_source c, ch_destination c) \<mapsto> Some c)\<rparr>)))"

section \<open>Lookups\<close>

text \<open>
  \<open>try_get_with\<close>: a hit, or the value computed and kept, or its error, which is not kept. The
  mapper's \<open>get_with\<close> turns an error into an absence first, so the absence is kept.
\<close>

definition try_get_with :: "('a, 'b) cache \<Rightarrow> 'a \<Rightarrow> 'e + 'b \<Rightarrow> ('e + 'b) \<times> ('a, 'b) cache" where
  "try_get_with c k v =
    (case c k of
       Some x \<Rightarrow> (Inr x, c)
     | None \<Rightarrow> (case v of Inl e \<Rightarrow> (Inl e, c) | Inr x \<Rightarrow> (Inr x, c(k \<mapsto> x))))"

definition get_with :: "('a, 'b) cache \<Rightarrow> 'a \<Rightarrow> 'b \<Rightarrow> 'b \<times> ('a, 'b) cache" where
  "get_with c k v = (case c k of Some x \<Rightarrow> (x, c) | None \<Rightarrow> (v, c(k \<mapsto> v)))"

definition found :: "string + 'a option \<Rightarrow> 'a option" where
  "found r = (case r of Inr v \<Rightarrow> v | Inl _ \<Rightarrow> None)"

definition map_key_to_id ::
  "('k, 'm, 's) backend_ops \<Rightarrow> 'k \<Rightarrow> ('k, 'm, 's) chain_index \<Rightarrow> key_id option \<times> ('k, 'm, 's) chain_index"
where
  "map_key_to_id ops k ix =
    (let (r, c) = get_with (key_to_id ix) k (map_option acc_id (found (get_account_by_key ops (store ix) k)))
     in (r, ix\<lparr>key_to_id := c\<rparr>))"

definition map_id_to_public ::
  "('k, 'm, 's) backend_ops \<Rightarrow> key_id \<Rightarrow> ('k, 'm, 's) chain_index \<Rightarrow> 'k option \<times> ('k, 'm, 's) chain_index"
where
  "map_id_to_public ops i ix =
    (let (r, c) = get_with (id_to_key ix) i (map_option public_key (found (get_account_by_id ops (store ix) i)))
     in (r, ix\<lparr>id_to_key := c\<rparr>))"

text \<open>An error of a cached lookup comes back behind a shared pointer.\<close>

definition cache_error :: "string + 'a \<Rightarrow> connector_error + 'a" where
  "cache_error r = map_err (\<lambda>e. CacheError (BackendError e)) r"

text \<open>\<open>conn\<close> is \<open>check_connection_state\<close>.\<close>

definition chain_key_to_packet_key ::
  "(connector_error + unit) \<Rightarrow> ('k, 'm, 's) backend_ops \<Rightarrow> address \<Rightarrow> ('k, 'm, 's) chain_index \<Rightarrow>
    (connector_error + 'k option) \<times> ('k, 'm, 's) chain_index"
where
  "chain_key_to_packet_key conn ops d ix =
    (case conn of
       Inl e \<Rightarrow> (Inl e, ix)
     | Inr _ \<Rightarrow>
         (let (r, c) = try_get_with (chain_to_packet ix) d
                (map_ok (map_option public_key) (get_account_by_address ops (store ix) d))
          in (cache_error r, ix\<lparr>chain_to_packet := c\<rparr>)))"

definition packet_key_to_chain_key ::
  "(connector_error + unit) \<Rightarrow> ('k, 'm, 's) backend_ops \<Rightarrow> 'k \<Rightarrow> ('k, 'm, 's) chain_index \<Rightarrow>
    (connector_error + address option) \<times> ('k, 'm, 's) chain_index"
where
  "packet_key_to_chain_key conn ops k ix =
    (case conn of
       Inl e \<Rightarrow> (Inl e, ix)
     | Inr _ \<Rightarrow>
         (let (r, c) = try_get_with (packet_to_chain ix) k
                (map_ok (map_option chain_addr) (get_account_by_key ops (store ix) k))
          in (cache_error r, ix\<lparr>packet_to_chain := c\<rparr>)))"

definition channel_by_id ::
  "(connector_error + unit) \<Rightarrow> ('k, 'm, 's) backend_ops \<Rightarrow> channel_id \<Rightarrow> ('k, 'm, 's) chain_index \<Rightarrow>
    (connector_error + chain_channel option) \<times> ('k, 'm, 's) chain_index"
where
  "channel_by_id conn ops i ix =
    (case conn of
       Inl e \<Rightarrow> (Inl e, ix)
     | Inr _ \<Rightarrow>
         (let (r, c) = try_get_with (channels_by_id ix) i (get_channel_by_id ops (store ix) i)
          in (cache_error r, ix\<lparr>channels_by_id := c\<rparr>)))"

text \<open>\<open>generate_channel_id\<close> is the hash of the two addresses.\<close>

definition channel_by_parties ::
  "(address \<Rightarrow> address \<Rightarrow> channel_id) \<Rightarrow> (connector_error + unit) \<Rightarrow> ('k, 'm, 's) backend_ops \<Rightarrow>
    address \<Rightarrow> address \<Rightarrow> ('k, 'm, 's) chain_index \<Rightarrow>
    (connector_error + chain_channel option) \<times> ('k, 'm, 's) chain_index"
where
  "channel_by_parties generate_channel_id conn ops src dst ix =
    (case conn of
       Inl e \<Rightarrow> (Inl e, ix)
     | Inr _ \<Rightarrow>
         (let (r, c) = try_get_with (channels_by_parties ix) (src, dst)
                (get_channel_by_id ops (store ix) (generate_channel_id src dst))
          in (cache_error r, ix\<lparr>channels_by_parties := c\<rparr>)))"

section \<open>Streams\<close>

text \<open>A selector: the states it allows (of interest: only closed channels) and what it accepts.\<close>

datatype status_kind = OpenKind | PendingKind | ClosedKind

record channel_selector =
  allowed_states :: "status_kind list"
  satisfies :: "chain_channel \<Rightarrow> bool"

definition keep_if :: "('a \<Rightarrow> bool) \<Rightarrow> 'a option \<Rightarrow> 'a option" where
  "keep_if P v = (case v of Some x \<Rightarrow> if P x then Some x else None | None \<Rightarrow> None)"

definition build_channel_stream ::
  "('k, 'm, 's) backend_ops \<Rightarrow> channel_selector \<Rightarrow> ('k, 'm, 's) chain_index \<Rightarrow> connector_error + chain_channel list"
where
  "build_channel_stream ops sel ix =
    (if allowed_states sel = [ClosedKind] then Inl (InvalidArguments ''cannot stream closed channels only'')
     else Inr (List.map_filter (\<lambda>i. keep_if (satisfies sel) (found (get_channel_by_id ops (store ix) i)))
            (sort (map snd (index_edges ix)))))"

definition stream_channels ::
  "(connector_error + unit) \<Rightarrow> ('k, 'm, 's) backend_ops \<Rightarrow> channel_selector \<Rightarrow> ('k, 'm, 's) chain_index \<Rightarrow>
    connector_error + chain_channel list"
where
  "stream_channels conn ops sel ix = and_then conn (\<lambda>_. build_channel_stream ops sel ix)"

definition build_account_stream ::
  "('k, 'm, 's) backend_ops \<Rightarrow> (('k, 'm) account_entry \<Rightarrow> bool) \<Rightarrow> ('k, 'm, 's) chain_index \<Rightarrow> ('k, 'm) account_entry list"
where
  "build_account_stream ops accepts ix =
    List.map_filter (\<lambda>i. keep_if accepts (found (get_account_by_id ops (store ix) i))) (sort (index_nodes ix))"

definition stream_accounts ::
  "(connector_error + unit) \<Rightarrow> ('k, 'm, 's) backend_ops \<Rightarrow> (('k, 'm) account_entry \<Rightarrow> bool) \<Rightarrow>
    ('k, 'm, 's) chain_index \<Rightarrow> connector_error + ('k, 'm) account_entry list"
where
  "stream_accounts conn ops accepts ix = and_then conn (\<lambda>_. Inr (build_account_stream ops accepts ix))"

definition count_accounts ::
  "(connector_error + unit) \<Rightarrow> ('k, 'm, 's) backend_ops \<Rightarrow> (('k, 'm) account_entry \<Rightarrow> bool) \<Rightarrow>
    ('k, 'm, 's) chain_index \<Rightarrow> connector_error + nat"
where
  "count_accounts conn ops accepts ix = map_ok length (stream_accounts conn ops accepts ix)"

end
