(* ===== verification/Index_Coherence.thy ===== *)
theory Index_Coherence
  imports Chain_Index "HOL-Library.Countable"
begin

text \<open>
  The caches of \<open>Chain_Index\<close> agree with the backend: the invariant over every sequence of
  subscription events, lookups, expiries and invalidations, proved once for any backend that
  keeps the contract \<open>chain_backend\<close>, and used for both backends of the connector. The limits of
  the agreement are theorems as well: changed packet keys, failed backend calls, the caches that
  \<open>invalidate_caches\<close> leaves out.
\<close>

section \<open>The contract of a backend that does not fail\<close>

locale chain_backend =
  fixes ops :: "('k, 'm, 's) backend_ops"
    and view :: "'s \<Rightarrow> ('k, 'm) accounts"
    and channels :: "'s \<Rightarrow> channel_id \<Rightarrow> chain_channel option"
    and ok :: "'s \<Rightarrow> bool"
  assumes account_put: "ok s \<Longrightarrow> insert_account ops a s = (Inr (view s (acc_id a)), snd (insert_account ops a s))"
    and account_view: "ok s \<Longrightarrow> view (snd (insert_account ops a s)) = (view s)(acc_id a \<mapsto> a)"
    and account_channels: "ok s \<Longrightarrow> channels (snd (insert_account ops a s)) = channels s"
    and account_ok: "ok s \<Longrightarrow> identities (view s) \<Longrightarrow> own_identity (view s) a \<Longrightarrow> ok (snd (insert_account ops a s))"
    and channel_put: "ok s \<Longrightarrow> insert_channel ops c s = (Inr (channels s (ch_id c)), snd (insert_channel ops c s))"
    and channel_view: "ok s \<Longrightarrow> view (snd (insert_channel ops c s)) = view s"
    and channel_channels: "ok s \<Longrightarrow> channels (snd (insert_channel ops c s)) = (channels s)(ch_id c \<mapsto> c)"
    and channel_ok: "ok s \<Longrightarrow> ok (snd (insert_channel ops c s))"
    and read_id: "ok s \<Longrightarrow> get_account_by_id ops s i = Inr (view s i)"
    and read_key: "ok s \<Longrightarrow> identities (view s) \<Longrightarrow>
      \<exists>r. get_account_by_key ops s k = Inr r \<and> holder (view s) (\<lambda>a. public_key a = k) r"
    and read_address: "ok s \<Longrightarrow> identities (view s) \<Longrightarrow>
      \<exists>r. get_account_by_address ops s d = Inr r \<and> holder (view s) (\<lambda>a. chain_addr a = d) r"
    and read_channel: "ok s \<Longrightarrow> get_channel_by_id ops s j = Inr (channels s j)"

text \<open>The in-memory backend keeps it.\<close>

lemma mem_ops_contract:
  assumes "scans scan"
  shows "chain_backend (mem_backend_ops scan) mb_account_by_id mb_channel_by_id mb_ok"
proof
  note acc = mem_backend_contract [OF assms]
  fix s :: "('a, 'b) mem_backend" and a c i k d j
  show "insert_account (mem_backend_ops scan) a s =
      (Inr (mb_account_by_id s (acc_id a)), snd (insert_account (mem_backend_ops scan) a s))"
    by (simp add: mem_backend_ops_def mb_insert_account_def mb_account_by_id_def)
  show "mb_account_by_id (snd (insert_account (mem_backend_ops scan) a s)) = (mb_account_by_id s)(acc_id a \<mapsto> a)"
    if "mb_ok s"
    using account_index.put_by_id [OF acc that] by (simp add: mem_backend_ops_def)
  show "mb_channel_by_id (snd (insert_account (mem_backend_ops scan) a s)) = mb_channel_by_id s"
    by (rule ext) (simp add: mem_backend_ops_def mb_insert_account_def mb_channel_by_id_def)
  show "mb_ok (snd (insert_account (mem_backend_ops scan) a s))"
    if "mb_ok s" "identities (mb_account_by_id s)" "own_identity (mb_account_by_id s) a"
    using account_index.put_ok [OF acc that] by (simp add: mem_backend_ops_def)
  show "insert_channel (mem_backend_ops scan) c s =
      (Inr (mb_channel_by_id s (ch_id c)), snd (insert_channel (mem_backend_ops scan) c s))"
    by (simp add: mem_backend_ops_def mb_insert_channel_def mb_channel_by_id_def)
  show "mb_account_by_id (snd (insert_channel (mem_backend_ops scan) c s)) = mb_account_by_id s"
    by (rule ext) (simp add: mem_backend_ops_def mb_insert_channel_def mb_account_by_id_def)
  show "mb_channel_by_id (snd (insert_channel (mem_backend_ops scan) c s)) = (mb_channel_by_id s)(ch_id c \<mapsto> c)"
    by (rule ext) (simp add: mem_backend_ops_def mb_insert_channel_def mb_channel_by_id_def update_conv')
  show "mb_ok (snd (insert_channel (mem_backend_ops scan) c s))" if "mb_ok s"
    using that by (simp add: mem_backend_ops_def mb_insert_channel_def mb_ok_def)
  show "get_account_by_id (mem_backend_ops scan) s i = Inr (mb_account_by_id s i)"
    by (simp add: mem_backend_ops_def)
  show "\<exists>r. get_account_by_key (mem_backend_ops scan) s k = Inr r \<and>
      holder (mb_account_by_id s) (\<lambda>a. public_key a = k) r"
    if "mb_ok s" "identities (mb_account_by_id s)"
    using account_index.key_holder [OF acc that] by (simp add: mem_backend_ops_def)
  show "\<exists>r. get_account_by_address (mem_backend_ops scan) s d = Inr r \<and>
      holder (mb_account_by_id s) (\<lambda>a. chain_addr a = d) r"
    if "mb_ok s" "identities (mb_account_by_id s)"
    using account_index.address_holder [OF acc that] by (simp add: mem_backend_ops_def)
  show "get_channel_by_id (mem_backend_ops scan) s j = Inr (mb_channel_by_id s j)"
    by (simp add: mem_backend_ops_def)
qed

interpretation mem_chain: chain_backend "mem_backend_ops rev" mb_account_by_id mb_channel_by_id mb_ok
  by (rule mem_ops_contract) (simp add: scans_def)

text \<open>So does the database while no transaction fails and the codecs read back what they wrote.\<close>

definition td_channels_view :: "('b \<Rightarrow> chain_channel option) \<Rightarrow> ('k, 'b) tempdb \<Rightarrow> channel_id \<Rightarrow> chain_channel option" where
  "td_channels_view de db i = Option.bind (td_channels db i) de"

definition td_all_ok :: "('k, 'm, 'b) codecs \<Rightarrow> ('k, 'b) tempdb \<Rightarrow> bool" where
  "td_all_ok cs db \<longleftrightarrow> td_ok (de_account cs) db \<and> (\<forall>i b. td_channels db i = Some b \<longrightarrow> de_channel cs b \<noteq> None)"

definition faithful_codecs :: "('k, 'm, 'b) codecs \<Rightarrow> bool" where
  "faithful_codecs cs \<longleftrightarrow> faithful_codec (ser_account cs) (de_account cs) \<and>
    faithful_codec (ser_channel cs) (de_channel cs)"

lemma td_channel_read:
  assumes "td_all_ok cs db"
  shows "read_back (de_channel cs) (td_channels db i) = Inr (td_channels_view (de_channel cs) db i)"
proof (cases "td_channels db i")
  case (Some b)
  then obtain c where "de_channel cs b = Some c" using assms unfolding td_all_ok_def by blast
  then show ?thesis using Some by (simp add: read_back_def td_channels_view_def)
qed (simp add: read_back_def td_channels_view_def)

lemma td_insert_channel_eq:
  assumes "td_all_ok cs db" and "ser_channel cs c = Some bytes"
  shows "td_insert_channel (ser_channel cs) (de_channel cs) c db =
    (Inr (td_channels_view (de_channel cs) db (ch_id c)), db\<lparr>td_channels := (td_channels db)(ch_id c \<mapsto> bytes)\<rparr>)"
  using assms td_channel_read [OF assms(1)] by (simp add: td_insert_channel_def td_all_ok_def td_ok_def)

lemma td_insert_account_channels:
  "td_channels (snd (td_insert_account ser de a db)) = td_channels db"
  by (simp add: td_insert_account_def Let_def split: option.splits sum.splits)

lemma td_reads:
  assumes "td_ok de db" and "identities (td_view de db)"
  shows "\<exists>r. td_account_by_key de db k = Inr r \<and> holder (td_view de db) (\<lambda>a. public_key a = k) r"
    and "\<exists>r. td_account_by_address de db d = Inr r \<and> holder (td_view de db) (\<lambda>a. chain_addr a = d) r"
proof -
  have ans: "\<exists>r. (case t of None \<Rightarrow> Inr None | Some i \<Rightarrow> read_back de (td_accounts db i)) = Inr r \<and>
      r = answer (case t of None \<Rightarrow> Inr None | Some i \<Rightarrow> read_back de (td_accounts db i))" for t
    by (simp add: read_back_ok [OF assms(1)] answer_def split: option.splits)
  show "\<exists>r. td_account_by_key de db k = Inr r \<and> holder (td_view de db) (\<lambda>a. public_key a = k) r"
    using td_lookup_holder [where de = de and db = db and t = "td_keys db" and x = k and ident = public_key]
      ans [of "td_keys db k"] assms by (auto simp: td_account_by_key_def td_ok_def)
  show "\<exists>r. td_account_by_address de db d = Inr r \<and> holder (td_view de db) (\<lambda>a. chain_addr a = d) r"
    using td_lookup_holder [where de = de and db = db and t = "td_addresses db" and x = d and ident = chain_addr]
      ans [of "td_addresses db d"] assms by (auto simp: td_account_by_address_def td_ok_def)
qed

lemma tempdb_ops_contract:
  fixes cs :: "('k, 'm, 'b) codecs"
  assumes "faithful_codecs cs"
  shows "chain_backend (tempdb_ops cs) (td_view (de_account cs)) (td_channels_view (de_channel cs)) (td_all_ok cs)"
proof
  have codec: "faithful_codec (ser_account cs) (de_account cs)" using assms by (simp add: faithful_codecs_def)
  have ok: "td_ok (de_account cs) s" if "td_all_ok cs s" for s :: "('k, 'b) tempdb"
    using that by (simp add: td_all_ok_def)
  fix s :: "('k, 'b) tempdb" and a :: "('k, 'm) account_entry" and c :: chain_channel and i k d j
  obtain bytes where bytes: "ser_channel cs c = Some bytes" "de_channel cs bytes = Some c"
    using assms by (auto simp: faithful_codecs_def faithful_codec_def)
  note put = td_insert_channel_eq [where c = c and bytes = bytes, OF _ bytes(1)]
  show "insert_account (tempdb_ops cs) a s =
      (Inr (td_view (de_account cs) s (acc_id a)), snd (insert_account (tempdb_ops cs) a s))" if "td_all_ok cs s"
    using td_insert_account_view(2) [OF ok [OF that] codec, of a] by (simp add: tempdb_ops_def prod_eq_iff)
  show "td_view (de_account cs) (snd (insert_account (tempdb_ops cs) a s)) =
      (td_view (de_account cs) s)(acc_id a \<mapsto> a)" if "td_all_ok cs s"
    using td_insert_account_view(1) [OF ok [OF that] codec, of a] by (simp add: tempdb_ops_def)
  show "td_channels_view (de_channel cs) (snd (insert_account (tempdb_ops cs) a s)) =
      td_channels_view (de_channel cs) s"
    by (intro ext) (simp add: tempdb_ops_def td_channels_view_def td_insert_account_channels)
  show "td_all_ok cs (snd (insert_account (tempdb_ops cs) a s))"
    if "td_all_ok cs s" "identities (td_view (de_account cs) s)" "own_identity (td_view (de_account cs) s) a"
    using td_insert_account_ok [OF ok [OF that(1)] codec that(2,3)] that(1)
    by (simp add: tempdb_ops_def td_all_ok_def td_insert_account_channels)
  show "insert_channel (tempdb_ops cs) c s =
      (Inr (td_channels_view (de_channel cs) s (ch_id c)), snd (insert_channel (tempdb_ops cs) c s))"
    if "td_all_ok cs s"
    using put [OF that] by (simp add: tempdb_ops_def)
  show "td_view (de_account cs) (snd (insert_channel (tempdb_ops cs) c s)) = td_view (de_account cs) s"
    if "td_all_ok cs s"
    using put [OF that] by (intro ext) (simp add: tempdb_ops_def td_view_def)
  show "td_channels_view (de_channel cs) (snd (insert_channel (tempdb_ops cs) c s)) =
      (td_channels_view (de_channel cs) s)(ch_id c \<mapsto> c)" if "td_all_ok cs s"
    using put [OF that] bytes(2) by (intro ext) (simp add: tempdb_ops_def td_channels_view_def)
  show "td_all_ok cs (snd (insert_channel (tempdb_ops cs) c s))" if "td_all_ok cs s"
    using put [OF that] that bytes(2) by (auto simp: tempdb_ops_def td_all_ok_def td_ok_def td_view_def)
  show "get_account_by_id (tempdb_ops cs) s i = Inr (td_view (de_account cs) s i)" if "td_all_ok cs s"
    using read_back_ok [OF ok [OF that]] ok [OF that]
    by (simp add: tempdb_ops_def td_account_by_id_def td_ok_def)
  show "\<exists>r. get_account_by_key (tempdb_ops cs) s k = Inr r \<and>
      holder (td_view (de_account cs) s) (\<lambda>a. public_key a = k) r"
    if "td_all_ok cs s" "identities (td_view (de_account cs) s)"
    using td_reads(1) [OF ok [OF that(1)] that(2), of k] by (auto simp: tempdb_ops_def)
  show "\<exists>r. get_account_by_address (tempdb_ops cs) s d = Inr r \<and>
      holder (td_view (de_account cs) s) (\<lambda>a. chain_addr a = d) r"
    if "td_all_ok cs s" "identities (td_view (de_account cs) s)"
    using td_reads(2) [OF ok [OF that(1)] that(2), of d] by (auto simp: tempdb_ops_def)
  show "get_channel_by_id (tempdb_ops cs) s j = Inr (td_channels_view (de_channel cs) s j)" if "td_all_ok cs s"
    using td_channel_read [OF that] ok [OF that] by (simp add: tempdb_ops_def td_channel_by_id_def td_ok_def)
qed

definition plain_codecs :: "('k, 'm, ('k, 'm) account_entry + chain_channel) codecs" where
  "plain_codecs =
    \<lparr>ser_account = (\<lambda>a. Some (Inl a)), de_account = (\<lambda>b. case b of Inl a \<Rightarrow> Some a | Inr _ \<Rightarrow> None),
     ser_channel = (\<lambda>c. Some (Inr c)), de_channel = (\<lambda>b. case b of Inr c \<Rightarrow> Some c | Inl _ \<Rightarrow> None),
     error_text = (\<lambda>_. ''database error'')\<rparr>"

lemma plain_codecs_faithful: "faithful_codecs plain_codecs"
  by (simp add: plain_codecs_def faithful_codecs_def faithful_codec_def)

interpretation td_chain: chain_backend "tempdb_ops plain_codecs" "td_view (de_account plain_codecs)"
    "td_channels_view (de_channel plain_codecs)" "td_all_ok plain_codecs"
  by (rule tempdb_ops_contract [OF plain_codecs_faithful])

section \<open>Operations and runs\<close>

datatype 'k cache_entry =
    OfKey 'k | OfId key_id | OfAddress address | OfPacket 'k | OfChannel channel_id | OfParties address address

datatype ('k, 'm) index_op =
    AccountEvent "('k, 'm) account_entry"
  | ChannelEvent key_id key_id chain_channel
  | Ask "'k cache_entry"
  | Expire "'k cache_entry"
  | Invalidate

fun expire :: "'k cache_entry \<Rightarrow> ('k, 'm, 's) chain_index \<Rightarrow> ('k, 'm, 's) chain_index" where
  "expire (OfKey k) ix = ix\<lparr>key_to_id := (key_to_id ix)(k := None)\<rparr>"
| "expire (OfId i) ix = ix\<lparr>id_to_key := (id_to_key ix)(i := None)\<rparr>"
| "expire (OfAddress d) ix = ix\<lparr>chain_to_packet := (chain_to_packet ix)(d := None)\<rparr>"
| "expire (OfPacket k) ix = ix\<lparr>packet_to_chain := (packet_to_chain ix)(k := None)\<rparr>"
| "expire (OfChannel c) ix = ix\<lparr>channels_by_id := (channels_by_id ix)(c := None)\<rparr>"
| "expire (OfParties x y) ix = ix\<lparr>channels_by_parties := (channels_by_parties ix)((x, y) := None)\<rparr>"

fun ask ::
  "('k, 'm, 's) backend_ops \<Rightarrow> (address \<Rightarrow> address \<Rightarrow> channel_id) \<Rightarrow> 'k cache_entry \<Rightarrow>
    ('k, 'm, 's) chain_index \<Rightarrow> ('k, 'm, 's) chain_index"
where
  "ask ops gen (OfKey k) ix = snd (map_key_to_id ops k ix)"
| "ask ops gen (OfId i) ix = snd (map_id_to_public ops i ix)"
| "ask ops gen (OfAddress d) ix = snd (chain_key_to_packet_key (Inr ()) ops d ix)"
| "ask ops gen (OfPacket k) ix = snd (packet_key_to_chain_key (Inr ()) ops k ix)"
| "ask ops gen (OfChannel c) ix = snd (channel_by_id (Inr ()) ops c ix)"
| "ask ops gen (OfParties x y) ix = snd (channel_by_parties gen (Inr ()) ops x y ix)"

fun index_step ::
  "('k, 'm, 's) backend_ops \<Rightarrow> (address \<Rightarrow> address \<Rightarrow> channel_id) \<Rightarrow> ('k, 'm) index_op \<Rightarrow>
    ('k, 'm, 's) chain_index \<Rightarrow> ('k, 'm, 's) chain_index"
where
  "index_step ops gen (AccountEvent a) ix = snd (apply_account ops a ix)"
| "index_step ops gen (ChannelEvent src dst c) ix =
    snd (apply_channel ops (\<lambda>_ _. [] :: unit list) src dst c ix)"
| "index_step ops gen (Ask e) ix = ask ops gen e ix"
| "index_step ops gen (Expire e) ix = expire e ix"
| "index_step ops gen Invalidate ix = invalidate_caches ix"

text \<open>
  What the chain guarantees of the events: an account takes no other account's identity and
  keeps its own packet key, a channel's id is generated from its parties. \<open>ends\<close> are the key ids
  of the parties of a channel, \<open>S\<close> the channels that occur.
\<close>

definition keeps_key :: "('k, 'm) accounts \<Rightarrow> ('k, 'm) account_entry \<Rightarrow> bool" where
  "keeps_key m a \<longleftrightarrow> (case m (acc_id a) of Some oa \<Rightarrow> public_key oa = public_key a | None \<Rightarrow> True)"

fun well_formed_run ::
  "(address \<Rightarrow> address \<Rightarrow> channel_id) \<Rightarrow> (channel_id \<Rightarrow> key_id \<times> key_id) \<Rightarrow> channel_id set \<Rightarrow>
    ('k, 'm) accounts \<Rightarrow> ('k, 'm) index_op list \<Rightarrow> bool"
where
  "well_formed_run gen ends S m [] \<longleftrightarrow> True"
| "well_formed_run gen ends S m (AccountEvent a # xs) \<longleftrightarrow>
    own_identity m a \<and> keeps_key m a \<and> well_formed_run gen ends S (m(acc_id a \<mapsto> a)) xs"
| "well_formed_run gen ends S m (ChannelEvent src dst c # xs) \<longleftrightarrow>
    ch_id c \<in> S \<and> ch_id c = gen (ch_source c) (ch_destination c) \<and> (src, dst) = ends (ch_id c) \<and>
    well_formed_run gen ends S m xs"
| "well_formed_run gen ends S m (_ # xs) \<longleftrightarrow> well_formed_run gen ends S m xs"

section \<open>Caches that agree\<close>

definition agrees :: "('a, 'b) cache \<Rightarrow> ('a \<Rightarrow> 'b \<Rightarrow> bool) \<Rightarrow> bool" where
  "agrees c P \<longleftrightarrow> (\<forall>k v. c k = Some v \<longrightarrow> P k v)"

lemma agrees_empty [simp]: "agrees (\<lambda>_. None) P"
  by (simp add: agrees_def)

lemma agrees_drop: "agrees c P \<Longrightarrow> agrees (c(k := None)) P"
  by (simp add: agrees_def)

lemma agrees_get: "agrees c P \<Longrightarrow> c k = Some v \<Longrightarrow> P k v"
  by (simp add: agrees_def)

lemma agrees_get_with: "agrees c P \<Longrightarrow> P k v \<Longrightarrow> agrees (snd (get_with c k v)) P"
  by (auto simp: get_with_def agrees_def split: option.splits)

lemma agrees_try_get_with:
  "agrees c P \<Longrightarrow> (\<And>x. v = Inr x \<Longrightarrow> P k x) \<Longrightarrow> agrees (snd (try_get_with c k v)) P"
  by (auto simp: try_get_with_def agrees_def split: option.splits sum.splits)

text \<open>What a cached entry should say, given the accounts \<open>m\<close>.\<close>

definition says :: "('x \<Rightarrow> ('k, 'm) account_entry \<Rightarrow> bool) \<Rightarrow> (('k, 'm) account_entry \<Rightarrow> 'y) \<Rightarrow> ('k, 'm) accounts \<Rightarrow>
    'x \<Rightarrow> 'y option \<Rightarrow> bool" where
  "says has get m k v \<longleftrightarrow> (\<exists>r. holder m (has k) r \<and> v = map_option get r)"

definition has_key :: "'k \<Rightarrow> ('k, 'm) account_entry \<Rightarrow> bool" where
  "has_key k a \<longleftrightarrow> public_key a = k"

definition has_addr :: "address \<Rightarrow> ('k, 'm) account_entry \<Rightarrow> bool" where
  "has_addr d a \<longleftrightarrow> chain_addr a = d"

lemma holder_new: "P a \<Longrightarrow> holder (m(acc_id a \<mapsto> a)) P (Some a)"
  by (simp add: holder_def)

lemma holder_other:
  assumes "holder m P r" and "\<not> P a" and "\<And>oa. m (acc_id a) = Some oa \<Longrightarrow> \<not> P oa"
  shows "holder (m(acc_id a \<mapsto> a)) P r"
proof (cases r)
  case None
  then show ?thesis using assms by (auto simp: holder_def)
next
  case (Some b)
  moreover have "acc_id b \<noteq> acc_id a" using assms Some by (auto simp: holder_def)
  ultimately show ?thesis using assms(1) by (simp add: holder_def)
qed

text \<open>
  A cache keyed by an identity of accounts stays right when the entry of the new account is
  written and the one of the old account, if it had another identity, is dropped or never there.
\<close>

lemma agrees_account:
  assumes c: "agrees c (says has get m)"
    and new: "has (ident a) a" and only: "\<And>k b. has k b \<Longrightarrow> k = ident b"
    and old: "\<And>oa. m (acc_id a) = Some oa \<Longrightarrow> ident oa = ident a \<or> c' (ident oa) = None"
    and c': "\<And>k. c' k = (c(ident a \<mapsto> Some (get a))) k \<or> c' k = None"
  shows "agrees c' (says has get (m(acc_id a \<mapsto> a)))"
  unfolding agrees_def
proof (intro allI impI)
  fix k v assume kv: "c' k = Some v"
  show "says has get (m(acc_id a \<mapsto> a)) k v"
  proof (cases "k = ident a")
    case True
    then have "v = Some (get a)" using kv c' [of k] by simp
    then show ?thesis using holder_new [of "has k" a m] new True unfolding says_def by fastforce
  next
    case False
    then have "c k = Some v" using kv c' [of k] by auto
    then obtain r where r: "holder m (has k) r" "v = map_option get r"
      using c unfolding agrees_def says_def by blast
    have "holder (m(acc_id a \<mapsto> a)) (has k) r"
    proof (rule holder_other [OF r(1)])
      show "\<not> has k a" using only False by blast
      show "\<not> has k oa" if "m (acc_id a) = Some oa" for oa
        using old [OF that] only [of k oa] False kv by auto
    qed
    then show ?thesis using r(2) unfolding says_def by blast
  qed
qed

section \<open>The invariant\<close>

definition id_says :: "('k, 'm) accounts \<Rightarrow> key_id \<Rightarrow> 'k option \<Rightarrow> bool" where
  "id_says m i v \<longleftrightarrow> v = map_option public_key (m i)"

definition channel_says :: "(channel_id \<Rightarrow> chain_channel option) \<Rightarrow> channel_id \<Rightarrow> chain_channel option \<Rightarrow> bool" where
  "channel_says chs c v \<longleftrightarrow> v = chs c"

definition parties_say ::
  "(address \<Rightarrow> address \<Rightarrow> channel_id) \<Rightarrow> (channel_id \<Rightarrow> chain_channel option) \<Rightarrow> address \<times> address \<Rightarrow>
    chain_channel option \<Rightarrow> bool" where
  "parties_say gen chs p v \<longleftrightarrow> v = chs (gen (fst p) (snd p))"

text \<open>\<open>keyed\<close>: also the mapper's cache of packet keys, which needs accounts that keep their key.\<close>

definition coherent ::
  "(address \<Rightarrow> address \<Rightarrow> channel_id) \<Rightarrow> ('k, 'm) accounts \<Rightarrow> (channel_id \<Rightarrow> chain_channel option) \<Rightarrow>
    ('k, 'm, 's) chain_index \<Rightarrow> bool"
where
  "coherent gen m chs ix \<longleftrightarrow>
    agrees (key_to_id ix) (says has_key acc_id m) \<and>
    agrees (id_to_key ix) (id_says m) \<and>
    agrees (chain_to_packet ix) (says has_addr public_key m) \<and>
    agrees (packet_to_chain ix) (says has_key chain_addr m) \<and>
    agrees (channels_by_id ix) (channel_says chs) \<and>
    agrees (channels_by_parties ix) (parties_say gen chs)"

text \<open>The graph holds exactly the stored channels, each between its end points.\<close>

definition graph_exact ::
  "(channel_id \<Rightarrow> key_id \<times> key_id) \<Rightarrow> (channel_id \<Rightarrow> chain_channel option) \<Rightarrow> ('k, 'm, 's) chain_index \<Rightarrow> bool"
where
  "graph_exact ends chs ix \<longleftrightarrow> distinct (map fst (index_edges ix)) \<and>
    (\<forall>p c. map_of (index_edges ix) p = Some c \<longleftrightarrow> chs c \<noteq> None \<and> ends c = p)"

definition named_channels :: "(channel_id \<Rightarrow> chain_channel option) \<Rightarrow> bool" where
  "named_channels chs \<longleftrightarrow> (\<forall>i c. chs i = Some c \<longrightarrow> ch_id c = i)"

lemma coherent_channels:
  assumes "coherent gen m chs ix" and "inj (case_prod gen)" and "ch_id c = gen (ch_source c) (ch_destination c)"
  shows "agrees ((channels_by_id ix)(ch_id c \<mapsto> Some c)) (channel_says (chs(ch_id c \<mapsto> c)))"
    and "agrees ((channels_by_parties ix)((ch_source c, ch_destination c) \<mapsto> Some c))
      (parties_say gen (chs(ch_id c \<mapsto> c)))"
proof -
  show "agrees ((channels_by_id ix)(ch_id c \<mapsto> Some c)) (channel_says (chs(ch_id c \<mapsto> c)))"
    using assms(1) by (auto simp: coherent_def agrees_def channel_says_def)
  have "gen x y = ch_id c \<longleftrightarrow> (x, y) = (ch_source c, ch_destination c)" for x y
    using inj_eq [OF assms(2), of "(x, y)" "(ch_source c, ch_destination c)"] assms(3) by simp
  then show "agrees ((channels_by_parties ix)((ch_source c, ch_destination c) \<mapsto> Some c))
      (parties_say gen (chs(ch_id c \<mapsto> c)))"
    using assms(1) by (auto simp: coherent_def agrees_def parties_say_def)
qed

lemma graph_exact_channel:
  assumes "graph_exact ends chs ix" and "(src, dst) = ends (ch_id c)"
    and "inj_on ends S" and "dom chs \<subseteq> S" and "ch_id c \<in> S"
  shows "graph_exact ends (chs(ch_id c \<mapsto> c)) (add_channel_edge src dst (ch_id c) ix)"
proof -
  let ?chs = "chs(ch_id c \<mapsto> c)" and ?es = "AList.update (src, dst) (ch_id c) (index_edges ix)"
  have old: "map_of (index_edges ix) p = Some c' \<longleftrightarrow> chs c' \<noteq> None \<and> ends c' = p" for p c'
    using assms(1) unfolding graph_exact_def by blast
  have "map_of ?es p = Some c' \<longleftrightarrow> ?chs c' \<noteq> None \<and> ends c' = p" for p c'
  proof (cases "p = ends (ch_id c)")
    case True
    have "ends c' = ends (ch_id c) \<Longrightarrow> c' \<in> S \<Longrightarrow> c' = ch_id c"
      using inj_onD [OF assms(3) _ _ assms(5)] by blast
    then show ?thesis using assms(2,4) True by (auto simp: update_conv')
  next
    case False
    then show ?thesis using assms(2) old [of p c'] by (auto simp: update_conv')
  qed
  then show ?thesis using assms(1) by (simp add: graph_exact_def add_channel_edge_def distinct_update)
qed

lemma graph_exact_cong:
  "index_edges ix = index_edges ix' \<Longrightarrow> graph_exact ends chs ix \<longleftrightarrow> graph_exact ends chs ix'"
  unfolding graph_exact_def by (simp only:)

lemma graph_exact_ids:
  assumes "graph_exact ends chs ix"
  shows "set (map snd (index_edges ix)) = dom chs" and "distinct (map snd (index_edges ix))"
proof -
  let ?es = "index_edges ix"
  have mem: "(p, c) \<in> set ?es \<longleftrightarrow> chs c \<noteq> None \<and> ends c = p" for p c
    using map_of_eq_Some_iff [of ?es p c] assms unfolding graph_exact_def by blast
  show "set (map snd ?es) = dom chs"
  proof (rule set_eqI)
    fix c
    have "c \<in> snd ` set ?es \<longleftrightarrow> (\<exists>p. (p, c) \<in> set ?es)" by force
    then show "c \<in> set (map snd ?es) \<longleftrightarrow> c \<in> dom chs" using mem by auto
  qed
  have "fst e = ends (snd e)" if "e \<in> set ?es" for e
    using mem [of "fst e" "snd e"] that by simp
  then have eq: "map fst ?es = map ends (map snd ?es)" by simp
  have "distinct (map fst ?es)" using assms unfolding graph_exact_def by (rule conjunct1)
  then have "distinct (map ends (map snd ?es))" by (simp only: eq)
  then show "distinct (map snd ?es)" by (simp only: distinct_map)
qed

lemma set_map_filter': "set (List.map_filter f xs) = {y. \<exists>x\<in>set xs. f x = Some y}"
  by (induction xs) (auto simp: List.map_filter_simps split: option.splits)

lemma map_filter_sorted:
  "sorted_wrt (<) (xs :: 'a::linorder list) \<Longrightarrow> (\<And>x y. x \<in> set xs \<Longrightarrow> f x = Some y \<Longrightarrow> key y = x) \<Longrightarrow>
    sorted_wrt (<) (map key (List.map_filter f xs))"
proof (induction xs)
  case (Cons x xs)
  show ?case
  proof (cases "f x")
    case None
    then show ?thesis using Cons by (simp add: List.map_filter_simps)
  next
    case (Some y)
    have "x < key z" if "z \<in> set (List.map_filter f xs)" for z
      using that Cons.prems by (auto simp: set_map_filter')
    moreover have "key y = x" using Cons.prems(2) Some by simp
    moreover have "sorted_wrt (<) (map key (List.map_filter f xs))" using Cons by simp
    ultimately show ?thesis using Some by (simp add: List.map_filter_simps)
  qed
qed (simp add: List.map_filter_simps)

context chain_backend begin

definition index_ok ::
  "(address \<Rightarrow> address \<Rightarrow> channel_id) \<Rightarrow> (channel_id \<Rightarrow> key_id \<times> key_id) \<Rightarrow> channel_id set \<Rightarrow> ('k, 'm, 's) chain_index \<Rightarrow> bool"
where
  "index_ok gen ends S ix \<longleftrightarrow> ok (store ix) \<and> identities (view (store ix)) \<and>
    coherent gen (view (store ix)) (channels (store ix)) ix \<and>
    graph_exact ends (channels (store ix)) ix \<and> named_channels (channels (store ix)) \<and>
    dom (channels (store ix)) \<subseteq> S"

lemma account_event_ok:
  assumes ok: "index_ok gen ends S ix" and own: "own_identity (view (store ix)) a" and keeps: "keeps_key (view (store ix)) a"
  shows "index_ok gen ends S (snd (apply_account ops a ix))"
    and "view (store (snd (apply_account ops a ix))) = (view (store ix))(acc_id a \<mapsto> a)"
proof -
  let ?m = "view (store ix)" and ?s = "snd (insert_account ops a (store ix))"
  let ?ix = "snd (apply_account ops a ix)"
  have s: "ok (store ix)" "identities ?m" using ok by (simp_all add: index_ok_def)
  obtain s' where put: "insert_account ops a (store ix) = (Inr (?m (acc_id a)), s')"
    using account_put [OF s(1)] by blast
  have s': "view s' = ?m(acc_id a \<mapsto> a)" "channels s' = channels (store ix)" "ok s'"
    using account_view [OF s(1), of a] account_channels [OF s(1), of a] account_ok [OF s own] put by simp_all
  have old: "public_key oa = public_key a" if "?m (acc_id a) = Some oa" for oa
    using keeps that by (simp add: keeps_key_def)
  have eq: "?ix = (let ix1 = cache_account a ix in
      case ?m (acc_id a) of
        None \<Rightarrow> ix1\<lparr>store := s'\<rparr>
      | Some oa \<Rightarrow> ix1\<lparr>store := s',
          chain_to_packet := drop_if (chain_addr oa \<noteq> chain_addr a) (chain_addr oa) (chain_to_packet ix1),
          packet_to_chain := drop_if (public_key oa \<noteq> public_key a) (public_key oa) (packet_to_chain ix1)\<rparr>)"
    by (simp add: apply_account_def put Let_def cache_account_def split: option.split)
  have upd: "store ?ix = s'" "key_to_id ?ix = (key_to_id ix)(public_key a \<mapsto> Some (acc_id a))"
    "id_to_key ?ix = (id_to_key ix)(acc_id a \<mapsto> Some (public_key a))"
    "channels_by_id ?ix = channels_by_id ix" "channels_by_parties ?ix = channels_by_parties ix"
    "index_edges ?ix = index_edges ix"
    "chain_to_packet ?ix = (case ?m (acc_id a) of None \<Rightarrow> (chain_to_packet ix)(chain_addr a \<mapsto> Some (public_key a))
       | Some oa \<Rightarrow> drop_if (chain_addr oa \<noteq> chain_addr a) (chain_addr oa)
           ((chain_to_packet ix)(chain_addr a \<mapsto> Some (public_key a))))"
    by (simp_all add: eq cache_account_def Let_def split: option.split)
  have packet: "packet_to_chain ?ix = (packet_to_chain ix)(public_key a \<mapsto> Some (chain_addr a))"
  proof (cases "?m (acc_id a)")
    case (Some oa)
    then show ?thesis using old [OF Some] by (simp add: eq cache_account_def drop_if_def Let_def)
  qed (simp add: eq cache_account_def Let_def)
  note coh = ok [unfolded index_ok_def coherent_def, THEN conjunct2, THEN conjunct2, THEN conjunct1]
  have "agrees (key_to_id ?ix) (says has_key acc_id (?m(acc_id a \<mapsto> a)))"
    unfolding upd by (rule agrees_account [where ident = public_key and c = "key_to_id ix"])
      (use coh old in \<open>auto simp: has_key_def\<close>)
  moreover have "agrees (packet_to_chain ?ix) (says has_key chain_addr (?m(acc_id a \<mapsto> a)))"
    unfolding packet by (rule agrees_account [where ident = public_key and c = "packet_to_chain ix"])
      (use coh old in \<open>auto simp: has_key_def\<close>)
  moreover have "agrees (chain_to_packet ?ix) (says has_addr public_key (?m(acc_id a \<mapsto> a)))"
    unfolding upd by (rule agrees_account [where ident = chain_addr and c = "chain_to_packet ix"])
      (use coh in \<open>auto simp: has_addr_def drop_if_def split: option.split\<close>)
  moreover have "agrees (id_to_key ?ix) (id_says (?m(acc_id a \<mapsto> a)))"
    unfolding upd using coh by (auto simp: agrees_def id_says_def)
  ultimately have "coherent gen (?m(acc_id a \<mapsto> a)) (channels (store ix)) ?ix"
    using coh unfolding coherent_def upd by blast
  then show "index_ok gen ends S ?ix"
    using ok identities_update [OF s(2) own] s'(3)
    unfolding index_ok_def graph_exact_def upd s'(1,2) by blast
  show "view (store ?ix) = ?m(acc_id a \<mapsto> a)" unfolding upd s'(1) by (rule refl)
qed

lemma channel_event_ok:
  assumes ok: "index_ok gen ends S ix" and gen: "inj (case_prod gen)" and ends: "inj_on ends S" and S: "ch_id c \<in> S"
    and c: "ch_id c = gen (ch_source c) (ch_destination c)" "(src, dst) = ends (ch_id c)"
  shows "index_ok gen ends S (snd (apply_channel ops diff src dst c ix))"
    and "view (store (snd (apply_channel ops diff src dst c ix))) = view (store ix)"
proof -
  let ?chs = "channels (store ix)" and ?ix = "snd (apply_channel ops diff src dst c ix)"
  have s: "ok (store ix)" using ok by (simp add: index_ok_def)
  obtain s' where put: "insert_channel ops c (store ix) = (Inr (?chs (ch_id c)), s')"
    using channel_put [OF s] by blast
  have s': "view s' = view (store ix)" "channels s' = ?chs(ch_id c \<mapsto> c)" "ok s'"
    using channel_view [OF s, of c] channel_channels [OF s, of c] channel_ok [OF s, of c] put by simp_all
  have eq: "?ix = (add_channel_edge src dst (ch_id c) ix)\<lparr>store := s',
      channels_by_id := (channels_by_id ix)(ch_id c \<mapsto> Some c),
      channels_by_parties := (channels_by_parties ix)((ch_source c, ch_destination c) \<mapsto> Some c)\<rparr>"
    by (simp add: apply_channel_def put Let_def add_channel_edge_def)
  have coh: "coherent gen (view (store ix)) ?chs ix" "graph_exact ends ?chs ix" "named_channels ?chs"
    "dom ?chs \<subseteq> S"
    using ok by (simp_all add: index_ok_def)
  have "coherent gen (view (store ix)) (?chs(ch_id c \<mapsto> c)) ?ix"
    using coh(1) coherent_channels [OF coh(1) gen c(1)] by (simp add: coherent_def eq add_channel_edge_def)
  moreover have "graph_exact ends (?chs(ch_id c \<mapsto> c)) ?ix"
    using graph_exact_channel [OF coh(2) c(2) ends coh(4) S]
      graph_exact_cong [of ?ix "add_channel_edge src dst (ch_id c) ix"] by (simp add: eq)
  moreover have "named_channels (?chs(ch_id c \<mapsto> c))"
    using coh(3) by (simp add: named_channels_def)
  moreover have st: "store ?ix = s'" by (simp add: eq)
  ultimately show "index_ok gen ends S ?ix" using ok s' S unfolding index_ok_def by simp
  show "view (store ?ix) = view (store ix)" using st s'(1) by simp
qed

text \<open>Lookups, expiry and invalidation leave the backend and the graph alone.\<close>

lemma quiet_ok:
  assumes "index_ok gen ends S ix" and "store ix' = store ix" and "index_edges ix' = index_edges ix"
    and "coherent gen (view (store ix)) (channels (store ix)) ix'"
  shows "index_ok gen ends S ix'"
  using assms graph_exact_cong [OF assms(3)] unfolding index_ok_def by simp

lemma key_says:
  assumes "index_ok gen ends S ix"
  shows "says has_key get (view (store ix)) k (map_option get (found (get_account_by_key ops (store ix) k)))"
  using assms read_key [of "store ix" k] unfolding index_ok_def says_def found_def has_key_def by auto

lemma key_says_ok:
  assumes "index_ok gen ends S ix" and "map_ok (map_option get) (get_account_by_key ops (store ix) k) = Inr v"
  shows "says has_key get (view (store ix)) k v"
  using key_says [OF assms(1), of get k] assms(2)
  by (cases "get_account_by_key ops (store ix) k") (auto simp: found_def)

lemma address_says_ok:
  assumes "index_ok gen ends S ix" and "map_ok (map_option get) (get_account_by_address ops (store ix) d) = Inr v"
  shows "says has_addr get (view (store ix)) d v"
  using assms read_address [of "store ix" d] unfolding index_ok_def says_def has_addr_def by auto

lemma ask_quiet:
  "store (ask ops gen e ix) = store ix" "index_edges (ask ops gen e ix) = index_edges ix"
  by (cases e; simp add: map_key_to_id_def map_id_to_public_def chain_key_to_packet_key_def
      packet_key_to_chain_key_def channel_by_id_def channel_by_parties_def Let_def case_prod_beta)+

lemma expire_quiet: "store (expire e ix) = store ix" "index_edges (expire e ix) = index_edges ix"
  by (cases e; simp)+

lemma ask_ok:
  assumes "index_ok gen ends S ix"
  shows "index_ok gen ends S (ask ops gen e ix)"
proof (rule quiet_ok [OF assms])
  have s: "ok (store ix)" and coh: "coherent gen (view (store ix)) (channels (store ix)) ix"
    using assms by (simp_all add: index_ok_def)
  show "store (ask ops gen e ix) = store ix" "index_edges (ask ops gen e ix) = index_edges ix"
    by (fact ask_quiet)+
  show "coherent gen (view (store ix)) (channels (store ix)) (ask ops gen e ix)"
  proof (cases e)
    case (OfKey k)
    then show ?thesis using coh agrees_get_with [of "key_to_id ix" "says has_key acc_id (view (store ix))", OF _ key_says [OF assms]]
      by (simp add: coherent_def map_key_to_id_def Let_def case_prod_beta)
  next
    case (OfId i)
    have "id_says (view (store ix)) i (map_option public_key (found (get_account_by_id ops (store ix) i)))"
      by (simp add: id_says_def read_id [OF s] found_def)
    then show ?thesis using coh OfId agrees_get_with [where P = "id_says (view (store ix))"]
      by (simp add: coherent_def map_id_to_public_def Let_def case_prod_beta)
  next
    case (OfAddress d)
    have "agrees (snd (try_get_with (chain_to_packet ix) d
        (map_ok (map_option public_key) (get_account_by_address ops (store ix) d))))
        (says has_addr public_key (view (store ix)))"
      using coh address_says_ok [OF assms] by (intro agrees_try_get_with) (auto simp: coherent_def)
    then show ?thesis using coh OfAddress
      by (simp add: coherent_def chain_key_to_packet_key_def Let_def case_prod_beta)
  next
    case (OfPacket k)
    have "agrees (snd (try_get_with (packet_to_chain ix) k
        (map_ok (map_option chain_addr) (get_account_by_key ops (store ix) k))))
        (says has_key chain_addr (view (store ix)))"
      using coh key_says_ok [OF assms] by (intro agrees_try_get_with) (auto simp: coherent_def)
    then show ?thesis using coh OfPacket
      by (simp add: coherent_def packet_key_to_chain_key_def Let_def case_prod_beta)
  next
    case (OfChannel c)
    have "agrees (snd (try_get_with (channels_by_id ix) c (get_channel_by_id ops (store ix) c)))
        (channel_says (channels (store ix)))"
      using coh by (intro agrees_try_get_with) (auto simp: coherent_def channel_says_def read_channel [OF s])
    then show ?thesis using coh OfChannel
      by (simp add: coherent_def channel_by_id_def Let_def case_prod_beta)
  next
    case (OfParties x y)
    have "agrees (snd (try_get_with (channels_by_parties ix) (x, y) (get_channel_by_id ops (store ix) (gen x y))))
        (parties_say gen (channels (store ix)))"
      using coh by (intro agrees_try_get_with) (auto simp: coherent_def parties_say_def read_channel [OF s])
    then show ?thesis using coh OfParties
      by (simp add: coherent_def channel_by_parties_def Let_def case_prod_beta)
  qed
qed

lemma expire_ok:
  assumes "index_ok gen ends S ix"
  shows "index_ok gen ends S (expire e ix)"
  using assms by (intro quiet_ok [OF assms]; cases e) (auto simp: index_ok_def coherent_def agrees_drop)

lemma invalidate_ok:
  assumes "index_ok gen ends S ix"
  shows "index_ok gen ends S (invalidate_caches ix)"
  using assms by (intro quiet_ok [OF assms]) (auto simp: index_ok_def coherent_def invalidate_caches_def)

lemma run_ok:
  assumes gen: "inj (case_prod gen)" and ends: "inj_on ends S"
  shows "index_ok gen ends S ix \<Longrightarrow> well_formed_run gen ends S (view (store ix)) es \<Longrightarrow>
    index_ok gen ends S (fold (index_step ops gen) es ix)"
proof (induction es arbitrary: ix)
  case (Cons e es)
  show ?case
  proof (cases e)
    case (AccountEvent a)
    then have own: "own_identity (view (store ix)) a" "keeps_key (view (store ix)) a"
      and run: "well_formed_run gen ends S ((view (store ix))(acc_id a \<mapsto> a)) es"
      using Cons.prems(2) by simp_all
    from run have "well_formed_run gen ends S (view (store (snd (apply_account ops a ix)))) es"
      unfolding account_event_ok(2) [OF Cons.prems(1) own] .
    from Cons.IH [OF account_event_ok(1) [OF Cons.prems(1) own] this]
    show ?thesis using AccountEvent by simp
  next
    case (ChannelEvent src dst c)
    have c: "ch_id c \<in> S" "ch_id c = gen (ch_source c) (ch_destination c)" "(src, dst) = ends (ch_id c)"
      using Cons.prems(2) unfolding ChannelEvent well_formed_run.simps by blast+
    note step = channel_event_ok [where diff = "\<lambda>_ _. [] :: unit list", OF Cons.prems(1) gen ends c]
    from ChannelEvent Cons.prems(2) have "well_formed_run gen ends S (view (store ix)) es" by simp
    then have "well_formed_run gen ends S
        (view (store (snd (apply_channel ops (\<lambda>_ _. [] :: unit list) src dst c ix)))) es"
      unfolding step(2) .
    from Cons.IH [OF step(1) this] show ?thesis using ChannelEvent by simp
  next
    case (Ask q)
    then show ?thesis using Cons.IH [OF ask_ok [OF Cons.prems(1)]] Cons.prems(2) by (simp add: ask_quiet)
  next
    case (Expire q)
    then show ?thesis using Cons.IH [OF expire_ok [OF Cons.prems(1)]] Cons.prems(2) by (simp add: expire_quiet)
  next
    case Invalidate
    then show ?thesis using Cons.IH [OF invalidate_ok [OF Cons.prems(1)]] Cons.prems(2)
      by (simp add: invalidate_caches_def)
  qed
qed simp

text \<open>What a coherent cache answers is what the backend answers.\<close>

lemma says_key_unique:
  assumes "identities m" and "says has_key get m k v" and "says has_key get m k v'"
  shows "v = v'"
  using assms holder_key_unique [OF assms(1)] unfolding says_def has_key_def by metis

lemma says_addr_unique:
  assumes "identities m" and "says has_addr get m k v" and "says has_addr get m k v'"
  shows "v = v'"
  using assms holder_addr_unique [OF assms(1)] unfolding says_def has_addr_def by metis

lemma lookups_exact:
  assumes ok: "index_ok gen ends S ix"
  shows "fst (map_key_to_id ops k ix) = map_option acc_id (found (get_account_by_key ops (store ix) k))"
    and "fst (map_id_to_public ops i ix) = map_option public_key (found (get_account_by_id ops (store ix) i))"
    and "fst (chain_key_to_packet_key (Inr ()) ops d ix) =
      cache_error (map_ok (map_option public_key) (get_account_by_address ops (store ix) d))"
    and "fst (packet_key_to_chain_key (Inr ()) ops k ix) =
      cache_error (map_ok (map_option chain_addr) (get_account_by_key ops (store ix) k))"
    and "fst (channel_by_id (Inr ()) ops c ix) = cache_error (get_channel_by_id ops (store ix) c)"
    and "fst (channel_by_parties gen (Inr ()) ops x y ix) =
      cache_error (get_channel_by_id ops (store ix) (gen x y))"
proof -
  have s: "ok (store ix)" and ids: "identities (view (store ix))"
    and coh: "coherent gen (view (store ix)) (channels (store ix)) ix"
    using ok by (simp_all add: index_ok_def)
  have "v = map_option acc_id (found (get_account_by_key ops (store ix) k))" if "key_to_id ix k = Some v" for v
    using says_key_unique [OF ids agrees_get [of "key_to_id ix" "says has_key acc_id (view (store ix))", OF _ that] key_says [OF ok]] coh by (simp add: coherent_def)
  then show "fst (map_key_to_id ops k ix) = map_option acc_id (found (get_account_by_key ops (store ix) k))"
    by (simp add: map_key_to_id_def get_with_def Let_def case_prod_beta split: option.split)
  show "fst (map_id_to_public ops i ix) = map_option public_key (found (get_account_by_id ops (store ix) i))"
    using coh by (auto simp: coherent_def agrees_def id_says_def map_id_to_public_def get_with_def Let_def
        case_prod_beta read_id [OF s] found_def split: option.split)
  obtain ra where ra: "get_account_by_address ops (store ix) d = Inr ra" using read_address [OF s ids] by blast
  have "v = map_option public_key ra" if "chain_to_packet ix d = Some v" for v
    using says_addr_unique [OF ids agrees_get [of "chain_to_packet ix" "says has_addr public_key (view (store ix))", OF _ that] address_says_ok [OF ok, of public_key d]] coh ra
    by (simp add: coherent_def)
  then show "fst (chain_key_to_packet_key (Inr ()) ops d ix) =
      cache_error (map_ok (map_option public_key) (get_account_by_address ops (store ix) d))"
    by (auto simp: chain_key_to_packet_key_def try_get_with_def Let_def case_prod_beta ra split: option.split)
  obtain rk where rk: "get_account_by_key ops (store ix) k = Inr rk" using read_key [OF s ids] by blast
  have "v = map_option chain_addr rk" if "packet_to_chain ix k = Some v" for v
    using says_key_unique [OF ids agrees_get [of "packet_to_chain ix" "says has_key chain_addr (view (store ix))", OF _ that] key_says_ok [OF ok, of chain_addr k]] coh rk
    by (simp add: coherent_def)
  then show "fst (packet_key_to_chain_key (Inr ()) ops k ix) =
      cache_error (map_ok (map_option chain_addr) (get_account_by_key ops (store ix) k))"
    by (auto simp: packet_key_to_chain_key_def try_get_with_def Let_def case_prod_beta rk split: option.split)
  show "fst (channel_by_id (Inr ()) ops c ix) = cache_error (get_channel_by_id ops (store ix) c)"
    using coh by (auto simp: coherent_def agrees_def channel_says_def channel_by_id_def try_get_with_def Let_def
        case_prod_beta read_channel [OF s] split: option.split)
  show "fst (channel_by_parties gen (Inr ()) ops x y ix) = cache_error (get_channel_by_id ops (store ix) (gen x y))"
    using coh by (auto simp: coherent_def agrees_def parties_say_def channel_by_parties_def try_get_with_def Let_def
        case_prod_beta read_channel [OF s] split: option.split)
qed

text \<open>The stream of channels: in the order of their ids, each of the stored ones once.\<close>

lemma stream_exact:
  assumes ok: "index_ok gen ends S ix" and sel: "allowed_states sel \<noteq> [ClosedKind]"
  shows "\<exists>cs. build_channel_stream ops sel ix = Inr cs \<and> sorted_wrt (<) (map ch_id cs) \<and>
    set cs = {c \<in> ran (channels (store ix)). satisfies sel c}"
proof -
  let ?chs = "channels (store ix)" and ?ids = "sort (map snd (index_edges ix))"
  let ?pick = "\<lambda>i. keep_if (satisfies sel) (?chs i)"
  have s: "ok (store ix)" and g: "graph_exact ends ?chs ix" and named: "named_channels ?chs"
    using ok by (simp_all add: index_ok_def)
  have ids: "set ?ids = dom ?chs" "sorted_wrt (<) ?ids"
    using graph_exact_ids [OF g] by (simp_all add: strict_sorted_iff)
  have pick: "?pick i = Some c \<longleftrightarrow> ?chs i = Some c \<and> satisfies sel c" for i c
    by (auto simp: keep_if_def split: option.splits)
  have "build_channel_stream ops sel ix = Inr (List.map_filter ?pick ?ids)"
    using sel by (simp add: build_channel_stream_def read_channel [OF s] found_def)
  moreover have "sorted_wrt (<) (map ch_id (List.map_filter ?pick ?ids))"
    using ids(2) named by (intro map_filter_sorted) (auto simp: pick named_channels_def)
  moreover have "set (List.map_filter ?pick ?ids) = {c \<in> ran ?chs. satisfies sel c}"
    unfolding set_map_filter' ids(1) pick by (auto simp: ran_def)
  ultimately show ?thesis by blast
qed

lemma index_new_ok:
  assumes "ok s" and "view s = (\<lambda>_. None)" and "channels s = (\<lambda>_. None)"
  shows "index_ok gen ends S (index_new s)"
  using assms by (simp add: index_ok_def index_new_def coherent_def graph_exact_def named_channels_def)

end

section \<open>What the connector answers\<close>

lemma td_new_empty:
  "td_all_ok cs td_new" "td_view (de_account cs) td_new = (\<lambda>_. None)"
  "td_channels_view (de_channel cs) td_new = (\<lambda>_. None)"
  by (auto simp: td_all_ok_def td_ok_def td_new_def td_view_def td_channels_view_def)

lemma td_run_ok:
  assumes "faithful_codecs cs" and "inj (case_prod gen)" and "inj_on ends S"
    and "well_formed_run gen ends S (\<lambda>_. None) es"
  shows "chain_backend.index_ok (td_view (de_account cs)) (td_channels_view (de_channel cs)) (td_all_ok cs) gen ends S
    (fold (index_step (tempdb_ops cs) gen) es (index_new td_new))"
proof -
  note td = tempdb_ops_contract [OF assms(1)]
  show ?thesis
    using chain_backend.run_ok [OF td assms(2,3) chain_backend.index_new_ok [OF td td_new_empty], of es] assms(4)
    by (simp add: index_new_def td_new_empty)
qed


definition pair_code :: "nat \<Rightarrow> nat \<Rightarrow> nat" where
  "pair_code x y = to_nat (x, y)"

lemma inj_pair_code: "inj (case_prod pair_code)"
  by (auto simp: inj_def pair_code_def)

definition sample_channel :: "channel_status \<Rightarrow> chain_channel" where
  "sample_channel st =
    \<lparr>ch_id = pair_code 10 20, ch_destination = 20, ch_balance = 5, ch_ticket_index = 0, ch_status = st,
     ch_epoch = 1, ch_source = 10\<rparr>"

definition sample_run :: "(nat, nat) index_op list" where
  "sample_run =
    [AccountEvent (sample_account 1 1 10), AccountEvent (sample_account 2 2 20), Ask (OfAddress 10),
     ChannelEvent 1 2 (sample_channel Open), AccountEvent (sample_account 1 1 30), Invalidate,
     ChannelEvent 1 2 (sample_channel Closed)]"

lemma sample_run_ok:
  "well_formed_run pair_code (\<lambda>_. (1, 2)) {pair_code 10 20} (\<lambda>_. None) sample_run"
  by (auto simp: sample_run_def sample_account_def sample_channel_def own_identity_def keeps_key_def ran_def
      split: if_splits)

definition sample_index :: "(nat, nat, (nat, (nat, nat) account_entry + chain_channel) tempdb) chain_index" where
  "sample_index = fold (index_step (tempdb_ops plain_codecs) pair_code) sample_run (index_new td_new)"


text \<open>
  The stream of channels is the stored channels: after any such run, a stream over any
  selector other than closed channels only yields exactly the channels of the database that
  satisfy the selector, each once and in the order of their ids.
\<close>

theorem channel_stream_exact:
  assumes "faithful_codecs cs" and "inj (case_prod gen)" and "inj_on ends S"
    and "well_formed_run gen ends S (\<lambda>_. None) es"
    and "ix = fold (index_step (tempdb_ops cs) gen) es (index_new td_new)"
    and "allowed_states sel \<noteq> [ClosedKind]"
  shows "\<exists>xs. stream_channels (Inr ()) (tempdb_ops cs) sel ix = Inr xs \<and> sorted_wrt (<) (map ch_id xs) \<and>
    set xs = {c \<in> ran (td_channels_view (de_channel cs) (store ix)). satisfies sel c}"
  using chain_backend.stream_exact [OF tempdb_ops_contract [OF assms(1)]
      td_run_ok [OF assms(1-4), folded assms(5)] assms(6)]
  by (simp add: stream_channels_def)

theorem channel_stream_exact_witness:
  "\<exists>xs. stream_channels (Inr ()) (tempdb_ops plain_codecs)
      \<lparr>allowed_states = [OpenKind], satisfies = (\<lambda>c. ch_status c = Open)\<rparr> sample_index = Inr xs \<and>
    sorted_wrt (<) (map ch_id xs) \<and>
    set xs = {c \<in> ran (td_channels_view (de_channel plain_codecs) (store sample_index)). ch_status c = Open}"
  using channel_stream_exact [OF plain_codecs_faithful inj_pair_code _ sample_run_ok sample_index_def,
      of "\<lparr>allowed_states = [OpenKind], satisfies = (\<lambda>c. ch_status c = Open)\<rparr>"]
  by simp

section \<open>Limits\<close>

text \<open>
  The comment of \<open>build_channel_stream\<close> says that the graph does not contain closed channels;
  the graph keeps the edge of every channel it was told of, so a selector that allows closed
  channels besides others yields them.
\<close>

theorem closed_channels_streamed:
  "stream_channels (Inr ()) (mem_backend_ops rev)
      \<lparr>allowed_states = [OpenKind, ClosedKind], satisfies = (\<lambda>_. True)\<rparr>
      (index_step (mem_backend_ops rev) pair_code (ChannelEvent 1 2 (sample_channel Closed)) (index_new mb_default))
    = Inr [sample_channel Closed]"
  by (simp add: stream_channels_def build_channel_stream_def apply_channel_def add_channel_edge_def index_new_def
      mem_backend_ops_def mb_insert_channel_def mb_default_def mb_channel_by_id_def keep_if_def found_def
      List.map_filter_simps Let_def)

text \<open>
  Three ways in which the key mapper departs from the database. When an account changes its
  packet key the entry of the old key stays and the old key still maps to the account's id. A
  lookup that meets a database error answers that there is no such key, and keeps that answer:
  it is given again when the database works and holds the account. And \<open>invalidate_caches\<close>,
  documented to invalidate all cached data, removes neither.
\<close>

theorem mapper_departs:
  fixes a a' :: "('k, 'm) account_entry" and ops :: "('k, 'm, 's) backend_ops"
  assumes "acc_id a' = acc_id a" and "public_key a' \<noteq> public_key a"
    and "ix = fold (index_step ops gen) [AccountEvent a, AccountEvent a', Invalidate] (index_new s)"
    and "get_account_by_key broken s k = Inl err"
    and "iy = invalidate_caches (snd (map_key_to_id broken k (index_new s)))"
  shows "fst (map_key_to_id ops (public_key a) ix) = Some (acc_id a) \<and>
    fst (map_key_to_id broken k (index_new s)) = None \<and> fst (map_key_to_id ops k iy) = None"
proof -
  have "key_to_id ix (public_key a) = Some (Some (acc_id a))"
    using assms(1,2) unfolding assms(3)
    by (simp add: apply_account_def cache_account_def invalidate_caches_def index_new_def Let_def
        split: prod.split sum.split option.split)
  then have "fst (map_key_to_id ops (public_key a) ix) = Some (acc_id a)"
    by (simp add: map_key_to_id_def get_with_def)
  moreover have "fst (map_key_to_id broken k (index_new s)) = None"
    and "fst (map_key_to_id ops k iy) = None"
    using assms(4) unfolding assms(5)
    by (simp_all add: map_key_to_id_def get_with_def index_new_def found_def invalidate_caches_def Let_def)
  ultimately show ?thesis by blast
qed

definition broken_ops :: "(nat, nat, (nat, nat) mem_backend) backend_ops" where
  "broken_ops = (mem_backend_ops rev)\<lparr>get_account_by_key := (\<lambda>_ _. Inl ''io'')\<rparr>"

theorem mapper_departs_witness:
  "fst (map_key_to_id (mem_backend_ops rev) 1
      (fold (index_step (mem_backend_ops rev) pair_code)
        [AccountEvent (sample_account 1 1 10), AccountEvent (sample_account 1 2 10), Invalidate]
        (index_new mb_default))) = Some 1 \<and>
   fst (map_key_to_id broken_ops 7 (index_new mb_default)) = None \<and>
   fst (map_key_to_id (mem_backend_ops rev) 7
      (invalidate_caches (snd (map_key_to_id broken_ops 7 (index_new mb_default))))) = None"
  using mapper_departs [of "sample_account 1 2 10" "sample_account 1 1 10", OF _ _ refl, of broken_ops mb_default 7
      "''io''", OF _ _ _ refl]
  by (simp add: sample_account_def broken_ops_def)

end
