(* ===== verification/Chain_Models.thy ===== *)
theory Chain_Models
  imports Chain_Backend Connector_Errors Rust_Text
begin

text \<open>
  The conversions of Blokli's answers (\<open>connector/src/utils.rs\<close>): every field is text or a plain
  number, and a conversion either fails with an error of the connector or yields the entry. The
  parsers and constructors of other crates are the fields of \<open>parsers\<close>, with the text of their
  error; the integer parsers of the standard library are those of \<open>Rust_Text\<close>.
\<close>

section \<open>Parsers of other crates\<close>

text \<open>A JSON value, as far as \<open>parse_contract_addresses\<close> looks into it.\<close>

datatype json = JString string | JObject "(string \<times> json) list" | JOther string

record ('k, 'm, 'h, 'w, 'c, 't, 'md, 'f) parsers =
  parse_key :: "string \<Rightarrow> string + 'k"
  valid_key :: "'k \<Rightarrow> string + unit"
  parse_multiaddr :: "string \<Rightarrow> 'm option"
  parse_address :: "string \<Rightarrow> string + address"
  parse_hash :: "string \<Rightarrow> string + 'h"
  parse_balance :: "string \<Rightarrow> string + balance"
  parse_date :: "string \<Rightarrow> string + nat"
  win_prob_of :: "'f \<Rightarrow> string + 'w"
  parse_json :: "string \<Rightarrow> string + json"
  contracts_of :: "json \<Rightarrow> string + 'c"
  zero_address_text :: string
  parse_service_type :: "string \<Rightarrow> string + 't"
  service_type_of_hex :: "string \<Rightarrow> string + 't"
  decode_hex :: "string \<Rightarrow> string + u8 list"
  metadata_of :: "u8 list \<Rightarrow> string + 'md"
  instant_exists :: "u64 \<Rightarrow> bool"
  generate_channel_id :: "address \<Rightarrow> address \<Rightarrow> channel_id"
  build_channel :: "chain_channel \<Rightarrow> string + chain_channel"
  default_max_fee :: u128
  default_priority_fee :: u128

section \<open>Accounts and channels\<close>

record account_model =
  m_keyid :: int
  m_packet_key :: string
  m_chain_key :: string
  m_multi_addresses :: "string list"
  m_safe_address :: "string option"

definition general_err :: "string + 'a \<Rightarrow> connector_error + 'a" where
  "general_err r = map_err GeneralError r"

definition convert_err :: "string \<Rightarrow> string + 'a \<Rightarrow> connector_error + 'a" where
  "convert_err what r = map_err (\<lambda>e. TypeConversion (what @ '': '' @ e)) r"

text \<open>\<open>map(\<dots>).transpose()\<close> of an optional text.\<close>

definition opt_transpose :: "('a \<Rightarrow> 'e + 'b) \<Rightarrow> 'a option \<Rightarrow> 'e + 'b option" where
  "opt_transpose f v = (case v of None \<Rightarrow> Inr None | Some x \<Rightarrow> map_ok Some (f x))"

definition model_to_account_entry ::
  "('k, 'm, 'h, 'w, 'c, 't, 'md, 'f) parsers \<Rightarrow> account_model \<Rightarrow> connector_error + ('k, 'm) account_entry"
where
  "model_to_account_entry P m =
    (let et = (if m_multi_addresses m \<noteq> [] then Announced (List.map_filter (parse_multiaddr P) (m_multi_addresses m))
               else NotAnnounced)
     in and_then (general_err (parse_key P (m_packet_key m))) (\<lambda>k.
        and_then (general_err (valid_key P k)) (\<lambda>_.
        and_then (general_err (parse_address P (m_chain_key m))) (\<lambda>addr.
        and_then (general_err (opt_transpose (parse_address P) (m_safe_address m))) (\<lambda>safe.
          Inr \<lparr>public_key = k, chain_addr = addr, acc_id = word_of_int (m_keyid m), entry_type = et,
               safe_address = safe\<rparr>)))))"

datatype status_model = OpenModel | PendingModel | ClosedModel | OtherStatusModel

record channel_model =
  m_balance :: string
  m_ticket_index :: string
  m_status :: status_model
  m_closure_time :: "string option"
  m_epoch :: int

record graph_entry_model =
  m_source :: account_model
  m_destination :: account_model
  m_channel :: channel_model

definition max_u64 :: nat where "max_u64 = 2 ^ 64 - 1"
definition max_u32 :: nat where "max_u32 = 2 ^ 32 - 1"
definition max_u128 :: nat where "max_u128 = 2 ^ 128 - 1"

definition parse_int :: "nat \<Rightarrow> string \<Rightarrow> string + nat" where
  "parse_int cap s = map_err int_error_text (parse_unsigned cap s)"

definition model_to_status ::
  "('k, 'm, 'h, 'w, 'c, 't, 'md, 'f) parsers \<Rightarrow> channel_model \<Rightarrow> connector_error + channel_status"
where
  "model_to_status P m =
    (case m_status m of
       OpenModel \<Rightarrow> Inr Open
     | PendingModel \<Rightarrow>
         and_then (ok_or (TypeConversion ''invalid closure time'') (m_closure_time m))
           (\<lambda>t. map_ok PendingToClose (convert_err ''invalid closure time'' (parse_date P t)))
     | ClosedModel \<Rightarrow> Inr Closed
     | OtherStatusModel \<Rightarrow> Inl (TypeConversion ''invalid channel status''))"

definition model_to_graph_entry ::
  "('k, 'm, 'h, 'w, 'c, 't, 'md, 'f) parsers \<Rightarrow> graph_entry_model \<Rightarrow>
    connector_error + ('k, 'm) account_entry \<times> ('k, 'm) account_entry \<times> chain_channel"
where
  "model_to_graph_entry P m =
    and_then (model_to_account_entry P (m_source m)) (\<lambda>src.
    and_then (model_to_account_entry P (m_destination m)) (\<lambda>dst.
    and_then (general_err (parse_balance P (m_balance (m_channel m)))) (\<lambda>bal.
    and_then (convert_err ''invalid ticket index'' (parse_int max_u64 (m_ticket_index (m_channel m)))) (\<lambda>idx.
    and_then (model_to_status P (m_channel m)) (\<lambda>st.
    and_then (map_err CoreTypesError (build_channel P
        \<lparr>ch_id = generate_channel_id P (chain_addr src) (chain_addr dst), ch_destination = chain_addr dst,
         ch_balance = bal, ch_ticket_index = of_nat idx, ch_status = st,
         ch_epoch = word_of_int (m_epoch (m_channel m)), ch_source = chain_addr src\<rparr>)) (\<lambda>c.
      Inr (src, dst, c)))))))"

section \<open>Chain information\<close>

text \<open>The addresses of a deployment without a service registry get the zero address for it.\<close>

definition with_default_entry :: "string \<Rightarrow> json \<Rightarrow> (string \<times> json) list \<Rightarrow> (string \<times> json) list" where
  "with_default_entry k v obj = (if k \<in> fst ` set obj then obj else obj @ [(k, v)])"

definition parse_contract_addresses ::
  "('k, 'm, 'h, 'w, 'c, 't, 'md, 'f) parsers \<Rightarrow> string \<Rightarrow> connector_error + 'c"
where
  "parse_contract_addresses P raw =
    and_then (convert_err ''invalid contract addresses JSON'' (parse_json P raw)) (\<lambda>v.
      case v of
        JObject obj \<Rightarrow>
          convert_err ''invalid contract addresses JSON''
            (contracts_of P (JObject (with_default_entry ''service_registry'' (JString (zero_address_text P)) obj)))
      | _ \<Rightarrow> Inl (TypeConversion ''invalid contract addresses JSON: expected an object''))"

record 'f chain_info_model =
  m_grace_period :: string
  m_ledger_dst :: "string option"
  m_safe_registry_dst :: "string option"
  m_channel_dst :: "string option"
  m_key_binding_fee :: string
  m_max_fee :: "string option"
  m_max_priority_fee :: "string option"
  m_chain_id :: int
  m_network :: string
  m_contracts :: string
  m_win_prob :: 'f
  m_ticket_price :: string
  m_finality :: string
  m_block_time :: string

record ('h, 'w, 'c) parsed_chain_info =
  ci_grace_period :: duration
  ci_ledger :: 'h
  ci_safe_registry :: 'h
  ci_channel :: 'h
  ci_key_binding_fee :: balance
  ci_max_fee :: u128
  ci_max_priority_fee :: u128
  ci_chain_id :: u64
  ci_network :: string
  ci_contracts :: 'c
  ci_win_prob :: 'w
  ci_ticket_price :: balance
  ci_finality :: u32
  ci_block_time :: duration

definition gas_field :: "u128 \<Rightarrow> string option \<Rightarrow> u128" where
  "gas_field d raw =
    (case Option.bind raw (\<lambda>s. res_ok (parse_int max_u128 s)) of Some n \<Rightarrow> of_nat n | None \<Rightarrow> d)"

definition missing_hash ::
  "('k, 'm, 'h, 'w, 'c, 't, 'md, 'f) parsers \<Rightarrow> string \<Rightarrow> string option \<Rightarrow> connector_error + 'h"
where
  "missing_hash P name v =
    and_then (ok_or (TypeConversion (''missing '' @ name @ '' dst'')) v)
      (\<lambda>s. convert_err (''invalid '' @ name @ '' dst'') (parse_hash P s))"

definition model_to_chain_info ::
  "('k, 'm, 'h, 'w, 'c, 't, 'md, 'f) parsers \<Rightarrow> 'f chain_info_model \<Rightarrow>
    connector_error + ('h, 'w, 'c) parsed_chain_info"
where
  "model_to_chain_info P m =
    and_then (convert_err ''invalid channel grace period'' (parse_int max_u64 (m_grace_period m))) (\<lambda>grace.
    and_then (missing_hash P ''ledger'' (m_ledger_dst m)) (\<lambda>ledger.
    and_then (missing_hash P ''safe registry'' (m_safe_registry_dst m)) (\<lambda>safe.
    and_then (missing_hash P ''channel'' (m_channel_dst m)) (\<lambda>chan.
    and_then (convert_err ''invalid key binding fee'' (parse_balance P (m_key_binding_fee m))) (\<lambda>fee.
    and_then (parse_contract_addresses P (m_contracts m)) (\<lambda>contracts.
    and_then (convert_err ''invalid winning probability info'' (win_prob_of P (m_win_prob m))) (\<lambda>wp.
    and_then (convert_err ''invalid ticket price'' (parse_balance P (m_ticket_price m))) (\<lambda>price.
    and_then (convert_err ''failed to parse finality'' (parse_int max_u32 (m_finality m))) (\<lambda>finality.
    and_then (convert_err ''failed to parse expected block time'' (parse_int max_u64 (m_block_time m))) (\<lambda>block.
      Inr \<lparr>ci_grace_period = from_secs grace, ci_ledger = ledger, ci_safe_registry = safe, ci_channel = chan,
           ci_key_binding_fee = fee, ci_max_fee = gas_field (default_max_fee P) (m_max_fee m),
           ci_max_priority_fee = min (gas_field (default_priority_fee P) (m_max_priority_fee m))
             (gas_field (default_max_fee P) (m_max_fee m)),
           ci_chain_id = word_of_int (m_chain_id m), ci_network = m_network m, ci_contracts = contracts,
           ci_win_prob = wp, ci_ticket_price = price, ci_finality = max (of_nat finality) 1,
           ci_block_time = max (from_secs block) (from_secs 1)\<rparr>))))))))))"

definition model_to_ticket_params ::
  "('k, 'm, 'h, 'w, 'c, 't, 'md, 'f) parsers \<Rightarrow> string \<Rightarrow> 'f \<Rightarrow> connector_error + balance \<times> 'w"
where
  "model_to_ticket_params P price wp =
    and_then (general_err (parse_balance P price)) (\<lambda>b.
    and_then (general_err (win_prob_of P wp)) (\<lambda>w. Inr (b, w)))"

definition model_to_redeemed_stats ::
  "('k, 'm, 'h, 'w, 'c, 't, 'md, 'f) parsers \<Rightarrow> string \<Rightarrow> string \<Rightarrow> connector_error + u64 \<times> balance"
where
  "model_to_redeemed_stats P count_text amount_text =
    and_then (map_err (\<lambda>_. TypeConversion ''invalid redemption count'') (parse_int max_u64 count_text)) (\<lambda>n.
    and_then (map_err (\<lambda>_. TypeConversion ''invalid redeemed amount'') (parse_balance P amount_text)) (\<lambda>b.
      Inr (of_nat n, b)))"

section \<open>Safes\<close>

record safe_model =
  m_safe :: string
  m_owners :: "string list"
  m_module :: string
  m_nodes :: "string list"
  m_deployer :: string

record deployed_safe =
  ds_address :: address
  ds_owners :: "address list"
  ds_module :: address
  ds_nodes :: "address list"
  ds_deployer :: address

text \<open>\<open>collect::<Result<Vec<_>, _>>\<close>: the first error, or all values.\<close>

fun try_collect :: "('a \<Rightarrow> 'e + 'b) \<Rightarrow> 'a list \<Rightarrow> 'e + 'b list" where
  "try_collect f [] = Inr []"
| "try_collect f (x # xs) = and_then (f x) (\<lambda>y. map_ok (\<lambda>ys. y # ys) (try_collect f xs))"

definition model_to_deployed_safe ::
  "('k, 'm, 'h, 'w, 'c, 't, 'md, 'f) parsers \<Rightarrow> safe_model \<Rightarrow> connector_error + deployed_safe"
where
  "model_to_deployed_safe P m =
    and_then (general_err (parse_address P (m_safe m))) (\<lambda>a.
    and_then (general_err (try_collect (parse_address P) (m_owners m))) (\<lambda>os.
    and_then (general_err (parse_address P (m_module m))) (\<lambda>md.
    and_then (general_err (try_collect (parse_address P) (m_nodes m))) (\<lambda>ns.
    and_then (general_err (parse_address P (m_deployer m))) (\<lambda>d.
      Inr \<lparr>ds_address = a, ds_owners = os, ds_module = md, ds_nodes = ns, ds_deployer = d\<rparr>)))))"

section \<open>Service registry\<close>

text \<open>\<open>ServiceType::SIZE\<close> is the size of the encoding, 32 bytes on chain; here a parameter.\<close>

definition model_to_service_type ::
  "nat \<Rightarrow> ('k, 'm, 'h, 'w, 'c, 't, 'md, 'f) parsers \<Rightarrow> string \<Rightarrow> connector_error + 't"
where
  "model_to_service_type sz P rendered =
    convert_err (''invalid service type '' @ rendered)
      (if length rendered = 2 + 2 * sz \<and> take 2 rendered = ''0x'' then service_type_of_hex P rendered
       else parse_service_type P rendered)"

definition model_to_service_metadata ::
  "('k, 'm, 'h, 'w, 'c, 't, 'md, 'f) parsers \<Rightarrow> string \<Rightarrow> connector_error + 'md"
where
  "model_to_service_metadata P rendered =
    and_then (convert_err ''invalid service metadata'' (decode_hex P rendered))
      (\<lambda>bytes. convert_err ''invalid service metadata'' (metadata_of P bytes))"

text \<open>An instant the platform cannot represent is an error, not a panic.\<close>

definition model_to_timestamp ::
  "('k, 'm, 'h, 'w, 'c, 't, 'md, 'f) parsers \<Rightarrow> string \<Rightarrow> connector_error + u64"
where
  "model_to_timestamp P secs =
    and_then (convert_err (''invalid service timestamp '' @ secs) (parse_int max_u64 secs)) (\<lambda>n.
      if instant_exists P (of_nat n) then Inr (of_nat n)
      else Inl (TypeConversion (''service timestamp '' @ digits n @ '' is out of range'')))"

definition service_burn_to_hopr_balance ::
  "('k, 'm, 'h, 'w, 'c, 't, 'md, 'f) parsers \<Rightarrow> string \<Rightarrow> connector_error + balance"
where
  "service_burn_to_hopr_balance P amount =
    convert_err (''invalid service registry burn '' @ amount) (parse_balance P amount)"

definition model_to_registry_address ::
  "('k, 'm, 'h, 'w, 'c, 't, 'md, 'f) parsers \<Rightarrow> string \<Rightarrow> string \<Rightarrow> connector_error + address"
where
  "model_to_registry_address P field rendered =
    convert_err (''invalid service registry '' @ field @ '' '' @ rendered) (parse_address P rendered)"

record service_entry_model =
  m_se_type :: string
  m_se_node :: string
  m_se_safe :: string
  m_se_metadata :: string
  m_se_registered :: string
  m_se_updated :: string

record ('t, 'md) service_entry =
  se_type :: 't
  se_node :: address
  se_safe :: address
  se_metadata :: 'md
  se_registered_at :: u64
  se_updated_at :: u64

text \<open>\<open>ServiceEntry::new\<close> may refuse the parts: \<open>accept\<close>.\<close>

definition model_to_service_entry ::
  "nat \<Rightarrow> (('t, 'md) service_entry \<Rightarrow> string + ('t, 'md) service_entry) \<Rightarrow>
    ('k, 'm, 'h, 'w, 'c, 't, 'md, 'f) parsers \<Rightarrow> service_entry_model \<Rightarrow> connector_error + ('t, 'md) service_entry"
where
  "model_to_service_entry sz accept P m =
    and_then (model_to_service_type sz P (m_se_type m)) (\<lambda>t.
    and_then (model_to_registry_address P ''node'' (m_se_node m)) (\<lambda>n.
    and_then (model_to_registry_address P ''safe'' (m_se_safe m)) (\<lambda>sf.
    and_then (model_to_service_metadata P (m_se_metadata m)) (\<lambda>md.
    and_then (model_to_timestamp P (m_se_registered m)) (\<lambda>r.
    and_then (model_to_timestamp P (m_se_updated m)) (\<lambda>u.
      general_err (accept \<lparr>se_type = t, se_node = n, se_safe = sf, se_metadata = md,
        se_registered_at = r, se_updated_at = u\<rparr>)))))))"

record service_type_model =
  m_st_type :: string
  m_st_owner :: "string option"
  m_st_requirement :: "string option"
  m_st_registration_burn :: string
  m_st_update_burn :: string

record service_type_config =
  st_owner :: "address option"
  st_requirement :: "address option"
  st_registration_burn :: balance
  st_update_burn :: balance

definition model_to_service_type_config ::
  "('k, 'm, 'h, 'w, 'c, 't, 'md, 'f) parsers \<Rightarrow> service_type_model \<Rightarrow> connector_error + service_type_config"
where
  "model_to_service_type_config P m =
    and_then (opt_transpose (model_to_registry_address P ''type owner'') (m_st_owner m)) (\<lambda>ow.
    and_then (opt_transpose (model_to_registry_address P ''type requirement'') (m_st_requirement m)) (\<lambda>rq.
    and_then (service_burn_to_hopr_balance P (m_st_registration_burn m)) (\<lambda>rb.
    and_then (service_burn_to_hopr_balance P (m_st_update_burn m)) (\<lambda>ub.
      Inr \<lparr>st_owner = ow, st_requirement = rq, st_registration_burn = rb, st_update_burn = ub\<rparr>))))"

record registry_config_model =
  m_rc_fee :: string
  m_rc_pointer :: string

record registry_config =
  rc_fee :: balance
  rc_pointer :: address

definition model_to_service_registry_config ::
  "('k, 'm, 'h, 'w, 'c, 't, 'md, 'f) parsers \<Rightarrow> registry_config_model \<Rightarrow> connector_error + registry_config"
where
  "model_to_service_registry_config P m =
    and_then (service_burn_to_hopr_balance P (m_rc_fee m)) (\<lambda>fee.
    and_then (model_to_registry_address P ''node-Safe registry'' (m_rc_pointer m)) (\<lambda>ptr.
      Inr \<lparr>rc_fee = fee, rc_pointer = ptr\<rparr>))"

section \<open>The timeout of a transaction\<close>

definition min_tx_confirm_timeout :: duration where
  "min_tx_confirm_timeout = from_secs 1"

text \<open>
  \<open>multiplier.max(1) * finality * block_time\<close>: a 32 bit product, then a product of a duration,
  which holds fewer than 2 ^ 64 seconds; an overflow panics (None).
\<close>

definition tx_timeout :: "u32 \<Rightarrow> u32 option \<Rightarrow> ('h, 'w, 'c) parsed_chain_info \<Rightarrow> duration option" where
  "tx_timeout cfg_multiplier custom ci =
    (let mult = max (unwrap_or cfg_multiplier custom) 1;
         blocks = unat mult * unat (ci_finality ci)
     in if 2 ^ 32 \<le> blocks \<or> from_secs (2 ^ 64) \<le> blocks * ci_block_time ci then None
        else Some (max (blocks * ci_block_time ci) min_tx_confirm_timeout))"

definition typical_resolution_time :: "('h, 'w, 'c) parsed_chain_info \<Rightarrow> duration option" where
  "typical_resolution_time ci =
    (if from_secs (2 ^ 64) \<le> ci_block_time ci * unat (ci_finality ci) then None
     else Some (ci_block_time ci * unat (ci_finality ci)))"

section \<open>Bounds\<close>

lemma max_of_nat_u32: "n \<le> max_u32 \<Longrightarrow> unat (max (of_nat n) 1 :: u32) = max n 1"
  by (simp add: max_def word_le_nat_alt unat_of_nat max_u32_def)

lemma parse_int_le: "parse_int cap s = Inr n \<Longrightarrow> n \<le> cap"
  by (auto simp: parse_int_def intro: parse_unsigned_le)

text \<open>
  Bounds of every chain information that is accepted: the priority fee is at most the fee,
  the finality is at least one block and the block time at least one second; so the time a
  transaction is awaited, when its computation does not overflow, is at least a second and at
  least the chain's typical resolution time, for every configured or custom multiplier.
\<close>

theorem chain_info_bounds:
  assumes "model_to_chain_info P m = Inr ci"
  shows "ci_max_priority_fee ci \<le> ci_max_fee ci \<and> 1 \<le> ci_finality ci \<and> from_secs 1 \<le> ci_block_time ci \<and>
    (case tx_timeout cfg custom ci of
       None \<Rightarrow> True
     | Some t \<Rightarrow> from_secs 1 \<le> t \<and> ci_block_time ci * unat (ci_finality ci) \<le> t)"
proof -
  have parts: "ci_max_priority_fee ci \<le> ci_max_fee ci" "1 \<le> ci_finality ci" "from_secs 1 \<le> ci_block_time ci"
    using assms by (auto simp: model_to_chain_info_def and_then_Inr_iff)
  have "1 \<le> unat (max (unwrap_or cfg custom) 1)"
    by (simp add: max_def word_le_nat_alt)
  then have "1 * (unat (ci_finality ci) * ci_block_time ci) \<le>
      unat (max (unwrap_or cfg custom) 1) * (unat (ci_finality ci) * ci_block_time ci)"
    by (rule mult_le_mono1)
  then have bnd: "ci_block_time ci * unat (ci_finality ci) \<le>
      unat (max (unwrap_or cfg custom) 1) * unat (ci_finality ci) * ci_block_time ci"
    by (simp add: ac_simps)
  have "ci_block_time ci * unat (ci_finality ci) \<le> t" and "from_secs 1 \<le> t"
    if "tx_timeout cfg custom ci = Some t" for t
    using that max.coboundedI1 [OF bnd, of min_tx_confirm_timeout]
    by (auto simp: tx_timeout_def Let_def min_tx_confirm_timeout_def split: if_splits)
  then show ?thesis using parts by (simp split: option.split)
qed

definition sample_parsers :: "(nat, nat, nat, nat, nat, nat, nat, nat) parsers" where
  "sample_parsers =
    \<lparr>parse_key = (\<lambda>_. Inr 1), valid_key = (\<lambda>_. Inr ()), parse_multiaddr = (\<lambda>s. Some (length s)),
     parse_address = (\<lambda>s. Inr (length s)), parse_hash = (\<lambda>s. Inr (length s)),
     parse_balance = (\<lambda>s. Inr (of_nat (length s))), parse_date = (\<lambda>s. Inr (length s)),
     win_prob_of = (\<lambda>x. Inr x), parse_json = (\<lambda>s. Inr (JObject [])), contracts_of = (\<lambda>_. Inr 0),
     zero_address_text = ''0x0'', parse_service_type = (\<lambda>s. Inr (length s)),
     service_type_of_hex = (\<lambda>s. Inr (length s)), decode_hex = (\<lambda>_. Inr []), metadata_of = (\<lambda>b. Inr (length b)),
     instant_exists = (\<lambda>_. True), generate_channel_id = (\<lambda>x y. x + y), build_channel = (\<lambda>c. Inr c),
     default_max_fee = 30, default_priority_fee = 2\<rparr>"

definition sample_info_model :: "nat chain_info_model" where
  "sample_info_model =
    \<lparr>m_grace_period = ''300'', m_ledger_dst = Some ''a'', m_safe_registry_dst = Some ''b'', m_channel_dst = Some ''c'',
     m_key_binding_fee = ''1'', m_max_fee = Some ''5'', m_max_priority_fee = Some ''9'', m_chain_id = 100,
     m_network = ''net'', m_contracts = ''{}'', m_win_prob = 1, m_ticket_price = ''1'', m_finality = ''0'',
     m_block_time = ''0''\<rparr>"

definition sample_info :: "(nat, nat, nat) parsed_chain_info" where
  "sample_info =
    \<lparr>ci_grace_period = from_secs 300, ci_ledger = 1, ci_safe_registry = 1, ci_channel = 1, ci_key_binding_fee = 1,
     ci_max_fee = 5, ci_max_priority_fee = 5, ci_chain_id = 100, ci_network = ''net'', ci_contracts = 0,
     ci_win_prob = 1, ci_ticket_price = 1, ci_finality = 1, ci_block_time = from_secs 1\<rparr>"

lemma sample_info_eq: "model_to_chain_info sample_parsers sample_info_model = Inr sample_info"
  by (simp add: model_to_chain_info_def sample_info_model_def sample_parsers_def sample_info_def convert_err_def
      parse_int_def parse_unsigned_def is_digit_def digit_val_def max_u64_def max_u32_def max_u128_def
      missing_hash_def parse_contract_addresses_def gas_field_def from_secs_def with_default_entry_def)

theorem chain_info_bounds_witness:
  "ci_max_priority_fee sample_info \<le> ci_max_fee sample_info \<and> 1 \<le> ci_finality sample_info \<and>
    from_secs 1 \<le> ci_block_time sample_info \<and>
    (case tx_timeout 2 (Some 4) sample_info of
       None \<Rightarrow> True
     | Some t \<Rightarrow> from_secs 1 \<le> t \<and> ci_block_time sample_info * unat (ci_finality sample_info) \<le> t)"
  by (rule chain_info_bounds [OF sample_info_eq])

end
