(* ===== verification/Chain_Events.thy ===== *)
theory Chain_Events
  imports Chain_Models Chain_Index "HOL-Library.Sublist"
begin

text \<open>
  The events the connector broadcasts (\<open>connector/src/connector/mod.rs\<close>, \<open>services.rs\<close>,
  \<open>events.rs\<close>, and \<open>process_channel_changes_into_events\<close> of \<open>utils.rs\<close>): how account, channel,
  ticket parameter and service registry updates become \<open>ChainEvent\<close>s, which replayed registry
  entries are suppressed, and what a new subscriber receives first. The comparison of winning
  probabilities is that of \<open>hopr_api\<close>, a parameter.
\<close>

section \<open>Events\<close>

datatype ('t, 'md) service_event =
    Registered "('t, 'md) service_entry"
  | Updated "('t, 'md) service_entry"
  | Deregistered 't address
  | TypeRegistered 't address
  | TypeOwnerChanged 't "address option"
  | TypeRequirementChanged 't "address option"
  | TypeRegistrationBurnChanged 't balance
  | TypeUpdateBurnChanged 't balance
  | TypeRegistrationFeeChanged balance
  | RegistryPointerChanged address

datatype ('k, 'm, 'w, 't, 'md) chain_event =
    Announcement "('k, 'm) account_entry"
  | ChannelOpened chain_channel
  | ChannelClosureInitiated chain_channel
  | ChannelClosedEvent chain_channel
  | ChannelBalanceDecreased chain_channel balance
  | ChannelBalanceIncreased chain_channel balance
  | TicketRedeemed chain_channel "verified_ticket option"
  | WinningProbabilityDecreased 'w
  | WinningProbabilityIncreased 'w
  | TicketPriceChanged balance
  | ServiceChanged "('t, 'md) service_event"

section \<open>Accounts and channels\<close>

definition account_events ::
  "('k, 'm) account_entry \<Rightarrow> ('k, 'm) account_entry option \<Rightarrow> ('k, 'm, 'w, 't, 'md) chain_event list"
where
  "account_events new old =
    (if has_announced_with_routing_info new \<and>
        (case old of None \<Rightarrow> True | Some a \<Rightarrow> \<not> has_announced_with_routing_info a)
     then [Announcement new] else [])"

datatype channel_change =
    StatusChange channel_status channel_status
  | BalanceChange balance balance
  | TicketIndexChange u64 u64
  | OtherChange

datatype channel_direction = Incoming | Outgoing

definition direction :: "address \<Rightarrow> chain_channel \<Rightarrow> channel_direction option" where
  "direction me c =
    (if ch_source c = me then Some Outgoing else if ch_destination c = me then Some Incoming else None)"

definition change_events ::
  "address \<Rightarrow> chain_channel \<Rightarrow> channel_change \<Rightarrow> ('k, 'm, 'w, 't, 'md) chain_event list"
where
  "change_events me c change =
    (case change of
       StatusChange left right \<Rightarrow>
         (case (left, right) of
            (Open, PendingToClose _) \<Rightarrow> [ChannelClosureInitiated c]
          | (PendingToClose _, Closed) \<Rightarrow> [ChannelClosedEvent c]
          | (Closed, Open) \<Rightarrow> [ChannelOpened c]
          | _ \<Rightarrow> [])
     | BalanceChange left right \<Rightarrow>
         if right < left then [ChannelBalanceDecreased c (left - right)]
         else [ChannelBalanceIncreased c (right - left)]
     | TicketIndexChange left right \<Rightarrow>
         if left < right then
           (case direction me c of
              Some Incoming \<Rightarrow> []
            | _ \<Rightarrow> [TicketRedeemed c None])
         else []
     | OtherChange \<Rightarrow> [])"

definition process_channel_changes ::
  "address \<Rightarrow> chain_channel \<Rightarrow> channel_change list \<Rightarrow> ('k, 'm, 'w, 't, 'md) chain_event list"
where
  "process_channel_changes me c changes = concat (map (change_events me c) changes)"

text \<open>A channel event with the changes against the stored entry, or none when it was not stored.\<close>

definition channel_events ::
  "address \<Rightarrow> chain_channel \<Rightarrow> channel_change list option \<Rightarrow> ('k, 'm, 'w, 't, 'md) chain_event list"
where
  "channel_events me c changes =
    (case changes of Some cs \<Rightarrow> process_channel_changes me c cs | None \<Rightarrow> [ChannelOpened c])"

section \<open>Ticket parameters\<close>

record 'w prob_ops =
  approx_eq :: "'w \<Rightarrow> 'w \<Rightarrow> bool"
  approx_less :: "'w \<Rightarrow> 'w \<Rightarrow> bool"
  default_prob :: 'w

text \<open>The values handed to the packet pipeline, and those of the cached chain information.\<close>

record ('h, 'w, 'c) ticket_state =
  ticket_values :: "('w \<times> balance) option"
  chain_values :: "('h, 'w, 'c) parsed_chain_info option"

datatype 'w param_event = PriceEvent balance "balance option" | ProbEvent 'w "'w option"

definition update_ticket_values ::
  "'w prob_ops \<Rightarrow> balance \<Rightarrow> 'w \<Rightarrow> ('w \<times> balance) option \<Rightarrow> ('w \<times> balance) option"
where
  "update_ticket_values W new_price new_prob tv =
    (case tv of
       None \<Rightarrow> None
     | Some (prob, price) \<Rightarrow>
         if price \<noteq> new_price \<and> \<not> approx_eq W prob new_prob then Some (new_prob, new_price)
         else if price \<noteq> new_price then Some (prob, new_price)
         else if \<not> approx_eq W prob new_prob then Some (new_prob, price)
         else Some (prob, price))"

definition update_chain_values ::
  "'w prob_ops \<Rightarrow> balance \<Rightarrow> 'w \<Rightarrow> ('h, 'w, 'c) parsed_chain_info option \<Rightarrow>
    ('h, 'w, 'c) parsed_chain_info option \<times> 'w param_event list"
where
  "update_chain_values W new_price new_prob cached =
    (case cached of
       Some ci \<Rightarrow>
         (let (ci1, evs1) =
            (if ci_ticket_price ci \<noteq> new_price
             then (ci\<lparr>ci_ticket_price := new_price\<rparr>, [PriceEvent new_price (Some (ci_ticket_price ci))])
             else (ci, []));
              (ci2, evs2) =
            (if \<not> approx_eq W (ci_win_prob ci1) new_prob
             then (ci1\<lparr>ci_win_prob := new_prob\<rparr>, evs1 @ [ProbEvent new_prob (Some (ci_win_prob ci1))])
             else (ci1, evs1))
          in (if evs2 \<noteq> [] then (Some ci2, evs2) else (Some ci, evs2)))
     | None \<Rightarrow> (None, [PriceEvent new_price None, ProbEvent new_prob None]))"

definition apply_ticket_params ::
  "'w prob_ops \<Rightarrow> balance \<times> 'w \<Rightarrow> ('h, 'w, 'c) ticket_state \<Rightarrow> ('h, 'w, 'c) ticket_state \<times> 'w param_event list"
where
  "apply_ticket_params W params st =
    (let (ci, evs) = update_chain_values W (fst params) (snd params) (chain_values st)
     in (st\<lparr>ticket_values := update_ticket_values W (fst params) (snd params) (ticket_values st),
            chain_values := ci\<rparr>, evs))"

definition param_events :: "'w prob_ops \<Rightarrow> 'w param_event \<Rightarrow> ('k, 'm, 'w, 't, 'md) chain_event list" where
  "param_events W ev =
    (case ev of
       PriceEvent new _ \<Rightarrow> [TicketPriceChanged new]
     | ProbEvent new old \<Rightarrow>
         (let base = unwrap_or (default_prob W) old
          in if approx_less W new base then [WinningProbabilityDecreased new]
             else if approx_less W base new then [WinningProbabilityIncreased new]
             else []))"

text \<open>Connecting fills both from one query; \<open>incoming_ticket_values\<close> reads the first.\<close>

definition connect_values :: "('h, 'w, 'c) parsed_chain_info \<Rightarrow> ('h, 'w, 'c) ticket_state" where
  "connect_values ci =
    \<lparr>ticket_values = Some (ci_win_prob ci, ci_ticket_price ci), chain_values = Some ci\<rparr>"

definition incoming_ticket_values ::
  "(connector_error + unit) \<Rightarrow> ('h, 'w, 'c) ticket_state \<Rightarrow> connector_error + 'w \<times> balance"
where
  "incoming_ticket_values conn st =
    and_then conn (\<lambda>_. ok_or (InvalidState ''connector is not connected'') (ticket_values st))"

text \<open>\<open>query_cached_chain_info\<close>: the cached information, or the one queried, which is then kept.\<close>

definition query_cached_chain_info ::
  "(connector_error + ('h, 'w, 'c) parsed_chain_info) \<Rightarrow> ('h, 'w, 'c) ticket_state \<Rightarrow>
    (connector_error + ('h, 'w, 'c) parsed_chain_info) \<times> ('h, 'w, 'c) ticket_state"
where
  "query_cached_chain_info queried st =
    (case chain_values st of
       Some ci \<Rightarrow> (Inr ci, st)
     | None \<Rightarrow>
         (case queried of
            Inl e \<Rightarrow> (Inl (CacheError e), st)
          | Inr ci \<Rightarrow> (Inr ci, st\<lparr>chain_values := Some ci\<rparr>)))"

section \<open>The service registry\<close>

text \<open>The entries and types that a snapshot-first subscription will replay.\<close>

type_synonym ('t, 'md) replayed_services = "'t \<times> address \<Rightarrow> ('t, 'md) service_entry option"

definition recorded :: "('t, 'md) service_entry list \<Rightarrow> ('t, 'md) replayed_services" where
  "recorded entries = foldl (\<lambda>m e. m((se_type e, se_node e) \<mapsto> e)) (\<lambda>_. None) entries"

definition consumes ::
  "('t, 'md) replayed_services \<Rightarrow> ('t, 'md) service_event \<Rightarrow> bool \<times> ('t, 'md) replayed_services"
where
  "consumes m ev =
    (case ev of
       Registered e \<Rightarrow>
         if m (se_type e, se_node e) = Some e then (True, m((se_type e, se_node e) := None)) else (False, m)
     | _ \<Rightarrow> (False, m))"

definition consumes_type :: "'t set \<Rightarrow> ('t, 'md) service_event \<Rightarrow> bool \<times> 't set" where
  "consumes_type ts ev =
    (case ev of
       TypeRegistered t _ \<Rightarrow> if t \<in> ts then (True, ts - {t}) else (False, ts)
     | _ \<Rightarrow> (False, ts))"

text \<open>\<open>try_filter(!consumes)\<close> over the events of a stream.\<close>

fun deliver :: "('s \<Rightarrow> 'e \<Rightarrow> bool \<times> 's) \<Rightarrow> 's \<Rightarrow> 'e list \<Rightarrow> 'e list" where
  "deliver f st [] = []"
| "deliver f st (e # es) = (case f st e of (skip, st') \<Rightarrow> (if skip then [] else [e]) @ deliver f st' es)"

text \<open>The reading of the registry before subscribing: within the budget, or nothing to suppress.\<close>

definition read_replayed_registry ::
  "(connector_error + ('t, 'md) service_entry list \<times> 't set) option \<Rightarrow> ('t, 'md) replayed_services \<times> 't set"
where
  "read_replayed_registry outcome =
    (case outcome of
       Some (Inr (entries, types)) \<Rightarrow> (recorded entries, types)
     | _ \<Rightarrow> (recorded [], {}))"

datatype update_kind = RegisteredKind | UpdatedKind | DeregisteredKind | OtherKindOfUpdate

record service_update =
  su_kind :: update_kind
  su_type :: string
  su_node :: string
  su_entry :: "service_entry_model option"

definition service_update_to_event ::
  "nat \<Rightarrow> (('t, 'md) service_entry \<Rightarrow> string + ('t, 'md) service_entry) \<Rightarrow>
    ('k, 'm, 'h, 'w, 'c, 't, 'md, 'f) parsers \<Rightarrow> service_update \<Rightarrow> connector_error + ('t, 'md) service_event"
where
  "service_update_to_event sz accept P u =
    (let entry = and_then (ok_or (TypeConversion ''service update carries no entry'') (su_entry u))
           (model_to_service_entry sz accept P)
     in (case su_kind u of
           RegisteredKind \<Rightarrow> map_ok Registered entry
         | UpdatedKind \<Rightarrow> map_ok Updated entry
         | DeregisteredKind \<Rightarrow>
             and_then (model_to_service_type sz P (su_type u)) (\<lambda>t.
               map_ok (Deregistered t) (model_to_registry_address P ''node'' (su_node u)))
         | OtherKindOfUpdate \<Rightarrow> Inl (TypeConversion ''invalid service update kind'')))"

datatype type_update_kind =
    TypeRegisteredKind | OwnerChangedKind | RequirementChangedKind | RegistrationBurnChangedKind
  | UpdateBurnChangedKind | RegistrationFeeChangedKind | RegistryPointerChangedKind | OtherTypeKind

record service_type_update =
  tu_kind :: type_update_kind
  tu_type :: "string option"
  tu_config :: "service_type_model option"
  tu_registry_config :: "registry_config_model option"

definition service_type_update_to_event ::
  "nat \<Rightarrow> ('k, 'm, 'h, 'w, 'c, 't, 'md, 'f) parsers \<Rightarrow> service_type_update \<Rightarrow>
    connector_error + ('t, 'md) service_event"
where
  "service_type_update_to_event sz P u =
    (let ty = and_then (ok_or (TypeConversion ''service type update carries no service type'') (tu_type u))
           (model_to_service_type sz P);
         cfg = and_then (ok_or (TypeConversion ''service type update carries no configuration'') (tu_config u))
           (model_to_service_type_config P);
         reg = ok_or (TypeConversion ''registry-wide update carries no registry configuration'') (tu_registry_config u)
     in (case tu_kind u of
           TypeRegisteredKind \<Rightarrow>
             and_then ty (\<lambda>t. and_then cfg (\<lambda>c.
               map_ok (TypeRegistered t)
                 (ok_or (TypeConversion ''service type registration carries no owner'') (st_owner c))))
         | OwnerChangedKind \<Rightarrow> and_then ty (\<lambda>t. map_ok (\<lambda>c. TypeOwnerChanged t (st_owner c)) cfg)
         | RequirementChangedKind \<Rightarrow> and_then ty (\<lambda>t. map_ok (\<lambda>c. TypeRequirementChanged t (st_requirement c)) cfg)
         | RegistrationBurnChangedKind \<Rightarrow>
             and_then ty (\<lambda>t. map_ok (\<lambda>c. TypeRegistrationBurnChanged t (st_registration_burn c)) cfg)
         | UpdateBurnChangedKind \<Rightarrow>
             and_then ty (\<lambda>t. map_ok (\<lambda>c. TypeUpdateBurnChanged t (st_update_burn c)) cfg)
         | RegistrationFeeChangedKind \<Rightarrow>
             and_then reg (\<lambda>r. map_ok TypeRegistrationFeeChanged (service_burn_to_hopr_balance P (m_rc_fee r)))
         | RegistryPointerChangedKind \<Rightarrow>
             and_then reg (\<lambda>r. map_ok RegistryPointerChanged
               (model_to_registry_address P ''node-Safe registry'' (m_rc_pointer r)))
         | OtherTypeKind \<Rightarrow> Inl (TypeConversion ''invalid service type update kind'')))"

definition registry_config_events ::
  "registry_config \<Rightarrow> registry_config option \<Rightarrow> ('t, 'md) service_event list"
where
  "registry_config_events current previous =
    (if (case previous of None \<Rightarrow> True | Some old \<Rightarrow> rc_fee old \<noteq> rc_fee current)
     then [TypeRegistrationFeeChanged (rc_fee current)] else []) @
    (if (case previous of None \<Rightarrow> True | Some old \<Rightarrow> rc_pointer old \<noteq> rc_pointer current)
     then [RegistryPointerChanged (rc_pointer current)] else [])"

text \<open>
  The scans over the configurations a subscription yields: the connector's own, which drops the
  first configuration (\<open>initial\<close>), and that of a subscriber who asked for the registry state.
\<close>

fun live_config_scan ::
  "registry_config option \<Rightarrow> bool \<Rightarrow> (connector_error + registry_config) list \<Rightarrow> ('t, 'md) service_event list"
where
  "live_config_scan previous initial [] = []"
| "live_config_scan previous initial (Inl e # cs) = live_config_scan previous initial cs"
| "live_config_scan previous initial (Inr current # cs) =
    (if initial then [] else registry_config_events current previous) @ live_config_scan (Some current) False cs"

fun state_config_scan ::
  "registry_config option \<Rightarrow> (connector_error + registry_config) list \<Rightarrow> ('t, 'md) service_event list"
where
  "state_config_scan previous [] = []"
| "state_config_scan previous (Inl e # cs) = state_config_scan previous cs"
| "state_config_scan previous (Inr current # cs) =
    registry_config_events current previous @ state_config_scan (Some current) cs"

text \<open>
  The events of the two registry streams of a connection, errors aside: entry updates without the
  replay, type updates without the registry-wide ones and without the replay.
\<close>

definition ok_values :: "('e + 'a) list \<Rightarrow> 'a list" where
  "ok_values rs = List.map_filter res_ok rs"

definition service_stream ::
  "nat \<Rightarrow> (('t, 'md) service_entry \<Rightarrow> string + ('t, 'md) service_entry) \<Rightarrow>
    ('k, 'm, 'h, 'w, 'c, 't, 'md, 'f) parsers \<Rightarrow> ('t, 'md) replayed_services \<Rightarrow>
    (connector_error + service_update) list \<Rightarrow> ('t, 'md) service_event list"
where
  "service_stream sz accept P replayed updates =
    deliver consumes replayed (ok_values (map (\<lambda>u. and_then u (service_update_to_event sz accept P)) updates))"

definition service_type_stream ::
  "nat \<Rightarrow> ('k, 'm, 'h, 'w, 'c, 't, 'md, 'f) parsers \<Rightarrow> 't set \<Rightarrow>
    (connector_error + service_type_update) list \<Rightarrow> ('t, 'md) service_event list"
where
  "service_type_stream sz P replayed updates =
    deliver consumes_type replayed
      (ok_values (map (\<lambda>u. and_then u (service_type_update_to_event sz P))
        (List.filter (\<lambda>u. case u of Inr up \<Rightarrow> tu_registry_config up = None | Inl _ \<Rightarrow> True) updates)))"

section \<open>A new subscriber\<close>

datatype sync_option = PublicAccounts | AllAccounts | OpenedChannels | SyncRegistryConfig

text \<open>
  \<open>subscribe_with_state_sync\<close>: the state streams (merged in any order), then the live events,
  without the registry-wide ones if their own state stream is included.
\<close>

definition state_events ::
  "(connector_error + unit) \<Rightarrow> ('k, 'm, 's) backend_ops \<Rightarrow> (chain_channel \<Rightarrow> bool) \<Rightarrow> (('k, 'm) account_entry \<Rightarrow> bool) \<Rightarrow>
    sync_option set \<Rightarrow> ('k, 'm, 's) chain_index \<Rightarrow>
    connector_error + ('k, 'm, 'w, 't, 'md) chain_event list list"
where
  "state_events conn ops is_open is_public options ix =
    and_then conn (\<lambda>_.
    and_then (if OpenedChannels \<in> options
              then map_ok (\<lambda>cs. [map ChannelOpened cs])
                (build_channel_stream ops \<lparr>allowed_states = [OpenKind], satisfies = is_open\<rparr> ix)
              else Inr []) (\<lambda>opened.
      Inr ((if PublicAccounts \<in> options \<and> AllAccounts \<notin> options
            then [map Announcement (build_account_stream ops is_public ix)] else []) @
           (if AllAccounts \<in> options
            then [map Announcement (build_account_stream ops (\<lambda>_. True) ix)] else []) @ opened)))"

definition live_event :: "sync_option set \<Rightarrow> ('k, 'm, 'w, 't, 'md) chain_event \<Rightarrow> bool" where
  "live_event options ev \<longleftrightarrow> SyncRegistryConfig \<notin> options \<or>
    (case ev of
       ServiceChanged (TypeRegistrationFeeChanged _) \<Rightarrow> False
     | ServiceChanged (RegistryPointerChanged _) \<Rightarrow> False
     | _ \<Rightarrow> True)"

section \<open>Registry configuration: events reproduce the configuration\<close>

text \<open>A consumer that keeps the configuration it was told of.\<close>

fun learn :: "('t, 'md) service_event \<Rightarrow> registry_config \<Rightarrow> registry_config" where
  "learn (TypeRegistrationFeeChanged fee) c = c\<lparr>rc_fee := fee\<rparr>"
| "learn (RegistryPointerChanged ptr) c = c\<lparr>rc_pointer := ptr\<rparr>"
| "learn _ c = c"

lemma learn_config_events:
  "previous = None \<or> previous = Some c \<Longrightarrow>
    fold learn (registry_config_events current previous :: ('t, 'md) service_event list) c = current"
  by (auto simp: registry_config_events_def)

lemma state_scan_learn:
  "previous = None \<or> previous = Some c \<Longrightarrow>
    fold learn (state_config_scan previous cs :: ('t, 'md) service_event list) c =
      (if ok_values cs = [] then c else last (ok_values cs))"
proof (induction previous cs arbitrary: c rule: state_config_scan.induct)
  case (1 previous)
  then show ?case by (simp add: ok_values_def List.map_filter_simps)
next
  case (2 previous e cs)
  then show ?case by (simp add: ok_values_def List.map_filter_simps)
next
  case (3 previous current cs)
  then show ?case using learn_config_events [OF "3.prems", of current, where ?'t = 't and ?'md = 'md]
    by (simp add: ok_values_def List.map_filter_simps)
qed

lemma live_scan_first:
  "ok_values cs = first # rest \<Longrightarrow>
    (state_config_scan previous cs :: ('t, 'md) service_event list) =
      registry_config_events first previous @ live_config_scan previous True cs \<and>
    fold learn (live_config_scan previous True cs :: ('t, 'md) service_event list) first = last (first # rest)"
proof (induction cs arbitrary: previous)
  case (Cons r cs)
  show ?case
  proof (cases r)
    case (Inl e)
    then show ?thesis using Cons by (simp add: ok_values_def List.map_filter_simps)
  next
    case (Inr c)
    then have first: "first = c" "rest = ok_values cs"
      using Cons.prems by (simp_all add: ok_values_def List.map_filter_simps)
    have later: "(live_config_scan p False cs :: ('t, 'md) service_event list) = state_config_scan p cs" for p
    proof (induction cs arbitrary: p)
      case (Cons q qs)
      then show ?case by (cases q) simp_all
    qed simp
    show ?thesis using Inr first state_scan_learn [of "Some c" c cs, where ?'t = 't and ?'md = 'md]
      by (simp add: later)
  qed
qed (simp add: ok_values_def List.map_filter_simps)

text \<open>
  C30. The registry events reproduce the registry configuration. A subscriber who asked for the
  registry state ends with the last configuration that arrived, whatever it held before; the
  connector's own stream is the same without the first configuration, so that a consumer who
  knows the first one ends with the last one; failed items change nothing.
\<close>

theorem registry_config_tracked:
  fixes cs :: "(connector_error + registry_config) list"
  assumes "ok_values cs = first # rest"
  shows "fold learn (state_config_scan None cs :: ('t, 'md) service_event list) c = last (first # rest) \<and>
    (state_config_scan None cs :: ('t, 'md) service_event list) =
      registry_config_events first None @ live_config_scan None True cs \<and>
    fold learn (live_config_scan None True cs :: ('t, 'md) service_event list) first = last (first # rest)"
  using state_scan_learn [of None c cs, where ?'t = 't and ?'md = 'md]
    live_scan_first [OF assms, of None, where ?'t = 't and ?'md = 'md] assms by simp

definition sample_config :: "balance \<Rightarrow> address \<Rightarrow> registry_config" where
  "sample_config fee ptr = \<lparr>rc_fee = fee, rc_pointer = ptr\<rparr>"

theorem registry_config_tracked_witness:
  "fold learn (state_config_scan None [Inr (sample_config 1 2), Inl ServerNotHealthy, Inr (sample_config 3 2)]
      :: (nat, nat) service_event list) (sample_config 9 9) = last [sample_config 1 2, sample_config 3 2] \<and>
    (state_config_scan None [Inr (sample_config 1 2), Inl ServerNotHealthy, Inr (sample_config 3 2)]
      :: (nat, nat) service_event list) =
      registry_config_events (sample_config 1 2) None @
      live_config_scan None True [Inr (sample_config 1 2), Inl ServerNotHealthy, Inr (sample_config 3 2)] \<and>
    fold learn (live_config_scan None True [Inr (sample_config 1 2), Inl ServerNotHealthy, Inr (sample_config 3 2)]
      :: (nat, nat) service_event list) (sample_config 1 2) = last [sample_config 1 2, sample_config 3 2]"
  by (rule registry_config_tracked) (simp add: ok_values_def List.map_filter_simps)

section \<open>The replay is suppressed once\<close>

definition se_key :: "('t, 'md) service_entry \<Rightarrow> 't \<times> address" where
  "se_key e = (se_type e, se_node e)"

lemma recorded_foldl:
  "foldl (\<lambda>m e. m((se_type e, se_node e) \<mapsto> e)) m es = m ++ map_of (rev (map (\<lambda>e. (se_key e, e)) es))"
proof (induction es rule: rev_induct)
  case Nil
  then show ?case by simp
next
  case (snoc e es)
  have upd: "(m ++ M)(k \<mapsto> e) = m ++ M(k \<mapsto> e)" for M and k :: "'a \<times> address" by (rule map_add_upd [symmetric])
  show ?case using snoc by (simp add: se_key_def upd del: fun_upd_apply map_add_upd)
qed

lemma recorded_iff:
  assumes "distinct (map se_key es)"
  shows "recorded es k = Some e \<longleftrightarrow> e \<in> set es \<and> se_key e = k"
proof -
  have "map fst (map (\<lambda>e. (se_key e, e)) es) = map se_key es" by simp
  then have "distinct (map fst (rev (map (\<lambda>e. (se_key e, e)) es)))"
    using assms by (simp add: rev_map [symmetric] comp_def)
  from map_of_eq_Some_iff [OF this, of k e] show ?thesis
    by (auto simp: recorded_def recorded_foldl)
qed

lemma recorded_remove1:
  assumes "distinct (map se_key es)" and "e \<in> set es"
  shows "(recorded es)(se_key e := None) = recorded (remove1 e es)"
proof (rule ext)
  fix k
  have dist: "distinct (map se_key (remove1 e es))" "distinct es"
    using assms(1) by (auto simp: distinct_map intro: inj_on_diff)
  have "((recorded es)(se_key e := None)) k = Some x \<longleftrightarrow> recorded (remove1 e es) k = Some x" for x
    using recorded_iff [OF assms(1), of k x] recorded_iff [OF dist(1), of k x] assms dist(2)
    by (auto simp: distinct_map dest: inj_onD)
  then show "((recorded es)(se_key e := None)) k = recorded (remove1 e es) k"
    by (metis not_None_eq)
qed

lemma fold_remove1_Cons:
  "fold remove1 xs (e # es) = (if e \<in> set xs then fold remove1 (remove1 e xs) es else e # fold remove1 xs es)"
  by (induction xs arbitrary: es) auto

lemma remove1_map_Registered: "remove1 (Registered e) (map Registered es) = map Registered (remove1 e es)"
  by (induction es) auto

lemma deliver_services:
  "distinct (map se_key R) \<Longrightarrow> deliver consumes (recorded R) evs = fold remove1 (map Registered R) evs"
proof (induction evs arbitrary: R)
  case Nil
  then show ?case by (induction R) simp_all
next
  case (Cons ev evs)
  show ?case
  proof (cases "\<exists>e. ev = Registered e \<and> e \<in> set R")
    case True
    then obtain e where e: "ev = Registered e" "e \<in> set R" by blast
    have "recorded R (se_key e) = Some e" using recorded_iff [OF Cons.prems] e(2) by blast
    then have "consumes (recorded R) ev = (True, recorded (remove1 e R))"
      using recorded_remove1 [OF Cons.prems e(2)] e(1) by (simp add: consumes_def se_key_def)
    moreover have "distinct (map se_key (remove1 e R))"
      using Cons.prems by (auto simp: distinct_map intro: inj_on_diff)
    ultimately show ?thesis
      using Cons.IH [of "remove1 e R"] e by (auto simp: fold_remove1_Cons remove1_map_Registered)
  next
    case False
    then have "consumes (recorded R) ev = (False, recorded R)"
      using recorded_iff [OF Cons.prems] by (auto simp: consumes_def se_key_def split: service_event.split)
    then show ?thesis using False Cons by (auto simp: fold_remove1_Cons)
  qed
qed

text \<open>
  Every replayed registration is suppressed exactly once: of the events of the registry
  subscription, the first occurrence of the registration of each entry read before subscribing
  is dropped, and everything else is delivered in order, a second equal registration as well as
  a registration of the same node and type that differs in anything.
\<close>

theorem replay_suppressed_once:
  assumes "distinct (map se_key R)" and "read = read_replayed_registry (Some (Inr (R, types)))"
  shows "deliver consumes (fst read) evs = fold remove1 (map Registered R) evs"
  using deliver_services [OF assms(1)] assms(2) by (simp add: read_replayed_registry_def)

definition sample_entry :: "nat \<Rightarrow> address \<Rightarrow> u64 \<Rightarrow> (nat, nat) service_entry" where
  "sample_entry t n r =
    \<lparr>se_type = t, se_node = n, se_safe = 0, se_metadata = 0, se_registered_at = r, se_updated_at = r\<rparr>"

theorem replay_suppressed_once_witness:
  "deliver consumes (fst (read_replayed_registry (Some (Inr ([sample_entry 1 1 5, sample_entry 1 2 5], {})))))
      [Registered (sample_entry 1 2 5), Registered (sample_entry 1 1 5), Registered (sample_entry 1 1 9)] =
    fold remove1 (map Registered [sample_entry 1 1 5, sample_entry 1 2 5])
      [Registered (sample_entry 1 2 5), Registered (sample_entry 1 1 5), Registered (sample_entry 1 1 9)]"
  by (rule replay_suppressed_once [OF _ refl]) (simp add: se_key_def sample_entry_def)

section \<open>Ticket parameters stay together\<close>

definition param_run ::
  "'w prob_ops \<Rightarrow> (balance \<times> 'w) list \<Rightarrow> ('h, 'w, 'c) ticket_state \<Rightarrow> ('h, 'w, 'c) ticket_state"
where
  "param_run W us st = fold (\<lambda>u st. fst (apply_ticket_params W u st)) us st"

definition params_agree ::
  "'w prob_ops \<Rightarrow> ('h, 'w, 'c) parsed_chain_info \<Rightarrow> balance \<times> 'w \<Rightarrow> ('h, 'w, 'c) ticket_state \<Rightarrow> bool"
where
  "params_agree W ci latest st \<longleftrightarrow>
    (\<exists>q. ticket_values st = Some (q, fst latest) \<and> approx_eq W q (snd latest) \<and>
      chain_values st = Some (ci\<lparr>ci_ticket_price := fst latest, ci_win_prob := q\<rparr>))"

lemma params_agree_step:
  assumes "params_agree W ci latest st" and refl: "approx_eq W (snd u) (snd u)"
  shows "params_agree W ci u (fst (apply_ticket_params W u st))"
proof -
  from assms(1) obtain q where q: "ticket_values st = Some (q, fst latest)"
    "chain_values st = Some (ci\<lparr>ci_ticket_price := fst latest, ci_win_prob := q\<rparr>)"
    by (auto simp: params_agree_def)
  show ?thesis
  proof (cases "approx_eq W q (snd u)")
    case True
    then show ?thesis using q
      by (auto simp: params_agree_def apply_ticket_params_def update_ticket_values_def
          update_chain_values_def Let_def intro!: exI [of _ q])
  next
    case False
    then show ?thesis using q refl
      by (auto simp: params_agree_def apply_ticket_params_def update_ticket_values_def
          update_chain_values_def Let_def intro!: exI [of _ "snd u"])
  qed
qed

lemma params_agree_run:
  assumes "params_agree W ci latest st" and "list_all (\<lambda>u. approx_eq W (snd u) (snd u)) us"
  shows "params_agree W ci (last (latest # us)) (param_run W us st)"
  using assms
proof (induction us arbitrary: latest st)
  case (Cons u us)
  from Cons.IH [OF params_agree_step [OF Cons.prems(1)]] Cons.prems(2) show ?case
    by (simp add: param_run_def)
qed (simp add: param_run_def)

text \<open>
  C29. The ticket parameters of the packet pipeline and those of the cached chain information
  never part: after connecting and any number of parameter updates both hold the price of the
  latest update exactly, and one and the same winning probability, which is approximately that
  of the latest update.
\<close>

theorem ticket_params_together:
  assumes "list_all (\<lambda>u. approx_eq W (snd u) (snd u)) ((ci_ticket_price ci, ci_win_prob ci) # us)"
  shows "\<exists>q. incoming_ticket_values (Inr ()) (param_run W us (connect_values ci)) =
      Inr (q, fst (last ((ci_ticket_price ci, ci_win_prob ci) # us))) \<and>
    approx_eq W q (snd (last ((ci_ticket_price ci, ci_win_prob ci) # us))) \<and>
    fst (query_cached_chain_info queried (param_run W us (connect_values ci))) =
      Inr (ci\<lparr>ci_ticket_price := fst (last ((ci_ticket_price ci, ci_win_prob ci) # us)), ci_win_prob := q\<rparr>)"
proof -
  have "params_agree W ci (ci_ticket_price ci, ci_win_prob ci) (connect_values ci)"
    using assms by (simp add: params_agree_def connect_values_def)
  from params_agree_run [OF this, of us] assms
  have "params_agree W ci (last ((ci_ticket_price ci, ci_win_prob ci) # us)) (param_run W us (connect_values ci))"
    by simp
  then show ?thesis
    unfolding params_agree_def incoming_ticket_values_def query_cached_chain_info_def
    by (elim exE conjE, intro exI conjI) (simp_all add: ok_or_def and_then_def)
qed

text \<open>Probabilities in thousandths, equal up to one.\<close>

definition thousandths :: "nat prob_ops" where
  "thousandths = \<lparr>approx_eq = (\<lambda>p q. p \<le> q + 1 \<and> q \<le> p + 1), approx_less = (\<lambda>p q. p + 1 < q), default_prob = 1000\<rparr>"

theorem ticket_params_together_witness:
  "\<exists>q. incoming_ticket_values (Inr ())
        (param_run thousandths [(20, 2), (30, 900), (30, 899)] (connect_values sample_info)) = Inr (q, 30) \<and>
      approx_eq thousandths q 899"
  using ticket_params_together [of thousandths sample_info "[(20, 2), (30, 900), (30, 899)]" "Inl ServerNotHealthy"]
  by (auto simp: thousandths_def)

section \<open>Transitions that raise no event, or the wrong one\<close>

text \<open>
  A channel that goes from open to closed at once, as closing an incoming channel does, raises no
  closure event, and one first seen when it is closed already is reported as opened.
\<close>

lemma direct_closure_silent:
  "channel_events me c (Some [StatusChange Open Closed]) = ([] :: ('k, 'm, 'w, 't, 'md) chain_event list) \<and>
    channel_events me (c\<lparr>ch_status := Closed\<rparr>) None =
      [ChannelOpened (c\<lparr>ch_status := Closed\<rparr>) :: ('k, 'm, 'w, 't, 'md) chain_event]"
  by (simp add: channel_events_def process_channel_changes_def change_events_def)

end
