(* ===== verification/Chain_Actions.thy ===== *)
theory Chain_Actions
  imports Chain_Events
begin

text \<open>
  The operations of the connector that send transactions (\<open>connector/src/connector/channels.rs\<close>,
  \<open>tickets.rs\<close>, \<open>accounts.rs\<close>, \<open>safe.rs\<close>, \<open>services.rs\<close> and \<open>send_tx\<close> of \<open>mod.rs\<close>). Each checks its
  preconditions against the index or against fresh answers of the chain client, has the payload
  generator (of \<open>hopr_api\<close>, a parameter) make the transaction, and hands it to the sequencer. The
  result is an error, or the future that the caller awaits, here by the value it resolves to;
  \<open>None\<close> is the panic of a timeout that overflows.
\<close>

section \<open>Sending\<close>

record 'r outgoing_tx =
  sub_request :: 'r
  sub_timeout :: duration
  sub_signer :: "address option"

text \<open>A tracked transaction: its hash, and the success and reason of the inner one of a Safe.\<close>

record tracked_tx =
  tx_hash :: string
  safe_execution :: "(bool \<times> string option) option"

definition receipt_of :: "(string \<Rightarrow> 'rc option) \<Rightarrow> tracked_tx \<Rightarrow> connector_error + 'rc" where
  "receipt_of parse tx =
    (case safe_execution tx of
       Some (False, reason) \<Rightarrow> Inl (InnerTxFailed (unwrap_or ''n/a'' reason))
     | _ \<Rightarrow> ok_or (TypeConversion ''invalid tx hash'') (parse (tx_hash tx)))"

text \<open>
  What a sending operation works with: the answer of \<open>query_cached_chain_info\<close>, and what the
  sequencer and the client make of a submission, first when it is queued, then when it is tracked.
\<close>

record ('r, 'rc, 'h, 'w, 'c) sender =
  timeout_multiplier :: u32
  info_answer :: "connector_error + ('h, 'w, 'c) parsed_chain_info"
  submit :: "'r outgoing_tx \<Rightarrow> connector_error + (connector_error + tracked_tx)"
  parse_receipt :: "string \<Rightarrow> 'rc option"

type_synonym ('e, 'rc) sent = "('e + (connector_error + 'rc)) option"

definition send_tx ::
  "('r, 'rc, 'h, 'w, 'c) sender \<Rightarrow> 'r \<Rightarrow> u32 option \<Rightarrow> address option \<Rightarrow> (connector_error, 'rc) sent"
where
  "send_tx S req custom_multiplier custom_signer =
    (case info_answer S of
       Inl e \<Rightarrow> Some (Inl e)
     | Inr info \<Rightarrow>
         map_option (\<lambda>timeout.
             map_ok (\<lambda>tracked. and_then tracked (receipt_of (parse_receipt S)))
               (submit S \<lparr>sub_request = req, sub_timeout = timeout, sub_signer = custom_signer\<rparr>))
           (tx_timeout (timeout_multiplier S) custom_multiplier info))"

text \<open>The payload generator; a refusal is an error of the chain types.\<close>

record ('r, 'a, 't, 'md) payloads =
  fund_channel_tx :: "address \<Rightarrow> balance \<Rightarrow> string + 'r"
  initiate_closure_tx :: "address \<Rightarrow> string + 'r"
  finalize_closure_tx :: "address \<Rightarrow> string + 'r"
  close_incoming_tx :: "address \<Rightarrow> string + 'r"
  redeem_tx :: "redeemable_ticket \<Rightarrow> string + 'r"
  announce_tx :: "'a \<Rightarrow> balance \<Rightarrow> string + 'r"
  transfer_tx :: "address \<Rightarrow> balance \<Rightarrow> string + 'r"
  register_safe_tx :: "address \<Rightarrow> string + 'r"
  deploy_safe_tx :: "balance \<Rightarrow> address list \<Rightarrow> bool \<Rightarrow> nat \<Rightarrow> string + 'r"
  register_service_tx :: "'t \<Rightarrow> 'md \<Rightarrow> balance \<Rightarrow> string + 'r"
  update_service_tx :: "'t \<Rightarrow> 'md \<Rightarrow> balance \<Rightarrow> string + 'r"
  deregister_service_tx :: "'t \<Rightarrow> string + 'r"

definition payload :: "string + 'r \<Rightarrow> connector_error + 'r" where
  "payload r = map_err ChainTypesError r"

text \<open>\<open>self.send_tx(tx_req, \<dots>)\<close> after \<open>tx_req\<close> was made, or its error.\<close>

definition send_made ::
  "('r, 'rc, 'h, 'w, 'c) sender \<Rightarrow> u32 option \<Rightarrow> address option \<Rightarrow> connector_error + 'r \<Rightarrow> (connector_error, 'rc) sent"
where
  "send_made S multiplier signer made =
    (case made of Inl e \<Rightarrow> Some (Inl e) | Inr req \<Rightarrow> send_tx S req multiplier signer)"

section \<open>Channels\<close>

definition channel_custom_timeout_multiplier :: u32 where
  "channel_custom_timeout_multiplier = 4"

definition open_channel ::
  "(connector_error + unit) \<Rightarrow> ('r, 'a, 't, 'md) payloads \<Rightarrow> ('r, 'rc, 'h, 'w, 'c) sender \<Rightarrow>
    address \<Rightarrow> balance \<Rightarrow> (connector_error, 'rc) sent"
where
  "open_channel conn G S dst amount =
    send_made S (Some channel_custom_timeout_multiplier) None
      (and_then conn (\<lambda>_. payload (fund_channel_tx G dst amount)))"

text \<open>The channel of the index, through its cache.\<close>

definition known_channel :: "channel_id \<Rightarrow> connector_error + chain_channel option \<Rightarrow> connector_error + chain_channel" where
  "known_channel i r = and_then r (ok_or (ChannelDoesNotExist i))"

definition fund_channel ::
  "(connector_error + unit) \<Rightarrow> ('k, 'm, 's) backend_ops \<Rightarrow> ('r, 'a, 't, 'md) payloads \<Rightarrow>
    ('r, 'rc, 'h, 'w, 'c) sender \<Rightarrow> channel_id \<Rightarrow> balance \<Rightarrow> ('k, 'm, 's) chain_index \<Rightarrow>
    (connector_error, 'rc) sent \<times> ('k, 'm, 's) chain_index"
where
  "fund_channel conn ops G S i amount ix =
    (let (r, ix') = channel_by_id conn ops i ix
     in (send_made S (Some channel_custom_timeout_multiplier) None
           (and_then (known_channel i r) (\<lambda>c. payload (fund_channel_tx G (ch_destination c) amount))), ix'))"

definition closing_tx ::
  "address \<Rightarrow> (channel_status \<Rightarrow> bool) \<Rightarrow> ('r, 'a, 't, 'md) payloads \<Rightarrow> channel_id \<Rightarrow> chain_channel \<Rightarrow>
    connector_error + 'r"
where
  "closing_tx me elapsed G i c =
    and_then (ok_or (InvalidArguments ''cannot close channels that is not own'') (direction me c)) (\<lambda>d.
      case ch_status c of
        Closed \<Rightarrow> Inl (ChannelClosed i)
      | Open \<Rightarrow>
          if d = Outgoing then payload (initiate_closure_tx G (ch_destination c))
          else payload (close_incoming_tx G (ch_source c))
      | PendingToClose t \<Rightarrow>
          if elapsed (PendingToClose t) then
            (if d = Outgoing then payload (finalize_closure_tx G (ch_destination c))
             else payload (close_incoming_tx G (ch_source c)))
          else Inl (InvalidState ''channel closure time has not elapsed''))"

definition close_channel ::
  "(connector_error + unit) \<Rightarrow> ('k, 'm, 's) backend_ops \<Rightarrow> address \<Rightarrow> (channel_status \<Rightarrow> bool) \<Rightarrow>
    ('r, 'a, 't, 'md) payloads \<Rightarrow> ('r, 'rc, 'h, 'w, 'c) sender \<Rightarrow> channel_id \<Rightarrow> ('k, 'm, 's) chain_index \<Rightarrow>
    (connector_error, 'rc) sent \<times> ('k, 'm, 's) chain_index"
where
  "close_channel conn ops me elapsed G S i ix =
    (let (r, ix') = channel_by_id conn ops i ix
     in (send_made S (Some channel_custom_timeout_multiplier) None
           (and_then (known_channel i r) (closing_tx me elapsed G i)), ix'))"

section \<open>Accounts\<close>

text \<open>
  \<open>await_key_binding\<close>: the account of the fresh query, or the first one the subscription yields
  within the timeout. \<open>subscribed\<close> tells what is there after a given time: an item (perhaps an
  error), the end of the stream, or nothing yet.
\<close>

datatype 'x awaited = Item "error_kind + 'x" | StreamEnd | NothingYet

definition await_key_binding ::
  "(connector_error + unit) \<Rightarrow> ('k, 'm, 'h, 'w, 'c, 't, 'md, 'f) parsers \<Rightarrow> ('k \<Rightarrow> string) \<Rightarrow>
    (error_kind + account_model list) \<Rightarrow> (error_kind + (duration \<Rightarrow> account_model awaited)) \<Rightarrow>
    'k \<Rightarrow> duration \<Rightarrow> connector_error + ('k, 'm) account_entry"
where
  "await_key_binding conn P show_key queried subscribed key timeout =
    and_then conn (\<lambda>_.
    and_then (map_err ClientError queried) (\<lambda>nodes.
      case nodes of
        node # _ \<Rightarrow> model_to_account_entry P node
      | [] \<Rightarrow>
          and_then (map_err ClientError subscribed) (\<lambda>await.
            case await (max timeout (from_secs 1)) of
              NothingYet \<Rightarrow> Inl (OtherError ''timeout while waiting for key binding'')
            | StreamEnd \<Rightarrow> Inl (AccountDoesNotExist (''with packet key '' @ show_key key))
            | Item r \<Rightarrow> and_then (map_err ClientError r) (model_to_account_entry P))))"

datatype announcement_error = AlreadyAnnounced | AnnouncementFailed connector_error

text \<open>The account whose packet key is ours, of those with our address.\<close>

definition own_account ::
  "('k, 'm, 'h, 'w, 'c, 't, 'md, 'f) parsers \<Rightarrow> 'k \<Rightarrow> account_model list \<Rightarrow> account_model option"
where
  "own_account P key accounts = List.find (\<lambda>a. parse_key P (m_packet_key a) = Inr key) accounts"

definition announce_addresses ::
  "(connector_error + unit) \<Rightarrow> ('k, 'm, 'h, 'w, 'c, 't, 'md, 'f) parsers \<Rightarrow> ('r, 'a, 't, 'md) payloads \<Rightarrow>
    ('r, 'rc, 'h, 'w, 'c) sender \<Rightarrow> ('m \<Rightarrow> string) \<Rightarrow> ('m option \<Rightarrow> string + 'a) \<Rightarrow>
    (error_kind + account_model list) \<Rightarrow> 'm list \<Rightarrow> 'k \<Rightarrow> (announcement_error, 'rc) sent"
where
  "announce_addresses conn P G S show_addr announcement queried addrs key =
    (let found =
       and_then (map_err AnnouncementFailed conn) (\<lambda>_.
       and_then (map_err (AnnouncementFailed \<circ> ClientError) queried) (\<lambda>accounts.
         let account = own_account P key accounts
         in (case account of
               Some a \<Rightarrow>
                 if show_addr ` set addrs \<subseteq> set (m_multi_addresses a) then Inl AlreadyAnnounced
                 else Inr account
             | None \<Rightarrow> Inr account)));
       made =
       and_then found (\<lambda>account.
       and_then (case account of
                   None \<Rightarrow> map_err AnnouncementFailed (map_ok ci_key_binding_fee (info_answer S))
                 | Some _ \<Rightarrow> Inr 0) (\<lambda>fee.
       and_then (map_err (AnnouncementFailed \<circ> OtherError) (announcement (case addrs of [] \<Rightarrow> None | a # _ \<Rightarrow> Some a)))
         (\<lambda>a. map_err AnnouncementFailed (payload (announce_tx G a fee)))))
     in (case made of
           Inl e \<Rightarrow> Some (Inl e)
         | Inr req \<Rightarrow> map_option (map_err AnnouncementFailed) (send_tx S req None None)))"

definition withdraw ::
  "('r, 'a, 't, 'md) payloads \<Rightarrow> ('r, 'rc, 'h, 'w, 'c) sender \<Rightarrow> balance \<Rightarrow> address \<Rightarrow> (connector_error, 'rc) sent"
where
  "withdraw G S amount recipient = send_made S None None (payload (transfer_tx G recipient amount))"

definition withdraw_from_signer ::
  "('r, 'a, 't, 'md) payloads \<Rightarrow> ('r, 'rc, 'h, 'w, 'c) sender \<Rightarrow> address \<Rightarrow> balance \<Rightarrow> address \<Rightarrow>
    (connector_error, 'rc) sent"
where
  "withdraw_from_signer G S signer amount recipient =
    send_made S None (Some signer) (payload (transfer_tx G recipient amount))"

datatype safe_registration_error = AlreadyRegistered address | SafeRegistrationFailed connector_error

text \<open>\<open>query_safe\<close> with the selectors by registered node and by address of the Safe.\<close>

definition register_safe ::
  "(connector_error + unit) \<Rightarrow> ('k, 'm, 'h, 'w, 'c, 't, 'md, 'f) parsers \<Rightarrow> ('r, 'a, 't, 'md) payloads \<Rightarrow>
    ('r, 'rc, 'h, 'w, 'c) sender \<Rightarrow> (error_kind + safe_model list) \<Rightarrow> (error_kind + safe_model list) \<Rightarrow>
    address \<Rightarrow> (safe_registration_error, 'rc) sent"
where
  "register_safe conn P G S with_node with_address safe =
    (let made =
       and_then (map_err SafeRegistrationFailed conn) (\<lambda>_.
       and_then (map_err (SafeRegistrationFailed \<circ> ClientError) with_node) (\<lambda>registered.
       and_then (case registered of
                   s # _ \<Rightarrow>
                     and_then (map_err (SafeRegistrationFailed \<circ> GeneralError) (parse_address P (m_safe s)))
                       (\<lambda>d. Inl (AlreadyRegistered d))
                 | [] \<Rightarrow> Inr ()) (\<lambda>_.
       and_then (map_err (SafeRegistrationFailed \<circ> ClientError) with_address) (\<lambda>deployed.
         if deployed = [] then Inl (SafeRegistrationFailed (SafeDoesNotExist safe))
         else map_err SafeRegistrationFailed (payload (register_safe_tx G safe))))))
     in (case made of
           Inl e \<Rightarrow> Some (Inl e)
         | Inr req \<Rightarrow> map_option (map_err SafeRegistrationFailed) (send_tx S req None None)))"

section \<open>Safes\<close>

definition deploy_safe_custom_tx_timeout_multiplier :: u32 where
  "deploy_safe_custom_tx_timeout_multiplier = 8"

definition deploy_safe ::
  "('r, 'a, 't, 'md) payloads \<Rightarrow> ('r, 'rc, 'h, 'w, 'c) sender \<Rightarrow> (error_kind + safe_model list) \<Rightarrow>
    (connector_error + balance) \<Rightarrow> nat \<Rightarrow> address \<Rightarrow> balance \<Rightarrow> (connector_error, 'rc) sent"
where
  "deploy_safe G S of_deployer own_balance random admin amount =
    send_made S (Some deploy_safe_custom_tx_timeout_multiplier) None
      (and_then (map_err ClientError of_deployer) (\<lambda>safes.
         if safes \<noteq> [] then Inl (InvalidState ''safe already deployed for this signer'')
         else and_then own_balance (\<lambda>b.
           if b < amount then Inl (InvalidState ''insufficient token balance at the signer'')
           else payload (deploy_safe_tx G amount [admin] True random))))"

section \<open>Services\<close>

text \<open>\<open>type_config\<close> is the answer of \<open>get_service_type_config\<close>.\<close>

definition registered_type ::
  "connector_error + service_type_config option \<Rightarrow> connector_error + service_type_config"
where
  "registered_type r = and_then r (ok_or (InvalidState ''service type is not registered''))"

definition register_service ::
  "(connector_error + unit) \<Rightarrow> ('r, 'a, 't, 'md) payloads \<Rightarrow> ('r, 'rc, 'h, 'w, 'c) sender \<Rightarrow>
    ('t \<Rightarrow> connector_error + service_type_config option) \<Rightarrow> 't \<Rightarrow> 'md \<Rightarrow> (connector_error, 'rc) sent"
where
  "register_service conn G S type_config t md =
    send_made S None None
      (and_then conn (\<lambda>_. and_then (registered_type (type_config t)) (\<lambda>cfg.
         payload (register_service_tx G t md (st_registration_burn cfg)))))"

definition update_service ::
  "(connector_error + unit) \<Rightarrow> ('r, 'a, 't, 'md) payloads \<Rightarrow> ('r, 'rc, 'h, 'w, 'c) sender \<Rightarrow>
    ('t \<Rightarrow> connector_error + service_type_config option) \<Rightarrow> 't \<Rightarrow> 'md \<Rightarrow> (connector_error, 'rc) sent"
where
  "update_service conn G S type_config t md =
    send_made S None None
      (and_then conn (\<lambda>_. and_then (registered_type (type_config t)) (\<lambda>cfg.
         payload (update_service_tx G t md (st_update_burn cfg)))))"

definition deregister_service ::
  "(connector_error + unit) \<Rightarrow> ('r, 'a, 't, 'md) payloads \<Rightarrow> ('r, 'rc, 'h, 'w, 'c) sender \<Rightarrow> 't \<Rightarrow>
    (connector_error, 'rc) sent"
where
  "deregister_service conn G S t =
    send_made S None None (and_then conn (\<lambda>_. payload (deregister_service_tx G t)))"

section \<open>Announcing the same addresses again\<close>

text \<open>
  Calls with the same addresses, after each of which that was not told \<open>AlreadyAnnounced\<close> the
  account holds the first of them, the only one that is sent. The list tells which calls were.
\<close>

primrec announce_rounds ::
  "(string list \<Rightarrow> (announcement_error, 'rc) sent) \<Rightarrow> string \<Rightarrow> nat \<Rightarrow> string list \<Rightarrow> bool list"
where
  "announce_rounds call first 0 T = []"
| "announce_rounds call first (Suc n) T =
    (call T = Some (Inl AlreadyAnnounced)) #
      announce_rounds call first n (if call T = Some (Inl AlreadyAnnounced) then T else List.insert first T)"

lemma announce_already_iff:
  assumes "own_account P key accounts = Some a"
  shows "announce_addresses (Inr ()) P G S show_addr ann (Inr accounts) addrs key = Some (Inl AlreadyAnnounced) \<longleftrightarrow>
    show_addr ` set addrs \<subseteq> set (m_multi_addresses a)"
proof (cases "show_addr ` set addrs \<subseteq> set (m_multi_addresses a)")
  case True
  then show ?thesis using assms by (simp add: announce_addresses_def and_then_def map_err_def)
next
  case False
  then show ?thesis using assms
    by (auto simp: announce_addresses_def and_then_def map_err_def Let_def split: sum.splits)
qed

lemma announce_rounds_settled:
  "call T = Some (Inl AlreadyAnnounced) \<Longrightarrow> announce_rounds call first n T = replicate n True"
  by (induction n) simp_all

lemma announce_rounds_stuck:
  "call (List.insert first T) \<noteq> Some (Inl AlreadyAnnounced) \<Longrightarrow>
    announce_rounds call first n (List.insert first T) = replicate n False"
  by (induction n) simp_all

text \<open>
  Announcing repeats unless a single address is announced: of the addresses given only the
  first is sent, but the call is told that they are announced already only when the account has
  them all. So after the first call every later one with the same addresses is a transaction again
  unless each of them is the first one or was there before; with one address none is.
\<close>

theorem announcements_repeat:
  assumes "\<And>T. \<exists>a. own_account P key (accounts T) = Some a \<and> set (m_multi_addresses a) = set T"
  shows "announce_rounds (\<lambda>T. announce_addresses (Inr ()) P G S show_addr ann (Inr (accounts T)) (x # xs) key) (show_addr x) (Suc n) T0 =
    (show_addr ` set (x # xs) \<subseteq> set T0) # replicate n (show_addr ` set xs \<subseteq> insert (show_addr x) (set T0))"
proof -
  let ?call = "\<lambda>T. announce_addresses (Inr ()) P G S show_addr ann (Inr (accounts T)) (x # xs) key"
  have call: "?call T = Some (Inl AlreadyAnnounced) \<longleftrightarrow> show_addr ` set (x # xs) \<subseteq> set T" for T
    using assms [of T] announce_already_iff by metis
  show ?thesis
  proof (cases "show_addr ` set (x # xs) \<subseteq> set T0")
    case True
    moreover have "announce_rounds ?call (show_addr x) n T0 = replicate n True"
      using True call by (intro announce_rounds_settled) blast
    ultimately show ?thesis using call [of T0] by auto
  next
    case False
    have "announce_rounds ?call (show_addr x) n (List.insert (show_addr x) T0) =
        replicate n (show_addr ` set xs \<subseteq> insert (show_addr x) (set T0))"
    proof (cases "show_addr ` set xs \<subseteq> insert (show_addr x) (set T0)")
      case True
      then have "?call (List.insert (show_addr x) T0) = Some (Inl AlreadyAnnounced)" by (simp add: call)
      with True show ?thesis by (simp add: announce_rounds_settled [where call = ?call])
    next
      case no: False
      then have "?call (List.insert (show_addr x) T0) \<noteq> Some (Inl AlreadyAnnounced)" by (simp add: call)
      with no show ?thesis by (simp add: announce_rounds_stuck [where call = ?call])
    qed
    moreover have "?call T0 \<noteq> Some (Inl AlreadyAnnounced)" using False by (simp add: call)
    ultimately show ?thesis using False by simp
  qed
qed

definition sample_account :: "string list \<Rightarrow> account_model" where
  "sample_account addrs = \<lparr>m_keyid = 1, m_packet_key = ''key'', m_chain_key = ''chain'', m_multi_addresses = addrs,
    m_safe_address = None\<rparr>"

text \<open>A client that answers in a fixed way, and payloads that are numbers.\<close>

definition sender_with :: "(connector_error + tracked_tx) \<Rightarrow> (nat, nat, nat, nat, nat) sender" where
  "sender_with tracked =
    \<lparr>timeout_multiplier = 2, info_answer = Inr sample_info, submit = (\<lambda>_. Inr tracked), parse_receipt = (\<lambda>s. Some (length s))\<rparr>"

definition number_payloads :: "(nat, nat, nat, nat) payloads" where
  "number_payloads =
    \<lparr>fund_channel_tx = (\<lambda>d _. Inr d), initiate_closure_tx = Inr, finalize_closure_tx = Inr, close_incoming_tx = Inr,
     redeem_tx = (\<lambda>t. Inr (unat (index_of t))), announce_tx = (\<lambda>a _. Inr a), transfer_tx = (\<lambda>d _. Inr d),
     register_safe_tx = Inr, deploy_safe_tx = (\<lambda>_ _ _ r. Inr r), register_service_tx = (\<lambda>t _ _. Inr t),
     update_service_tx = (\<lambda>t _ _. Inr t), deregister_service_tx = Inr\<rparr>"

text \<open>Two addresses, for an account without any: all four calls are transactions.\<close>

theorem announcements_repeat_witness:
  "announce_rounds (\<lambda>T. announce_addresses (Inr ()) sample_parsers number_payloads (sender_with (Inl ServerNotHealthy))
      (\<lambda>k. replicate k (CHR ''x'')) (\<lambda>_. Inr 0) (Inr [sample_account T]) [1, 2] 1) ''x'' 4 [] = [False, False, False, False]"
proof -
  have "own_account sample_parsers 1 [sample_account T] = Some (sample_account T)" for T
    by (simp add: own_account_def sample_account_def sample_parsers_def)
  then have "\<exists>a. own_account sample_parsers 1 [sample_account T] = Some a \<and> set (m_multi_addresses a) = set T" for T
    by (simp add: sample_account_def)
  from announcements_repeat [where accounts = "\<lambda>T. [sample_account T]" and x = 1 and xs = "[2]" and n = 3
      and show_addr = "\<lambda>k. replicate k (CHR ''x'')", OF this,
      of number_payloads "sender_with (Inl ServerNotHealthy)" "\<lambda>_. Inr 0" "[]"]
  show ?thesis by (simp add: eval_nat_numeral del: announce_rounds.simps)
qed

end
