(* ===== verification/Ticket_Redemption.thy ===== *)
theory Ticket_Redemption
  imports Chain_Actions Ticket_Runs
begin

text \<open>
  The redemption of a ticket by the connector (\<open>connector/src/connector/tickets.rs\<close>): the
  preconditions checked against a fresh answer of the chain client, the transaction, and the
  classification of every failure as a rejection or a processing error; and what the redemption
  stream of the ticket manager makes of the two. The issuer of a ticket and the texts of errors
  are parameters.
\<close>

section \<open>The preconditions\<close>

definition prepare_ticket_redeem_payload ::
  "(connector_error + unit) \<Rightarrow> ('k, 'm, 'h, 'w, 'c, 't, 'md, 'f) parsers \<Rightarrow> ('r, 'a, 't, 'md) payloads \<Rightarrow>
    (verified_ticket \<Rightarrow> address) \<Rightarrow> address \<Rightarrow> (error_kind + channel_model list) \<Rightarrow> redeemable_ticket \<Rightarrow>
    connector_error + 'r"
where
  "prepare_ticket_redeem_payload conn P G issuer me queried t =
    and_then conn (\<lambda>_.
      if generate_channel_id P (issuer (rt_ticket t)) me \<noteq> channel_of t then Inl BadTicket
      else
        and_then (map_err ClientError queried) (\<lambda>channels.
        and_then (ok_or (ChannelDoesNotExist (channel_of t)) (case channels of [] \<Rightarrow> None | c # _ \<Rightarrow> Some c)) (\<lambda>c.
          if m_status c = ClosedModel then Inl (ChannelClosed (channel_of t))
          else if word_of_int (m_epoch c) \<noteq> epoch_of t then Inl BadTicket
          else
            and_then (convert_err ''unparseable channel index at redemption'' (parse_int max_u64 (m_ticket_index c))) (\<lambda>idx.
              if unat (index_of t) < idx then Inl BadTicket
              else
                and_then (convert_err ''unparseable channel stake at redemption'' (parse_balance P (m_balance c)))
                  (\<lambda>stake. if stake < amount_of t then Inl BadTicket else payload (redeem_tx G t))))))"

section \<open>The redemption\<close>

definition ticket_custom_timeout_multiplier :: u32 where
  "ticket_custom_timeout_multiplier = 4"

definition tracking_reply ::
  "verified_ticket \<Rightarrow> connector_error + 'rc \<Rightarrow> connector_error chain_reply"
where
  "tracking_reply vt tracked =
    (case tracked of
       Inr _ \<Rightarrow> ChainRedeemed vt
     | Inl (InnerTxFailed reason) \<Rightarrow> ChainRejected vt (''inner transaction rejected: '' @ reason)
     | Inl e \<Rightarrow>
         (case as_hopr_action_rejection e of
            Some (operation, reason) \<Rightarrow>
              ChainRejected vt (''blokli rejected the '' @ operation @ '' action: '' @ reason)
          | None \<Rightarrow> ChainError e))"

definition redeem_ticket ::
  "(connector_error \<Rightarrow> string) \<Rightarrow> ('r, 'rc, 'h, 'w, 'c) sender \<Rightarrow> (redeemable_ticket \<Rightarrow> connector_error + 'r) \<Rightarrow>
    redeemable_ticket \<Rightarrow> connector_error chain_reply option"
where
  "redeem_ticket show_error S prepare t =
    (case prepare t of
       Inr req \<Rightarrow>
         map_option (\<lambda>sent. case sent of
             Inl e \<Rightarrow> ChainError e
           | Inr tracked \<Rightarrow> tracking_reply (rt_ticket t) tracked)
           (send_tx S req (Some ticket_custom_timeout_multiplier) None)
     | Inl e \<Rightarrow>
         Some (case e of
                 BadTicket \<Rightarrow> ChainRejected (rt_ticket t) (show_error e)
               | ChannelDoesNotExist _ \<Rightarrow> ChainRejected (rt_ticket t) (show_error e)
               | ChannelClosed _ \<Rightarrow> ChainRejected (rt_ticket t) (show_error e)
               | _ \<Rightarrow> ChainError e))"

section \<open>Which tickets are submitted\<close>

definition redeemable_on :: "channel_model \<Rightarrow> nat \<Rightarrow> balance \<Rightarrow> redeemable_ticket \<Rightarrow> bool" where
  "redeemable_on c idx stake t \<longleftrightarrow>
    m_status c \<noteq> ClosedModel \<and> word_of_int (m_epoch c) = epoch_of t \<and> idx \<le> unat (index_of t) \<and>
    amount_of t \<le> stake"

text \<open>
  C31. A ticket of ours on a known channel is submitted exactly when the channel is not closed, is
  in the epoch of the ticket, has not passed its index and still holds its value; otherwise the
  ticket is rejected at once, with the reason of the closed channel or the invalid ticket, and
  nothing is sent.
\<close>

theorem redeem_precheck_exact:
  assumes "generate_channel_id P (issuer (rt_ticket t)) me = channel_of t"
    and "parse_int max_u64 (m_ticket_index c) = Inr idx" and "parse_balance P (m_balance c) = Inr stake"
    and "redeem_tx G t = Inr req"
  shows "redeem_ticket show_error S (prepare_ticket_redeem_payload (Inr ()) P G issuer me (Inr (c # cs))) t =
    (if redeemable_on c idx stake t
     then map_option (\<lambda>sent. case sent of Inl e \<Rightarrow> ChainError e | Inr tracked \<Rightarrow> tracking_reply (rt_ticket t) tracked)
            (send_tx S req (Some ticket_custom_timeout_multiplier) None)
     else Some (ChainRejected (rt_ticket t)
            (show_error (if m_status c = ClosedModel then ChannelClosed (channel_of t) else BadTicket))))"
  using assms
  by (auto simp: redeem_ticket_def prepare_ticket_redeem_payload_def redeemable_on_def and_then_def ok_or_def
      payload_def convert_err_def map_err_def)

text \<open>A channel as the client reports it, for concrete runs.\<close>

definition channel_at :: "string \<Rightarrow> string \<Rightarrow> channel_model" where
  "channel_at index stake =
    \<lparr>m_balance = stake, m_ticket_index = index, m_status = OpenModel, m_closure_time = None, m_epoch = 1\<rparr>"

definition redeem_against ::
  "(connector_error + tracked_tx) \<Rightarrow> channel_model \<Rightarrow> redeemable_ticket \<Rightarrow> connector_error chain_reply option"
where
  "redeem_against tracked c t =
    redeem_ticket (\<lambda>_. ''rejected'') (sender_with tracked)
      (prepare_ticket_redeem_payload (Inr ()) sample_parsers number_payloads (\<lambda>_. 1) 0 (Inr [c])) t"

lemmas redeem_eval = redeem_against_def redeem_ticket_def prepare_ticket_redeem_payload_def sample_parsers_def
  channel_at_def number_payloads_def and_then_def ok_or_def convert_err_def map_err_def map_ok_def payload_def
  parse_int_def parse_unsigned_def is_digit_def digit_val_def max_u64_def sender_with_def send_tx_def
  sample_info_def tx_timeout_def ticket_custom_timeout_multiplier_def from_secs_def min_tx_confirm_timeout_def
  unwrap_or_def tracking_reply_def receipt_of_def

theorem redeem_precheck_exact_witness:
  "redeem_ticket (\<lambda>_. ''rejected'') (sender_with (Inr \<lparr>tx_hash = ''0x1'', safe_execution = None\<rparr>))
      (prepare_ticket_redeem_payload (Inr ()) sample_parsers number_payloads (\<lambda>_. 1) 0 (Inr [channel_at ''6'' ''ten chars!'']))
      (sample_ticket 1 5 10) =
    Some (ChainRejected (rt_ticket (sample_ticket 1 5 10)) ''rejected'')"
proof -
  have "parse_int max_u64 (m_ticket_index (channel_at ''6'' ''ten chars!'')) = Inr 6"
    by (simp add: channel_at_def parse_int_def parse_unsigned_def is_digit_def digit_val_def max_u64_def map_err_def)
  moreover have "parse_balance sample_parsers (m_balance (channel_at ''6'' ''ten chars!'')) = Inr 10"
    by (simp add: channel_at_def sample_parsers_def)
  moreover have "generate_channel_id sample_parsers 1 0 = channel_of (sample_ticket 1 5 10)"
    by (simp add: sample_parsers_def sample_ticket_def)
  moreover have "redeem_tx number_payloads (sample_ticket 1 5 10) = Inr 5"
    by (simp add: number_payloads_def sample_ticket_def)
  ultimately show ?thesis
    using redeem_precheck_exact [of sample_parsers "\<lambda>_. 1" "sample_ticket 1 5 10" 0 "channel_at ''6'' ''ten chars!''" 6 10
        number_payloads 5 "\<lambda>_. ''rejected''"]
    by (simp add: redeemable_on_def sample_ticket_def)
qed

section \<open>What becomes of the ticket\<close>

text \<open>The failures that may pass: everything but the reasons of a rejection.\<close>

definition may_pass :: "connector_error \<Rightarrow> bool" where
  "may_pass e \<longleftrightarrow> as_hopr_action_rejection e = None \<and>
    (case e of BadTicket \<Rightarrow> False | ChannelDoesNotExist _ \<Rightarrow> False | ChannelClosed _ \<Rightarrow> False
       | InnerTxFailed _ \<Rightarrow> False | _ \<Rightarrow> True)"

lemma throttled_may_pass: "retry_after e \<noteq> None \<Longrightarrow> may_pass e"
  by (cases e) (auto simp: may_pass_def error_reading_defs split: option.splits error_kind.splits)

text \<open>
  C32. A failure that may pass never costs a ticket: when the chain client cannot answer the query,
  the transaction cannot be queued, or its tracking fails for any reason but a permanent one
  (so also when the client is throttled or overloaded), the redemption stream of the ticket
  manager ends with that error, and the manager is as it was but for the released lock, so that
  the ticket stays first in its queue.
\<close>

theorem retryable_failure_keeps_ticket:
  assumes "may_pass e" and "rs_min rs \<le> amount_of t"
    and "prepare t = Inl e \<or> (\<exists>req. prepare t = Inr req \<and>
      (send_tx S req (Some ticket_custom_timeout_multiplier) None = Some (Inl e) \<or>
       send_tx S req (Some ticket_custom_timeout_multiplier) None = Some (Inr (Inl e))))"
  shows "map_option (\<lambda>reply. stream_resume sops t reply rs m) (redeem_ticket show_error S prepare t) =
    Some (Inl (RedeemError e), release rs m)"
proof -
  have "tracking_reply (rt_ticket t) (Inl e) = ChainError e"
    using assms(1) by (cases e) (auto simp: tracking_reply_def may_pass_def)
  then have "redeem_ticket show_error S prepare t = Some (ChainError e)"
    using assms(1,3) by (cases e) (auto simp: redeem_ticket_def may_pass_def)
  then show ?thesis using assms(2) by (simp add: stream_resume_def redeem_attempt_def)
qed

text \<open>A throttled redemption of the ticket a stream has just polled.\<close>

theorem retryable_failure_keeps_ticket_witness:
  "\<exists>s. sys_run (mem_store_ops ticket_le :: nat mem_ops) 1000
      ([AInsert (sample_ticket 1 5 10), AOpen 1 None, APoll 0] :: connector_error action list) (sys_new mem_empty) = Some s \<and>
    rs_pc (sy_streams s ! 0) = Pending (sample_ticket 1 5 10) \<and>
    map_option (\<lambda>reply. stream_resume (mem_store_ops ticket_le :: nat mem_ops) (sample_ticket 1 5 10) reply (sy_streams s ! 0) (sy_man s))
      (redeem_ticket (\<lambda>_. ''rejected'') (sender_with (Inl (ClientError (HoprActionThrottled 7)))) (\<lambda>t. Inr 5) (sample_ticket 1 5 10)) =
      Some (Inl (RedeemError (ClientError (HoprActionThrottled 7))), release (sy_streams s ! 0) (sy_man s))"
proof -
  obtain s where s: "sys_run (mem_store_ops ticket_le :: nat mem_ops) 1000
      ([AInsert (sample_ticket 1 5 10), AOpen 1 None, APoll 0] :: connector_error action list) (sys_new mem_empty) = Some s"
    "rs_pc (sy_streams s ! 0) = Pending (sample_ticket 1 5 10)" "rs_min (sy_streams s ! 0) = 0"
    by (simp add: mem_eval)
  have sent: "send_tx (sender_with (Inl (ClientError (HoprActionThrottled 7)))) 5 (Some ticket_custom_timeout_multiplier) None =
      Some (Inr (Inl (ClientError (HoprActionThrottled 7))))"
    by (simp add: redeem_eval)
  have "may_pass (ClientError (HoprActionThrottled 7))"
    by (simp add: may_pass_def as_hopr_action_rejection_def)
  then show ?thesis
    using s sent retryable_failure_keeps_ticket [of "ClientError (HoprActionThrottled 7)" "sy_streams s ! 0" "sample_ticket 1 5 10"
        "\<lambda>t. Inr 5" "sender_with (Inl (ClientError (HoprActionThrottled 7)))" "mem_store_ops ticket_le :: nat mem_ops" "sy_man s" "\<lambda>_. ''rejected''"]
    by auto
qed

text \<open>
  A redemption that reached the chain may be accounted as rejected. The transaction of a
  ticket is sent and redeems it, but the client stops tracking it with an error; the ticket stays
  queued. At the next attempt the channel on the chain has passed the index of the ticket, which
  the connector takes for an invalid ticket: the manager counts its value as rejected, and nothing
  as redeemed.
\<close>

theorem redeemed_counted_rejected:
  "\<exists>r1 r2 s'.
    redeem_against (Inl (ClientError (OtherKind ''timeout''))) (channel_at ''5'' ''0123456789'') (sample_ticket 1 5 10) = Some r1 \<and>
    redeem_against (Inl (ClientError (OtherKind ''timeout''))) (channel_at ''6'' []) (sample_ticket 1 5 10) = Some r2 \<and>
    sys_run (mem_store_ops ticket_le :: nat mem_ops) 1000
      [AInsert (sample_ticket 1 5 10), AOpen 1 None, APoll 0, AResume 0 r1, AOpen 1 None, APoll 1, AResume 1 r2]
      (sys_new mem_empty) = Some s' \<and>
    map_option (st_redeemed \<circ> te_stats) (entry_at (sy_man s') 1) = Some 0 \<and>
    map_option (st_rejected \<circ> te_stats) (entry_at (sy_man s') 1) = Some 10 \<and>
    map (result_ticket \<circ> snd) (sy_log s') = [rt_ticket (sample_ticket 1 5 10)]"
proof -
  have "redeem_against (Inl (ClientError (OtherKind ''timeout''))) (channel_at ''5'' ''0123456789'') (sample_ticket 1 5 10) =
      Some (ChainError (ClientError (OtherKind ''timeout'')))"
    by (simp add: redeem_eval sample_ticket_def as_hopr_action_rejection_def)
  moreover have "redeem_against (Inl (ClientError (OtherKind ''timeout''))) (channel_at ''6'' []) (sample_ticket 1 5 10) =
      Some (ChainRejected (rt_ticket (sample_ticket 1 5 10)) ''rejected'')"
    by (simp add: redeem_eval sample_ticket_def)
  ultimately show ?thesis by (simp add: mem_eval)
qed

end
