(* ===== verification/Blockchain_Reader.thy ===== *)
theory Blockchain_Reader
  imports Chain_Actions
begin

text \<open>
  The read-only view of the chain (\<open>connector/src/reader.rs\<close>) and the cached values the connector
  itself answers from (\<open>connector/src/connector/values.rs\<close>). The answers of the chain client are
  parameters: a query is a function of its selector, a subscription the list of its items together
  with the time at which each is there.
\<close>

section \<open>The service registry\<close>

record 't service_selector =
  sel_type :: "'t option"
  sel_node :: "address option"
  live_only :: bool

datatype 't registry_query = TypeAndNode 't address | OfType 't | OfNode address | AnyService

definition to_blokli_service_selector :: "'t service_selector \<Rightarrow> 't registry_query" where
  "to_blokli_service_selector sel =
    (case (sel_type sel, sel_node sel) of
       (Some t, Some n) \<Rightarrow> TypeAndNode t n
     | (Some t, None) \<Rightarrow> OfType t
     | (None, Some n) \<Rightarrow> OfNode n
     | (None, None) \<Rightarrow> AnyService)"

text \<open>\<open>matches\<close> is \<open>ServiceSelector::satisfies\<close>, given whether the entry is live.\<close>

definition select_service_entries ::
  "('t service_selector \<Rightarrow> ('t, 'md) service_entry \<Rightarrow> bool \<Rightarrow> bool) \<Rightarrow>
    (service_entry_model \<Rightarrow> connector_error + ('t, 'md) service_entry) \<Rightarrow>
    service_entry_model list \<Rightarrow> 't service_selector \<Rightarrow> ('t, 'md) service_entry list"
where
  "select_service_entries matches convert models sel =
    List.map_filter (\<lambda>m. case convert m of
        Inl e \<Rightarrow> None
      | Inr entry \<Rightarrow> if matches sel entry (live_only sel) then Some entry else None) models"

record 't registry_client =
  query_services :: "'t registry_query \<Rightarrow> error_kind + service_entry_model list"
  query_live_services :: "'t registry_query \<Rightarrow> error_kind + service_entry_model list"
  client_count_services :: "'t registry_query \<Rightarrow> error_kind + nat"
  query_service_types :: "'t \<Rightarrow> error_kind + service_type_model list"
  query_registry_config :: "error_kind + registry_config_model"

definition query_service_entries ::
  "'t registry_client \<Rightarrow> ('t service_selector \<Rightarrow> ('t, 'md) service_entry \<Rightarrow> bool \<Rightarrow> bool) \<Rightarrow>
    (service_entry_model \<Rightarrow> connector_error + ('t, 'md) service_entry) \<Rightarrow> 't service_selector \<Rightarrow>
    connector_error + ('t, 'md) service_entry list"
where
  "query_service_entries cl matches convert sel =
    (let query = to_blokli_service_selector sel
     in map_ok (\<lambda>models. select_service_entries matches convert models sel)
          (map_err ClientError (if live_only sel then query_live_services cl query else query_services cl query)))"

definition stream_services ::
  "'t registry_client \<Rightarrow> ('t service_selector \<Rightarrow> ('t, 'md) service_entry \<Rightarrow> bool \<Rightarrow> bool) \<Rightarrow>
    (service_entry_model \<Rightarrow> connector_error + ('t, 'md) service_entry) \<Rightarrow> 't service_selector \<Rightarrow>
    ('t, 'md) service_entry list"
where
  "stream_services cl matches convert sel =
    (case query_service_entries cl matches convert sel of Inr entries \<Rightarrow> entries | Inl _ \<Rightarrow> [])"

definition count_services ::
  "'t registry_client \<Rightarrow> ('t service_selector \<Rightarrow> ('t, 'md) service_entry \<Rightarrow> bool \<Rightarrow> bool) \<Rightarrow>
    (service_entry_model \<Rightarrow> connector_error + ('t, 'md) service_entry) \<Rightarrow> 't service_selector \<Rightarrow>
    connector_error + nat"
where
  "count_services cl matches convert sel =
    (if live_only sel then map_ok length (query_service_entries cl matches convert sel)
     else map_err ClientError (client_count_services cl (to_blokli_service_selector sel)))"

definition get_service_type_config ::
  "'t registry_client \<Rightarrow> ('k, 'm, 'h, 'w, 'c, 't, 'md, 'f) parsers \<Rightarrow> 't \<Rightarrow>
    connector_error + service_type_config option"
where
  "get_service_type_config cl P t =
    and_then (map_err ClientError (query_service_types cl t)) (\<lambda>models.
      opt_transpose (model_to_service_type_config P) (case models of [] \<Rightarrow> None | m # _ \<Rightarrow> Some m))"

definition get_service_registry_config ::
  "'t registry_client \<Rightarrow> ('k, 'm, 'h, 'w, 'c, 't, 'md, 'f) parsers \<Rightarrow> connector_error + registry_config"
where
  "get_service_registry_config cl P =
    and_then (map_err ClientError (query_registry_config cl)) (model_to_service_registry_config P)"

section \<open>Balances and allowances\<close>

datatype currency = WxHOPR | XDai | OtherCurrency

definition balance_of ::
  "('k, 'm, 'h, 'w, 'c, 't, 'md, 'f) parsers \<Rightarrow> (address \<Rightarrow> error_kind + string) \<Rightarrow> (address \<Rightarrow> error_kind + string) \<Rightarrow>
    currency \<Rightarrow> address \<Rightarrow> connector_error + balance"
where
  "balance_of P token_balance native_balance cy d =
    (case cy of
       WxHOPR \<Rightarrow> and_then (map_err ClientError (token_balance d)) (\<lambda>s. general_err (parse_balance P s))
     | XDai \<Rightarrow> and_then (map_err ClientError (native_balance d)) (\<lambda>s. general_err (parse_balance P s))
     | OtherCurrency \<Rightarrow> Inl (InvalidState ''unsupported currency''))"

definition safe_allowance ::
  "('k, 'm, 'h, 'w, 'c, 't, 'md, 'f) parsers \<Rightarrow> (address \<Rightarrow> error_kind + string) \<Rightarrow> currency \<Rightarrow> address \<Rightarrow>
    connector_error + balance"
where
  "safe_allowance P allowance cy d =
    (case cy of
       WxHOPR \<Rightarrow> and_then (map_err ClientError (allowance d)) (\<lambda>s. general_err (parse_balance P s))
     | XDai \<Rightarrow> Inl (InvalidState ''cannot query allowance on xDai'')
     | OtherCurrency \<Rightarrow> Inl (InvalidState ''unsupported currency''))"

text \<open>
  The values of the chain information: the reader queries it for each, the connector takes the
  cached one (\<open>info\<close> is then the answer of \<open>query_cached_chain_info\<close>).
\<close>

definition reader_info ::
  "('f chain_info_model \<Rightarrow> connector_error + ('h, 'w, 'c) parsed_chain_info) \<Rightarrow> (error_kind + 'f chain_info_model) \<Rightarrow>
    connector_error + ('h, 'w, 'c) parsed_chain_info"
where
  "reader_info convert reply = and_then (map_err ClientError reply) convert"

definition minimum_ticket_price ::
  "(connector_error + ('h, 'w, 'c) parsed_chain_info) \<Rightarrow> connector_error + balance"
where
  "minimum_ticket_price info = map_ok ci_ticket_price info"

definition minimum_incoming_ticket_win_prob ::
  "(connector_error + ('h, 'w, 'c) parsed_chain_info) \<Rightarrow> connector_error + 'w"
where
  "minimum_incoming_ticket_win_prob info = map_ok ci_win_prob info"

definition key_binding_fee :: "(connector_error + ('h, 'w, 'c) parsed_chain_info) \<Rightarrow> connector_error + balance" where
  "key_binding_fee info = map_ok ci_key_binding_fee info"

definition channel_closure_notice_period ::
  "(connector_error + ('h, 'w, 'c) parsed_chain_info) \<Rightarrow> connector_error + duration"
where
  "channel_closure_notice_period info = map_ok ci_grace_period info"

definition domain_separators ::
  "(connector_error + ('h, 'w, 'c) parsed_chain_info) \<Rightarrow> connector_error + 'h \<times> 'h \<times> 'h"
where
  "domain_separators info = map_ok (\<lambda>ci. (ci_ledger ci, ci_safe_registry ci, ci_channel ci)) info"

definition chain_identity ::
  "(connector_error + ('h, 'w, 'c) parsed_chain_info) \<Rightarrow> connector_error + u64 \<times> string \<times> 'c"
where
  "chain_identity info = map_ok (\<lambda>ci. (ci_chain_id ci, ci_network ci, ci_contracts ci)) info"

text \<open>The product of a block time and a number of blocks may overflow, which panics (\<open>Inr None\<close>).\<close>

definition resolution_time ::
  "(connector_error + ('h, 'w, 'c) parsed_chain_info) \<Rightarrow> connector_error + duration option"
where
  "resolution_time info = map_ok typical_resolution_time info"

text \<open>
  The accessors of the connector itself: \<open>sel\<close> is one of the functions above, applied to the cached
  information.
\<close>

definition cached_value ::
  "((connector_error + ('h, 'w, 'c) parsed_chain_info) \<Rightarrow> connector_error + 'v) \<Rightarrow>
    (connector_error + ('h, 'w, 'c) parsed_chain_info) \<Rightarrow> ('h, 'w, 'c) ticket_state \<Rightarrow>
    (connector_error + 'v) \<times> ('h, 'w, 'c) ticket_state"
where
  "cached_value sel queried st = map_prod sel id (query_cached_chain_info queried st)"

definition redemption_stats ::
  "('k, 'm, 'h, 'w, 'c, 't, 'md, 'f) parsers \<Rightarrow> (address \<Rightarrow> error_kind + string \<times> string) \<Rightarrow> address \<Rightarrow>
    connector_error + u64 \<times> balance"
where
  "redemption_stats P query_redeemed safe_addr =
    and_then (map_err ClientError (query_redeemed safe_addr))
      (\<lambda>(count_text, amount_text). model_to_redeemed_stats P count_text amount_text)"

section \<open>Safes\<close>

datatype safe_selector = ByAddress address | ByDeployer address | ByNode address | ByOwner address

definition safe_info ::
  "('k, 'm, 'h, 'w, 'c, 't, 'md, 'f) parsers \<Rightarrow> (safe_selector \<Rightarrow> error_kind + safe_model list) \<Rightarrow>
    safe_selector \<Rightarrow> connector_error + deployed_safe option"
where
  "safe_info P query_safe sel =
    and_then (map_err ClientError (query_safe sel)) (\<lambda>safes.
      case safes of [] \<Rightarrow> Inr None | s # _ \<Rightarrow> map_ok Some (model_to_deployed_safe P s))"

definition predict_module_address ::
  "(u64 \<Rightarrow> address \<Rightarrow> address \<Rightarrow> error_kind + address) \<Rightarrow> u64 \<Rightarrow> address \<Rightarrow> address \<Rightarrow> connector_error + address"
where
  "predict_module_address query_prediction nonce owner_addr safe_addr =
    map_err ClientError (query_prediction nonce owner_addr safe_addr)"

text \<open>
  What the subscription shows within the waiting time: the first deployment that satisfies the
  selector, or the error before it, if one of them is there in time; otherwise the end of the
  stream or the timeout.
\<close>

fun first_satisfying ::
  "(deployed_safe \<Rightarrow> bool) \<Rightarrow> (safe_model \<Rightarrow> connector_error + deployed_safe) \<Rightarrow> duration \<Rightarrow>
    (duration \<times> (error_kind + safe_model)) list \<Rightarrow> duration option \<Rightarrow> connector_error + deployed_safe"
where
  "first_satisfying ok convert limit [] closed =
    (if (case closed of Some t \<Rightarrow> t \<le> limit | None \<Rightarrow> False)
     then Inl (InvalidState ''safe deployment stream closed'')
     else Inl (OtherError ''timeout while waiting for safe deployment''))"
| "first_satisfying ok convert limit ((t, item) # rest) closed =
    (if limit < t then Inl (OtherError ''timeout while waiting for safe deployment'')
     else
       (case and_then (map_err ClientError item) convert of
          Inl e \<Rightarrow> Inl e
        | Inr s \<Rightarrow> if ok s then Inr s else first_satisfying ok convert limit rest closed))"

definition await_safe_deployment ::
  "('k, 'm, 'h, 'w, 'c, 't, 'md, 'f) parsers \<Rightarrow> (safe_selector \<Rightarrow> error_kind + safe_model list) \<Rightarrow>
    (error_kind + (duration \<times> (error_kind + safe_model)) list \<times> duration option) \<Rightarrow>
    (safe_selector \<Rightarrow> deployed_safe \<Rightarrow> bool) \<Rightarrow> safe_selector \<Rightarrow> duration \<Rightarrow> connector_error + deployed_safe"
where
  "await_safe_deployment P query_safe subscribed fits sel timeout =
    and_then (safe_info P query_safe sel) (\<lambda>found.
      case found of
        Some s \<Rightarrow> Inr s
      | None \<Rightarrow>
          and_then (map_err ClientError subscribed) (\<lambda>(items, closed).
            first_satisfying (fits sel) (model_to_deployed_safe P) (max timeout (from_secs 1)) items closed))"

section \<open>Waiting for a deployment\<close>

text \<open>An item that does not end the waiting: in time, well formed, and not the one looked for.\<close>

definition passed_over ::
  "(deployed_safe \<Rightarrow> bool) \<Rightarrow> (safe_model \<Rightarrow> connector_error + deployed_safe) \<Rightarrow> duration \<Rightarrow>
    duration \<times> (error_kind + safe_model) \<Rightarrow> bool"
where
  "passed_over ok convert limit x \<longleftrightarrow> fst x \<le> limit \<and>
    (\<exists>m s. snd x = Inr m \<and> convert m = Inr s \<and> \<not> ok s)"

lemma first_satisfying_iff:
  "first_satisfying ok convert limit items closed = Inr s \<longleftrightarrow>
    (\<exists>pre t m post. items = pre @ (t, Inr m) # post \<and> list_all (passed_over ok convert limit) pre \<and>
      t \<le> limit \<and> convert m = Inr s \<and> ok s)"
  (is "_ \<longleftrightarrow> ?found items")
proof (induction items)
  case Nil
  then show ?case by simp
next
  case (Cons x rest)
  obtain t item where x: "x = (t, item)" by fastforce
  have step: "?found (x # rest) \<longleftrightarrow>
      (t \<le> limit \<and> (\<exists>m. item = Inr m \<and> convert m = Inr s) \<and> ok s) \<or> (passed_over ok convert limit x \<and> ?found rest)"
    (is "_ \<longleftrightarrow> ?now \<or> ?later")
  proof
    assume "?found (x # rest)"
    then obtain pre t' m post where p: "x # rest = pre @ (t', Inr m) # post"
      "list_all (passed_over ok convert limit) pre" "t' \<le> limit" "convert m = Inr s" "ok s" by blast
    show "?now \<or> ?later"
    proof (cases pre)
      case Nil
      then show ?thesis using p x by auto
    next
      case (Cons y ys)
      then have "rest = ys @ (t', Inr m) # post" "passed_over ok convert limit x"
        "list_all (passed_over ok convert limit) ys" using p(1,2) by simp_all
      then show ?thesis using p(3-5) by blast
    qed
  next
    assume "?now \<or> ?later"
    then show "?found (x # rest)"
    proof
      assume ?now
      then show ?thesis using x by (intro exI [of _ "[]"]) auto
    next
      assume ?later
      then obtain pre t' m post where "rest = pre @ (t', Inr m) # post" "passed_over ok convert limit x"
        "list_all (passed_over ok convert limit) pre" "t' \<le> limit" "convert m = Inr s" "ok s" by blast
      then show ?thesis by (intro exI [of _ "x # pre"]) auto
    qed
  qed
  define later where "later \<longleftrightarrow> ?found rest"
  have "first_satisfying ok convert limit rest closed = Inr s \<longleftrightarrow> later" using Cons.IH by (simp add: later_def)
  then have "first_satisfying ok convert limit (x # rest) closed = Inr s \<longleftrightarrow>
      (t \<le> limit \<and> (\<exists>m. item = Inr m \<and> convert m = Inr s) \<and> ok s) \<or> (passed_over ok convert limit x \<and> later)"
    unfolding x
    by (cases item; cases "t \<le> limit"; cases "convert (projr item)")
      (auto simp: and_then_def map_err_def passed_over_def)
  with step show ?case unfolding later_def by simp
qed

text \<open>
  Waiting for a Safe that the fresh query does not know ends with a Safe exactly when the
  subscription shows, within the timeout (at least a second), a deployment that satisfies the
  selector after nothing but well-formed deployments that do not, and then with that one.
\<close>

theorem awaited_deployment_exact:
  assumes "query_safe sel = Inr []"
  shows "await_safe_deployment P query_safe (Inr (items, closed)) fits sel timeout = Inr s \<longleftrightarrow>
    (\<exists>pre t m post. items = pre @ (t, Inr m) # post \<and>
      list_all (passed_over (fits sel) (model_to_deployed_safe P) (max timeout (from_secs 1))) pre \<and>
      t \<le> max timeout (from_secs 1) \<and> model_to_deployed_safe P m = Inr s \<and> fits sel s)"
  using assms
  by (simp add: await_safe_deployment_def safe_info_def and_then_def map_err_def first_satisfying_iff)

definition sample_safe :: "string \<Rightarrow> safe_model" where
  "sample_safe d = \<lparr>m_safe = d, m_owners = [], m_module = ''m'', m_nodes = [], m_deployer = ''d''\<rparr>"

theorem awaited_deployment_exact_witness:
  "await_safe_deployment sample_parsers (\<lambda>_. Inr []) (Inr ([(5, Inr (sample_safe ''a'')), (9, Inr (sample_safe ''bb''))], None))
      (\<lambda>sel s. sel = ByAddress (ds_address s)) (ByAddress 2) 0 =
    Inr \<lparr>ds_address = 2, ds_owners = [], ds_module = 1, ds_nodes = [], ds_deployer = 1\<rparr>"
proof -
  let ?fits = "\<lambda>sel s. sel = ByAddress (ds_address s)"
  have conv: "model_to_deployed_safe sample_parsers (sample_safe d) =
      Inr \<lparr>ds_address = length d, ds_owners = [], ds_module = 1, ds_nodes = [], ds_deployer = 1\<rparr>" for d
    by (simp add: model_to_deployed_safe_def sample_safe_def sample_parsers_def and_then_def map_ok_def general_err_def
        map_err_def convert_err_def)
  have "list_all (passed_over (?fits (ByAddress 2)) (model_to_deployed_safe sample_parsers) (max 0 (from_secs 1)))
      [(5, Inr (sample_safe ''a''))]"
    by (simp add: passed_over_def conv from_secs_def)
  then have "\<exists>pre t m post. [(5, Inr (sample_safe ''a'')), (9, Inr (sample_safe ''bb''))] = pre @ (t, Inr m) # post \<and>
      list_all (passed_over (?fits (ByAddress 2)) (model_to_deployed_safe sample_parsers) (max 0 (from_secs 1))) pre \<and>
      t \<le> max 0 (from_secs 1) \<and>
      model_to_deployed_safe sample_parsers m = Inr \<lparr>ds_address = 2, ds_owners = [], ds_module = 1, ds_nodes = [], ds_deployer = 1\<rparr> \<and>
      ?fits (ByAddress 2) \<lparr>ds_address = 2, ds_owners = [], ds_module = 1, ds_nodes = [], ds_deployer = 1\<rparr>"
    by (intro exI [of _ "[(5, Inr (sample_safe ''a''))]"] exI [of _ 9] exI [of _ "sample_safe ''bb''"] exI [of _ "[]"])
      (simp add: conv from_secs_def)
  then show ?thesis by (rule iffD2 [OF awaited_deployment_exact, OF refl])
qed

end
