(* ===== verification/Rust_Float.thy ===== *)
theory Rust_Float
  imports Complex_Main Hopr_Base
begin

text \<open>
  The f64 arithmetic of the language, for the finite values below 2 ^ 1024 that occur: an f64 is
  the rational it stands for, and an operation is the exact one followed by the rounding of
  IEEE 754 to the nearest multiple of the unit in the last place, to the even one on a tie. The
  unit is 2 ^ k for the least k from -1074 with the value below 2 ^ (53 + k). Negative zero is 0.
\<close>

section \<open>Rounding\<close>

definition round_even :: "rat \<Rightarrow> int" where
  "round_even x =
    (let f = \<lfloor>x\<rfloor>; d = x - of_int f
     in if d < 1 / 2 then f else if 1 / 2 < d then f + 1 else if even f then f else f + 1)"

definition f64_exponents :: "int list" where "f64_exponents = [-1074..971]"

definition f64_limit :: rat where "f64_limit = 2 powi 1024"

definition f64_min_normal :: rat where "f64_min_normal = 2 powi -1022"

definition ulp_exponent :: "rat \<Rightarrow> int" where
  "ulp_exponent x =
    (case List.find (\<lambda>k. x < 2 powi (53 + k)) f64_exponents of Some k \<Rightarrow> k | None \<Rightarrow> 971)"

definition f64_pos :: "rat \<Rightarrow> rat" where
  "f64_pos x = of_int (round_even (x / 2 powi ulp_exponent x)) * 2 powi ulp_exponent x"

definition f64 :: "rat \<Rightarrow> rat" where
  "f64 x = (if x < 0 then - f64_pos (- x) else f64_pos x)"

definition f64_mult :: "rat \<Rightarrow> rat \<Rightarrow> rat" where "f64_mult x y = f64 (x * y)"

definition f64_div :: "rat \<Rightarrow> rat \<Rightarrow> rat" where "f64_div x y = f64 (x / y)"

text \<open>\<open>f64::round\<close> rounds halves away from zero; \<open>as u32\<close> saturates.\<close>

definition f64_round :: "rat \<Rightarrow> int" where
  "f64_round x = (if x < 0 then - \<lfloor>- x + 1 / 2\<rfloor> else \<lfloor>x + 1 / 2\<rfloor>)"

definition as_u32 :: "int \<Rightarrow> u32" where
  "as_u32 n = (if n < 0 then 0 else if 2 ^ 32 \<le> n then 2 ^ 32 - 1 else of_int n)"

section \<open>To the nearest integer\<close>

lemma round_even_floor: "\<lfloor>x\<rfloor> \<le> round_even x \<and> round_even x \<le> \<lfloor>x\<rfloor> + 1"
  by (simp add: round_even_def Let_def)

lemma round_even_int [simp]: "round_even (of_int n) = n"
  by (simp add: round_even_def Let_def)

lemma round_even_near: "\<bar>of_int (round_even x) - x\<bar> \<le> 1 / 2"
proof -
  have "of_int \<lfloor>x\<rfloor> \<le> x" and "x < of_int \<lfloor>x\<rfloor> + 1" by linarith+
  then show ?thesis by (auto simp: round_even_def Let_def abs_le_iff field_simps)
qed

lemma round_even_mono: "x \<le> y \<Longrightarrow> round_even x \<le> round_even y"
proof (cases "\<lfloor>x\<rfloor> = \<lfloor>y\<rfloor>")
  case True
  assume "x \<le> y"
  then show ?thesis using True by (auto simp: round_even_def Let_def)
next
  case False
  assume "x \<le> y"
  then have "\<lfloor>x\<rfloor> + 1 \<le> \<lfloor>y\<rfloor>" using False floor_mono [of x y] by linarith
  then show ?thesis using round_even_floor [of x] round_even_floor [of y] by linarith
qed

lemma round_even_nonneg: "0 \<le> x \<Longrightarrow> 0 \<le> round_even x"
  using round_even_mono [of 0 x] round_even_int [of 0] by simp

section \<open>The unit in the last place\<close>

lemma find_interval:
  "List.find P [i..j] = Some k \<Longrightarrow> i \<le> k \<and> k \<le> j \<and> P k \<and> (\<forall>l. i \<le> l \<and> l < k \<longrightarrow> \<not> P l)"
proof (induction "nat (j + 1 - i)" arbitrary: i)
  case 0
  then have "[i..j] = []" by simp
  then show ?case using 0 by simp
next
  case (Suc n)
  then have ij: "[i..j] = i # [i + 1..j]" by (intro upto_rec1) simp
  show ?case
  proof (cases "P i")
    case True
    then have "k = i" and "i \<le> j" using Suc.prems ij Suc.hyps(2) by simp_all
    then show ?thesis using True by force
  next
    case False
    then have "List.find P [i + 1..j] = Some k" using Suc.prems ij by simp
    with Suc.hyps(1) [of "i + 1"] Suc.hyps(2) have *: "i + 1 \<le> k \<and> k \<le> j \<and> P k \<and> (\<forall>l. i + 1 \<le> l \<and> l < k \<longrightarrow> \<not> P l)" by simp
    have "\<not> P l" if "i \<le> l" "l < k" for l
      using * False that by (cases "l = i") auto
    then show ?thesis using * by auto
  qed
qed

lemma powi_less: "(i :: int) < j \<Longrightarrow> (2 :: rat) powi i < 2 powi j"
  by (simp add: power_int_strict_increasing)

lemma powi_le: "(i :: int) \<le> j \<Longrightarrow> (2 :: rat) powi i \<le> 2 powi j"
  by (simp add: power_int_increasing)

lemma powi_split: "(2 :: rat) powi (i + j) = 2 powi i * 2 powi j"
  by (simp add: power_int_add)

lemma ulp_exponent_spec:
  assumes "x < f64_limit"
  shows "x < 2 powi (53 + ulp_exponent x) \<and> -1074 \<le> ulp_exponent x \<and>
    (ulp_exponent x = -1074 \<or> 2 powi (52 + ulp_exponent x) \<le> x)"
proof -
  let ?P = "\<lambda>k. x < (2 :: rat) powi (53 + k)"
  have "List.find ?P f64_exponents \<noteq> None"
  proof
    assume "List.find ?P f64_exponents = None"
    moreover have "971 \<in> set f64_exponents" unfolding f64_exponents_def set_upto by simp
    moreover have "?P 971" using assms unfolding f64_limit_def by (simp only: add_num_simps numeral_plus_numeral)
    ultimately show False unfolding find_None_iff by blast
  qed
  then obtain k where k: "List.find ?P f64_exponents = Some k" by blast
  from find_interval [OF this [unfolded f64_exponents_def]] have *: "-1074 \<le> k" "?P k" "\<forall>l. -1074 \<le> l \<and> l < k \<longrightarrow> \<not> ?P l" by blast+
  have "k = -1074 \<or> 2 powi (52 + k) \<le> x"
  proof (rule disjCI)
    assume "\<not> 2 powi (52 + k) \<le> x"
    then have "?P (k - 1)" by (simp add: algebra_simps)
    then show "k = -1074" using spec [OF *(3), of "k - 1"] *(1) by linarith
  qed
  then show ?thesis using k * by (simp add: ulp_exponent_def)
qed

lemma ulp_exponent_mono:
  assumes "x \<le> y" and "y < f64_limit"
  shows "ulp_exponent x \<le> ulp_exponent y"
proof (rule ccontr)
  assume "\<not> ulp_exponent x \<le> ulp_exponent y"
  then have less: "53 + ulp_exponent y \<le> 52 + ulp_exponent x" and "ulp_exponent x \<noteq> -1074"
    using ulp_exponent_spec [OF assms(2)] by auto
  then have "2 powi (52 + ulp_exponent x) \<le> x" using ulp_exponent_spec [of x] assms by force
  then have "2 powi (53 + ulp_exponent y) \<le> y" using powi_le [OF less] assms(1) by linarith
  then show False using ulp_exponent_spec [OF assms(2)] by linarith
qed

section \<open>Rounding to an f64\<close>

lemma f64_pos_upper:
  assumes "0 \<le> x" and "x < f64_limit"
  shows "f64_pos x \<le> 2 powi (53 + ulp_exponent x)"
proof -
  let ?u = "(2 :: rat) powi ulp_exponent x"
  have u: "0 < ?u" by simp
  have "x < 2 powi 53 * ?u" using ulp_exponent_spec [OF assms(2)] by (simp add: powi_split)
  then have "x / ?u \<le> of_int (2 ^ 53)" using u by (simp add: divide_le_eq)
  then have "round_even (x / ?u) \<le> 2 ^ 53" using round_even_mono [of "x / ?u" "of_int (2 ^ 53)"] by (simp only: round_even_int)
  then have "of_int (round_even (x / ?u)) \<le> (of_int (2 ^ 53) :: rat)" by (simp only: of_int_le_iff)
  then have "f64_pos x \<le> of_int (2 ^ 53) * ?u" using u by (simp add: f64_pos_def)
  then show ?thesis by (simp add: powi_split)
qed

lemma f64_pos_lower:
  assumes "x < f64_limit" and "ulp_exponent x \<noteq> -1074"
  shows "2 powi (52 + ulp_exponent x) \<le> f64_pos x"
proof -
  let ?u = "(2 :: rat) powi ulp_exponent x"
  have u: "0 < ?u" by simp
  have "2 powi 52 * ?u \<le> x" using ulp_exponent_spec [OF assms(1)] assms(2) by (simp add: powi_split)
  then have "of_int (2 ^ 52) \<le> x / ?u" using u by (simp add: le_divide_eq)
  then have "2 ^ 52 \<le> round_even (x / ?u)" using round_even_mono [of "of_int (2 ^ 52)" "x / ?u"] by (simp only: round_even_int)
  then have "(of_int (2 ^ 52) :: rat) \<le> of_int (round_even (x / ?u))" by (simp only: of_int_le_iff)
  then have "of_int (2 ^ 52) * ?u \<le> f64_pos x" using u by (simp add: f64_pos_def)
  then show ?thesis by (simp add: powi_split)
qed

lemma f64_pos_nonneg: "0 \<le> x \<Longrightarrow> 0 \<le> f64_pos x"
  using round_even_nonneg [of "x / 2 powi ulp_exponent x"] by (simp add: f64_pos_def)

lemma f64_pos_mono:
  assumes "0 \<le> x" and "x \<le> y" and "y < f64_limit"
  shows "f64_pos x \<le> f64_pos y"
proof (cases "ulp_exponent x = ulp_exponent y")
  case True
  have "x / 2 powi ulp_exponent y \<le> y / 2 powi ulp_exponent y" using assms(2) by (simp add: divide_right_mono)
  then show ?thesis using True round_even_mono by (simp add: f64_pos_def)
next
  case False
  with ulp_exponent_mono [OF assms(2,3)] have less: "53 + ulp_exponent x \<le> 52 + ulp_exponent y" by simp
  then have "ulp_exponent y \<noteq> -1074" using ulp_exponent_spec [of x] assms by auto
  with f64_pos_lower [OF assms(3)] f64_pos_upper [OF assms(1)] powi_le [OF less] assms show ?thesis by force
qed

lemma f64_pos_int:
  assumes "n < 2 ^ 53"
  shows "f64_pos (of_nat n) = of_nat n"
proof -
  have n: "of_nat n < (2 :: rat) ^ 53" using assms by (metis of_nat_less_iff of_nat_numeral of_nat_power)
  have "(2 :: rat) ^ 53 = 2 powi 53" by simp
  also have "(2 :: rat) powi 53 < f64_limit" unfolding f64_limit_def by (rule powi_less) simp
  finally have top: "of_nat n < f64_limit" using n by linarith
  have "ulp_exponent (of_nat n) \<le> 0"
  proof (rule ccontr)
    assume "\<not> ?thesis"
    then have "2 powi (52 + ulp_exponent (of_nat n)) \<le> (of_nat n :: rat)" and "53 \<le> 52 + ulp_exponent (of_nat n)"
      using ulp_exponent_spec [OF top] by auto
    then have "2 powi 53 \<le> (of_nat n :: rat)" using powi_le by (blast intro: order_trans)
    then show False using n by simp
  qed
  then obtain j where j: "ulp_exponent (of_nat n) = - int j" by (metis nonneg_int_cases neg_0_le_iff_le minus_minus)
  have "of_nat n / (2 :: rat) powi - int j = of_int (int n * 2 ^ j)"
    by (simp add: power_int_minus power_int_of_nat field_simps)
  then have "round_even (of_nat n / 2 powi ulp_exponent (of_nat n)) = int n * 2 ^ j"
    unfolding j by (simp only: round_even_int)
  then show ?thesis by (simp add: f64_pos_def j power_int_minus power_int_of_nat)
qed

lemma f64_pos_near:
  assumes "f64_min_normal \<le> x" and "x < f64_limit"
  shows "\<bar>f64_pos x - x\<bar> \<le> x / 2 ^ 53"
proof -
  let ?u = "(2 :: rat) powi ulp_exponent x"
  have u: "0 < ?u" by simp
  have "f64_pos x - x = (of_int (round_even (x / ?u)) - x / ?u) * ?u"
    by (simp add: f64_pos_def field_simps)
  then have "\<bar>f64_pos x - x\<bar> = \<bar>of_int (round_even (x / ?u)) - x / ?u\<bar> * ?u"
    by (simp add: abs_mult)
  also have "\<dots> \<le> 1 / 2 * ?u" using round_even_near u by (intro mult_right_mono) auto
  finally have "\<bar>f64_pos x - x\<bar> \<le> 1 / 2 * ?u" .
  moreover have "2 ^ 52 * ?u \<le> x"
  proof (cases "ulp_exponent x = -1074")
    case True
    have "2 ^ 52 * ?u = 2 powi (52 + ulp_exponent x)" by (simp add: powi_split)
    moreover have "(52 :: int) + -1074 = -1022" by simp
    ultimately show ?thesis using True assms(1) unfolding f64_min_normal_def by simp
  next
    case False
    then show ?thesis using ulp_exponent_spec [OF assms(2)] by (simp add: powi_split)
  qed
  ultimately show ?thesis by (simp add: field_simps)
qed

section \<open>Values of ordinary size\<close>

lemma below_f64_limit: "x < 2 ^ 53 \<Longrightarrow> x < f64_limit"
proof -
  have "(2 :: rat) powi 53 < f64_limit" unfolding f64_limit_def by (rule powi_less) simp
  then show "x < 2 ^ 53 \<Longrightarrow> x < f64_limit" by simp
qed

lemma above_f64_min: "1 / 2 ^ 53 \<le> x \<Longrightarrow> f64_min_normal \<le> x"
proof -
  have "f64_min_normal \<le> 2 powi -53" unfolding f64_min_normal_def by (rule powi_le) simp
  also have "(2 :: rat) powi -53 = 1 / 2 ^ 53" by (simp add: power_int_minus)
  finally show "1 / 2 ^ 53 \<le> x \<Longrightarrow> f64_min_normal \<le> x" by (rule order_trans)
qed

text \<open>One rounding: the relative error of a value between 2 ^ -53 and 2 ^ 53.\<close>

lemma f64_pos_rounded: "1 / 2 ^ 53 \<le> x \<Longrightarrow> x < 2 ^ 53 \<Longrightarrow> \<bar>f64_pos x - x\<bar> \<le> x / 2 ^ 53"
  by (rule f64_pos_near [OF above_f64_min below_f64_limit])

lemma f64_pos_le_int:
  assumes "0 \<le> x" and "x \<le> of_nat n" and "n < 2 ^ 53"
  shows "f64_pos x \<le> of_nat n"
proof -
  have "of_nat n < (2 :: rat) ^ 53" using assms(3) by (metis of_nat_less_iff of_nat_numeral of_nat_power)
  then show ?thesis using f64_pos_mono [OF assms(1,2) below_f64_limit] f64_pos_int [OF assms(3)] by simp
qed

end
