(* ===== verification/Connector_Start.thy ===== *)
theory Connector_Start
  imports Rust_Float Chain_Health Nonce_Sequencer Blockchain_Reader
begin

text \<open>
  How the chain connector comes up: its configuration and construction, and \<open>connect\<close>
  (\<open>connector/src/connector/mod.rs\<close>), and the ready-made connectors of \<open>connector/src/lib.rs\<close>.
  \<open>connect\<close> is here the sequential run that it makes of the answers of the client, with the
  synchronisation of \<open>Chain_Health\<close> run over the items that the feeds deliver and the times at
  which the task takes them; the interleaving with other tasks is the step relation of
  \<open>Chain_Health\<close>, of which this run is shown to be one.
\<close>

section \<open>Configuration\<close>

record connector_config =
  connection_sync_timeout :: duration
  sync_tolerance :: nat
  tx_timeout_multiplier :: u32
  nonce_gap_tolerance :: duration

definition min_connection_timeout :: duration where "min_connection_timeout = 100000000"

definition registry_read_budget_divisor :: nat where "registry_read_budget_divisor = 4"

definition default_sync_tolerance_pct :: nat where "default_sync_tolerance_pct = 90"

definition default_tx_timeout_multiplier :: u32 where "default_tx_timeout_multiplier = 2"

definition connector_config_default :: connector_config where
  "connector_config_default =
    \<lparr>connection_sync_timeout = from_secs 30, sync_tolerance = default_sync_tolerance_pct,
     tx_timeout_multiplier = default_tx_timeout_multiplier, nonce_gap_tolerance = from_secs (5 * 60)\<rparr>"

section \<open>Thresholds\<close>

definition clamped_tolerance :: "nat \<Rightarrow> nat" where
  "clamped_tolerance pct = max 1 (min pct 100)"

definition sync_quota :: "nat \<Rightarrow> rat" where
  "sync_quota pct = f64_div (f64 (of_nat (clamped_tolerance pct))) 100"

definition sync_threshold :: "nat \<Rightarrow> int \<Rightarrow> u32" where
  "sync_threshold pct reported = as_u32 (f64_round (f64_mult (f64 (of_int reported)) (sync_quota pct)))"

section \<open>What connect meets\<close>

text \<open>
  The items that the task takes from its merged feeds: an event, a health check, or the error of
  a feed; each with the time since the subscriptions were made.
\<close>

datatype feed_item = Delivered sync_event | HealthTick | FeedError connector_error

datatype subscription =
    AccountsFeed | GraphFeed | TicketParamsFeed | ServicesFeed | ServiceTypesFeed | RegistryConfigFeed

text \<open>
  The answers of the client, in the order they are asked for: the two counts, the health, the
  chain information, the registry (with the time the reading takes), the subscriptions, and what
  they deliver until they all have ended (\<open>closed\<close>).
\<close>

record ('h, 'w, 'c, 't, 'md) connect_replies =
  reported_accounts :: "error_kind + u32"
  reported_channels :: "error_kind + int"
  server_health :: "error_kind + string"
  reported_info :: "connector_error + ('h, 'w, 'c) parsed_chain_info"
  registry_time :: duration
  registry_answer :: "connector_error + ('t, 'md) service_entry list \<times> 't set"
  subscribed :: "subscription \<Rightarrow> error_kind + unit"
  delivered :: "(duration \<times> feed_item) list"
  closed :: "duration option"

section \<open>Reading the registry\<close>

definition read_registry ::
  "nat \<Rightarrow> ('k, 'm, 'h, 'w, 'c, 't, 'md, 'f) parsers \<Rightarrow> (error_kind + service_type_model list) \<Rightarrow> 't registry_client \<Rightarrow>
    ('t service_selector \<Rightarrow> ('t, 'md) service_entry \<Rightarrow> bool \<Rightarrow> bool) \<Rightarrow>
    (service_entry_model \<Rightarrow> connector_error + ('t, 'md) service_entry) \<Rightarrow>
    connector_error + ('t, 'md) service_entry list \<times> 't set"
where
  "read_registry sz P all_types cl matches convert =
    and_then (map_err ClientError all_types) (\<lambda>infos.
      map_ok (\<lambda>entries.
          (entries, set (List.map_filter (\<lambda>i. res_ok (model_to_service_type sz P (m_st_type i))) infos)))
        (query_service_entries cl matches convert \<lparr>sel_type = None, sel_node = None, live_only = False\<rparr>))"

text \<open>The answer, unless it takes longer than the budget; and the time after which the task goes on.\<close>

definition registry_within ::
  "duration \<Rightarrow> ('h, 'w, 'c, 't, 'md) connect_replies \<Rightarrow>
    (connector_error + ('t, 'md) service_entry list \<times> 't set) option"
where
  "registry_within budget r = (if registry_time r \<le> budget then Some (registry_answer r) else None)"

definition registry_delay :: "duration \<Rightarrow> ('h, 'w, 'c, 't, 'md) connect_replies \<Rightarrow> duration" where
  "registry_delay budget r = min (registry_time r) budget"

definition registry_read_budget :: "duration \<Rightarrow> duration" where
  "registry_read_budget timeout = timeout div registry_read_budget_divisor"

section \<open>The subscription task until it is ready\<close>

definition subscribe_all :: "(subscription \<Rightarrow> error_kind + unit) \<Rightarrow> error_kind + unit" where
  "subscribe_all f =
    map_ok (\<lambda>_. ()) (try_collect f
      [AccountsFeed, GraphFeed, TicketParamsFeed, ServicesFeed, ServiceTypesFeed, RegistryConfigFeed])"

text \<open>
  What arrives at the waiting side by \<open>limit\<close>. A division by zero unwinds the task, and the end
  of the feeds finishes it, which both drop the sending end.
\<close>

fun await_ready ::
  "u32 \<Rightarrow> u32 \<Rightarrow> duration \<Rightarrow> (duration \<times> feed_item) list \<Rightarrow> duration option \<Rightarrow> sync_progress \<Rightarrow> ready_signal"
where
  "await_ready ma mc limit [] ended p =
    (case ended of Some t \<Rightarrow> if t \<le> limit then SignalDropped else SignalTimeout | None \<Rightarrow> SignalTimeout)"
| "await_ready ma mc limit ((t, item) # rest) ended p =
    (if limit < t then SignalTimeout
     else
       (case item of
          Delivered ev \<Rightarrow>
            (case sync_step ma mc ev p of
               None \<Rightarrow> SignalDropped
             | Some p' \<Rightarrow> if ready_sent p' then Signalled (Inr ()) else await_ready ma mc limit rest ended p')
        | _ \<Rightarrow> await_ready ma mc limit rest ended p))"

definition task_signal ::
  "u32 \<Rightarrow> u32 \<Rightarrow> duration \<Rightarrow> ('h, 'w, 'c, 't, 'md) connect_replies \<Rightarrow> ready_signal"
where
  "task_signal ma mc timeout r =
    (let limit = timeout - registry_delay (registry_read_budget timeout) r
     in (case subscribe_all (subscribed r) of
           Inl e \<Rightarrow> Signalled (Inl e)
         | Inr _ \<Rightarrow>
             if ready_sent (sync_start ma mc) then Signalled (Inr ())
             else await_ready ma mc limit (delivered r) (closed r) (sync_start ma mc)))"

text \<open>The replayed registrations that the task suppresses.\<close>

definition task_replayed ::
  "duration \<Rightarrow> ('h, 'w, 'c, 't, 'md) connect_replies \<Rightarrow> ('t, 'md) replayed_services \<times> 't set"
where
  "task_replayed timeout r = read_replayed_registry (registry_within (registry_read_budget timeout) r)"

section \<open>Connecting\<close>

definition sync_thresholds ::
  "connector_config \<Rightarrow> ('h, 'w, 'c, 't, 'md) connect_replies \<Rightarrow> connector_error + u32 \<times> u32"
where
  "sync_thresholds cfg r =
    and_then (map_err ClientError (reported_accounts r)) (\<lambda>accounts.
    and_then (map_err ClientError (reported_channels r)) (\<lambda>channels.
      Inr (sync_threshold (sync_tolerance cfg) (uint accounts), sync_threshold (sync_tolerance cfg) channels)))"

definition check_server ::
  "('h, 'w, 'c, 't, 'md) connect_replies \<Rightarrow> connector_error + unit"
where
  "check_server r =
    and_then (map_err ClientError (server_health r)) (\<lambda>h.
      if eq_ignore_case h ''OK'' then Inr () else Inl ServerNotHealthy)"

text \<open>The result is the number of the task, which stands for its abort handle.\<close>

definition do_connect ::
  "connector_config \<Rightarrow> duration \<Rightarrow> ('h, 'w, 'c, 't, 'md) connect_replies \<Rightarrow>
    connector \<times> ('h, 'w, 'c) ticket_state \<Rightarrow>
    (connector_error + nat) \<times> connector \<times> ('h, 'w, 'c) ticket_state"
where
  "do_connect cfg timeout r = (\<lambda>(c, tv).
    (case and_then (sync_thresholds cfg r) (\<lambda>ths. map_ok (\<lambda>_. ths) (check_server r)) of
       Inl e \<Rightarrow> (Inl e, c, tv)
     | Inr (ma, mc) \<Rightarrow>
         (case query_cached_chain_info (reported_info r) tv of
            (Inl e, tv1) \<Rightarrow> (Inl e, c, tv1)
          | (Inr ci, tv1) \<Rightarrow>
              (let tv2 = tv1\<lparr>ticket_values := Some (ci_win_prob ci, ci_ticket_price ci)\<rparr>;
                   k = length (tasks c);
                   c1 = c\<lparr>tasks := tasks c @ [Streaming]\<rparr>
               in (case connect_outcome (task_signal ma mc timeout r) of
                     Inr _ \<Rightarrow> (Inr k, c1, tv2)
                   | Inl e \<Rightarrow> (Inl e, c1\<lparr>aborted := insert k (aborted c1)\<rparr>, tv2))))))"

definition connect ::
  "connector_config \<Rightarrow> ('h, 'w, 'c, 't, 'md) connect_replies \<Rightarrow> connector \<times> ('h, 'w, 'c) ticket_state \<Rightarrow>
    (connector_error + unit) \<times> connector \<times> ('h, 'w, 'c) ticket_state"
where
  "connect cfg r = (\<lambda>(c, tv).
    if connector_is_connected c then (Inl (InvalidState ''connector is already connected''), c, tv)
    else
      (case do_connect cfg (max (connection_sync_timeout cfg) min_connection_timeout) r (c\<lparr>health := Connecting\<rparr>, tv) of
         (Inr k, c1, tv1) \<Rightarrow>
           (Inr (), c1\<lparr>handle := Some k, health := (if health c1 = Connecting then Ready else health c1)\<rparr>, tv1)
       | (Inl e, c1, tv1) \<Rightarrow> (Inl e, c1\<lparr>health := health_after_failure e\<rparr>, tv1)))"

section \<open>The client of Blokli\<close>

definition default_request_timeout :: duration where "default_request_timeout = from_secs 3"

record ('url, 'ip) client_config =
  blokli_url :: 'url
  dns_override :: "('ip \<times> u16 option) option"
  request_timeout :: duration

definition client_config_new :: "'url \<Rightarrow> ('url, 'ip) client_config" where
  "client_config_new url = \<lparr>blokli_url = url, dns_override = None, request_timeout = default_request_timeout\<rparr>"

definition with_request_timeout :: "duration \<Rightarrow> ('url, 'ip) client_config \<Rightarrow> ('url, 'ip) client_config" where
  "with_request_timeout d cfg = cfg\<lparr>request_timeout := d\<rparr>"

text \<open>The configuration of the client library, of which the connector sets three fields.\<close>

record ('ip, 'o) blokli_settings =
  bs_timeout :: duration
  bs_reconnect :: duration
  bs_dns_override :: "('ip \<times> u16 option) option"
  bs_other :: 'o

definition create_blokli_client ::
  "('url \<Rightarrow> ('ip, 'o) blokli_settings \<Rightarrow> 'cl) \<Rightarrow> 'o \<Rightarrow> ('url, 'ip) client_config \<Rightarrow> 'cl"
where
  "create_blokli_client client_new other cfg =
    client_new (blokli_url cfg)
      \<lparr>bs_timeout = request_timeout cfg, bs_reconnect = from_secs 30,
       bs_dns_override = map_option (\<lambda>(ip, port). (ip, port)) (dns_override cfg), bs_other = other\<rparr>"

section \<open>Construction\<close>

text \<open>The parts of a connector; its caches and graph are in the index, its health in \<open>hc_link\<close>.\<close>

record ('key, 'cl, 'p, 'k, 'm, 's, 'h, 'w, 'c) hopr_connector =
  hc_payloads :: 'p
  hc_chain_key :: 'key
  hc_client :: 'cl
  hc_cfg :: connector_config
  hc_link :: connector
  hc_index :: "('k, 'm, 's) chain_index"
  hc_sequencer :: sequencer
  hc_gap_tolerance :: duration
  hc_event_capacity :: nat
  hc_tickets :: "('h, 'w, 'c) ticket_state"

definition hopr_connector_new ::
  "'key \<Rightarrow> connector_config \<Rightarrow> 'cl \<Rightarrow> 's \<Rightarrow> 'p \<Rightarrow> ('key, 'cl, 'p, 'k, 'm, 's, 'h, 'w, 'c) hopr_connector"
where
  "hopr_connector_new key cfg cl backend payloads =
    \<lparr>hc_payloads = payloads, hc_chain_key = key, hc_client = cl, hc_cfg = cfg, hc_link = connector_new,
     hc_index = index_new backend, hc_sequencer = sequencer_new, hc_gap_tolerance = nonce_gap_tolerance cfg,
     hc_event_capacity = 1024, hc_tickets = \<lparr>ticket_values = None, chain_values = None\<rparr>\<rparr>"

text \<open>
  \<open>invalidate_caches\<close> of the whole connector also forgets the chain information, but not the
  ticket values handed to the packet pipeline.
\<close>

definition invalidate_all_caches ::
  "('key, 'cl, 'p, 'k, 'm, 's, 'h, 'w, 'c) hopr_connector \<Rightarrow> ('key, 'cl, 'p, 'k, 'm, 's, 'h, 'w, 'c) hopr_connector"
where
  "invalidate_all_caches hc =
    hc\<lparr>hc_index := invalidate_caches (hc_index hc), hc_tickets := (hc_tickets hc)\<lparr>chain_values := None\<rparr>\<rparr>"

text \<open>
  The payload generators, and the creation of a temporary database, are parameters; the latter
  may fail with the text of an error.
\<close>

record ('key, 'c, 'p, 'q) generators =
  safe_generator :: "'key \<Rightarrow> 'c \<Rightarrow> address \<Rightarrow> 'p"
  basic_generator :: "address \<Rightarrow> 'c \<Rightarrow> 'q"
  address_of_key :: "'key \<Rightarrow> address"

definition create_trustless_connector ::
  "('key, 'c, 'p, 'q) generators \<Rightarrow> string + 's \<Rightarrow> 'key \<Rightarrow> connector_config \<Rightarrow> 'cl \<Rightarrow> address \<Rightarrow> 'c \<Rightarrow>
    connector_error + ('key, 'cl, 'p, 'k, 'm, 's, 'h, 'w, 'c) hopr_connector"
where
  "create_trustless_connector G db key cfg cl module_address contracts =
    map_ok (\<lambda>b. hopr_connector_new key cfg cl b (safe_generator G key contracts module_address))
      (map_err BackendError db)"

definition create_trustless_safeless_connector ::
  "('key, 'c, 'p, 'q) generators \<Rightarrow> string + 's \<Rightarrow> 'key \<Rightarrow> connector_config \<Rightarrow> 'cl \<Rightarrow> 'c \<Rightarrow>
    connector_error + ('key, 'cl, 'q, 'k, 'm, 's, 'h, 'w, 'c) hopr_connector"
where
  "create_trustless_safeless_connector G db key cfg cl contracts =
    map_ok (\<lambda>b. hopr_connector_new key cfg cl b (basic_generator G (address_of_key G key) contracts))
      (map_err BackendError db)"

text \<open>The contract addresses as the client reports them; \<open>show_error\<close> is the text of an error.\<close>

definition reported_contracts ::
  "(connector_error \<Rightarrow> string) \<Rightarrow> ('k, 'm, 'h, 'w, 'c, 't, 'md, 'f) parsers \<Rightarrow> (error_kind + 'f chain_info_model) \<Rightarrow>
    connector_error + 'c"
where
  "reported_contracts show_error P info =
    and_then (map_err ClientError info) (\<lambda>m.
      map_err (\<lambda>e. TypeConversion (''contract addresses not a valid JSON: '' @ show_error e))
        (parse_contract_addresses P (m_contracts m)))"

definition create_trustful_connector ::
  "(connector_error \<Rightarrow> string) \<Rightarrow> ('k, 'm, 'h, 'w, 'c, 't, 'md, 'f) parsers \<Rightarrow> (error_kind + 'f chain_info_model) \<Rightarrow>
    ('key, 'c, 'p, 'q) generators \<Rightarrow> string + 's \<Rightarrow> 'key \<Rightarrow> connector_config \<Rightarrow> 'cl \<Rightarrow> address \<Rightarrow>
    connector_error + ('key, 'cl, 'p, 'k, 'm, 's, 'h, 'w, 'c) hopr_connector"
where
  "create_trustful_connector show_error P info G db key cfg cl module_address =
    and_then (reported_contracts show_error P info) (\<lambda>contracts.
      let payloads = safe_generator G key contracts module_address
      in map_ok (\<lambda>b. hopr_connector_new key cfg cl b payloads) (map_err BackendError db))"

definition create_trustful_safeless_connector ::
  "(connector_error \<Rightarrow> string) \<Rightarrow> ('k, 'm, 'h, 'w, 'c, 't, 'md, 'f) parsers \<Rightarrow> (error_kind + 'f chain_info_model) \<Rightarrow>
    ('key, 'c, 'p, 'q) generators \<Rightarrow> string + 's \<Rightarrow> 'key \<Rightarrow> connector_config \<Rightarrow> 'cl \<Rightarrow>
    connector_error + ('key, 'cl, 'q, 'k, 'm, 's, 'h, 'w, 'c) hopr_connector"
where
  "create_trustful_safeless_connector show_error P info G db key cfg cl =
    and_then (reported_contracts show_error P info) (\<lambda>contracts.
      let payloads = basic_generator G (address_of_key G key) contracts
      in map_ok (\<lambda>b. hopr_connector_new key cfg cl b payloads) (map_err BackendError db))"

section \<open>Lemmas on the thresholds\<close>

lemma f64_nonneg_eq: "0 \<le> x \<Longrightarrow> f64 x = f64_pos x"
  by (simp add: f64_def)

lemma clamped_tolerance_range: "1 \<le> clamped_tolerance pct \<and> clamped_tolerance pct \<le> 100"
  by (simp add: clamped_tolerance_def)

text \<open>The quota as an f64: at most 1, and within 2 ^ -53 of the percentage.\<close>

lemma sync_quota_facts:
  "0 < sync_quota pct \<and> sync_quota pct \<le> 1 \<and> 1 / 200 \<le> sync_quota pct \<and>
    \<bar>sync_quota pct - of_nat (clamped_tolerance pct) / 100\<bar> \<le> of_nat (clamped_tolerance pct) / 100 / 2 ^ 53"
proof -
  define s where "s = (of_nat (clamped_tolerance pct) :: rat)"
  have n: "1 \<le> clamped_tolerance pct" "clamped_tolerance pct \<le> 100" using clamped_tolerance_range by blast+
  then have s: "1 \<le> s" "s \<le> 100" by (simp_all add: s_def)
  have "f64 s = s" using n f64_pos_int [of "clamped_tolerance pct"] by (simp add: s_def f64_nonneg_eq)
  then have q: "sync_quota pct = f64_pos (s / 100)"
    using s(1) by (simp add: sync_quota_def f64_div_def f64_nonneg_eq flip: s_def)
  have up: "sync_quota pct \<le> 1" using f64_pos_le_int [of "s / 100" 1] s q by simp
  have near: "\<bar>sync_quota pct - s / 100\<bar> \<le> s / 100 / 2 ^ 53"
    unfolding q using s by (intro f64_pos_rounded) (simp_all add: field_simps)
  then have "s / 100 - s / 100 / 2 ^ 53 \<le> sync_quota pct" using abs_le_D2 [OF near] by linarith
  moreover have "1 / 200 \<le> s / 100 - s / 100 / 2 ^ 53" using s by (simp add: field_simps)
  ultimately show ?thesis using up near by (simp add: s_def)
qed

lemma quota_product:
  assumes "n < 2 ^ 32"
  shows "0 \<le> f64_pos (of_nat n * sync_quota pct) \<and> f64_pos (of_nat n * sync_quota pct) \<le> of_nat n \<and>
    \<bar>f64_pos (of_nat n * sync_quota pct) - of_nat n * sync_quota pct\<bar> \<le> of_nat n * sync_quota pct / 2 ^ 53"
proof -
  let ?q = "sync_quota pct" and ?x = "of_nat n * sync_quota pct"
  have q: "0 < ?q" "?q \<le> 1" "1 / 200 \<le> ?q" using sync_quota_facts [of pct] by blast+
  have n53: "n < 2 ^ 53" using assms by simp
  have x: "0 \<le> ?x" "?x \<le> of_nat n" using q by (simp_all add: mult_left_le)
  have up: "f64_pos ?x \<le> of_nat n" using x n53 by (rule f64_pos_le_int)
  have low: "0 \<le> f64_pos ?x" using x(1) by (rule f64_pos_nonneg)
  have near: "\<bar>f64_pos ?x - ?x\<bar> \<le> ?x / 2 ^ 53"
  proof (cases "n = 0")
    case True
    then show ?thesis using up low by simp
  next
    case False
    then have "1 \<le> (of_nat n :: rat)" by simp
    then have "1 / 200 \<le> ?x" using q(3) mult_mono [of 1 "of_nat n" "1 / 200" ?q] by simp
    moreover have "of_nat n < (2 :: rat) ^ 53" using n53 by (metis of_nat_less_iff of_nat_numeral of_nat_power)
    ultimately show ?thesis using x(2) by (intro f64_pos_rounded) simp_all
  qed
  show ?thesis using low up near by blast
qed

lemma sync_threshold_eq:
  assumes "n < 2 ^ 32"
  shows "int (unat (sync_threshold pct (int n))) = \<lfloor>f64_pos (of_nat n * sync_quota pct) + 1 / 2\<rfloor>"
proof -
  define y where "y = f64_pos (of_nat n * sync_quota pct)"
  have y: "0 \<le> y" "y \<le> of_nat n" using quota_product [OF assms, of pct] by (simp_all add: y_def)
  define r where "r = \<lfloor>y + 1 / 2\<rfloor>"
  have "y + 1 / 2 < of_int (int n + 1)" using y by simp
  then have r: "0 \<le> r" "r \<le> int n" using y by (simp_all add: r_def floor_le_iff)
  have "f64 (of_nat n) = of_nat n" using assms f64_pos_int [of n] by (simp add: f64_nonneg_eq)
  moreover have "0 \<le> of_nat n * sync_quota pct" using sync_quota_facts [of pct] by simp
  ultimately have "sync_threshold pct (int n) = as_u32 r"
    using y by (simp add: sync_threshold_def f64_mult_def f64_round_def f64_nonneg_eq r_def flip: y_def)
  also have "\<dots> = of_int r" using r assms by (simp add: as_u32_def)
  finally have "int (unat (sync_threshold pct (int n))) = r"
    using r assms by (simp add: unsigned_of_int take_bit_int_eq_self)
  then show ?thesis by (simp only: r_def y_def)
qed

lemma threshold_le_reported:
  assumes "n < 2 ^ 32"
  shows "unat (sync_threshold pct (int n)) \<le> n"
proof -
  have "f64_pos (of_nat n * sync_quota pct) + 1 / 2 < of_int (int n + 1)" using quota_product [OF assms, of pct] by simp
  then have "\<lfloor>f64_pos (of_nat n * sync_quota pct) + 1 / 2\<rfloor> < int n + 1" by (simp only: floor_less_iff)
  then show ?thesis using sync_threshold_eq [OF assms, of pct] by linarith
qed

section \<open>Lemmas on the synchronisation\<close>

text \<open>The events among the items.\<close>

definition events_of :: "(duration \<times> feed_item) list \<Rightarrow> sync_event list" where
  "events_of items = List.map_filter (\<lambda>(t, i). case i of Delivered ev \<Rightarrow> Some ev | _ \<Rightarrow> None) items"

lemma events_of_simps [simp]:
  "events_of [] = []"
  "events_of ((t, Delivered ev) # is) = ev # events_of is"
  "events_of ((t, HealthTick) # is) = events_of is"
  "events_of ((t, FeedError e) # is) = events_of is"
  by (simp_all add: events_of_def map_filter_simps)

lemma events_of_append: "events_of (xs @ ys) = events_of xs @ events_of ys"
  by (induction xs) (auto simp: events_of_def map_filter_simps split: feed_item.splits)

lemma events_of_length: "length (events_of items) \<le> length items"
  by (induction items) (auto simp: events_of_def map_filter_simps split: feed_item.splits)

text \<open>The completion is signalled in time exactly when a prefix taken in time reaches the thresholds.\<close>

definition reached_in_time :: "u32 \<Rightarrow> u32 \<Rightarrow> duration \<Rightarrow> sync_event list \<Rightarrow> (duration \<times> feed_item) list \<Rightarrow> bool" where
  "reached_in_time ma mc limit seen items \<longleftrightarrow>
    (\<exists>pre post. items = pre @ post \<and> fst ` set pre \<subseteq> {..limit} \<and> quota_reached ma mc (seen @ events_of pre))"

lemma reached_now: "quota_reached ma mc seen \<Longrightarrow> reached_in_time ma mc limit seen items"
  unfolding reached_in_time_def by (rule exI [of _ "[]"], rule exI [of _ items]) simp

lemma reached_in_time_Nil: "reached_in_time ma mc limit seen [] \<longleftrightarrow> quota_reached ma mc seen"
  by (auto simp: reached_in_time_def)

lemma reached_in_time_Cons:
  "reached_in_time ma mc limit seen ((t, i) # items) \<longleftrightarrow>
    quota_reached ma mc seen \<or> t \<le> limit \<and> reached_in_time ma mc limit (seen @ events_of [(t, i)]) items"
  (is "?l \<longleftrightarrow> ?r")
proof
  assume ?l
  then obtain pre post where *: "(t, i) # items = pre @ post" "fst ` set pre \<subseteq> {..limit}"
    "quota_reached ma mc (seen @ events_of pre)" by (auto simp: reached_in_time_def)
  show ?r
  proof (cases pre)
    case Nil
    then show ?thesis using * by simp
  next
    case (Cons x pre')
    then have "items = pre' @ post" "fst ` set pre' \<subseteq> {..limit}" "t \<le> limit"
      "quota_reached ma mc ((seen @ events_of [(t, i)]) @ events_of pre')"
      using * events_of_append [of "[(t, i)]" pre'] by auto
    then show ?thesis unfolding reached_in_time_def by blast
  qed
next
  assume ?r
  then show ?l
  proof
    assume "quota_reached ma mc seen"
    then show ?thesis by (rule reached_now)
  next
    assume "t \<le> limit \<and> reached_in_time ma mc limit (seen @ events_of [(t, i)]) items"
    then obtain pre post where "t \<le> limit" "items = pre @ post" "fst ` set pre \<subseteq> {..limit}"
      "quota_reached ma mc ((seen @ events_of [(t, i)]) @ events_of pre)" by (auto simp: reached_in_time_def)
    then show ?thesis unfolding reached_in_time_def
      using events_of_append [of "[(t, i)]" pre] by (intro exI [of _ "(t, i) # pre"] exI [of _ post]) auto
  qed
qed

lemma await_ready_exact:
  assumes "unat ma + unat mc < 2 ^ 32" and "length seen + length items < 2 ^ 32 - 1"
    and "\<not> quota_reached ma mc seen" and "counts_match seen p" and "\<not> ready_sent p"
  shows "await_ready ma mc limit items ended p = Signalled (Inr ()) \<longleftrightarrow> reached_in_time ma mc limit seen items"
  using assms(2-)
proof (induction items arbitrary: seen p)
  case Nil
  then show ?case by (simp add: reached_in_time_Nil split: option.split)
next
  case (Cons x items)
  obtain t i where x: "x = (t, i)" by fastforce
  have nz: "ma + mc \<noteq> 0"
  proof
    assume "ma + mc = 0"
    moreover have "unat (ma + mc) = unat ma + unat mc" using assms(1) by (simp add: unat_word_ariths)
    ultimately show False using Cons.prems(2) by (simp add: quota_reached_def)
  qed
  show ?case
  proof (cases i)
    case (Delivered ev)
    obtain p' where p': "sync_step ma mc ev p = Some p'" "counts_match (seen @ [ev]) p'"
      "ready_sent p' = quota_reached ma mc (seen @ [ev])"
      using sync_step_exact [OF nz Cons.prems(4,3), of ev] Cons.prems(1) by auto
    show ?thesis
    proof (cases "quota_reached ma mc (seen @ [ev])")
      case True
      then have "reached_in_time ma mc limit (seen @ [ev]) items" by (rule reached_now)
      then show ?thesis using True p' x Delivered Cons.prems(2) by (simp add: reached_in_time_Cons)
    next
      case False
      then show ?thesis
        using p' x Delivered Cons.prems Cons.IH [of "seen @ [ev]" p'] by (simp add: reached_in_time_Cons)
    qed
  qed (use x Cons.prems Cons.IH [of seen p] in \<open>simp_all add: reached_in_time_Cons\<close>)
qed

section \<open>What connecting shows\<close>

text \<open>
  C37. The thresholds that connect waits for, as the double precision arithmetic computes them:
  never more than the reported count, so that a complete graph always suffices, and less than
  one away from the configured percentage (clamped to 1 and 100) of it.
\<close>

theorem sync_threshold_bounds:
  assumes "n < 2 ^ 32"
  shows "unat (sync_threshold pct (int n)) \<le> n \<and>
    \<bar>of_nat (unat (sync_threshold pct (int n))) - of_nat n * of_nat (max 1 (min pct 100)) / 100\<bar> < (1 :: rat)"
proof -
  let ?q = "sync_quota pct" and ?thr = "unat (sync_threshold pct (int n))"
  define s where "s = (of_nat (clamped_tolerance pct) :: rat)"
  define y where "y = f64_pos (of_nat n * ?q)"
  define m where "m = (of_nat n :: rat)"
  have thr: "int ?thr = \<lfloor>y + 1 / 2\<rfloor>" using sync_threshold_eq [OF assms] by (simp add: y_def)
  have y: "y \<le> m" "\<bar>y - m * ?q\<bar> \<le> m * ?q / 2 ^ 53"
    using quota_product [OF assms, of pct] by (simp_all add: y_def m_def)
  have s: "0 \<le> s" "s \<le> 100" using clamped_tolerance_range [of pct] by (simp_all add: s_def)
  have q: "?q \<le> 1" "\<bar>?q - s / 100\<bar> \<le> 1 / 2 ^ 53" using sync_quota_facts [of pct] s by (auto simp: s_def)
  have m: "0 \<le> m" "m \<le> 2 ^ 32" using assms by (auto simp: m_def)
  have "m * ?q - m * (s / 100) = m * (?q - s / 100)" by (rule right_diff_distrib [symmetric])
  then have "\<bar>m * ?q - m * (s / 100)\<bar> = m * \<bar>?q - s / 100\<bar>" using m(1) by (simp only: abs_mult abs_of_nonneg)
  also have "\<dots> \<le> 2 ^ 32 * (1 / 2 ^ 53)" using m q by (intro mult_mono) auto
  finally have "\<bar>m * ?q - m * (s / 100)\<bar> \<le> 1 / 2 ^ 21" by simp
  moreover have "m * ?q / 2 ^ 53 \<le> 1 / 2 ^ 21"
    using mult_mono [OF m(2) q(1)] m sync_quota_facts [of pct] by simp
  ultimately have "\<bar>y - m * (s / 100)\<bar> \<le> 1 / 2 ^ 21 + 1 / 2 ^ 21" using y(2) by linarith
  moreover have "\<bar>of_int \<lfloor>y + 1 / 2\<rfloor> - y\<bar> \<le> 1 / 2" by linarith
  moreover have tiny: "1 / 2 ^ 21 + 1 / 2 ^ 21 < (1 / 2 :: rat)" by simp
  ultimately have "\<bar>of_int \<lfloor>y + 1 / 2\<rfloor> - m * (s / 100)\<bar> < 1" using tiny by linarith
  moreover have "of_int \<lfloor>y + 1 / 2\<rfloor> = (of_nat ?thr :: rat)" using thr by (metis of_int_of_nat_eq)
  moreover have "?thr \<le> n" using assms by (rule threshold_le_reported)
  ultimately show ?thesis by (simp add: m_def s_def clamped_tolerance_def)
qed

theorem sync_threshold_bounds_witness:
  "unat (sync_threshold 90 (int 1000)) \<le> 1000 \<and>
    \<bar>of_nat (unat (sync_threshold 90 (int 1000))) - of_nat 1000 * of_nat (max 1 (min 90 100)) / 100\<bar> < (1 :: rat)"
  by (rule sync_threshold_bounds) simp

lemma threshold_sum:
  assumes "unat n + nat m < 2 ^ 32" and "0 \<le> m"
  shows "unat (sync_threshold pct (uint n)) + unat (sync_threshold pct m) < 2 ^ 32"
proof -
  have le: "unat (sync_threshold pct (int k)) \<le> k" if "k < 2 ^ 32" for k
    using that by (rule threshold_le_reported)
  have "unat (sync_threshold pct (uint n)) \<le> unat n" using le [of "unat n"] assms(1) by simp
  moreover have "unat (sync_threshold pct m) \<le> nat m" using le [of "nat m"] assms by simp
  ultimately show ?thesis using assms(1) by linarith
qed

lemma all_subscriptions:
  "(\<forall>s. P s) \<longleftrightarrow> P AccountsFeed \<and> P GraphFeed \<and> P TicketParamsFeed \<and> P ServicesFeed \<and> P ServiceTypesFeed \<and>
    P RegistryConfigFeed"
proof (intro iffI allI)
  fix s
  assume "P AccountsFeed \<and> P GraphFeed \<and> P TicketParamsFeed \<and> P ServicesFeed \<and> P ServiceTypesFeed \<and> P RegistryConfigFeed"
  then show "P s" by (cases s) simp_all
qed simp

lemma try_collect_ok: "is_ok (try_collect f xs) \<longleftrightarrow> list_all (\<lambda>x. is_ok (f x)) xs"
  by (induction xs) (auto simp: and_then_def map_ok_def is_ok_def split: sum.splits)

lemma subscribe_all_ok: "is_ok (subscribe_all f) \<longleftrightarrow> (\<forall>s. is_ok (f s))"
proof -
  have "is_ok (map_ok g r) = is_ok r" for g :: "unit list \<Rightarrow> unit" and r :: "error_kind + unit list"
    by (cases r) (simp_all add: map_ok_def is_ok_def)
  then show ?thesis unfolding all_subscriptions subscribe_all_def by (simp add: try_collect_ok del: try_collect.simps)
qed

lemma task_signal_ok:
  assumes "unat ma + unat mc < 2 ^ 32" and "length (delivered r) < 2 ^ 32 - 1"
  shows "task_signal ma mc timeout r = Signalled (Inr ()) \<longleftrightarrow> (\<forall>s. is_ok (subscribed r s)) \<and>
    reached_in_time ma mc (timeout - registry_delay (registry_read_budget timeout) r) [] (delivered r)"
proof (cases "subscribe_all (subscribed r)")
  case (Inl e)
  then show ?thesis using subscribe_all_ok [of "subscribed r"] by (auto simp: task_signal_def is_ok_def)
next
  case (Inr u)
  then have ok: "\<forall>s. is_ok (subscribed r s)" using subscribe_all_ok [of "subscribed r"] by (simp add: is_ok_def)
  let ?p = "sync_start ma mc"
  have p: "counts_match [] ?p" "ready_sent ?p = quota_reached ma mc []"
    by (auto simp: sync_start_def counts_match_def quota_reached_def unat_eq_0)
  show ?thesis
  proof (cases "ready_sent ?p")
    case True
    then show ?thesis using ok Inr p reached_now by (auto simp: task_signal_def Let_def)
  next
    case False
    then show ?thesis using ok Inr p assms await_ready_exact [OF assms(1), of "[]" "delivered r" ?p]
      by (simp add: task_signal_def Let_def)
  qed
qed

lemma connect_outcome_ok: "connect_outcome sig = Inr () \<longleftrightarrow> sig = Signalled (Inr ())"
  by (auto simp: connect_outcome_def split: ready_signal.splits sum.splits)

text \<open>\<open>do_connect\<close> step by step: the queries, the chain information, then the task.\<close>

definition queries_answered ::
  "connector_config \<Rightarrow> ('h, 'w, 'c, 't, 'md) connect_replies \<Rightarrow> connector_error + u32 \<times> u32"
where
  "queries_answered cfg r = and_then (sync_thresholds cfg r) (\<lambda>ths. map_ok (\<lambda>_. ths) (check_server r))"

lemma do_connect_refused:
  "queries_answered cfg r = Inl e \<Longrightarrow> do_connect cfg timeout r (c, tv) = (Inl e, c, tv)"
  by (simp add: do_connect_def queries_answered_def)

lemma do_connect_no_info:
  "queries_answered cfg r = Inr ths \<Longrightarrow> query_cached_chain_info (reported_info r) tv = (Inl e, tv1) \<Longrightarrow>
    do_connect cfg timeout r (c, tv) = (Inl e, c, tv1)"
  by (cases ths) (simp add: do_connect_def queries_answered_def)

lemma do_connect_task:
  "queries_answered cfg r = Inr (ma, mc) \<Longrightarrow> query_cached_chain_info (reported_info r) tv = (Inr ci, tv1) \<Longrightarrow>
    do_connect cfg timeout r (c, tv) =
      (let tv2 = tv1\<lparr>ticket_values := Some (ci_win_prob ci, ci_ticket_price ci)\<rparr>;
           k = length (tasks c);
           c1 = c\<lparr>tasks := tasks c @ [Streaming]\<rparr>
       in (case connect_outcome (task_signal ma mc timeout r) of
             Inr _ \<Rightarrow> (Inr k, c1, tv2)
           | Inl e \<Rightarrow> (Inl e, c1\<lparr>aborted := insert k (aborted c1)\<rparr>, tv2)))"
  by (simp add: do_connect_def queries_answered_def)

lemma do_connect_cases:
  obtains (refused) e where "queries_answered cfg r = Inl e"
  | (no_info) ths e tv1 where "queries_answered cfg r = Inr ths"
      "query_cached_chain_info (reported_info r) tv = (Inl e, tv1)"
  | (task) ma mc ci tv1 where "queries_answered cfg r = Inr (ma, mc)"
      "query_cached_chain_info (reported_info r) tv = (Inr ci, tv1)"
  by (cases "queries_answered cfg r"; cases "query_cached_chain_info (reported_info r) tv";
      cases "fst (query_cached_chain_info (reported_info r) tv)") force+

lemma connect_eq:
  "connect cfg r (c, tv) =
    (if connector_is_connected c then (Inl (InvalidState ''connector is already connected''), c, tv)
     else
       (case do_connect cfg (max (connection_sync_timeout cfg) min_connection_timeout) r (c\<lparr>health := Connecting\<rparr>, tv) of
          (Inr k, c1, tv1) \<Rightarrow>
            (Inr (), c1\<lparr>handle := Some k, health := (if health c1 = Connecting then Ready else health c1)\<rparr>, tv1)
        | (Inl e, c1, tv1) \<Rightarrow> (Inl e, c1\<lparr>health := health_after_failure e\<rparr>, tv1)))"
  by (simp add: connect_def)

lemma connect_ok_iff:
  assumes "\<not> connector_is_connected c" and "sync_thresholds cfg r = Inr (ma, mc)"
  shows "fst (connect cfg r (c, tv)) = Inr () \<longleftrightarrow> is_ok (check_server r) \<and>
    is_ok (fst (query_cached_chain_info (reported_info r) tv)) \<and>
    task_signal ma mc (max (connection_sync_timeout cfg) min_connection_timeout) r = Signalled (Inr ())"
proof -
  have ans: "queries_answered cfg r = map_ok (\<lambda>_. (ma, mc)) (check_server r)"
    using assms(2) by (simp add: queries_answered_def and_then_def)
  show ?thesis
  proof (cases rule: do_connect_cases [where cfg = cfg and r = r and tv = tv])
    case (refused e)
    then show ?thesis using ans assms(1)
      by (cases "check_server r") (simp_all add: connect_eq do_connect_refused map_ok_def is_ok_def)
  next
    case (no_info ths e tv1)
    then show ?thesis using assms(1) by (simp add: connect_eq do_connect_no_info is_ok_def)
  next
    case (task ma' mc' ci tv1)
    then have "is_ok (check_server r)" and m: "ma' = ma" "mc' = mc" using ans
      by (cases "check_server r"; simp add: map_ok_def is_ok_def)+
    moreover have "fst (connect cfg r (c, tv)) = Inr () \<longleftrightarrow>
        connect_outcome (task_signal ma mc (max (connection_sync_timeout cfg) min_connection_timeout) r) = Inr ()"
      using assms(1) task m by (simp add: connect_eq do_connect_task Let_def split: sum.split)
    ultimately show ?thesis using task by (simp add: connect_outcome_ok is_ok_def)
  qed
qed

text \<open>
  C35. Connecting succeeds exactly when it should: for a connector that is not connected, and
  counts that together fit 32 bits, connect returns success if and only if the server reports
  itself healthy (in any case of letters), the chain information is cached or answered, all six
  subscriptions are made, and within the configured timeout (at least 100 ms), less the time
  spent on reading the registry (at most a quarter of it), the task has taken at least as many
  accounts and as many channels from its feeds as the thresholds say, whatever other events,
  health checks and errors come between them.
\<close>

theorem connect_succeeds_exactly:
  assumes "\<not> connector_is_connected c"
    and "reported_accounts r = Inr n" and "reported_channels r = Inr m" and "0 \<le> m" and "unat n + nat m < 2 ^ 32"
    and "length (delivered r) < 2 ^ 32 - 1"
    and "timeout = max (connection_sync_timeout cfg) 100000000"
  shows "fst (connect cfg r (c, tv)) = Inr () \<longleftrightarrow>
    server_health r \<in> {Inr h | h. eq_ignore_case h ''OK''} \<and>
    (chain_values tv \<noteq> None \<or> is_ok (reported_info r)) \<and> (\<forall>s. is_ok (subscribed r s)) \<and>
    (\<exists>pre post. delivered r = pre @ post \<and>
      fst ` set pre \<subseteq> {..timeout - min (registry_time r) (timeout div 4)} \<and>
      unat (sync_threshold (sync_tolerance cfg) (uint n)) \<le> count_list (events_of pre) AccountSeen \<and>
      unat (sync_threshold (sync_tolerance cfg) m) \<le> count_list (events_of pre) ChannelSeen)"
proof -
  have th: "sync_thresholds cfg r =
      Inr (sync_threshold (sync_tolerance cfg) (uint n), sync_threshold (sync_tolerance cfg) m)"
    using assms(2,3) by (simp add: sync_thresholds_def and_then_def map_err_def)
  have health: "is_ok (check_server r) \<longleftrightarrow> server_health r \<in> {Inr h | h. eq_ignore_case h ''OK''}"
    by (cases "server_health r") (auto simp: check_server_def and_then_def map_err_def is_ok_def)
  have info: "is_ok (fst (query_cached_chain_info (reported_info r) tv)) \<longleftrightarrow> chain_values tv \<noteq> None \<or> is_ok (reported_info r)"
    by (auto simp: query_cached_chain_info_def is_ok_def split: option.splits sum.splits)
  have timeout: "timeout = max (connection_sync_timeout cfg) min_connection_timeout"
    using assms(7) by (simp add: min_connection_timeout_def)
  have signal: "fst (connect cfg r (c, tv)) = Inr () \<longleftrightarrow> is_ok (check_server r) \<and>
      is_ok (fst (query_cached_chain_info (reported_info r) tv)) \<and>
      task_signal (sync_threshold (sync_tolerance cfg) (uint n)) (sync_threshold (sync_tolerance cfg) m) timeout r =
        Signalled (Inr ())"
    unfolding timeout by (rule connect_ok_iff [OF assms(1) th])
  show ?thesis
    unfolding signal health info task_signal_ok [OF threshold_sum [OF assms(5,4)] assms(6)]
      reached_in_time_def quota_reached_def registry_delay_def registry_read_budget_def
      registry_read_budget_divisor_def append_Nil
    by (rule refl)
qed

text \<open>The answers of a client, for a concrete run.\<close>

definition sample_replies :: "(nat, nat, nat, nat, nat) connect_replies" where
  "sample_replies =
    \<lparr>reported_accounts = Inr 1, reported_channels = Inr 1, server_health = Inr ''ok'', reported_info = Inr sample_info,
     registry_time = 5, registry_answer = Inl BadTicket, subscribed = (\<lambda>_. Inr ()),
     delivered = [(1, HealthTick), (2, Delivered AccountSeen), (3, FeedError BadTicket), (4, Delivered ChannelSeen)],
     closed = None\<rparr>"

theorem connect_succeeds_exactly_witness:
  "fst (connect connector_config_default sample_replies
    (connector_new, \<lparr>ticket_values = None, chain_values = None\<rparr>)) = Inr ()"
proof -
  have new: "\<not> connector_is_connected connector_new" by (simp add: is_connected_iff connector_new_def)
  have thr: "unat (sync_threshold 90 1) \<le> 1" using threshold_le_reported [of 1 90] by simp
  have ok: "eq_ignore_case ''ok'' ''OK''" by code_simp
  have "\<exists>pre post. delivered sample_replies = pre @ post \<and>
      fst ` set pre \<subseteq> {..from_secs 30 - min (registry_time sample_replies) (from_secs 30 div 4)} \<and>
      unat (sync_threshold 90 (uint (1 :: u32))) \<le> count_list (events_of pre) AccountSeen \<and>
      unat (sync_threshold 90 1) \<le> count_list (events_of pre) ChannelSeen"
    by (intro exI [of _ "delivered sample_replies"] exI [of _ "[]"])
      (use thr in \<open>simp add: sample_replies_def from_secs_def\<close>)
  then show ?thesis
    using ok connect_succeeds_exactly [OF new, of sample_replies 1 1 "from_secs 30" connector_config_default]
    by (simp add: sample_replies_def connector_config_default_def default_sync_tolerance_pct_def from_secs_def is_ok_def)
qed

section \<open>The sequential run among the interleavings\<close>

text \<open>The health after \<open>connect\<close> starts, and each of its ends, as steps of the interleaving model.\<close>

lemma run_step: "health_step\<^sup>*\<^sup>* c d \<Longrightarrow> health_step d d' \<Longrightarrow> d' = c' \<Longrightarrow> health_step\<^sup>*\<^sup>* c c'"
  by simp

lemma run_refused:
  assumes "owner c = Idle" and "\<not> connector_is_connected c"
  shows "health_step\<^sup>*\<^sup>* c (c\<lparr>health := health_after_failure e\<rparr>)"
proof -
  have "health_step\<^sup>*\<^sup>* c (c\<lparr>owner := Preparing, health := Connecting\<rparr>)"
    using connect_start [OF assms] by (rule r_into_rtranclp)
  then have "health_step\<^sup>*\<^sup>* c (c\<lparr>owner := Failing e, health := Connecting\<rparr>)"
    by (rule run_step [OF _ connect_early [where err = e]]) (simp, (rule connector.equality; simp))
  then show ?thesis by (rule run_step [OF _ connect_failed]) (simp, (rule connector.equality; simp add: assms(1)))
qed

lemma run_to_task:
  assumes "owner c = Idle" and "\<not> connector_is_connected c"
  shows "health_step\<^sup>*\<^sup>* c (c\<lparr>owner := Waiting (length (tasks c)), health := Connecting, tasks := tasks c @ [Streaming]\<rparr>)"
proof -
  have "health_step\<^sup>*\<^sup>* c (c\<lparr>owner := Preparing, health := Connecting\<rparr>)"
    using connect_start [OF assms] by (rule r_into_rtranclp)
  then show ?thesis by (rule run_step [OF _ connect_spawn]) (simp, (rule connector.equality; simp))
qed

lemma run_failed:
  assumes "owner c = Idle" and "\<not> connector_is_connected c" and "connect_outcome sig = Inl e"
  shows "health_step\<^sup>*\<^sup>* c (c\<lparr>tasks := tasks c @ [Streaming], aborted := insert (length (tasks c)) (aborted c),
    health := health_after_failure e\<rparr>)"
proof -
  let ?k = "length (tasks c)"
  have "health_step\<^sup>*\<^sup>* c (c\<lparr>owner := Failing e, health := Connecting, tasks := tasks c @ [Streaming],
      aborted := insert ?k (aborted c)\<rparr>)"
    by (rule run_step [OF run_to_task [OF assms(1,2)] connect_error [where k = "length (tasks c)", OF _ assms(3)]]) (simp, (rule connector.equality; simp))
  then show ?thesis by (rule run_step [OF _ connect_failed]) (simp, (rule connector.equality; simp add: assms(1)))
qed

lemma run_connected:
  assumes "owner c = Idle" and "\<not> connector_is_connected c" and "connect_outcome sig = Inr ()"
  shows "health_step\<^sup>*\<^sup>* c (c\<lparr>tasks := tasks c @ [Streaming], handle := Some (length (tasks c)), health := Ready\<rparr>)"
proof -
  let ?k = "length (tasks c)"
  have "health_step\<^sup>*\<^sup>* c (c\<lparr>owner := Succeeding ?k, health := Connecting, tasks := tasks c @ [Streaming],
      handle := Some ?k\<rparr>)"
    by (rule run_step [OF run_to_task [OF assms(1,2)] connect_ready [where k = "length (tasks c)", OF _ assms(3)]]) (simp, (rule connector.equality; simp))
  then show ?thesis by (rule run_step [OF _ connect_done [where k = "length (tasks c)"]]) (simp, (rule connector.equality; simp add: assms(1)))
qed

lemma not_connected_kept:
  "\<not> connector_is_connected c \<Longrightarrow>
    \<not> connector_is_connected (c\<lparr>tasks := ts, aborted := insert k (aborted c), health := h\<rparr>)"
  by (auto simp: is_connected_iff)

text \<open>The three ends of a call of \<open>connect\<close>.\<close>

lemma connect_ends:
  assumes "\<not> connector_is_connected c" and "connect cfg r (c, tv) = (res, c', tv')"
  obtains (early) e where "res = Inl e" "c' = c\<lparr>health := health_after_failure e\<rparr>"
  | (failed) sig e where "connect_outcome sig = Inl e" "res = Inl e"
      "c' = c\<lparr>tasks := tasks c @ [Streaming], aborted := insert (length (tasks c)) (aborted c),
        health := health_after_failure e\<rparr>"
  | (connected) sig ci where "connect_outcome sig = Inr ()" "res = Inr ()"
      "c' = c\<lparr>tasks := tasks c @ [Streaming], handle := Some (length (tasks c)), health := Ready\<rparr>"
      "fst (query_cached_chain_info (reported_info r) tv) = Inr ci"
      "ticket_values tv' = Some (ci_win_prob ci, ci_ticket_price ci)"
proof (cases rule: do_connect_cases [where cfg = cfg and r = r and tv = tv])
  case (refused e)
  then have "res = Inl e" and "c' = c\<lparr>health := health_after_failure e\<rparr>"
    using assms by (auto simp: connect_eq do_connect_refused)
  then show ?thesis by (rule that(1))
next
  case (no_info ths e tv1)
  then have "res = Inl e" and "c' = c\<lparr>health := health_after_failure e\<rparr>"
    using assms by (auto simp: connect_eq do_connect_no_info)
  then show ?thesis by (rule that(1))
next
  case (task ma mc ci tv1)
  let ?sig = "task_signal ma mc (max (connection_sync_timeout cfg) min_connection_timeout) r"
  show ?thesis
  proof (cases "connect_outcome ?sig")
    case (Inl e)
    then show ?thesis using assms task by (intro that(2) [of ?sig e]) (auto simp: connect_eq do_connect_task Let_def)
  next
    case (Inr u)
    then show ?thesis using assms task
      by (intro that(3) [of ?sig ci]) (auto simp: connect_eq do_connect_task Let_def)
  qed
qed

lemma status_after_failure:
  "status_of (health_after_failure e) =
    (if e = ServerNotHealthy then Unavailable ''blokli server not healthy''
     else if e = ConnectionTimeout then Degraded ''connection sync timed out''
     else Unavailable ''chain connection failed'')"
  by (simp add: health_after_failure_def status_of_def)

lemma health_run_reach: "health_step\<^sup>*\<^sup>* c d \<Longrightarrow> health_reach c \<Longrightarrow> health_reach d"
  by (induction rule: rtranclp_induct) (auto intro: health_next)



section \<open>Ready-made connectors\<close>

text \<open>
  A trustful constructor is the trustless one for the contract addresses that the client reports;
  when they cannot be had or read, it fails before a database is made.
\<close>

lemma trustful_connectors:
  "create_trustful_connector show_error P info G db key cfg cl module_address =
    and_then (reported_contracts show_error P info) (create_trustless_connector G db key cfg cl module_address)"
  "create_trustful_safeless_connector show_error P info G db key cfg cl =
    and_then (reported_contracts show_error P info) (create_trustless_safeless_connector G db key cfg cl)"
  by (cases "reported_contracts show_error P info";
      simp add: create_trustful_connector_def create_trustless_connector_def create_trustful_safeless_connector_def
        create_trustless_safeless_connector_def and_then_def)+

text \<open>A new connector is not connected, waits for its connection, and has an empty index and no nonce.\<close>

lemma new_connector_start:
  "health_reach (hc_link (hopr_connector_new key cfg cl backend payloads))"
  "\<not> connector_is_connected (hc_link (hopr_connector_new key cfg cl backend payloads))"
  "hc_index (hopr_connector_new key cfg cl backend payloads) = index_new backend"
  using health_start by (simp_all add: hopr_connector_new_def is_connected_iff connector_new_def)

end
