(* ===== verification/Chain_Feed.thy ===== *)
theory Chain_Feed
  imports Chain_Models Index_Coherence
begin

text \<open>
  What the account and graph subscriptions feed into the index (\<open>do_connect\<close> in
  \<open>connector/src/connector/mod.rs\<close>): Blokli's items are converted, and only what the conversion
  accepts reaches the caches, the graph and the backend. The index so fed is well typed whatever
  Blokli sends.
\<close>

section \<open>The two feeds\<close>

definition account_feed ::
  "('k, 'm, 'h, 'w, 'c, 't, 'md, 'f) parsers \<Rightarrow> ('k, 'm, 's) backend_ops \<Rightarrow> error_kind + account_model \<Rightarrow>
    ('k, 'm, 's) chain_index \<Rightarrow>
    (connector_error + ('k, 'm) account_entry \<times> ('k, 'm) account_entry option) \<times> ('k, 'm, 's) chain_index"
where
  "account_feed P ops item ix =
    (case and_then (map_err ClientError item) (model_to_account_entry P) of
       Inl e \<Rightarrow> (Inl e, ix)
     | Inr a \<Rightarrow> apply_account ops a ix)"

definition channel_feed ::
  "('k, 'm, 'h, 'w, 'c, 't, 'md, 'f) parsers \<Rightarrow> ('k, 'm, 's) backend_ops \<Rightarrow>
    (chain_channel \<Rightarrow> chain_channel \<Rightarrow> 'd list) \<Rightarrow> error_kind + graph_entry_model \<Rightarrow> ('k, 'm, 's) chain_index \<Rightarrow>
    (connector_error + chain_channel \<times> 'd list option) \<times> ('k, 'm, 's) chain_index"
where
  "channel_feed P ops diff item ix =
    (case and_then (map_err ClientError item) (model_to_graph_entry P) of
       Inl e \<Rightarrow> (Inl e, ix)
     | Inr (src, dst, c) \<Rightarrow> apply_channel ops diff (acc_id src) (acc_id dst) c ix)"

text \<open>A run: items of the two feeds, and the lookups, expiries and invalidations between them.\<close>

datatype ('k, 'm) feed_op =
    AccountItem "error_kind + account_model"
  | GraphItem "error_kind + graph_entry_model"
  | IndexOp "'k cache_entry"
  | ExpireOp "'k cache_entry"
  | InvalidateOp

fun feed_step ::
  "('k, 'm, 'h, 'w, 'c, 't, 'md, 'f) parsers \<Rightarrow> ('k, 'm, 's) backend_ops \<Rightarrow> ('k, 'm) feed_op \<Rightarrow>
    ('k, 'm, 's) chain_index \<Rightarrow> ('k, 'm, 's) chain_index"
where
  "feed_step P ops (AccountItem item) ix = snd (account_feed P ops item ix)"
| "feed_step P ops (GraphItem item) ix = snd (channel_feed P ops (\<lambda>_ _. [] :: unit list) item ix)"
| "feed_step P ops (IndexOp e) ix = ask ops (generate_channel_id P) e ix"
| "feed_step P ops (ExpireOp e) ix = expire e ix"
| "feed_step P ops InvalidateOp ix = invalidate_caches ix"

section \<open>Types\<close>

definition key_typed :: "('k, 'm, 'h, 'w, 'c, 't, 'md, 'f) parsers \<Rightarrow> 'k \<Rightarrow> bool" where
  "key_typed P k \<longleftrightarrow> is_ok (valid_key P k)"

definition channel_typed :: "('k, 'm, 'h, 'w, 'c, 't, 'md, 'f) parsers \<Rightarrow> chain_channel \<Rightarrow> bool" where
  "channel_typed P c \<longleftrightarrow> ch_id c = generate_channel_id P (ch_source c) (ch_destination c)"

text \<open>An answer, a success with a value being the only one that carries a type.\<close>

definition typed_answer :: "('a \<Rightarrow> bool) \<Rightarrow> 'e + 'a option \<Rightarrow> bool" where
  "typed_answer T r = (case r of Inr (Some x) \<Rightarrow> T x | _ \<Rightarrow> True)"

definition typed_cache :: "('a \<Rightarrow> 'b \<Rightarrow> bool) \<Rightarrow> ('a, 'b option) cache \<Rightarrow> bool" where
  "typed_cache T c \<longleftrightarrow> (\<forall>k x. c k = Some (Some x) \<longrightarrow> T k x)"

text \<open>The builder of channels may refuse the parts, but does not exchange them.\<close>

definition builder_keeps :: "('k, 'm, 'h, 'w, 'c, 't, 'md, 'f) parsers \<Rightarrow> bool" where
  "builder_keeps P \<longleftrightarrow> (\<forall>c d. build_channel P c = Inr d \<longrightarrow>
    ch_id d = ch_id c \<and> ch_source d = ch_source c \<and> ch_destination d = ch_destination c)"

section \<open>Conversions yield typed entries\<close>

lemma account_entry_typed:
  "model_to_account_entry P m = Inr a \<Longrightarrow> key_typed P (public_key a)"
  by (auto simp: model_to_account_entry_def and_then_Inr_iff general_err_def key_typed_def)

lemma graph_entry_typed:
  assumes "builder_keeps P" and "model_to_graph_entry P m = Inr (src, dst, c)"
  shows "key_typed P (public_key src) \<and> key_typed P (public_key dst) \<and> channel_typed P c \<and>
    ch_source c = chain_addr src \<and> ch_destination c = chain_addr dst"
proof -
  obtain d where "model_to_account_entry P (m_source m) = Inr src" "model_to_account_entry P (m_destination m) = Inr dst"
    and d: "build_channel P d = Inr c" "ch_id d = generate_channel_id P (chain_addr src) (chain_addr dst)"
      "ch_source d = chain_addr src" "ch_destination d = chain_addr dst"
    using assms(2) by (auto simp: model_to_graph_entry_def and_then_Inr_iff)
  moreover have "ch_id c = ch_id d" "ch_source c = ch_source d" "ch_destination c = ch_destination d"
    using assms(1) d(1) unfolding builder_keeps_def by blast+
  ultimately show ?thesis using account_entry_typed by (auto simp: channel_typed_def)
qed

section \<open>The index over a backend that stores what it is given\<close>

lemma typed_answer_simps [simp]:
  "typed_answer T (Inl e)" "typed_answer T (Inr None)" "typed_answer T (Inr (Some x)) = T x"
  by (simp_all add: typed_answer_def)

lemma typed_answer_mono: "typed_answer T r \<Longrightarrow> (\<And>x. T x \<Longrightarrow> U x) \<Longrightarrow> typed_answer U r"
  by (auto simp: typed_answer_def split: sum.splits option.splits)

lemma typed_answer_map: "typed_answer (\<lambda>x. T (f x)) r \<Longrightarrow> typed_answer T (map_ok (map_option f) r)"
  by (auto simp: typed_answer_def map_ok_def split: sum.splits option.splits)

lemma typed_answer_map_err [simp]: "typed_answer T (map_err f r) = typed_answer T r"
  by (auto simp: typed_answer_def map_err_def split: sum.splits option.splits)

lemma typed_cache_upd: "typed_cache T c \<Longrightarrow> T k x \<Longrightarrow> typed_cache T (c(k \<mapsto> Some x))"
  by (auto simp: typed_cache_def)

lemma typed_cache_drop: "typed_cache T c \<Longrightarrow> typed_cache T (c(k := None))"
  by (auto simp: typed_cache_def)

lemma typed_cache_drop_if: "typed_cache T c \<Longrightarrow> typed_cache T (drop_if b k c)"
  by (simp add: drop_if_def typed_cache_drop)

lemma typed_cache_empty [simp]: "typed_cache T (\<lambda>_. None)"
  by (simp add: typed_cache_def)

text \<open>A lookup behind a cache: the answer and the cache afterwards.\<close>

lemma try_get_with_typed:
  assumes "typed_cache T c" and "typed_answer (T k) v"
  shows "typed_answer (T k) (fst (try_get_with c k v)) \<and> typed_cache T (snd (try_get_with c k v))"
proof (cases "c k")
  case None
  then show ?thesis using assms
    by (auto simp: try_get_with_def typed_cache_def typed_answer_def split: sum.splits option.splits)
next
  case (Some x)
  then show ?thesis using assms by (cases x) (auto simp: try_get_with_def typed_cache_def)
qed

lemma get_with_typed:
  assumes "typed_cache T c" and "typed_answer (T k) (Inr v)"
  shows "typed_answer (T k) (Inr (fst (get_with c k v))) \<and> typed_cache T (snd (get_with c k v))"
proof (cases "c k")
  case None
  then show ?thesis using assms by (cases v) (auto simp: get_with_def typed_cache_def)
next
  case (Some x)
  then show ?thesis using assms by (cases x) (auto simp: get_with_def typed_cache_def)
qed

lemma found_typed: "typed_answer T r \<Longrightarrow> typed_answer T (Inr (found r))"
  by (auto simp: found_def typed_answer_def split: sum.splits option.splits)

lemma list_all_map_filter: "(\<And>x y. f x = Some y \<Longrightarrow> Q y) \<Longrightarrow> list_all Q (List.map_filter f xs)"
  by (induction xs) (auto simp: List.map_filter_simps split: option.split)

locale typed_backend =
  fixes ops :: "('k, 'm, 's) backend_ops"
    and view :: "'s \<Rightarrow> ('k, 'm) accounts"
    and channels :: "'s \<Rightarrow> channel_id \<Rightarrow> chain_channel option"
    and ok :: "'s \<Rightarrow> bool"
  assumes account_put: "view (snd (insert_account ops a s)) \<in> {view s, (view s)(acc_id a \<mapsto> a)}"
    and account_channels: "channels (snd (insert_account ops a s)) = channels s"
    and account_ok: "ok s \<Longrightarrow> ok (snd (insert_account ops a s))"
    and channel_put: "channels (snd (insert_channel ops c s)) \<in> {channels s, (channels s)(ch_id c \<mapsto> c)}"
    and channel_view: "view (snd (insert_channel ops c s)) = view s"
    and channel_ok: "ok s \<Longrightarrow> ok (snd (insert_channel ops c s))"
    and read_id: "ok s \<Longrightarrow> typed_answer (\<lambda>a. a \<in> ran (view s)) (get_account_by_id ops s i)"
    and read_address: "ok s \<Longrightarrow> typed_answer (\<lambda>a. a \<in> ran (view s)) (get_account_by_address ops s d)"
    and read_channel: "ok s \<Longrightarrow> typed_answer (\<lambda>c. channels s j = Some c) (get_channel_by_id ops s j)"
begin

definition store_typed :: "('k, 'm, 'h, 'w, 'c, 't, 'md, 'f) parsers \<Rightarrow> 's \<Rightarrow> bool" where
  "store_typed P s \<longleftrightarrow> ok s \<and> (\<forall>a \<in> ran (view s). key_typed P (public_key a)) \<and>
    (\<forall>j c. channels s j = Some c \<longrightarrow> ch_id c = j \<and> channel_typed P c)"

definition index_typed :: "('k, 'm, 'h, 'w, 'c, 't, 'md, 'f) parsers \<Rightarrow> ('k, 'm, 's) chain_index \<Rightarrow> bool" where
  "index_typed P ix \<longleftrightarrow> store_typed P (store ix) \<and>
    typed_cache (\<lambda>_. key_typed P) (id_to_key ix) \<and>
    typed_cache (\<lambda>_. key_typed P) (chain_to_packet ix) \<and>
    typed_cache (\<lambda>j c. ch_id c = j \<and> channel_typed P c) (channels_by_id ix) \<and>
    typed_cache (\<lambda>(x, y) c. ch_id c = generate_channel_id P x y \<and> channel_typed P c) (channels_by_parties ix)"

lemma insert_account_typed:
  assumes "store_typed P s" and "key_typed P (public_key a)"
  shows "store_typed P (snd (insert_account ops a s))"
proof -
  have "ran (view (snd (insert_account ops a s))) \<subseteq> insert a (ran (view s))"
    using account_put [of a s] by (auto simp: ran_def split: if_splits)
  then show ?thesis using assms account_ok [of s a] by (auto simp: store_typed_def account_channels)
qed

lemma insert_channel_typed:
  assumes "store_typed P s" and "channel_typed P c"
  shows "store_typed P (snd (insert_channel ops c s))"
  using assms channel_ok [of s c] channel_put [of c s]
  by (auto simp: store_typed_def channel_view split: if_splits)

lemma apply_account_typed:
  assumes "index_typed P ix" and "key_typed P (public_key a)"
  shows "index_typed P (snd (apply_account ops a ix))"
proof -
  have "index_typed P (cache_account a ix)"
    using assms by (simp add: index_typed_def cache_account_def typed_cache_upd)
  moreover have "store_typed P (snd (insert_account ops a (store (cache_account a ix))))"
    using insert_account_typed [of P "store ix" a] assms by (simp add: index_typed_def cache_account_def)
  ultimately show ?thesis
    by (auto simp: apply_account_def Let_def index_typed_def typed_cache_drop_if split: prod.splits sum.splits option.splits)
qed

lemma apply_channel_typed:
  assumes "index_typed P ix" and "channel_typed P c"
  shows "index_typed P (snd (apply_channel ops diff src dst c ix))"
proof -
  have store: "store_typed P (snd (insert_channel ops c (store ix)))"
    using insert_channel_typed [of P "store ix" c] assms by (simp add: index_typed_def)
  have caches: "typed_cache (\<lambda>j c. ch_id c = j \<and> channel_typed P c) ((channels_by_id ix)(ch_id c \<mapsto> Some c))"
    "typed_cache (\<lambda>(x, y) c. ch_id c = generate_channel_id P x y \<and> channel_typed P c)
      ((channels_by_parties ix)((ch_source c, ch_destination c) \<mapsto> Some c))"
    using assms by (auto intro!: typed_cache_upd simp: index_typed_def channel_typed_def)
  show ?thesis using assms(1) store caches
    by (cases "insert_channel ops c (store ix)"; cases "fst (insert_channel ops c (store ix))")
      (simp_all add: apply_channel_def Let_def add_channel_edge_def index_typed_def)
qed

text \<open>What the lookups answer, and that they keep the types.\<close>

lemma id_to_public_typed:
  assumes "index_typed P ix"
  shows "typed_answer (key_typed P) (Inr (fst (map_id_to_public ops i ix))) \<and> index_typed P (snd (map_id_to_public ops i ix))"
proof -
  have "typed_answer (\<lambda>a. key_typed P (public_key a)) (get_account_by_id ops (store ix) i)"
    using read_id [of "store ix" i] assms by (auto simp: index_typed_def store_typed_def elim: typed_answer_mono)
  then have "typed_answer (key_typed P) (Inr (map_option public_key (found (get_account_by_id ops (store ix) i))))"
    using typed_answer_map [OF found_typed] by fastforce
  from get_with_typed [where T = "\<lambda>_. key_typed P" and c = "id_to_key ix" and k = i, OF _ this] assms show ?thesis
    by (auto simp: map_id_to_public_def index_typed_def split: prod.splits)
qed

lemma address_to_key_typed:
  assumes "index_typed P ix"
  shows "typed_answer (key_typed P) (fst (chain_key_to_packet_key conn ops d ix)) \<and>
    index_typed P (snd (chain_key_to_packet_key conn ops d ix))"
proof -
  have "typed_answer (\<lambda>a. key_typed P (public_key a)) (get_account_by_address ops (store ix) d)"
    using read_address [of "store ix" d] assms by (auto simp: index_typed_def store_typed_def elim: typed_answer_mono)
  then have "typed_answer (key_typed P) (map_ok (map_option public_key) (get_account_by_address ops (store ix) d))"
    by (rule typed_answer_map)
  from try_get_with_typed [where T = "\<lambda>_. key_typed P" and c = "chain_to_packet ix" and k = d, OF _ this] assms
  show ?thesis
    by (cases conn) (auto simp: chain_key_to_packet_key_def cache_error_def index_typed_def split: prod.splits)
qed

lemma channel_id_typed:
  assumes "index_typed P ix"
  shows "typed_answer (\<lambda>c. ch_id c = j \<and> channel_typed P c) (fst (channel_by_id conn ops j ix)) \<and>
    index_typed P (snd (channel_by_id conn ops j ix))"
proof -
  have "typed_answer (\<lambda>c. ch_id c = j \<and> channel_typed P c) (get_channel_by_id ops (store ix) j)"
    using read_channel [of "store ix" j] assms by (auto simp: index_typed_def store_typed_def elim: typed_answer_mono)
  from try_get_with_typed [where T = "\<lambda>j c. ch_id c = j \<and> channel_typed P c" and c = "channels_by_id ix", OF _ this] assms
  show ?thesis
    by (cases conn) (auto simp: channel_by_id_def cache_error_def index_typed_def split: prod.splits)
qed

lemma channel_parties_typed:
  assumes "index_typed P ix"
  shows "typed_answer (\<lambda>c. ch_id c = generate_channel_id P x y \<and> channel_typed P c)
      (fst (channel_by_parties (generate_channel_id P) conn ops x y ix)) \<and>
    index_typed P (snd (channel_by_parties (generate_channel_id P) conn ops x y ix))"
proof -
  let ?T = "\<lambda>(x, y) c. ch_id c = generate_channel_id P x y \<and> channel_typed P c"
  have "typed_answer (?T (x, y)) (get_channel_by_id ops (store ix) (generate_channel_id P x y))"
    using read_channel [of "store ix" "generate_channel_id P x y"] assms
    by (auto simp: index_typed_def store_typed_def elim: typed_answer_mono)
  from try_get_with_typed [where T = ?T and c = "channels_by_parties ix", OF _ this] assms show ?thesis
    by (cases conn) (auto simp: channel_by_parties_def cache_error_def index_typed_def split: prod.splits)
qed

lemma other_lookups_typed:
  "index_typed P ix \<Longrightarrow> index_typed P (snd (map_key_to_id ops k ix))"
  "index_typed P ix \<Longrightarrow> index_typed P (snd (packet_key_to_chain_key conn ops k ix))"
  by (cases conn; simp add: map_key_to_id_def packet_key_to_chain_key_def index_typed_def split: prod.splits)+

lemma ask_typed:
  "index_typed P ix \<Longrightarrow> index_typed P (ask ops (generate_channel_id P) e ix)"
  by (cases e)
    (simp_all add: id_to_public_typed address_to_key_typed channel_id_typed channel_parties_typed other_lookups_typed)

lemma expire_typed: "index_typed P ix \<Longrightarrow> index_typed P (expire e ix)"
  by (cases e) (simp_all add: index_typed_def typed_cache_drop)

lemma feed_step_typed:
  assumes "builder_keeps P" and "index_typed P ix"
  shows "index_typed P (feed_step P ops x ix)"
proof (cases x)
  case (AccountItem item)
  then show ?thesis using assms(2)
    by (auto simp: account_feed_def and_then_Inr_iff split: sum.split intro: apply_account_typed account_entry_typed)
next
  case (GraphItem item)
  then show ?thesis using assms graph_entry_typed [OF assms(1)]
    by (auto simp: channel_feed_def and_then_Inr_iff split: sum.split prod.split intro!: apply_channel_typed)
next
  case InvalidateOp
  then show ?thesis using assms(2) by (simp add: invalidate_caches_def index_typed_def)
qed (use assms(2) in \<open>simp_all add: ask_typed expire_typed\<close>)

lemma feed_typed:
  "builder_keeps P \<Longrightarrow> index_typed P ix \<Longrightarrow> index_typed P (fold (feed_step P ops) xs ix)"
  by (induction xs arbitrary: ix) (simp_all add: feed_step_typed)

lemma new_typed:
  "ok s \<Longrightarrow> view s = (\<lambda>_. None) \<Longrightarrow> channels s = (\<lambda>_. None) \<Longrightarrow> index_typed P (index_new s)"
  by (simp add: index_typed_def store_typed_def index_new_def)

lemma account_stream_typed:
  assumes "index_typed P ix"
  shows "list_all (\<lambda>a. key_typed P (public_key a)) (build_account_stream ops accepts ix)"
proof -
  have "key_typed P (public_key a)" if "keep_if accepts (found (get_account_by_id ops (store ix) i)) = Some a" for i a
    using that read_id [of "store ix" i] assms
    by (auto simp: keep_if_def found_def typed_answer_def index_typed_def store_typed_def
        split: option.splits sum.splits if_splits)
  then show ?thesis unfolding build_account_stream_def by (rule list_all_map_filter)
qed

end

section \<open>Both backends\<close>

lemma find_in_set: "List.find Q xs = Some a \<Longrightarrow> a \<in> set xs"
  by (auto simp: find_Some_iff)

interpretation mem_typed: typed_backend "mem_backend_ops rev" mb_account_by_id mb_channel_by_id mb_ok
proof
  fix s :: "('a, 'b) mem_backend" and a c i d j
  have keys: "set (map snd (mb_accounts s)) \<subseteq> ran (mb_account_by_id s)" if "mb_ok s"
    using that by (auto simp: mb_ok_def mb_account_by_id_def ran_def)
  show "typed_answer (\<lambda>a. a \<in> ran (mb_account_by_id s)) (get_account_by_address (mem_backend_ops rev) s d)" if "mb_ok s"
  proof (cases "mb_account_by_address rev s d")
    case (Some a)
    then have "a \<in> set (map snd (mb_accounts s))" using find_in_set by (fastforce simp: mb_account_by_address_def)
    then show ?thesis using Some keys [OF that] by (auto simp: mem_backend_ops_def)
  qed (simp add: mem_backend_ops_def)
qed (auto simp: mem_backend_ops_def mb_insert_account_def mb_insert_channel_def mb_account_by_id_def mb_channel_by_id_def
      mb_ok_def typed_answer_def update_conv' distinct_update intro: ranI split: option.splits)

lemma td_insert_account_cases:
  assumes "faithful_codec ser de"
  shows "td_view de (snd (td_insert_account ser de a db)) \<in> {td_view de db, (td_view de db)(acc_id a \<mapsto> a)}"
proof -
  obtain bytes where "ser a = Some bytes" "de bytes = Some a" using assms by (auto simp: faithful_codec_def)
  then have "(\<lambda>i. Option.bind (((td_accounts db)(acc_id a \<mapsto> bytes)) i) de) = (td_view de db)(acc_id a \<mapsto> a)"
    by (intro ext) (simp add: td_view_def)
  then show ?thesis using \<open>ser a = Some bytes\<close>
    by (auto simp: td_insert_account_def Let_def td_view_def [abs_def] split: sum.split)
qed

lemma td_insert_channel_cases:
  assumes "faithful_codec ser de"
  shows "td_channels_view de (snd (td_insert_channel ser de c db)) \<in>
    {td_channels_view de db, (td_channels_view de db)(ch_id c \<mapsto> c)}"
proof -
  obtain bytes where "ser c = Some bytes" "de bytes = Some c" using assms by (auto simp: faithful_codec_def)
  then have "(\<lambda>i. Option.bind (((td_channels db)(ch_id c \<mapsto> bytes)) i) de) = (td_channels_view de db)(ch_id c \<mapsto> c)"
    by (intro ext) (simp add: td_channels_view_def)
  then show ?thesis using \<open>ser c = Some bytes\<close>
    by (auto simp: td_insert_channel_def td_channels_view_def [abs_def] split: sum.split)
qed

lemma read_back_typed: "typed_answer (\<lambda>a. Option.bind v de = Some a) (read_back de v)"
  by (auto simp: read_back_def typed_answer_def ok_or_def map_ok_def split: option.splits sum.splits)

text \<open>The temporary database, also when transactions fail.\<close>

lemma tempdb_typed_backend:
  assumes "faithful_codecs cs"
  shows "typed_backend (tempdb_ops cs) (td_view (de_account cs)) (td_channels_view (de_channel cs)) (\<lambda>_. True)"
proof
  have codec: "faithful_codec (ser_account cs) (de_account cs)" "faithful_codec (ser_channel cs) (de_channel cs)"
    using assms by (simp_all add: faithful_codecs_def)
  fix s :: "('a, 'c) tempdb" and a :: "('a, 'b) account_entry" and c i d j
  show "td_view (de_account cs) (snd (insert_account (tempdb_ops cs) a s)) \<in>
      {td_view (de_account cs) s, (td_view (de_account cs) s)(acc_id a \<mapsto> a)}"
    using td_insert_account_cases [OF codec(1), of a s] by (simp add: tempdb_ops_def)
  show "td_channels_view (de_channel cs) (snd (insert_channel (tempdb_ops cs) c s)) \<in>
      {td_channels_view (de_channel cs) s, (td_channels_view (de_channel cs) s)(ch_id c \<mapsto> c)}"
    using td_insert_channel_cases [OF codec(2), of c s] by (simp add: tempdb_ops_def)
  show "typed_answer (\<lambda>a. a \<in> ran (td_view (de_account cs) s)) (get_account_by_id (tempdb_ops cs) s i)"
    using typed_answer_mono [OF read_back_typed, of "td_accounts s i" "de_account cs" "\<lambda>a. a \<in> ran (td_view (de_account cs) s)"]
    by (auto simp: tempdb_ops_def td_account_by_id_def td_view_def ran_def)
  show "typed_answer (\<lambda>a. a \<in> ran (td_view (de_account cs) s)) (get_account_by_address (tempdb_ops cs) s d)"
    using typed_answer_mono [OF read_back_typed, of _ "de_account cs" "\<lambda>a. a \<in> ran (td_view (de_account cs) s)"]
    by (auto simp: tempdb_ops_def td_account_by_address_def td_view_def ran_def split: option.split)
  show "typed_answer (\<lambda>c. td_channels_view (de_channel cs) s j = Some c) (get_channel_by_id (tempdb_ops cs) s j)"
    using read_back_typed [of "td_channels s j" "de_channel cs"]
    by (simp add: tempdb_ops_def td_channel_by_id_def td_channels_view_def)
qed (auto simp: tempdb_ops_def td_insert_account_def td_insert_channel_def td_channels_view_def [abs_def]
      td_view_def [abs_def] Let_def split: option.splits sum.splits)

interpretation td_typed: typed_backend "tempdb_ops plain_codecs" "td_view (de_account plain_codecs)"
    "td_channels_view (de_channel plain_codecs)" "\<lambda>_. True"
  by (rule tempdb_typed_backend [OF plain_codecs_faithful])

section \<open>Type soundness\<close>

text \<open>
  C38. Type soundness of the index: whatever accounts and graph entries Blokli sends (also
  contradictory ones, ill-formed ones, and errors), with lookups, expiries and invalidations
  between them, over a database whose transactions may fail, every packet key that a lookup or a
  stream of accounts hands out was validated to lie on the curve, and every channel handed out
  for an id, or for two parties, has that id, and it is the one generated from its own parties.
\<close>

theorem index_well_typed:
  assumes "faithful_codecs cs" and "builder_keeps P"
    and "ix = fold (feed_step P (tempdb_ops cs)) items (index_new td_new)"
  shows "pred_option (\<lambda>k. is_ok (valid_key P k)) (fst (map_id_to_public (tempdb_ops cs) i ix)) \<and>
    typed_answer (\<lambda>k. is_ok (valid_key P k)) (fst (chain_key_to_packet_key conn (tempdb_ops cs) d ix)) \<and>
    list_all (\<lambda>a. is_ok (valid_key P (public_key a))) (build_account_stream (tempdb_ops cs) accepts ix) \<and>
    typed_answer (\<lambda>c. ch_id c = j \<and> ch_id c = generate_channel_id P (ch_source c) (ch_destination c))
      (fst (channel_by_id conn (tempdb_ops cs) j ix)) \<and>
    typed_answer (\<lambda>c. ch_id c = generate_channel_id P x y \<and>
        ch_id c = generate_channel_id P (ch_source c) (ch_destination c))
      (fst (channel_by_parties (generate_channel_id P) conn (tempdb_ops cs) x y ix))"
proof -
  note td = tempdb_typed_backend [OF assms(1)]
  note new = typed_backend.new_typed [OF td TrueI td_new_empty(2,3)]
  note typed = typed_backend.feed_typed [where xs = items, OF td assms(2) new, folded assms(3)]
  have "pred_option (key_typed P) (fst (map_id_to_public (tempdb_ops cs) i ix))"
    using typed_backend.id_to_public_typed [OF td typed, of i]
    by (cases "fst (map_id_to_public (tempdb_ops cs) i ix)") auto
  then show ?thesis
    using typed_backend.address_to_key_typed [OF td typed, of conn d] typed_backend.account_stream_typed [OF td typed]
      typed_backend.channel_id_typed [OF td typed, of j conn] typed_backend.channel_parties_typed [OF td typed, of x y conn]
    unfolding key_typed_def [abs_def] channel_typed_def by blast
qed

definition curve_parsers :: "(nat, nat, nat, nat, nat, nat, nat, nat) parsers" where
  "curve_parsers = sample_parsers\<lparr>parse_key := (\<lambda>s. Inr (length s)),
    valid_key := (\<lambda>k. if k = 1 then Inr () else Inl ''not on the curve''), generate_channel_id := pair_code\<rparr>"

definition raw_account :: "int \<Rightarrow> string \<Rightarrow> account_model" where
  "raw_account i key =
    \<lparr>m_keyid = i, m_packet_key = key, m_chain_key = ''ab'', m_multi_addresses = [], m_safe_address = None\<rparr>"

definition curve_index :: "(nat, nat, (nat, (nat, nat) account_entry + chain_channel) tempdb) chain_index" where
  "curve_index = fold (feed_step curve_parsers (tempdb_ops plain_codecs))
    [AccountItem (Inr (raw_account 7 ''k'')), AccountItem (Inr (raw_account 8 ''off'')), AccountItem (Inl (OtherKind ''lost''))]
    (index_new td_new)"

theorem index_well_typed_witness:
  "pred_option (\<lambda>k. is_ok (valid_key curve_parsers k))
      (fst (map_id_to_public (tempdb_ops plain_codecs) 7 curve_index)) \<and>
    fst (map_id_to_public (tempdb_ops plain_codecs) 7 curve_index) = Some 1 \<and>
    fst (map_id_to_public (tempdb_ops plain_codecs) 8 curve_index) = None"
proof -
  have keeps: "builder_keeps curve_parsers" by (simp add: builder_keeps_def curve_parsers_def sample_parsers_def)
  have "fst (map_id_to_public (tempdb_ops plain_codecs) 7 curve_index) = Some 1"
    and "fst (map_id_to_public (tempdb_ops plain_codecs) 8 curve_index) = None"
    by code_simp+
  then show ?thesis
    using index_well_typed [OF plain_codecs_faithful keeps curve_index_def, of 7 "Inr ()" 0 "\<lambda>_. True" 0 0 0] by blast
qed

end
