(* ===== verification/Subscription_Task.thy ===== *)
theory Subscription_Task
  imports Chain_Health Chain_Events
begin

text \<open>
  The loop of the subscription task (\<open>do_connect\<close> in \<open>connector/src/connector/mod.rs\<close>): six feeds
  are merged, each followed by the report of its end, health checks are polled alongside until all
  have ended, and every item is counted towards the synchronisation, then turned into the events
  it stands for. Which feed is polled when, and what the health handles say then, is the list of
  polls; a feed is here the list of its decoded items.
\<close>

section \<open>Items and the events they stand for\<close>

datatype ('k, 'm, 'w, 't, 'md) subscribed_event =
    AccountItemEvent "('k, 'm) account_entry" "('k, 'm) account_entry option"
  | ChannelItemEvent chain_channel "channel_change list option"
  | ParamItemEvent "'w param_event"
  | ServiceItemEvent "('t, 'md) service_event"

type_synonym ('k, 'm, 'w, 't, 'md) feed_result = "connector_error + ('k, 'm, 'w, 't, 'md) subscribed_event"

definition counts_as :: "('k, 'm, 'w, 't, 'md) subscribed_event \<Rightarrow> sync_event" where
  "counts_as ev =
    (case ev of AccountItemEvent _ _ \<Rightarrow> AccountSeen | ChannelItemEvent _ _ \<Rightarrow> ChannelSeen | _ \<Rightarrow> OtherSeen)"

definition broadcast_events ::
  "address \<Rightarrow> 'w prob_ops \<Rightarrow> ('k, 'm, 'w, 't, 'md) subscribed_event \<Rightarrow> ('k, 'm, 'w, 't, 'md) chain_event list"
where
  "broadcast_events me W ev =
    (case ev of
       AccountItemEvent new old \<Rightarrow> account_events new old
     | ChannelItemEvent c changes \<Rightarrow> channel_events me c changes
     | ParamItemEvent p \<Rightarrow> param_events W p
     | ServiceItemEvent e \<Rightarrow> [ServiceChanged e])"

text \<open>An error of a feed is logged.\<close>

definition result_events ::
  "address \<Rightarrow> 'w prob_ops \<Rightarrow> ('k, 'm, 'w, 't, 'md) feed_result \<Rightarrow> ('k, 'm, 'w, 't, 'md) chain_event list"
where
  "result_events me W r = (case r of Inr ev \<Rightarrow> broadcast_events me W ev | Inl _ \<Rightarrow> [])"

section \<open>The task\<close>

text \<open>The events sent are kept with the number of the feed they come from.\<close>

record ('k, 'm, 'w, 't, 'md) subscription_task =
  tk_feeds :: "('k, 'm, 'w, 't, 'md) feed_result list list"
  tk_ended :: "bool list"
  tk_health :: chain_health
  tk_previous :: "subscription_status option list"
  tk_progress :: sync_progress
  tk_sent :: "(nat \<times> ('k, 'm, 'w, 't, 'md) chain_event) list"
  tk_done :: bool
  tk_panicked :: bool

datatype feed_poll = PollFeed nat | PollCheck "subscription_status list"

definition task_start ::
  "u32 \<Rightarrow> u32 \<Rightarrow> chain_health \<Rightarrow> ('k, 'm, 'w, 't, 'md) feed_result list list \<Rightarrow> ('k, 'm, 'w, 't, 'md) subscription_task"
where
  "task_start ma mc h feeds =
    \<lparr>tk_feeds = feeds, tk_ended = map (\<lambda>_. False) feeds, tk_health = h, tk_previous = map (\<lambda>_. None) feeds,
     tk_progress = sync_start ma mc, tk_sent = [], tk_done = False, tk_panicked = False\<rparr>"

text \<open>\<open>set_subscription_health\<close> when nobody else stores meanwhile.\<close>

definition settle_health :: "bool \<Rightarrow> bool \<Rightarrow> chain_health \<Rightarrow> chain_health" where
  "settle_health any_failing any_ended h = unwrap_or h (chain_health_after_check h any_failing any_ended)"

definition update_health ::
  "subscription_status list \<Rightarrow> ('k, 'm, 'w, 't, 'md) subscription_task \<Rightarrow> ('k, 'm, 'w, 't, 'md) subscription_task"
where
  "update_health statuses tk =
    (case reduce_snapshots statuses (tk_previous tk) (False, False) of
       ((any_failing, any_ended), previous) \<Rightarrow>
         tk\<lparr>tk_health := settle_health any_failing any_ended (tk_health tk), tk_previous := previous\<rparr>)"

text \<open>The quota is looked at first, so a panic there loses the item.\<close>

definition take_item ::
  "address \<Rightarrow> 'w prob_ops \<Rightarrow> u32 \<Rightarrow> u32 \<Rightarrow> nat \<Rightarrow> ('k, 'm, 'w, 't, 'md) feed_result \<Rightarrow>
    ('k, 'm, 'w, 't, 'md) subscription_task \<Rightarrow> ('k, 'm, 'w, 't, 'md) subscription_task"
where
  "take_item me W ma mc k r tk =
    (case r of
       Inl _ \<Rightarrow> tk
     | Inr ev \<Rightarrow>
         (case sync_step ma mc (counts_as ev) (tk_progress tk) of
            None \<Rightarrow> tk\<lparr>tk_done := True, tk_panicked := True\<rparr>
          | Some p \<Rightarrow>
              tk\<lparr>tk_progress := p, tk_sent := tk_sent tk @ map (Pair k) (broadcast_events me W ev)\<rparr>))"

text \<open>
  One poll. \<open>with_subscription_end\<close>: a feed that is at its end stores that. \<open>with_health_checks\<close>:
  after the end of all feeds the next poll of them ends the loop, which stores the end once more.
\<close>

definition task_poll ::
  "address \<Rightarrow> 'w prob_ops \<Rightarrow> u32 \<Rightarrow> u32 \<Rightarrow> feed_poll \<Rightarrow>
    ('k, 'm, 'w, 't, 'md) subscription_task \<Rightarrow> ('k, 'm, 'w, 't, 'md) subscription_task"
where
  "task_poll me W ma mc pl tk =
    (if tk_done tk then tk
     else
       (case pl of
          PollCheck statuses \<Rightarrow> update_health statuses tk
        | PollFeed k \<Rightarrow>
            if list_all id (tk_ended tk) then
              tk\<lparr>tk_done := True, tk_health := settle_health False True (tk_health tk)\<rparr>
            else if length (tk_feeds tk) \<le> k \<or> tk_ended tk ! k then tk
            else
              (case tk_feeds tk ! k of
                 [] \<Rightarrow> tk\<lparr>tk_ended := (tk_ended tk)[k := True], tk_health := settle_health False True (tk_health tk)\<rparr>
               | r # rest \<Rightarrow> take_item me W ma mc k r (tk\<lparr>tk_feeds := (tk_feeds tk)[k := rest]\<rparr>))))"

section \<open>Nothing is lost\<close>

definition alive_health :: "chain_health \<Rightarrow> bool" where
  "alive_health h \<longleftrightarrow> h \<in> {Connecting, Ready, SubscriptionDegraded}"

lemma settle_end: "\<not> alive_health (settle_health False True h)"
  by (cases h) (simp_all add: alive_health_def settle_health_def chain_health_after_check_def)

lemma settle_dead: "\<not> alive_health h \<Longrightarrow> settle_health f e h = h"
  by (cases h) (simp_all add: alive_health_def settle_health_def chain_health_after_check_def)

text \<open>It is what the loop of \<open>Chain_Health\<close> stores when it runs alone.\<close>

lemma drive_settles:
  "drive (Loading any_failing any_ended final) h [None, None] = (resume final, settle_health any_failing any_ended h)"
  by (cases "chain_health_after_check h any_failing any_ended")
    (auto simp: loop_step_def loop_head_def settle_health_def resume_def)

text \<open>The events of one feed.\<close>

definition sent_by :: "nat \<Rightarrow> (nat \<times> 'e) list \<Rightarrow> 'e list" where
  "sent_by k xs = map snd (filter (\<lambda>(j, _). j = k) xs)"

lemma sent_by_append: "sent_by k (xs @ ys) = sent_by k xs @ sent_by k ys"
  by (simp add: sent_by_def)

lemma sent_by_own: "sent_by k (map (Pair j) es) = (if j = k then es else [])"
  by (induction es) (auto simp: sent_by_def)

text \<open>What the events of a feed sent so far and those of its remaining items make together.\<close>

definition total_events ::
  "address \<Rightarrow> 'w prob_ops \<Rightarrow> nat \<Rightarrow> ('k, 'm, 'w, 't, 'md) subscription_task \<Rightarrow> ('k, 'm, 'w, 't, 'md) chain_event list"
where
  "total_events me W k tk = sent_by k (tk_sent tk) @ concat (map (result_events me W) (tk_feeds tk ! k))"

definition task_ok ::
  "address \<Rightarrow> 'w prob_ops \<Rightarrow> u32 \<Rightarrow> u32 \<Rightarrow> ('k, 'm, 'w, 't, 'md) feed_result list list \<Rightarrow>
    ('k, 'm, 'w, 't, 'md) subscription_task \<Rightarrow> bool"
where
  "task_ok me W ma mc feeds tk \<longleftrightarrow>
    length (tk_feeds tk) = length feeds \<and> length (tk_ended tk) = length feeds \<and> \<not> tk_panicked tk \<and>
    (ready_sent (tk_progress tk) \<or> ma + mc \<noteq> 0) \<and>
    (\<forall>k < length feeds. total_events me W k tk = concat (map (result_events me W) (feeds ! k))) \<and>
    (\<forall>k < length feeds. tk_ended tk ! k \<longrightarrow> tk_feeds tk ! k = [] \<and> \<not> alive_health (tk_health tk)) \<and>
    (tk_done tk \<longrightarrow> list_all id (tk_ended tk) \<and> \<not> alive_health (tk_health tk))"

lemma sync_step_returns:
  assumes "ready_sent p \<or> ma + mc \<noteq> 0"
  shows "\<exists>p'. sync_step ma mc ev p = Some p' \<and> (ready_sent p' \<or> ma + mc \<noteq> 0)"
  using assms by (auto simp: sync_step_def pct_synced_def Let_def)

lemma take_item_ok:
  assumes "task_ok me W ma mc feeds tk" and "k < length feeds" and "tk_feeds tk ! k = r # rest" and "\<not> tk_done tk"
  shows "task_ok me W ma mc feeds (take_item me W ma mc k r (tk\<lparr>tk_feeds := (tk_feeds tk)[k := rest]\<rparr>))"
proof (cases r)
  case (Inl e)
  then show ?thesis using assms
    by (auto simp: task_ok_def take_item_def total_events_def result_events_def nth_list_update)
next
  case (Inr ev)
  obtain p' where "sync_step ma mc (counts_as ev) (tk_progress tk) = Some p'" "ready_sent p' \<or> ma + mc \<noteq> 0"
    using sync_step_returns assms(1) by (metis task_ok_def)
  then show ?thesis using assms Inr
    by (auto simp: task_ok_def take_item_def total_events_def result_events_def nth_list_update sent_by_append sent_by_own)
qed

lemma task_poll_ok:
  assumes "task_ok me W ma mc feeds tk"
  shows "task_ok me W ma mc feeds (task_poll me W ma mc pl tk)"
proof (cases "tk_done tk")
  case True
  then show ?thesis using assms by (simp add: task_poll_def)
next
  case False
  show ?thesis
  proof (cases pl)
    case (PollCheck ss)
    obtain f e ps where "reduce_snapshots ss (tk_previous tk) (False, False) = ((f, e), ps)" by (metis surj_pair)
    then show ?thesis using assms False PollCheck
      by (auto simp: task_poll_def update_health_def task_ok_def total_events_def settle_dead)
  next
    case (PollFeed k)
    show ?thesis
    proof (cases "list_all id (tk_ended tk) \<or> length (tk_feeds tk) \<le> k \<or> tk_ended tk ! k")
      case True
      then show ?thesis using assms False PollFeed settle_end
        by (auto simp: task_poll_def task_ok_def total_events_def)
    next
      case go: False
      then have k: "k < length feeds" using assms by (simp add: task_ok_def)
      show ?thesis
      proof (cases "tk_feeds tk ! k")
        case Nil
        then show ?thesis using assms False PollFeed go settle_end
          by (auto simp: task_poll_def task_ok_def total_events_def nth_list_update)
      next
        case (Cons r rest)
        then show ?thesis using take_item_ok [OF assms k Cons False] False PollFeed go by (simp add: task_poll_def)
      qed
    qed
  qed
qed

lemma task_start_ok:
  assumes "unat ma + unat mc < 2 ^ 32"
  shows "task_ok me W ma mc feeds (task_start ma mc h feeds)"
proof -
  have "ma + mc = 0 \<Longrightarrow> ma = 0 \<and> mc = 0"
  proof -
    assume "ma + mc = 0"
    moreover have "unat (ma + mc) = unat ma + unat mc" using assms by (simp add: unat_word_ariths)
    ultimately have "unat ma + unat mc = 0" by simp
    then show ?thesis by (simp add: unat_eq_0)
  qed
  then show ?thesis by (auto simp: task_ok_def task_start_def total_events_def sent_by_def sync_start_def)
qed

lemma task_run_ok:
  "task_ok me W ma mc feeds tk \<Longrightarrow> task_ok me W ma mc feeds (fold (task_poll me W ma mc) pls tk)"
  by (induction pls arbitrary: tk) (simp_all add: task_poll_ok)


definition sample_feeds :: "(nat, nat, nat, nat, nat) feed_result list list" where
  "sample_feeds =
    [[Inr (ServiceItemEvent (RegistryPointerChanged 5)), Inl BadTicket, Inr (ServiceItemEvent (Deregistered 1 2))],
     [Inr (ParamItemEvent (PriceEvent 9 None))]]"

definition plain_probs :: "nat prob_ops" where
  "plain_probs = \<lparr>approx_eq = (=), approx_less = (<), default_prob = 0\<rparr>"


end
