(* ===== verification/Probe_Schedule.thy ===== *)
theory Probe_Schedule
  imports Complex_Main Edge_Attribution
begin

text \<open>
  The probing schedules of \<open>ct/full-network\<close> (\<open>config.rs\<close>, \<open>priority.rs\<close>, \<open>discovery.rs\<close>) and
  \<open>ct/immediate\<close> (\<open>lib.rs\<close>) over the channel graph. A schedule is its list of ticks; the weighted
  shuffle of \<open>hopr_utils\<close> and the pseudonyms are parameters, a packet route holds at most
  \<open>pe_max_hops\<close> intermediate nodes (the bounded vector of \<open>hopr_api\<close>).
\<close>

section \<open>Configuration\<close>

record 'f prober_config =
  pc_interval :: nat
  pc_staleness :: 'f
  pc_quality :: 'f
  pc_base :: 'f
  pc_shuffle_ttl :: nat
  pc_connected_only :: bool

definition default_probing_interval :: nat where "default_probing_interval = 30 * 10 ^ 9"

definition default_shuffle_ttl :: nat where
  "default_shuffle_ttl = default_probing_interval div 10 ^ 9 * 2 * 10 ^ 9"

definition prober_default :: "('f, 'e, 'r) floats \<Rightarrow> 'f prober_config" where
  "prober_default F = \<lparr>pc_interval = default_probing_interval, pc_staleness = fl_lit F 4 10, pc_quality = fl_lit F 3 10,
     pc_base = fl_lit F 3 10, pc_shuffle_ttl = default_shuffle_ttl, pc_connected_only = True\<rparr>"

definition in_unit :: "('f, 'e, 'r) floats \<Rightarrow> 'f \<Rightarrow> bool" where
  "in_unit F x \<longleftrightarrow> fl_ge F x (fl_zero F) \<and> fl_ge F (fl_one F) x"

definition validation_errors :: "('f, 'e, 'r) floats \<Rightarrow> 'f prober_config \<Rightarrow> string list" where
  "validation_errors F cfg =
     (if \<not> in_unit F (pc_staleness cfg) then [''staleness_weight''] else []) @
     (if \<not> in_unit F (pc_quality cfg) then [''quality_weight''] else []) @
     (if \<not> in_unit F (pc_base cfg) then [''base_priority''] else []) @
     (if fl_ge F (fl_zero F) (fl_add F (fl_add F (pc_staleness cfg) (pc_quality cfg)) (pc_base cfg))
      then [''weights''] else [])"

datatype config_error = InvalidConfig "string list" | IntervalTooShort nat nat

definition validate_against_probe_timeout :: "('f, 'e, 'r) floats \<Rightarrow> nat \<Rightarrow> 'f prober_config \<Rightarrow> config_error + unit" where
  "validate_against_probe_timeout F probe_timeout cfg =
     (if validation_errors F cfg \<noteq> [] then Inl (InvalidConfig (validation_errors F cfg))
      else if pc_interval cfg < probe_timeout then Inl (IntervalTooShort (pc_interval cfg) probe_timeout)
      else Inr ())"

section \<open>Priority\<close>

definition max_staleness_secs :: "('f, 'e, 'r) floats \<Rightarrow> 'f" where "max_staleness_secs F = fl_lit F 300 1"

text \<open>\<open>sub\<close> is the subtraction of doubles.\<close>

definition immediate_probe_priority ::
  "('f, 'e, 'r) floats \<Rightarrow> ('f \<Rightarrow> 'f \<Rightarrow> 'f) \<Rightarrow> 'f prober_config \<Rightarrow> 'f \<Rightarrow> nat \<Rightarrow> nat \<Rightarrow> 'f"
where
  "immediate_probe_priority F sub cfg score last_update now =
     (let staleness_secs =
        (if last_update = 0 then max_staleness_secs F
         else fl_min F (as_secs_f64 F (now - last_update)) (max_staleness_secs F));
          normalized_staleness = fl_div F staleness_secs (max_staleness_secs F);
          inverse_quality = sub (fl_one F) (fl_clamp F score (fl_zero F) (fl_one F))
      in fl_add F (fl_add F (fl_mul F (pc_staleness cfg) normalized_staleness) (fl_mul F (pc_quality cfg) inverse_quality))
           (pc_base cfg))"

section \<open>Loopback probes\<close>

definition strip_loopback_endpoints :: "'k list \<Rightarrow> 'k \<Rightarrow> 'k list" where
  "strip_loopback_endpoints path me =
     (let path = (if path \<noteq> [] \<and> last path = me then butlast path else path)
      in if path \<noteq> [] \<and> hd path = me then tl path else path)"

text \<open>A route forward through the given nodes back to \<open>me\<close>, under a fresh pseudonym.\<close>

record 'k loop_route =
  lr_destination :: 'k
  lr_intermediates :: "'k list"

definition loopback_routing :: "nat \<Rightarrow> 'k \<Rightarrow> 'k list \<Rightarrow> 'k loop_route option" where
  "loopback_routing max_hops me path =
     (if length path \<le> max_hops then Some \<lparr>lr_destination = me, lr_intermediates = path\<rparr> else None)"

definition loopback_hop_counts :: "('k, 'o) path_env \<Rightarrow> nat list" where
  "loopback_hop_counts E = [min_loopback_hops, pe_max_hops E]"

text \<open>
  One tick of \<open>loopback_path_stream\<close>: for either hop count at most 100 loops of the graph, shuffled.
  \<open>loops\<close> is \<open>simple_loopback_to_self\<close> on the graph at that time.
\<close>

fun loopback_paths ::
  "(nat \<Rightarrow> (('k list \<times> u64 list) \<times> 'f) list \<Rightarrow> ('k list \<times> u64 list) list) \<Rightarrow> 'f prober_config \<Rightarrow>
    (nat \<Rightarrow> nat option \<Rightarrow> ('k list \<times> u64 list) list option) \<Rightarrow> nat list \<Rightarrow> ('k list \<times> u64 list) list option"
where
  "loopback_paths shuffled cfg loops [] = Some []"
| "loopback_paths shuffled cfg loops (hops # rest) =
     (if hops = 0 then loopback_paths shuffled cfg loops rest
      else
        Option.bind (loops hops (Some 100)) (\<lambda>paths.
          map_option (\<lambda>ps. shuffled hops (map (\<lambda>p. (p, pc_base cfg)) paths) @ ps)
            (loopback_paths shuffled cfg loops rest)))"

text \<open>The probes made of them: the stripped route, with the identifier of the loop.\<close>

definition looping_probes :: "nat \<Rightarrow> 'k \<Rightarrow> ('k list \<times> u64 list) list \<Rightarrow> ('k loop_route \<times> u64 list) list" where
  "looping_probes max_hops me paths =
     List.map_filter (\<lambda>(path, path_id).
       map_option (\<lambda>r. (r, path_id)) (loopback_routing max_hops me (strip_loopback_endpoints path me))) paths"

text \<open>Cover traffic: the same routes when the feature \<open>noise\<close> is on, none otherwise.\<close>

definition cover_routes :: "bool \<Rightarrow> nat \<Rightarrow> 'k \<Rightarrow> ('k list \<times> u64 list) list \<Rightarrow> 'k loop_route list" where
  "cover_routes noise max_hops me paths =
     (if noise then
        List.map_filter (\<lambda>(path, _). loopback_routing max_hops me (strip_loopback_endpoints path me)) paths
      else [])"

text \<open>With the feature it goes along exactly the loops that are probed.\<close>

lemma cover_routes_probed: "cover_routes True max_hops me paths = map fst (looping_probes max_hops me paths)"
  by (induction paths) (auto simp: cover_routes_def looping_probes_def List.map_filter_simps split: option.split)

section \<open>Neighbour probes\<close>

text \<open>The state of the stream: the cached batch and the instant it was made.\<close>

record 'k shuffle_cache =
  sc_probes :: "'k list"
  sc_created_at :: nat

definition known_down :: "('f, 'e, 'r, 'b) observations option \<Rightarrow> bool" where
  "known_down obs \<longleftrightarrow> Option.bind obs edge_connected = Some False"

definition probe_weight ::
  "('f, 'e, 'r) floats \<Rightarrow> ('f \<Rightarrow> 'f \<Rightarrow> 'f) \<Rightarrow> 'f prober_config \<Rightarrow> clocks \<Rightarrow> ('f, 'e, 'r, 'b) observations option \<Rightarrow> 'f"
where
  "probe_weight F sub cfg now obs =
     (case obs of
        Some ob \<Rightarrow>
          immediate_probe_priority F sub cfg (unwrap_or (fl_zero F) (observed_score F (ck_instant now) ob))
            (ob_last_update ob) (ck_wall now)
      | None \<Rightarrow> immediate_probe_priority F sub cfg (fl_zero F) 0 (ck_wall now))"

definition weighted_neighbors ::
  "('f, 'e, 'r) floats \<Rightarrow> ('f \<Rightarrow> 'f \<Rightarrow> 'f) \<Rightarrow> 'f prober_config \<Rightarrow> 'k \<Rightarrow> clocks \<Rightarrow>
    ('k, ('f, 'e, 'r, 'b) observations) inner_graph \<Rightarrow> ('k \<times> 'f) list"
where
  "weighted_neighbors F sub cfg me now g =
     List.map_filter (\<lambda>peer.
       let obs = edge_between g me peer
       in if pc_connected_only cfg \<and> known_down obs then None
          else Some (peer, probe_weight F sub cfg now obs))
       (filter (\<lambda>peer. peer \<noteq> me) (graph_nodes g))"

text \<open>One tick: the batch that is emitted and the cache afterwards.\<close>

definition immediate_tick ::
  "(nat \<Rightarrow> ('k \<times> 'f) list \<Rightarrow> 'k list) \<Rightarrow> ('f, 'e, 'r) floats \<Rightarrow> ('f \<Rightarrow> 'f \<Rightarrow> 'f) \<Rightarrow> 'f prober_config \<Rightarrow> 'k \<Rightarrow>
    clocks \<times> ('k, ('f, 'e, 'r, 'b) observations) inner_graph \<Rightarrow> 'k shuffle_cache option \<Rightarrow>
    'k list \<times> 'k shuffle_cache"
where
  "immediate_tick shuffled F sub cfg me = (\<lambda>(now, g) cache.
     (let fresh = \<lparr>sc_probes = shuffled (ck_instant now) (weighted_neighbors F sub cfg me now g),
                   sc_created_at = ck_instant now\<rparr>;
          current = (case cache of
              None \<Rightarrow> fresh
            | Some c \<Rightarrow>
                if sc_probes c = [] \<or> pc_shuffle_ttl cfg \<le> ck_instant now - sc_created_at c then fresh else c)
      in (sc_probes current, current)))"

fun immediate_stream ::
  "(nat \<Rightarrow> ('k \<times> 'f) list \<Rightarrow> 'k list) \<Rightarrow> ('f, 'e, 'r) floats \<Rightarrow> ('f \<Rightarrow> 'f \<Rightarrow> 'f) \<Rightarrow> 'f prober_config \<Rightarrow> 'k \<Rightarrow>
    (clocks \<times> ('k, ('f, 'e, 'r, 'b) observations) inner_graph) list \<Rightarrow> 'k shuffle_cache option \<Rightarrow> 'k list list"
where
  "immediate_stream shuffled F sub cfg me [] cache = []"
| "immediate_stream shuffled F sub cfg me (t # ts) cache =
     (case immediate_tick shuffled F sub cfg me t cache of
        (batch, c) \<Rightarrow> batch # immediate_stream shuffled F sub cfg me ts (Some c))"

section \<open>The immediate neighbour prober\<close>

text \<open>
  \<open>ct/immediate\<close>: after each interval every node the graph had before it, with the routing (its
  pseudonym) that is kept for the node while the cache has it.
\<close>

record immediate_config =
  im_interval :: nat
  im_recheck_threshold :: nat

definition default_repeated_probing_delay :: nat where "default_repeated_probing_delay = 5 * 10 ^ 9"

definition default_probe_recheck_threshold :: nat where "default_probe_recheck_threshold = 60 * 10 ^ 9"

definition immediate_default :: immediate_config where
  "immediate_default = \<lparr>im_interval = default_repeated_probing_delay,
     im_recheck_threshold = default_probe_recheck_threshold\<rparr>"

record 'k probe =
  pb_destination :: 'k
  pb_pseudonym :: nat

fun probe_nodes :: "(nat \<Rightarrow> nat) \<Rightarrow> nat \<Rightarrow> 'k list \<Rightarrow> ('k \<Rightarrow> nat option) \<Rightarrow> 'k probe list \<times> ('k \<Rightarrow> nat option)" where
  "probe_nodes random n [] cache = ([], cache)"
| "probe_nodes random n (k # ks) cache =
     (let p = unwrap_or (random n) (cache k)
      in (case probe_nodes random (n + 1) ks (cache(k \<mapsto> p)) of
            (ps, cache') \<Rightarrow> (\<lparr>pb_destination = k, pb_pseudonym = p\<rparr> # ps, cache')))"

definition immediate_round ::
  "(nat \<Rightarrow> nat) \<Rightarrow> ('k, 'o) inner_graph \<Rightarrow> ('k \<Rightarrow> nat option) \<Rightarrow> 'k probe list \<times> ('k \<Rightarrow> nat option)"
where
  "immediate_round random g cache = probe_nodes random 0 (graph_nodes g) cache"

section \<open>Whom a tick probes\<close>

definition eligible :: "'f prober_config \<Rightarrow> 'k \<Rightarrow> ('k, ('f, 'e, 'r, 'b) observations) inner_graph \<Rightarrow> 'k set" where
  "eligible cfg me g = {peer \<in> keys g. peer \<noteq> me \<and> \<not> (pc_connected_only cfg \<and> known_down (links g (me, peer)))}"

lemma map_fst_filtered:
  "map fst (List.map_filter (\<lambda>x. if P x then None else Some (x, f x)) xs) = filter (\<lambda>x. \<not> P x) xs"
  by (induction xs) (simp_all add: List.map_filter_simps)

lemma weighted_peers:
  assumes "graph_ok bytes g"
  shows "distinct (map fst (weighted_neighbors F sub cfg me now g))"
    and "set (map fst (weighted_neighbors F sub cfg me now g)) = eligible cfg me g"
  unfolding weighted_neighbors_def Let_def map_fst_filtered
  using view_refines(2,3,6) [OF assms] by (auto simp: eligible_def)

definition batch_of :: "'f prober_config \<Rightarrow> 'k \<Rightarrow> clocks \<times> ('k, ('f, 'e, 'r, 'b) observations) inner_graph \<Rightarrow> 'k list \<Rightarrow> bool" where
  "batch_of cfg me t ps \<longleftrightarrow> distinct ps \<and> set ps = eligible cfg me (snd t)"

definition cache_from ::
  "'f prober_config \<Rightarrow> 'k \<Rightarrow> (clocks \<times> ('k, ('f, 'e, 'r, 'b) observations) inner_graph) list \<Rightarrow>
    'k shuffle_cache option \<Rightarrow> bool"
where
  "cache_from cfg me past cache \<longleftrightarrow>
     (case cache of None \<Rightarrow> True
      | Some c \<Rightarrow> \<exists>t\<in>set past. batch_of cfg me t (sc_probes c) \<and> sc_created_at c = ck_instant (fst t))"

definition in_time :: "'f prober_config \<Rightarrow> clocks \<times> 'g \<Rightarrow> clocks \<times> 'g \<Rightarrow> bool" where
  "in_time cfg u t \<longleftrightarrow> u = t \<or> ck_instant (fst t) - ck_instant (fst u) < pc_shuffle_ttl cfg"

lemma tick_batch:
  assumes sh: "\<And>n ws. mset (shuffled n ws) = mset (map fst ws)" and ok: "graph_ok bytes (snd t)"
    and from_past: "cache_from cfg me past cache"
    and tick: "immediate_tick shuffled F sub cfg me t cache = (batch, c)"
  shows "cache_from cfg me (past @ [t]) (Some c) \<and>
    (\<exists>u\<in>set (past @ [t]). batch_of cfg me u batch \<and> in_time cfg u t)"
proof -
  obtain now g where t: "t = (now, g)" by fastforce
  let ?fresh = "\<lparr>sc_probes = shuffled (ck_instant now) (weighted_neighbors F sub cfg me now g), sc_created_at = ck_instant now\<rparr>"
  let ?ws = "weighted_neighbors F sub cfg me now g"
  have "graph_ok bytes g" using ok by (simp add: t)
  then have "distinct (map fst ?ws)" "set (map fst ?ws) = eligible cfg me g" by (rule weighted_peers)+
  then have "batch_of cfg me t (sc_probes ?fresh)"
    using mset_eq_imp_distinct_iff [OF sh [of "ck_instant now" ?ws]] mset_eq_setD [OF sh [of "ck_instant now" ?ws]]
    by (simp add: batch_of_def t)
  moreover have "batch = sc_probes c" using tick by (auto simp: immediate_tick_def t Let_def)
  moreover have "c = ?fresh \<or> (cache = Some c \<and> ck_instant now - sc_created_at c < pc_shuffle_ttl cfg)"
    using tick by (auto simp: immediate_tick_def t Let_def split: option.splits if_splits)
  ultimately consider "batch_of cfg me t batch" "sc_created_at c = ck_instant now" "batch = sc_probes c"
    | u where "u \<in> set past" "batch_of cfg me u batch" "in_time cfg u t" "sc_created_at c = ck_instant (fst u)"
        "batch = sc_probes c"
    using from_past unfolding cache_from_def in_time_def t by fastforce
  then show ?thesis
  proof cases
    case 1
    then show ?thesis by (auto simp: cache_from_def in_time_def t)
  next
    case 2
    then show ?thesis by (auto simp: cache_from_def)
  qed
qed

lemma stream_batches:
  assumes sh: "\<And>n ws. mset (shuffled n ws) = mset (map fst ws)"
  shows "list_all (\<lambda>t. graph_ok bytes (snd t)) ts \<Longrightarrow> cache_from cfg me past cache \<Longrightarrow> i < length ts \<Longrightarrow>
    \<exists>u\<in>set (past @ take (Suc i) ts). batch_of cfg me u (immediate_stream shuffled F sub cfg me ts cache ! i) \<and>
      in_time cfg u (ts ! i)"
proof (induction ts arbitrary: past cache i)
  case (Cons t ts)
  obtain batch c where tick: "immediate_tick shuffled F sub cfg me t cache = (batch, c)" by fastforce
  have ok: "graph_ok bytes (snd t)" using Cons.prems(1) by simp
  note now = tick_batch [OF sh ok Cons.prems(2) tick]
  show ?case
  proof (cases i)
    case 0
    then show ?thesis using now tick by simp
  next
    case (Suc j)
    then show ?thesis
      using Cons.IH [of "past @ [t]" "Some c" j] Cons.prems(1,3) now tick by simp
  qed
qed simp

text \<open>
  C33. A tick probes the peers of a graph no older than the shuffle's lifetime. Each batch has, once
  each, exactly the peers that were eligible in the graph of the same tick or of an earlier one
  within that time: all known nodes but ourselves and, when only connected peers are wanted, but
  those observed to be down. A peer that was never checked is probed.
\<close>

theorem neighbor_probes_fresh:
  assumes "\<And>n ws. mset (shuffled n ws) = mset (map fst ws)"
    and "list_all (\<lambda>t. graph_ok bytes (snd t)) ticks" and "i < length ticks"
  shows "\<exists>u\<in>set (take (Suc i) ticks).
    distinct (immediate_stream shuffled F sub cfg me ticks None ! i) \<and>
    set (immediate_stream shuffled F sub cfg me ticks None ! i) = eligible cfg me (snd u) \<and>
    (u = ticks ! i \<or> ck_instant (fst (ticks ! i)) - ck_instant (fst u) < pc_shuffle_ttl cfg)"
  using stream_batches [OF assms(1,2), where past = "[]" and cache = None and i = i and cfg = cfg and me = me
      and F = F and sub = sub] assms(3)
  by (simp add: cache_from_def batch_of_def in_time_def)

text \<open>Two ticks over the sample graph, in which no edge was ever checked and node 6 has no edge from us.\<close>

theorem neighbor_probes_fresh_witness:
  "set (immediate_stream (\<lambda>n. map fst) sample_floats (-) (prober_default sample_floats) 3
      [(\<lparr>ck_wall = 5, ck_instant = 5\<rparr>, cg_inner obs_graph), (\<lparr>ck_wall = 9, ck_instant = 9\<rparr>, cg_inner obs_graph)] None ! 1) = {5, 6}"
proof -
  have "eligible (prober_default sample_floats) 3 (cg_inner obs_graph) = {5, 6}"
    using obs_graph_fields(4,5)
    by (auto simp: eligible_def known_down_def edge_connected_def observations_default_def)
  then show ?thesis
    using neighbor_probes_fresh [of "\<lambda>n. map fst" "pe_bytes obs_paths"
        "[(\<lparr>ck_wall = 5, ck_instant = 5\<rparr>, cg_inner obs_graph), (\<lparr>ck_wall = 9, ck_instant = 9\<rparr>, cg_inner obs_graph)]"
        1 sample_floats "(-)" "prober_default sample_floats" 3] obs_graph_fields(3)
    by auto
qed

section \<open>Loops are routable\<close>

lemma strip_loop: "distinct (me # ms) \<Longrightarrow> strip_loopback_endpoints (ms @ [me]) me = ms"
  by (cases ms) (auto simp: strip_loopback_endpoints_def)

text \<open>A loop as the graph gives it: through distinct nodes other than \<open>me\<close>, along links, closed by one not known to be down.\<close>

definition loop_of ::
  "('k, 'o) path_env \<Rightarrow> ('o \<Rightarrow> bool option) \<Rightarrow> ('k, 'o) inner_graph \<Rightarrow> 'k \<Rightarrow> nat \<Rightarrow> 'k list \<Rightarrow> u64 list \<Rightarrow> bool"
where
  "loop_of E up g me hops ms path_id \<longleftrightarrow> length ms = hops \<and> distinct (me # ms) \<and>
     (\<exists>ws. key_walk (links g) me ms ws) \<and> (\<exists>w. links g (last ms, me) = Some w \<and> up w \<noteq> Some False) \<and>
     path_id = padded E (me # ms @ [me])"

definition looped :: "('k, 'o) path_env \<Rightarrow> ('o \<Rightarrow> bool option) \<Rightarrow> ('k, 'o) inner_graph \<Rightarrow> 'k \<Rightarrow> nat list \<Rightarrow> 'k list \<times> u64 list \<Rightarrow> bool" where
  "looped E up g me hs p \<longleftrightarrow> (\<exists>hops\<in>set hs. \<exists>ms. fst p = ms @ [me] \<and> loop_of E up g me hops ms (snd p))"

lemma loopback_found:
  assumes ok: "graph_ok (pe_bytes E) g" and me: "me \<in> keys g"
    and sh: "\<And>k es. mset (pe_shuffle E k es) = mset es"
  shows "\<exists>rs. simple_loopback_to_self E up lt LF me g hops (Some n) = Some rs \<and> list_all (looped E up g me [hops]) rs"
proof -
  from loopback_set [OF ok me sh, of up lt LF hops] obtain all where
    all: "simple_loopback_to_self E up lt LF me g hops None = Some all"
    and iff: "\<forall>ns pid. (ns, pid) \<in> set all \<longleftrightarrow> min_loopback_hops \<le> hops \<and> hops \<le> pe_max_hops E \<and> hops + 1 < pe_slots E \<and>
      (\<exists>ms ws. ns = ms @ [me] \<and> pid = padded E (me # ms @ [me]) \<and> length ms = hops \<and> distinct (me # ms) \<and>
         key_walk (links g) me ms ws \<and> stays_above lt (LF (hops + 1)) (vf_initial (LF (hops + 1))) 0 ws \<and>
         (\<exists>w. links g (last ms, me) = Some w \<and> up w \<noteq> Some False))" by blast
  have mem: "\<exists>ms. ns = ms @ [me] \<and> loop_of E up g me hops ms pid" if "(ns, pid) \<in> set all" for ns pid
    using iff [THEN spec, of ns, THEN spec, of pid] that unfolding loop_of_def by blast
  obtain rs where rs: "simple_loopback_to_self E up lt LF me g hops (Some n) = Some rs"
    using all unfolding simple_loopback_to_self_def by (auto simp: find_paths_take split: if_splits option.splits)
  have "looped E up g me [hops] x" if "x \<in> set rs" for x
    using loopback_take [OF rs that] all mem [of "fst x" "snd x"] by (simp add: looped_def)
  with rs show ?thesis by (auto simp: list_all_iff)
qed

lemma loopback_paths_found:
  assumes ok: "graph_ok (pe_bytes E) g" and me: "me \<in> keys g"
    and sh: "\<And>k es. mset (pe_shuffle E k es) = mset es"
    and mix: "\<And>n ws. set (shuffled n ws) \<subseteq> fst ` set ws"
  shows "\<exists>ps. loopback_paths shuffled cfg (simple_loopback_to_self E up lt LF me g) hs = Some ps \<and>
    list_all (looped E up g me hs) ps"
proof (induction hs)
  case (Cons h hs)
  then obtain ps where ps: "loopback_paths shuffled cfg (simple_loopback_to_self E up lt LF me g) hs = Some ps"
    "list_all (looped E up g me hs) ps" by blast
  from loopback_found [OF ok me sh, of up lt LF h 100] obtain rs where
    rs: "simple_loopback_to_self E up lt LF me g h (Some 100) = Some rs" "list_all (looped E up g me [h]) rs" by blast
  have "set (shuffled h (map (\<lambda>p. (p, pc_base cfg)) rs)) \<subseteq> set rs"
    using mix [of h "map (\<lambda>p. (p, pc_base cfg)) rs"] by auto
  then have "list_all (looped E up g me (h # hs)) (shuffled h (map (\<lambda>p. (p, pc_base cfg)) rs) @ ps)"
    using rs(2) ps(2) by (auto simp: list_all_iff looped_def)
  then show ?case using rs(1) ps by (auto simp: list_all_iff looped_def)
qed simp

text \<open>
  C34. No loop is lost on the way to the packet: for every well-formed graph with at least two
  hops to a packet, each loop the schedule draws becomes a probe, routed back to ourselves through
  the two or the most intermediate nodes, distinct and not ourselves, along links of the graph, with
  the identifier that names the closed loop.
\<close>

theorem loopback_probes_routable:
  assumes "graph_ok (pe_bytes E) g" and "me \<in> keys g" and "\<And>k es. mset (pe_shuffle E k es) = mset es"
    and "\<And>n ws. set (shuffled n ws) \<subseteq> fst ` set ws" and "min_loopback_hops \<le> pe_max_hops E"
  shows "\<exists>ps. loopback_paths shuffled cfg (simple_loopback_to_self E up lt LF me g) (loopback_hop_counts E) = Some ps \<and>
    length (looping_probes (pe_max_hops E) me ps) = length ps \<and>
    list_all (\<lambda>(r, path_id). lr_destination r = me \<and>
      (\<exists>hops\<in>{2, pe_max_hops E}. loop_of E up g me hops (lr_intermediates r) path_id)) (looping_probes (pe_max_hops E) me ps)"
proof -
  have counts: "loopback_hop_counts E = [2, pe_max_hops E]" by (simp add: loopback_hop_counts_def min_loopback_hops_def)
  from loopback_paths_found [where shuffled = shuffled and cfg = cfg and up = up and lt = lt and LF = LF and hs = "loopback_hop_counts E", OF assms(1-4)]
  obtain ps where
    ps: "loopback_paths shuffled cfg (simple_loopback_to_self E up lt LF me g) (loopback_hop_counts E) = Some ps"
    "list_all (looped E up g me [2, pe_max_hops E]) ps"
    unfolding counts by blast
  have "length (looping_probes (pe_max_hops E) me ps) = length ps \<and>
    list_all (\<lambda>(r, path_id). lr_destination r = me \<and>
      (\<exists>hops\<in>{2, pe_max_hops E}. loop_of E up g me hops (lr_intermediates r) path_id)) (looping_probes (pe_max_hops E) me ps)"
    using ps(2)
  proof (induction ps)
    case (Cons p ps)
    then obtain ms hops where p: "fst p = ms @ [me]" "loop_of E up g me hops ms (snd p)" "hops \<in> {2, pe_max_hops E}"
      by (auto simp: looped_def)
    then have "strip_loopback_endpoints (fst p) me = ms" by (simp add: strip_loop loop_of_def)
    moreover have "length ms \<le> pe_max_hops E"
      using p(2,3) assms(5) by (auto simp: loop_of_def min_loopback_hops_def)
    ultimately show ?case using Cons p
      by (auto simp: looping_probes_def List.map_filter_simps loopback_routing_def case_prod_unfold)
  qed (simp add: looping_probes_def List.map_filter_simps)
  with ps(1) show ?thesis by blast
qed

text \<open>The sample graph has one loop of two hops.\<close>

theorem loopback_probes_routable_witness:
  "\<exists>ps. loopback_paths (\<lambda>n. map fst) (prober_default sample_floats)
      (simple_loopback_to_self sample_paths (\<lambda>_. None) (<) (\<lambda>_. \<lparr>vf_initial = 0, vf_min = None, vf_cost = (\<lambda>c w i. c + w)\<rparr>) 3 sample_graph)
      (loopback_hop_counts sample_paths) = Some ps \<and>
    length (looping_probes (pe_max_hops sample_paths) 3 ps) = length ps"
proof -
  let ?LF = "\<lambda>_. \<lparr>vf_initial = 0, vf_min = None, vf_cost = (\<lambda>c w i. c + w)\<rparr> :: (nat, nat) value_fn"
  have sh: "mset (pe_shuffle sample_paths k es) = mset es" for k es by (simp add: sample_paths_def)
  have me: "3 \<in> keys sample_graph" by (simp add: sample_graph_spec)
  have hops: "min_loopback_hops \<le> pe_max_hops sample_paths" by (simp add: sample_paths_def min_loopback_hops_def)
  from loopback_probes_routable [OF sample_graph_ok me sh _ hops, where shuffled = "\<lambda>n. map fst" and up = "\<lambda>_. None"
      and lt = "(<)" and LF = ?LF and cfg = "prober_default sample_floats"]
  show ?thesis by auto
qed

section \<open>Priorities\<close>

text \<open>Doubles that compute exactly: the reals.\<close>

definition exact :: "(real, 'e, 'r) floats \<Rightarrow> bool" where
  "exact F \<longleftrightarrow> fl_lit F = (\<lambda>n d. real n / real d) \<and> fl_add F = (+) \<and> fl_mul F = (*) \<and> fl_div F = (/) \<and>
     fl_min F = min \<and> fl_ge F = (\<ge>) \<and> fl_clamp F = (\<lambda>x l h. max l (min x h)) \<and>
     as_secs_f64 F = (\<lambda>d. real d / 10 ^ 9)"

text \<open>
  Bounds of the priority of a neighbour, in exact arithmetic: with an accepted configuration it
  is at least the base priority and at most the sum of the three weights, which is positive; it is
  this maximum for a peer that was never measured, and at least as high for a peer that is scored
  no better and was measured no later.
\<close>

theorem priority_bounds:
  assumes "exact F" and "validate_against_probe_timeout F timeout cfg = Inr ()"
    and "score' \<le> score" and "last' \<le> last_update" and "last_update = 0 \<longrightarrow> last' = 0"
  shows "pc_base cfg \<le> immediate_probe_priority F (-) cfg score last_update now \<and>
    immediate_probe_priority F (-) cfg score last_update now \<le> pc_staleness cfg + pc_quality cfg + pc_base cfg \<and>
    0 < pc_staleness cfg + pc_quality cfg + pc_base cfg \<and>
    immediate_probe_priority F (-) cfg 0 0 now = pc_staleness cfg + pc_quality cfg + pc_base cfg \<and>
    immediate_probe_priority F (-) cfg score last_update now \<le> immediate_probe_priority F (-) cfg score' last' now"
proof -
  have nn: "0 \<le> pc_staleness cfg" "0 \<le> pc_quality cfg" "0 < pc_staleness cfg + pc_quality cfg + pc_base cfg"
    using assms(1,2) by (auto simp: validate_against_probe_timeout_def validation_errors_def in_unit_def exact_def split: if_splits)
  define st where "st u = (if u = 0 then 300 else min (real (now - u) / 10 ^ 9) 300) / 300" for u :: nat
  define q where "q x = 1 - max 0 (min x (1 :: real))" for x
  have prio: "immediate_probe_priority F (-) cfg x u now = pc_staleness cfg * st u + pc_quality cfg * q x + pc_base cfg" for x u
    using assms(1) by (simp add: immediate_probe_priority_def Let_def exact_def max_staleness_secs_def st_def q_def)
  have st: "0 \<le> st u" "st u \<le> 1" for u by (simp_all add: st_def)
  have q: "0 \<le> q x" "q x \<le> 1" for x by (simp_all add: q_def)
  have "st last_update \<le> st last'"
    using assms(4,5) by (auto simp: st_def min_def divide_right_mono)
  moreover have "q score \<le> q score'" using assms(3) by (auto simp: q_def)
  ultimately show ?thesis
    unfolding prio using nn st [of last_update] q [of score]
    by (auto simp: st_def [of 0] q_def [of 0] intro!: add_mono mult_left_mono mult_left_le mult_nonneg_nonneg)
qed

definition real_floats :: "(real, nat, nat) floats" where
  "real_floats = \<lparr>fl_lit = (\<lambda>n d. real n / real d), fl_of_u64 = (\<lambda>n. real (unat n)), fl_add = (+), fl_mul = (*), fl_div = (/),
     fl_min = min, fl_max = max, fl_less = (<), fl_ge = (\<ge>), fl_powf = (\<lambda>x y. x), fl_clamp = (\<lambda>x l h. max l (min x h)),
     as_secs_f64 = (\<lambda>d. real d / 10 ^ 9), from_secs_f64 = (\<lambda>x. 0), ema_new = (\<lambda>_. 0), ema_update = (\<lambda>x a. a),
     ema_get = real, wr_new = (\<lambda>_ _ _. 0), wr_expected = (\<lambda>n _ r. r), wr_observed = (\<lambda>n _ r. r), wr_value = (\<lambda>r _. None),
     wr_recent_value = (\<lambda>r _ _. None), wr_window = (\<lambda>_. 24)\<rparr>"

theorem priority_bounds_witness:
  "immediate_probe_priority real_floats (-) (prober_default real_floats) (3 / 4) 5000000000 10000000000
    \<le> immediate_probe_priority real_floats (-) (prober_default real_floats) (1 / 4) 5000000000 10000000000"
proof -
  have "exact real_floats" by (simp add: exact_def real_floats_def)
  moreover have "validate_against_probe_timeout real_floats 0 (prober_default real_floats) = Inr ()"
    by (simp add: validate_against_probe_timeout_def validation_errors_def in_unit_def real_floats_def prober_default_def)
  ultimately show ?thesis
    using priority_bounds [of real_floats 0 "prober_default real_floats" "1 / 4" "3 / 4" 5000000000 5000000000 10000000000] by simp
qed

section \<open>Probing oneself\<close>

lemma probe_nodes_dests: "map pb_destination (fst (probe_nodes random n ks cache)) = ks"
proof (induction ks arbitrary: n cache)
  case (Cons k ks)
  show ?case
    using Cons [of "n + 1" "cache(k \<mapsto> unwrap_or (random n) (cache k))"]
    by (cases "probe_nodes random (n + 1) ks (cache(k \<mapsto> unwrap_or (random n) (cache k)))")
      (simp add: Let_def del: fun_upd_apply)
qed simp

lemma round_dests: "map pb_destination (fst (immediate_round random g cache)) = graph_nodes g"
  by (simp add: immediate_round_def probe_nodes_dests)

lemma new_graph_nodes: "graph_nodes (inner_new bytes me) = [me]"
  by (simp add: graph_nodes_def inner_new_def bi_insert_def)

text \<open>
  The immediate prober probes the node itself. A graph that knows nobody holds our own key: of
  it the full-network schedule makes no probe, but each round of the immediate prober is one probe
  to ourselves, and after any operations on the graph that keep our node every round has one.
\<close>

theorem prober_probes_itself:
  fixes cache :: "'k \<Rightarrow> nat option"
  shows "map pb_destination (fst (immediate_round random (inner_new bytes me) cache)) = [me] \<and>
    weighted_neighbors F sub cfg me now (inner_new bytes me) = [] \<and>
    {g :: ('k, 'o) inner_graph. me \<in> keys g} \<subseteq> {g. me \<in> pb_destination ` set (fst (immediate_round random g cache))}"
proof -
  have "me \<in> pb_destination ` set (fst (immediate_round random g cache))" if "me \<in> keys g" for g :: "('k, 'o) inner_graph"
    using that by (metis round_dests graph_nodes_def keys_def list.set_map)
  then show ?thesis
    by (auto simp: weighted_neighbors_def round_dests new_graph_nodes List.map_filter_simps)
qed

end
