(* ===== verification/Spec2Isabelle.thy ===== *)
theory Spec2Isabelle
  imports Ticket_Inspector Session_Server Discovery_Runs P2p_Network P2p_Listen Graph_Render
    Nonce_Sequencer Chain_Health Index_Coherence Ticket_Redemption Blockchain_Reader Connector_Start Chain_Feed
    Subscription_Task Probe_Schedule
begin

text \<open>
  A verification library for the implementation crates of a HOPR node.

  The program. A HOPR node relays packets for tickets. \<open>ticket-manager\<close> keeps the incoming
  tickets of every channel until they are redeemed on chain and hands out the indices of the
  outgoing ones. \<open>session-server-forwarder\<close> is the exit of a session: it decides who may open
  one, and bridges it to an allowed target. \<open>transport/p2p\<close> keeps the node connected to the
  announced peers. \<open>graph\<close> keeps what is known of the channels and finds paths through them.
  \<open>connector\<close> follows the chain and sends its transactions; \<open>ct\<close> schedules the probes that
  measure the graph.

  Theories and sources.
  \<^item> \<open>Hopr_Base\<close>: integer widths, the saturating 256 bit balance, results as sums.
    \<open>Rust_Text\<close>: the part of Rust's string library the crates use. \<open>Rust_Float\<close>: the rounding of
    its double precision arithmetic.
  \<^item> \<open>Ticket_Types\<close> (tickets and channels of \<open>hopr-api\<close>, by the fields that are read),
    \<open>Ticket_Queue\<close> and \<open>Ticket_Store\<close> (\<open>ticket-manager/src/traits.rs\<close> as records of operations,
    their contracts as the locales \<open>ticket_queue\<close>, \<open>ticket_store\<close>, \<open>index_store\<close>),
    \<open>Value_Cache\<close> (\<open>backend/mod.rs\<close>), \<open>Memory_Store\<close> (\<open>backend/memory.rs\<close>), \<open>Redb_Store\<close>
    (\<open>backend/redb.rs\<close>) and \<open>Backends\<close>, where both are compared.
  \<^item> \<open>Index_Tracker\<close> and \<open>Index_Race\<close> (\<open>utils.rs\<close>: the outgoing counters, sequentially and as
    interleaved atomic steps), \<open>Ticket_Factory\<close> (\<open>factory.rs\<close>).
  \<^item> \<open>Ticket_Manager\<close> (\<open>manager.rs\<close>, each operation; a redemption stream is cut at its await),
    \<open>Ticket_Entries\<close> (what an operation does to one entry), \<open>Ticket_System\<close> (the manager with
    its live streams and its invariant), \<open>Ticket_Runs\<close> (runs of all interleavings),
    \<open>Ticket_Node\<close> (\<open>chain_sync.rs\<close>), \<open>Ticket_Inspector\<close> (\<open>bin/ticket_inspector.rs\<close>).
  \<^item> \<open>Target_Pattern\<close> (\<open>session-server-forwarder/src/target_pattern.rs\<close>), \<open>Session_Admission\<close>
    (\<open>config.rs\<close>, \<open>allow_list.rs\<close>, \<open>lib.rs\<close>), \<open>Session_Server\<close> (the properties).
  \<^item> \<open>P2p_Discovery\<close> and \<open>Discovery_Runs\<close> (\<open>transport/p2p/src/behavior/discovery.rs\<close>),
    \<open>P2p_Network\<close> (\<open>peer_store.rs\<close>, \<open>liveness.rs\<close>, the events of \<open>swarm.rs\<close>, \<open>lib.rs\<close>, \<open>utils.rs\<close>),
    \<open>P2p_Listen\<close> (the construction in \<open>swarm.rs\<close>: limits, listening, external addresses;
    \<open>behavior/mod.rs\<close>).
  \<^item> \<open>Path_Search\<close> and \<open>Path_Correct\<close> (\<open>graph/src/petgraph/algorithm.rs\<close>), \<open>Channel_Graph\<close> and
    \<open>Graph_Store\<close> (\<open>petgraph/graph.rs\<close>, the store and its contract \<open>network_graph\<close>),
    \<open>Graph_Paths\<close> (\<open>petgraph/traverse.rs\<close>, \<open>petgraph/mod.rs\<close>), \<open>Edge_Weight\<close> (\<open>weight.rs\<close>: what
    is observed of an edge, over abstract floats), \<open>Edge_Attribution\<close> (\<open>petgraph/update.rs\<close>),
    \<open>Graph_Render\<close> (\<open>render.rs\<close>: the graph as DOT text, and reading it back).
  \<^item> \<open>Connector_Errors\<close> (\<open>connector/src/errors.rs\<close>), \<open>Nonce_Sequencer\<close>
    (\<open>connector/sequencer.rs\<close>: the task with its nonces, gaps and issued ids), \<open>Chain_Health\<close>
    (\<open>connector/mod.rs\<close>: \<open>connect\<close>, subscription tasks and drop as interleaved atomic accesses,
    and the synchronisation quota).
  \<^item> \<open>Chain_Backend\<close> (\<open>backend/\<close>: both backends and the contract \<open>account_index\<close> of their
    lookups), \<open>Chain_Index\<close> (the handlers of \<open>connector/mod.rs\<close>, \<open>keys.rs\<close>, \<open>channels.rs\<close>,
    \<open>accounts.rs\<close>: graph and caches over any backend), \<open>Index_Coherence\<close> (its runs, over the
    contract \<open>chain_backend\<close>), \<open>Chain_Feed\<close> (the account and graph subscriptions from the items
    of Blokli to the index, over the contract \<open>typed_backend\<close>), \<open>Subscription_Task\<close> (the loop of the
    subscription task over its merged feeds and health checks).
  \<^item> \<open>Chain_Models\<close> (\<open>utils.rs\<close>: from client models to the node's types), \<open>Chain_Events\<close>
    (\<open>services.rs\<close>, \<open>events.rs\<close>, \<open>values.rs\<close> and the event loop of \<open>mod.rs\<close>), \<open>Chain_Actions\<close>
    (every transaction: \<open>send_tx\<close> and the write operations of \<open>channels.rs\<close>, \<open>accounts.rs\<close>,
    \<open>safe.rs\<close>, \<open>services.rs\<close>), \<open>Ticket_Redemption\<close> (\<open>tickets.rs\<close> composed with the ticket
    manager), \<open>Blockchain_Reader\<close> (\<open>reader.rs\<close>), \<open>Connector_Start\<close> (configuration, construction,
    the thresholds and the sequential run of \<open>connect\<close> in \<open>connector/mod.rs\<close>, and \<open>lib.rs\<close>).
  \<^item> \<open>Probe_Schedule\<close> (\<open>ct/full-network\<close> and \<open>ct/immediate\<close> over the channel graph).

  Conventions. An operation takes its state last and returns its result paired with the new
  state; a fallible one returns a sum with the error on the left. A loop over a provider that
  need not end is a \<open>partial_function (option)\<close>, and the properties show that it returns. Code
  of other crates is an argument: the store engine and the serializer, the chain client, the
  name resolver, the order of tickets and of iterations over hash maps, the clock. Types that
  such code defines are type variables. What an argument has to satisfy is a hypothesis or
  the assumption of a locale, and every locale is interpreted on the definitions of the
  model. Counters keep their width; a property that needs the absence of wrap-around says so.
  Balances saturate at \<open>max_supply\<close>, and the value properties assume totals below it, which is
  far above the token's supply. Equal tickets in a binary heap leave it in any order in the
  code and in order of insertion here.

  What the lemmas show. For each storage backend the contract of the interface; for the
  manager, that an action of any caller keeps the invariant and the value of each channel,
  hence that in every run no value is lost or counted twice, tickets are redeemed in order and
  streams exclude each other. For the counters, that concurrent callers get distinct indices
  and a restart resumes above them, and the races in which they do not. For the session
  server, that the parser and the printer of patterns agree, that admission is the first
  matching rule whatever the spelling, and that only allowed targets are bridged. For the
  peer-to-peer layer, that each disconnected peer has exactly one dial queued or in flight, to
  announced addresses, and that streams and the tracker follow the connections, and that a
  node advertises exactly what it can listen on. For the path
  search, that it ends with exactly the simple paths asked for, each once. For the graph,
  that the store refines a set of keys with a map of links, that path identifiers resolve to the
  edges they name or to nothing, that a loopback report changes one edge only, and that the
  rendering says what the graph holds. For the
  connector, that nonces neither run ahead of the chain nor stay ahead, that the reported health
  is that of a live connection, that both backends answer alike and no cache changes an answer,
  that events let a consumer rebuild what they report, that accepted chain values are in bounds,
  that whatever Blokli sends the index hands out validated keys and channels of their own id
  only, that the subscription task
  loses nothing in any order of polls, that \<open>connect\<close> succeeds exactly when it should and reports why when it does not,
  and that a redemption loses a ticket only for a permanent reason. For the probes, that every
  eligible peer is probed and every drawn loop can be routed. Where the code departs from its
  documentation or purpose, a theorem shows a run in which it does.

  Bounds. No fuel is used: loops whose end is a property are partial functions with a proof that
  they return, all others end by a measure on their arguments; runs of streams and tasks are
  finite lists of events of any length. A 32 or 64 bit product or sum that panics when it
  overflows is \<open>None\<close>.

  Not modelled. Logging, telemetry and wall-clock scheduling inside runtimes; the transports and
  the event loop of the \<open>libp2p\<close> swarm, sockets, and the chain client itself; the transfer of bytes on an
  open bridge; payload construction and signing, which other crates do; benchmarks and test
  fixtures.
\<close>

end
